(* ===== verification/Go_Prelude.thy ===== *)
theory Go_Prelude
  imports Main "HOL-Library.Monad_Syntax"
begin

text \<open>
  Shared vocabulary of the development.  It holds the bounds-checked reads, writes and
  re-slicings of Go slices (a Go run-time panic is the value \<open>None\<close>), the counting of
  quorum members and the lemmas on lists and options that the component theories share.
\<close>

section \<open>Slices\<close>

text \<open>
  Go's \<open>xs[i]\<close>, \<open>xs[i] = v\<close>, \<open>xs[i:]\<close> and \<open>xs[:i]\<close> on a slice whose length is
  its capacity.  Indices are Go \<open>int\<close>s, so they may be negative; an index out of range
  is a run-time panic.
\<close>

definition len :: "'a list \<Rightarrow> int" where
  "len xs = int (length xs)"

definition slice_get :: "'a list \<Rightarrow> int \<Rightarrow> 'a option" where
  "slice_get xs i = (if 0 \<le> i \<and> i < len xs then Some (xs ! nat i) else None)"

definition slice_set :: "'a list \<Rightarrow> int \<Rightarrow> 'a \<Rightarrow> 'a list option" where
  "slice_set xs i v = (if 0 \<le> i \<and> i < len xs then Some (xs[nat i := v]) else None)"

definition slice_from :: "'a list \<Rightarrow> int \<Rightarrow> 'a list option" where
  "slice_from xs i = (if 0 \<le> i \<and> i \<le> len xs then Some (drop (nat i) xs) else None)"

definition slice_to :: "'a list \<Rightarrow> int \<Rightarrow> 'a list option" where
  "slice_to xs i = (if 0 \<le> i \<and> i \<le> len xs then Some (take (nat i) xs) else None)"

named_theorems slice_defs \<open>definitions of the slice operations\<close>

lemmas [slice_defs] = len_def slice_get_def slice_set_def slice_from_def slice_to_def

lemma len_nonneg [simp]: "0 \<le> len xs"
  by (simp add: len_def)

lemma len_simps [simp]:
  "len [] = 0" "len (x # xs) = 1 + len xs" "len (xs @ ys) = len xs + len ys"
  "len (xs[i := v]) = len xs" "len (map f xs) = len xs" "len (replicate n x) = int n"
  by (simp_all add: len_def)

lemma slice_get_Some_iff: "slice_get xs i = Some x \<longleftrightarrow> 0 \<le> i \<and> i < len xs \<and> xs ! nat i = x"
  by (auto simp: slice_get_def)

lemma slice_get_in_set: "slice_get xs i = Some x \<Longrightarrow> x \<in> set xs"
  by (auto simp: slice_get_def len_def split: if_splits)

lemma slice_get_last: "xs \<noteq> [] \<Longrightarrow> slice_get xs (len xs - 1) = Some (last xs)"
proof -
  assume ne: "xs \<noteq> []"
  then have "nat (len xs - 1) = length xs - 1" and "1 \<le> length xs"
    by (auto simp: len_def Suc_leI)
  with ne show ?thesis
    by (simp add: slice_get_def last_conv_nth len_def)
qed

lemma slice_set_length: "slice_set xs i v = Some ys \<Longrightarrow> length ys = length xs"
  by (auto simp: slice_set_def split: if_splits)

lemma slice_set_get:
  "slice_set xs i v = Some ys \<Longrightarrow> slice_get ys j = (if j = i then Some v else slice_get xs j)"
  by (auto simp: slice_set_def slice_get_def len_def nth_list_update split: if_splits)

section \<open>Counting a quorum\<close>

text \<open>Two sets of peers that are both larger than half of the peers share a peer.\<close>

lemma majorities_intersect:
  assumes "S \<subseteq> {..<n}" and "T \<subseteq> {..<n}" and "n div 2 < card S" and "n div 2 < card T"
  shows "S \<inter> T \<noteq> {}"
proof
  assume disj: "S \<inter> T = {}"
  have fin: "finite S" "finite T"
    using assms(1,2) finite_subset by blast+
  have "card (S \<union> T) = card S + card T"
    using fin disj by (simp add: card_Un_disjoint)
  moreover have "card (S \<union> T) \<le> card {..<n}"
    using assms(1,2) by (intro card_mono) auto
  ultimately have "card S + card T \<le> n" by simp
  with assms(3,4) show False by linarith
qed

section \<open>Lists and options\<close>

lemma drop_tl_nth: "i < length xs \<Longrightarrow> drop i xs = xs ! i # drop (Suc i) xs"
  by (simp add: Cons_nth_drop_Suc)

lemma bind_Some_iff:
  "Option.bind m f = Some y \<longleftrightarrow> (\<exists>x. m = Some x \<and> f x = Some y)"
  by (cases m) auto

lemma bind_not_None_iff:
  "Option.bind m f \<noteq> None \<longleftrightarrow> (\<exists>x. m = Some x \<and> f x \<noteq> None)"
  by (cases m) auto

section \<open>Outcomes\<close>

text \<open>An operation that blocks, panics, or is done.\<close>

datatype 'a outcome = Blocks | Panics | Done 'a

fun isDone :: "'a outcome \<Rightarrow> bool" where
  "isDone (Done _) = True"
| "isDone _ = False"

fun result :: "'a outcome \<Rightarrow> 'a" where
  "result (Done x) = x"

lemma isDone_result: "isDone x \<Longrightarrow> x = Done (result x)"
  by (cases x) auto

end
