(* ===== verification/Gob_Codec.thy ===== *)
theory Gob_Codec
  imports Go_Prelude
begin

text \<open>
  The interface that \<^verbatim>\<open>encoding/gob\<close> offers to Raft and to the key/value server: values are
  appended to a buffer one after the other and read back in the same order from its front.
  A buffer is a list of tokens, one token per encoded value; a decoder takes one value off
  the front of the buffer and fails (Go: a non-nil \<^verbatim>\<open>error\<close>) when the buffer is empty or
  its front holds a value of another type.  Byte lengths are not part of this view.
\<close>

locale codec =
  fixes enc :: "'a \<Rightarrow> 't list"
    and dec :: "'t list \<Rightarrow> ('a \<times> 't list) option"
  assumes dec_enc: "dec (enc x @ rest) = Some (x, rest)"
    and dec_Nil: "dec [] = None"
begin

lemma dec_enc_exact: "dec (enc x) = Some (x, [])"
  using dec_enc [of x "[]"] by simp

lemma enc_inj: "enc x = enc y \<Longrightarrow> x = y"
  by (metis dec_enc_exact option.inject prod.inject)

lemma enc_not_Nil: "enc x \<noteq> []"
  by (metis dec_enc_exact dec_Nil option.distinct(1))

end

text \<open>Two values written one after the other are read back one after the other.\<close>

definition enc_pair :: "('a \<Rightarrow> 't list) \<Rightarrow> ('b \<Rightarrow> 't list) \<Rightarrow> 'a \<times> 'b \<Rightarrow> 't list" where
  "enc_pair ea eb p = ea (fst p) @ eb (snd p)"

definition dec_pair ::
    "('t list \<Rightarrow> ('a \<times> 't list) option) \<Rightarrow> ('t list \<Rightarrow> ('b \<times> 't list) option) \<Rightarrow>
     't list \<Rightarrow> (('a \<times> 'b) \<times> 't list) option" where
  "dec_pair da db ts = do { (a, ts1) \<leftarrow> da ts; (b, ts2) \<leftarrow> db ts1; Some ((a, b), ts2) }"

locale codec_pair = fst_codec: codec ea da + snd_codec: codec eb db
  for ea :: "'a \<Rightarrow> 't list" and da and eb :: "'b \<Rightarrow> 't list" and db
begin

sublocale both: codec "enc_pair ea eb" "dec_pair da db"
proof
  show "dec_pair da db (enc_pair ea eb x @ rest) = Some (x, rest)" for x rest
    by (cases x) (simp add: enc_pair_def dec_pair_def fst_codec.dec_enc snd_codec.dec_enc)
  show "dec_pair da db [] = None"
    by (simp add: dec_pair_def fst_codec.dec_Nil)
qed

end

end
