(* ===== verification/Raft_State.thy ===== *)
theory Raft_State
  imports Gob_Codec
begin

text \<open>
  The data of one Raft peer (\<^verbatim>\<open>raft/raft.go\<close>, \<^verbatim>\<open>raft/persister.go\<close>, \<^verbatim>\<open>raft/util.go\<close>): its state,
  the stable storage, the RPC argument and reply structures, and the operations that a
  service calls on it.  Everything a critical section does besides changing the peer's
  fields (channel sends, goroutines it starts) is returned as a list of effects, in the
  order the code performs them.
\<close>

section \<open>Data\<close>

text \<open>A command is an \<^verbatim>\<open>interface{}\<close>: \<open>None\<close> is \<^verbatim>\<open>nil\<close>.\<close>

record 'c LogEntry =
  GlobalIndex :: int
  Term :: int
  Command :: "'c option"

record ('c, 's) ApplyMsg =
  amCommandIndex :: int
  amCommand :: "'c option"
  CommandValid :: bool
  SnapShot :: "'s list"

datatype role = FOLLOWER | CANDIDATE | LEADER

text \<open>The tokens of the buffer that \<open>encodeState\<close> writes.\<close>

datatype 'c gobval = GobInt int | GobLogs "'c LogEntry list"

record ('c, 's) Persister =
  raftstate :: "'c gobval list"
  snapshot :: "'s list"

record ('c, 's) Raft =
  npeers :: nat
  persister :: "('c, 's) Persister"
  me :: int
  CurrentTerm :: int
  VotedFor :: int
  Logs :: "'c LogEntry list"
  SnapshotIndex :: int
  commitIndex :: int
  lastApplied :: int
  nextIndex :: "int list"
  matchIndex :: "int list"
  rstate :: role
  voteCount :: int

record RequestVoteArgs =
  rvTerm :: int
  CandidateID :: int
  LastLogIndex :: int
  LastLogTerm :: int

record RequestVoteReply =
  rvrTerm :: int
  VoteGranted :: bool

record 'c AppendEntriesArgs =
  aeTerm :: int
  aeLeaderID :: int
  PrevLogIndex :: int
  PrevLogTerm :: int
  Entries :: "'c LogEntry list"
  LeaderCommit :: int

record AppendEntriesReply =
  aerTerm :: int
  Success :: bool
  ConflictIndex :: int

record 's InstallSnapshotArgs =
  isTerm :: int
  isLeaderID :: int
  LastIncludedIndex :: int
  LastIncludedTerm :: int
  isSnapshot :: "'s list"

record InstallSnapshotReply =
  isrTerm :: int

text \<open>
  What a critical section does to its surroundings: a send on \<^verbatim>\<open>resetTimerCh\<close>, on
  \<^verbatim>\<open>commitCh\<close> or on \<^verbatim>\<open>applyCh\<close>, or the start of a goroutine.
\<close>

datatype ('c, 's) effect =
    ResetTimer
  | CommitSignal
  | Apply "('c, 's) ApplyMsg"
  | GoSyncUpDaemon
  | GoCheckConsistency int
  | GoBackupOverIncorrectFollowerLogs int
  | GoFastBroadCastNewCommand
  | GoSendRequestVoteAndProcess RequestVoteArgs int
  | GoSendAppendEntriesAndProcess "'c AppendEntriesArgs" int
  | GoSendSnapShotAndProcess "'s InstallSnapshotArgs" int

section \<open>Utilities\<close>

definition min_go :: "int \<Rightarrow> int \<Rightarrow> int" where
  "min_go a b = (if a < b then a else b)"

definition max_go :: "int \<Rightarrow> int \<Rightarrow> int" where
  "max_go a b = (if a > b then a else b)"

lemma min_go_eq [simp]: "min_go a b = min a b"
  by (simp add: min_go_def min_def)

lemma max_go_eq [simp]: "max_go a b = max a b"
  by (simp add: max_go_def max_def)

section \<open>Stable storage\<close>

definition MakePersister :: "('c, 's) Persister" where
  "MakePersister = \<lparr>raftstate = [], snapshot = []\<rparr>"

definition CopyPersister :: "('c, 's) Persister \<Rightarrow> ('c, 's) Persister" where
  "CopyPersister ps = MakePersister\<lparr>raftstate := raftstate ps, snapshot := snapshot ps\<rparr>"

definition SaveRaftState :: "('c, 's) Persister \<Rightarrow> 'c gobval list \<Rightarrow> ('c, 's) Persister" where
  "SaveRaftState ps st = ps\<lparr>raftstate := st\<rparr>"

definition ReadRaftState :: "('c, 's) Persister \<Rightarrow> 'c gobval list" where
  "ReadRaftState ps = raftstate ps"

definition SaveStateAndSnapshot ::
    "('c, 's) Persister \<Rightarrow> 'c gobval list \<Rightarrow> 's list \<Rightarrow> ('c, 's) Persister" where
  "SaveStateAndSnapshot ps st snap = ps\<lparr>raftstate := st, snapshot := snap\<rparr>"

definition ReadSnapshot :: "('c, 's) Persister \<Rightarrow> 's list" where
  "ReadSnapshot ps = snapshot ps"

named_theorems persister_defs \<open>the operations of the persister\<close>

lemmas [persister_defs] = MakePersister_def CopyPersister_def SaveRaftState_def
  ReadRaftState_def SaveStateAndSnapshot_def ReadSnapshot_def

lemma CopyPersister_id [simp]: "CopyPersister ps = ps"
  by (simp add: persister_defs)

lemma SaveStateAndSnapshot_eq:
  "SaveStateAndSnapshot ps st snap = \<lparr>raftstate = st, snapshot = snap\<rparr>"
  by (cases ps) (simp add: SaveStateAndSnapshot_def)

section \<open>Encoding the persistent fields\<close>

definition enc_int :: "int \<Rightarrow> 'c gobval list" where
  "enc_int i = [GobInt i]"

fun dec_int :: "'c gobval list \<Rightarrow> (int \<times> 'c gobval list) option" where
  "dec_int (GobInt i # ts) = Some (i, ts)"
| "dec_int _ = None"

definition enc_logs :: "'c LogEntry list \<Rightarrow> 'c gobval list" where
  "enc_logs ls = [GobLogs ls]"

fun dec_logs :: "'c gobval list \<Rightarrow> ('c LogEntry list \<times> 'c gobval list) option" where
  "dec_logs (GobLogs ls # ts) = Some (ls, ts)"
| "dec_logs _ = None"

interpretation int_codec: codec enc_int dec_int
  by unfold_locales (simp_all add: enc_int_def)

interpretation logs_codec: codec enc_logs dec_logs
  by unfold_locales (simp_all add: enc_logs_def)

definition encodeState :: "('c, 's) Raft \<Rightarrow> 'c gobval list" where
  "encodeState rf = enc_int (CurrentTerm rf) @ enc_int (VotedFor rf) @
     enc_int (SnapshotIndex rf) @ enc_logs (Logs rf)"

definition decodeState :: "('c, 's) Raft \<Rightarrow> 'c gobval list \<Rightarrow> ('c, 's) Raft" where
  "decodeState rf data =
     (if data = [] then rf
      else case do { (currentTerm, d1) \<leftarrow> dec_int data;
                     (votedFor, d2) \<leftarrow> dec_int d1;
                     (snapShotIndex, d3) \<leftarrow> dec_int d2;
                     (logs, d4) \<leftarrow> dec_logs d3;
                     Some (currentTerm, votedFor, snapShotIndex, logs) } of
        None \<Rightarrow> rf
      | Some (currentTerm, votedFor, snapShotIndex, logs) \<Rightarrow>
          rf\<lparr>CurrentTerm := currentTerm, VotedFor := votedFor,
             SnapshotIndex := snapShotIndex, Logs := logs\<rparr>)"

definition persistState :: "('c, 's) Raft \<Rightarrow> ('c, 's) Raft" where
  "persistState rf = rf\<lparr>persister := SaveRaftState (persister rf) (encodeState rf)\<rparr>"

definition dePersistState :: "('c, 's) Raft \<Rightarrow> ('c, 's) Raft" where
  "dePersistState rf = decodeState rf (ReadRaftState (persister rf))"

lemma decode_encodeState:
  "decodeState rf (encodeState rf') =
     rf\<lparr>CurrentTerm := CurrentTerm rf', VotedFor := VotedFor rf',
        SnapshotIndex := SnapshotIndex rf', Logs := Logs rf'\<rparr>"
  by (simp add: decodeState_def encodeState_def int_codec.enc_not_Nil int_codec.dec_enc
      logs_codec.dec_enc_exact)

section \<open>Operations of a peer\<close>

definition logIdxLocal2Global :: "('c, 's) Raft \<Rightarrow> int \<Rightarrow> int" where
  "logIdxLocal2Global rf localIdx = localIdx + SnapshotIndex rf"

definition logIdxGlobal2Local :: "('c, 's) Raft \<Rightarrow> int \<Rightarrow> int" where
  "logIdxGlobal2Local rf globalIdx = globalIdx - SnapshotIndex rf"

definition goBackToFollower :: "('c, 's) Raft \<Rightarrow> ('c, 's) Raft" where
  "goBackToFollower rf = rf\<lparr>rstate := FOLLOWER, voteCount := 0\<rparr>"

definition GetState :: "('c, 's) Raft \<Rightarrow> int \<times> bool" where
  "GetState rf = (CurrentTerm rf, rstate rf = LEADER)"

definition Kill :: "('c, 's) Raft \<Rightarrow> ('c, 's) Raft" where
  "Kill rf = rf\<lparr>rstate := FOLLOWER\<rparr>"

definition notifyAppUseNewSnapShot :: "'s list \<Rightarrow> ('c, 's) effect list" where
  "notifyAppUseNewSnapShot snap =
     (if snap = [] then []
      else [Apply \<lparr>amCommandIndex = 0, amCommand = None, CommandValid = False, SnapShot = snap\<rparr>])"

definition Make :: "nat \<Rightarrow> int \<Rightarrow> ('c, 's) Persister \<Rightarrow> ('c, 's) Raft \<times> ('c, 's) effect list" where
  "Make n i ps =
     (let rf = \<lparr>npeers = n, persister = ps, me = i, CurrentTerm = 0, VotedFor = -1,
                Logs = [\<lparr>GlobalIndex = 0, Term = 0, Command = None\<rparr>], SnapshotIndex = 0,
                commitIndex = 0, lastApplied = 0, nextIndex = replicate n 1,
                matchIndex = replicate n 0, rstate = FOLLOWER, voteCount = 0\<rparr>;
          rf = dePersistState rf
      in (rf, notifyAppUseNewSnapShot (ReadSnapshot (persister rf))))"

definition Start ::
    "('c, 's) Raft \<Rightarrow> 'c option \<Rightarrow>
     (('c, 's) Raft \<times> (int \<times> int \<times> bool) \<times> ('c, 's) effect list) option" where
  "Start rf command =
     (if rstate rf = LEADER then do {
        let log = \<lparr>GlobalIndex = SnapshotIndex rf + len (Logs rf), Term = CurrentTerm rf,
                   Command = command\<rparr>;
        let rf = rf\<lparr>Logs := Logs rf @ [log]\<rparr>;
        let index = logIdxLocal2Global rf (len (Logs rf) - 1);
        let term = CurrentTerm rf;
        ni \<leftarrow> slice_set (nextIndex rf) (me rf) (index + 1);
        mi \<leftarrow> slice_set (matchIndex rf) (me rf) index;
        let rf = rf\<lparr>nextIndex := ni, matchIndex := mi\<rparr>;
        Some (persistState rf, (index, term, True), [GoFastBroadCastNewCommand])
      } else Some (rf, (-1, -1, False), []))"

definition Compact :: "('c, 's) Raft \<Rightarrow> int \<Rightarrow> 's list \<Rightarrow> ('c, 's) Raft option" where
  "Compact rf cmdIndex snap =
     (if cmdIndex \<le> SnapshotIndex rf then Some rf
      else let localLastIncludeIndex = logIdxGlobal2Local rf cmdIndex in
        if localLastIncludeIndex \<ge> len (Logs rf) then Some rf
        else do {
          let size = 1 + max_go 0 (len (Logs rf) - 1 - localLastIncludeIndex);
          e \<leftarrow> slice_get (Logs rf) localLastIncludeIndex;
          let hdr = \<lparr>GlobalIndex = cmdIndex, Term = Term e, Command = None\<rparr>;
          rest \<leftarrow> (if size > 1 then slice_from (Logs rf) (localLastIncludeIndex + 1) else Some []);
          let rf = rf\<lparr>Logs := hdr # rest, SnapshotIndex := cmdIndex\<rparr>;
          let raftState = encodeState rf;
          Some (rf\<lparr>persister := SaveStateAndSnapshot (persister rf) raftState snap\<rparr>)
        })"

end
