(* ===== verification/Raft_RPC.thy ===== *)
theory Raft_RPC
  imports Raft_State
begin

text \<open>
  The three RPC handlers of a peer: \<^verbatim>\<open>RequestVote\<close> (\<^verbatim>\<open>raft/requestvote_rpc.go\<close>),
  \<^verbatim>\<open>AppendEntries\<close> (\<^verbatim>\<open>raft/appendentries_rpc.go\<close>) and \<^verbatim>\<open>InstallSnapShot\<close>
  (\<^verbatim>\<open>raft/installsnapshot_rpc.go\<close>).  A handler runs under the peer's mutex, so it is one
  function from the peer's state to its new state, the reply and the effects.  The result
  \<open>None\<close> is an index-out-of-range panic.
\<close>

section \<open>RequestVote\<close>

definition moreUpToDate :: "RequestVoteArgs \<Rightarrow> int \<Rightarrow> int \<Rightarrow> bool" where
  "moreUpToDate args localLastLogTerm localLastLogIndex \<longleftrightarrow>
     LastLogTerm args > localLastLogTerm \<or>
     LastLogTerm args = localLastLogTerm \<and> LastLogIndex args \<ge> localLastLogIndex"

definition RequestVote ::
    "('c, 's) Raft \<Rightarrow> RequestVoteArgs \<Rightarrow>
     (('c, 's) Raft \<times> RequestVoteReply \<times> ('c, 's) effect list) option" where
  "RequestVote rf args =
     (if rvTerm args < CurrentTerm rf
      then Some (rf, \<lparr>rvrTerm = CurrentTerm rf, VoteGranted = False\<rparr>, [])
      else do {
        let (rf, change) =
          (if rvTerm args > CurrentTerm rf
           then (goBackToFollower (rf\<lparr>CurrentTerm := rvTerm args, VotedFor := -1\<rparr>), True)
           else (rf, False));
        (rf, granted, change, effs) \<leftarrow>
          (if VotedFor rf = -1 \<or> VotedFor rf = CandidateID args then do {
             let idx = len (Logs rf) - 1;
             e \<leftarrow> slice_get (Logs rf) idx;
             let localLastLogIndex = logIdxLocal2Global rf idx;
             Some (if moreUpToDate args (Term e) localLastLogIndex
                   then (if VotedFor rf = -1
                         then (rf\<lparr>VotedFor := CandidateID args\<rparr>, True, True, [ResetTimer])
                         else (rf, True, change, [ResetTimer]))
                   else (rf, False, change, []))
           } else Some (rf, False, change, []));
        Some (if change then persistState rf else rf,
              \<lparr>rvrTerm = rvTerm args, VoteGranted = granted\<rparr>, effs)
      })"

section \<open>AppendEntries\<close>

text \<open>
  The common start of \<^verbatim>\<open>AppendEntries\<close> and \<^verbatim>\<open>InstallSnapShot\<close> once the sender's term is not
  stale: a larger term is adopted, a candidate that lost the election steps back.
\<close>

definition adoptTerm :: "('c, 's) Raft \<Rightarrow> int \<Rightarrow> ('c, 's) Raft \<times> bool" where
  "adoptTerm rf t =
     (if CurrentTerm rf < t
      then (goBackToFollower (rf\<lparr>CurrentTerm := t, VotedFor := -1\<rparr>), True)
      else if rstate rf \<noteq> FOLLOWER then (rf\<lparr>rstate := FOLLOWER\<rparr>, False)
      else (rf, False))"

text \<open>The backward loop that finds the first entry of the conflicting term.\<close>

fun conflictHead :: "'c LogEntry list \<Rightarrow> int \<Rightarrow> nat \<Rightarrow> nat" where
  "conflictHead ls t 0 = 0"
| "conflictHead ls t (Suc i) = (if Term (ls ! i) \<noteq> t then Suc i else conflictHead ls t i)"

text \<open>The forward loop that skips the entries the follower already has.\<close>

function matchEntries ::
    "'c LogEntry list \<Rightarrow> 'c LogEntry list \<Rightarrow> nat \<Rightarrow> nat \<Rightarrow> nat \<times> nat" where
  "matchEntries ls es i j =
     (if i < length ls \<and> j < length es \<and> Term (ls ! i) = Term (es ! j)
      then matchEntries ls es (Suc i) (Suc j) else (i, j))"
  by pat_completeness auto
termination
  by (relation "measure (\<lambda>(ls, es, i, j). length es - j)") auto

declare matchEntries.simps [simp del]

text \<open>The success branch: merge the leader's entries, then follow its commit index.\<close>

definition mergeEntries ::
    "('c, 's) Raft \<Rightarrow> 'c AppendEntriesArgs \<Rightarrow> (('c, 's) Raft \<times> bool) option" where
  "mergeEntries rf args =
     (let (i, j) = matchEntries (Logs rf) (Entries args)
                     (nat (logIdxGlobal2Local rf (PrevLogIndex args) + 1)) 0
      in if j < length (Entries args) then do {
           keep \<leftarrow> slice_to (Logs rf) (int i);
           new \<leftarrow> slice_from (Entries args) (int j);
           Some (rf\<lparr>Logs := keep @ new\<rparr>, True)
         } else Some (rf, False))"

definition followCommit ::
    "('c, 's) Raft \<Rightarrow> int \<Rightarrow> ('c, 's) Raft \<times> ('c, 's) effect list" where
  "followCommit rf leaderCommit =
     (if leaderCommit > commitIndex rf
      then (rf\<lparr>commitIndex :=
                min_go leaderCommit (logIdxLocal2Global rf (len (Logs rf) - 1))\<rparr>,
            [CommitSignal])
      else (rf, []))"

definition AppendEntries ::
    "('c, 's) Raft \<Rightarrow> 'c AppendEntriesArgs \<Rightarrow>
     (('c, 's) Raft \<times> AppendEntriesReply \<times> ('c, 's) effect list) option" where
  "AppendEntries rf args =
     (if aeTerm args < CurrentTerm rf
      then Some (rf, \<lparr>aerTerm = CurrentTerm rf, Success = False, ConflictIndex = 0\<rparr>, [])
      else do {
        let (rf, change) = adoptTerm rf (aeTerm args);
        let localLastIdx = len (Logs rf) - 1;
        let localPrevIdx = logIdxGlobal2Local rf (PrevLogIndex args);
        (rf, success, conflict, change, effs) \<leftarrow>
          (if PrevLogIndex args < SnapshotIndex rf
           then Some (rf, False, logIdxLocal2Global rf localLastIdx + 1, change, [])
           else if localPrevIdx > localLastIdx
           then Some (rf, False, logIdxLocal2Global rf localLastIdx + 1, change, [])
           else do {
             e \<leftarrow> slice_get (Logs rf) localPrevIdx;
             if Term e \<noteq> PrevLogTerm args
             then Some (rf, False,
                    logIdxLocal2Global rf
                      (int (conflictHead (Logs rf) (Term e) (nat localPrevIdx))), change, [])
             else do {
               (rf, grown) \<leftarrow> mergeEntries rf args;
               let (rf, effs) = followCommit rf (LeaderCommit args);
               Some (rf, True, 0, change \<or> grown, effs)
             }
           });
        Some (if change then persistState rf else rf,
              \<lparr>aerTerm = aeTerm args, Success = success, ConflictIndex = conflict\<rparr>,
              ResetTimer # effs)
      })"

section \<open>InstallSnapShot\<close>

text \<open>
  The message for the service is sent on \<^verbatim>\<open>applyCh\<close> after the mutex is released; it is the
  last effect.
\<close>

definition InstallSnapShot ::
    "('c, 's) Raft \<Rightarrow> 's InstallSnapshotArgs \<Rightarrow>
     (('c, 's) Raft \<times> InstallSnapshotReply \<times> ('c, 's) effect list) option" where
  "InstallSnapShot rf args =
     (if isTerm args < CurrentTerm rf then Some (rf, \<lparr>isrTerm = CurrentTerm rf\<rparr>, [])
      else do {
        let (rf, change) = adoptTerm rf (isTerm args);
        let reply = \<lparr>isrTerm = isTerm args\<rparr>;
        if LastIncludedIndex args \<le> SnapshotIndex rf \<or> LastIncludedIndex args \<le> commitIndex rf
        then Some (if change then persistState rf else rf, reply, [ResetTimer])
        else do {
          let localLast = logIdxGlobal2Local rf (LastIncludedIndex args);
          size \<leftarrow> (if localLast < len (Logs rf) then do {
                     e \<leftarrow> slice_get (Logs rf) localLast;
                     Some (if Term e = LastIncludedTerm args then len (Logs rf) - localLast else 1)
                   } else Some 1);
          let hdr = \<lparr>GlobalIndex = LastIncludedIndex args, Term = LastIncludedTerm args,
                     Command = None\<rparr>;
          rest \<leftarrow> (if size > 1 then slice_from (Logs rf) (localLast + 1) else Some []);
          let rf = rf\<lparr>Logs := hdr # rest, SnapshotIndex := LastIncludedIndex args\<rparr>;
          let rf = rf\<lparr>persister :=
                       SaveStateAndSnapshot (persister rf) (encodeState rf) (isSnapshot args)\<rparr>;
          Some (rf, reply, ResetTimer # notifyAppUseNewSnapShot (isSnapshot args))
        }
      })"

end
