(* ===== verification/Raft_Leader.thy ===== *)
theory Raft_Leader
  imports Raft_RPC
begin

text \<open>
  The sending side of a peer (\<^verbatim>\<open>raft/raft.go\<close>): what it does with the outcome of an RPC, how
  it starts an election, what it sends to a follower, and how it hands committed entries to
  the service.  An RPC goroutine blocks in \<^verbatim>\<open>Call\<close> without the mutex; the definitions named
  after the goroutines are their critical sections, run on the state at that time, with the
  outcome \<open>ok\<close> of the call and the reply as arguments.
\<close>

section \<open>Stepping down\<close>

definition stepDown :: "('c, 's) Raft \<Rightarrow> int \<Rightarrow> ('c, 's) Raft \<times> ('c, 's) effect list" where
  "stepDown rf t =
     (persistState (goBackToFollower (rf\<lparr>CurrentTerm := t, VotedFor := -1\<rparr>)), [ResetTimer])"

section \<open>Elections\<close>

definition otherPeers :: "('c, 's) Raft \<Rightarrow> int list" where
  "otherPeers rf = filter (\<lambda>i. i \<noteq> me rf) (map int [0..<npeers rf])"

definition broadCastVote ::
    "('c, 's) Raft \<Rightarrow> (('c, 's) Raft \<times> ('c, 's) effect list) option" where
  "broadCastVote rf =
     (if rstate rf = LEADER then Some (rf, [])
      else do {
        let rf = rf\<lparr>CurrentTerm := CurrentTerm rf + 1, rstate := CANDIDATE,
                    VotedFor := me rf, voteCount := 1\<rparr>;
        let localIdx = len (Logs rf) - 1;
        e \<leftarrow> slice_get (Logs rf) localIdx;
        let args = \<lparr>rvTerm = CurrentTerm rf, CandidateID = me rf,
                    LastLogIndex = logIdxLocal2Global rf localIdx, LastLogTerm = Term e\<rparr>;
        Some (persistState rf, map (GoSendRequestVoteAndProcess args) (otherPeers rf))
      })"

text \<open>The loop over \<^verbatim>\<open>range rf.nextIndex\<close> that initialises the indices of a new leader.\<close>

fun leaderInit :: "nat list \<Rightarrow> int \<Rightarrow> int list \<Rightarrow> int list \<Rightarrow> (int list \<times> int list) option" where
  "leaderInit [] v ni mi = Some (ni, mi)"
| "leaderInit (i # is) v ni mi = do {
     ni \<leftarrow> slice_set ni (int i) v;
     mi \<leftarrow> slice_set mi (int i) 0;
     leaderInit is v ni mi }"

definition becomeLeader ::
    "('c, 's) Raft \<Rightarrow> (('c, 's) Raft \<times> ('c, 's) effect list) option" where
  "becomeLeader rf = do {
     let rf = rf\<lparr>rstate := LEADER\<rparr>;
     let localIdx = len (Logs rf) - 1;
     (ni, mi) \<leftarrow> leaderInit [0..<length (nextIndex rf)] (logIdxLocal2Global rf localIdx + 1)
                   (nextIndex rf) (matchIndex rf);
     n \<leftarrow> slice_get ni (me rf);
     mi \<leftarrow> slice_set mi (me rf) (n - 1);
     Some (rf\<lparr>nextIndex := ni, matchIndex := mi\<rparr>, [GoSyncUpDaemon, ResetTimer]) }"

definition sendRequestVoteAndProcess ::
    "('c, 's) Raft \<Rightarrow> bool \<Rightarrow> RequestVoteReply \<Rightarrow>
     (('c, 's) Raft \<times> ('c, 's) effect list) option" where
  "sendRequestVoteAndProcess rf ok reply =
     (if \<not> ok \<or> rstate rf \<noteq> CANDIDATE \<or> rvrTerm reply < CurrentTerm rf then Some (rf, [])
      else if rvrTerm reply > CurrentTerm rf then Some (stepDown rf (rvrTerm reply))
      else if VoteGranted reply then
        let rf = rf\<lparr>voteCount := voteCount rf + 1\<rparr>
        in if voteCount rf > int (npeers rf) div 2 then becomeLeader rf else Some (rf, [])
      else Some (rf, []))"

section \<open>Replication\<close>

definition checkConsistency ::
    "('c, 's) Raft \<Rightarrow> int \<Rightarrow> ('c, 's) effect list option" where
  "checkConsistency rf to =
     (if rstate rf \<noteq> LEADER then Some []
      else do {
        n \<leftarrow> slice_get (nextIndex rf) to;
        let prevIdx = n - 1;
        if prevIdx < SnapshotIndex rf then do {
          e \<leftarrow> slice_get (Logs rf) 0;
          Some [GoSendSnapShotAndProcess
                  \<lparr>isTerm = CurrentTerm rf, isLeaderID = me rf,
                   LastIncludedIndex = SnapshotIndex rf, LastIncludedTerm = Term e,
                   isSnapshot = ReadSnapshot (persister rf)\<rparr> to]
        } else do {
          let localIdx = min_go (logIdxGlobal2Local rf prevIdx) (len (Logs rf) - 1);
          e \<leftarrow> slice_get (Logs rf) localIdx;
          es \<leftarrow> slice_from (Logs rf) (localIdx + 1);
          Some [GoSendAppendEntriesAndProcess
                  \<lparr>aeTerm = CurrentTerm rf, aeLeaderID = me rf, PrevLogIndex = prevIdx,
                   PrevLogTerm = Term e, Entries = es, LeaderCommit = commitIndex rf\<rparr> to]
        }
      })"

definition syncUpDaemon :: "('c, 's) Raft \<Rightarrow> ('c, 's) effect list" where
  "syncUpDaemon rf = (if rstate rf \<noteq> LEADER then [] else map GoCheckConsistency (otherPeers rf))"

definition fastBroadCastNewCommand :: "('c, 's) Raft \<Rightarrow> ('c, 's) effect list" where
  "fastBroadCastNewCommand rf = map GoCheckConsistency (otherPeers rf)"

definition countMatching :: "int \<Rightarrow> int list \<Rightarrow> int" where
  "countMatching n mi = len (filter (\<lambda>index. index \<ge> n) mi)"

definition matchCount :: "('c, 's) Raft \<Rightarrow> int \<Rightarrow> int option" where
  "matchCount rf N =
     (if N > commitIndex rf then do {
        e \<leftarrow> slice_get (Logs rf) (logIdxGlobal2Local rf N);
        Some (if Term e = CurrentTerm rf then countMatching N (matchIndex rf) else 0)
      } else Some 0)"

text \<open>The success branch: note the match and commit when a majority has the entry.\<close>

definition recordMatch ::
    "('c, 's) Raft \<Rightarrow> int \<Rightarrow> int \<Rightarrow> (('c, 's) Raft \<times> ('c, 's) effect list) option" where
  "recordMatch rf server N = do {
     m \<leftarrow> slice_get (matchIndex rf) server;
     if N > m then do {
       mi \<leftarrow> slice_set (matchIndex rf) server N;
       ni \<leftarrow> slice_set (nextIndex rf) server (N + 1);
       let rf = rf\<lparr>matchIndex := mi, nextIndex := ni\<rparr>;
       count \<leftarrow> matchCount rf N;
       Some (if count > int (npeers rf) div 2
             then (rf\<lparr>commitIndex := N\<rparr>, [CommitSignal]) else (rf, []))
     } else Some (rf, []) }"

definition sendAppendEntriesAndProcess ::
    "('c, 's) Raft \<Rightarrow> 'c AppendEntriesArgs \<Rightarrow> int \<Rightarrow> bool \<Rightarrow> AppendEntriesReply \<Rightarrow>
     (('c, 's) Raft \<times> ('c, 's) effect list) option" where
  "sendAppendEntriesAndProcess rf args server ok reply =
     (if \<not> ok \<or> rstate rf \<noteq> LEADER \<or> aerTerm reply < CurrentTerm rf then Some (rf, [])
      else if CurrentTerm rf < aerTerm reply then Some (stepDown rf (aerTerm reply))
      else do {
        oldNextIndex \<leftarrow> slice_get (nextIndex rf) server;
        if Success reply then recordMatch rf server (PrevLogIndex args + len (Entries args))
        else do {
          ni \<leftarrow> slice_set (nextIndex rf) server (max_go 1 (ConflictIndex reply));
          Some (rf\<lparr>nextIndex := ni\<rparr>, [GoBackupOverIncorrectFollowerLogs server])
        }
      })"

definition sendSnapShotAndProcess ::
    "('c, 's) Raft \<Rightarrow> 's InstallSnapshotArgs \<Rightarrow> int \<Rightarrow> bool \<Rightarrow> InstallSnapshotReply \<Rightarrow>
     (('c, 's) Raft \<times> ('c, 's) effect list) option" where
  "sendSnapShotAndProcess rf args server ok reply =
     (if \<not> ok \<or> rstate rf \<noteq> LEADER \<or> CurrentTerm rf > isrTerm reply then Some (rf, [])
      else if CurrentTerm rf < isrTerm reply then Some (stepDown rf (isrTerm reply))
      else do {
        oldNextIndex \<leftarrow> slice_get (nextIndex rf) server;
        if LastIncludedIndex args \<ge> oldNextIndex then do {
          ni \<leftarrow> slice_set (nextIndex rf) server (LastIncludedIndex args + 1);
          mi \<leftarrow> slice_set (matchIndex rf) server (LastIncludedIndex args);
          Some (rf\<lparr>nextIndex := ni, matchIndex := mi\<rparr>, [])
        } else Some (rf, [])
      })"

section \<open>Applying committed entries\<close>

text \<open>
  One round of \<^verbatim>\<open>applyLogEntryDaemon\<close>: the loop from \<^verbatim>\<open>lastApplied+1\<close> to \<^verbatim>\<open>commitIndex\<close>,
  which jumps over the indices that a snapshot covers.
\<close>

function applyLoop ::
    "('c, 's) Raft \<Rightarrow> int \<Rightarrow> int \<Rightarrow> (('c, 's) Raft \<times> ('c, 's) effect list) option" where
  "applyLoop rf i hi =
     (if i \<le> hi then
        (if i \<le> SnapshotIndex rf then applyLoop rf (SnapshotIndex rf + 1) hi
         else do {
           e \<leftarrow> slice_get (Logs rf) (logIdxGlobal2Local rf i);
           (rf', effs) \<leftarrow> applyLoop (rf\<lparr>lastApplied := i\<rparr>) (i + 1) hi;
           Some (rf', Apply \<lparr>amCommandIndex = i, amCommand = Command e, CommandValid = True,
                             SnapShot = []\<rparr> # effs)
         })
      else Some (rf, []))"
  by pat_completeness auto
termination
  by (relation "measure (\<lambda>(rf, i, hi). nat (hi + 1 - i))") auto

declare applyLoop.simps [simp del]

definition applyLogEntryDaemon ::
    "('c, 's) Raft \<Rightarrow> (('c, 's) Raft \<times> ('c, 's) effect list) option" where
  "applyLogEntryDaemon rf = applyLoop rf (lastApplied rf + 1) (commitIndex rf)"

end
