(* ===== verification/Raft_Peer.thy ===== *)
theory Raft_Peer
  imports Raft_Leader
begin

text \<open>
  Properties of a single peer: the well-formedness of its state, that its stable storage is
  up to date at the end of every critical section, how its term, vote and role may change,
  and that no operation panics on a well-formed state.
\<close>

section \<open>Well-formed and durable states\<close>

definition lastIndex :: "('c, 's) Raft \<Rightarrow> int" where
  "lastIndex rf = SnapshotIndex rf + len (Logs rf) - 1"

text \<open>Entries carry their own global index: the log is a contiguous piece of history.\<close>

definition indexed_from :: "int \<Rightarrow> 'c LogEntry list \<Rightarrow> bool" where
  "indexed_from k ls \<longleftrightarrow> (\<forall>i < length ls. GlobalIndex (ls ! i) = k + int i)"

definition raft_wf :: "('c, 's) Raft \<Rightarrow> bool" where
  "raft_wf rf \<longleftrightarrow>
     Logs rf \<noteq> [] \<and> 0 \<le> SnapshotIndex rf \<and> indexed_from (SnapshotIndex rf) (Logs rf) \<and>
     length (nextIndex rf) = npeers rf \<and> length (matchIndex rf) = npeers rf \<and>
     0 \<le> me rf \<and> me rf < int (npeers rf)"

text \<open>What a peer that is made from the persister starts with.\<close>

definition recover :: "('c, 's) Persister \<Rightarrow> int \<times> int \<times> int \<times> 'c LogEntry list" where
  "recover ps = (let rf = fst (Make 0 0 ps)
     in (CurrentTerm rf, VotedFor rf, SnapshotIndex rf, Logs rf))"

definition durable :: "('c, 's) Raft \<Rightarrow> bool" where
  "durable rf \<longleftrightarrow> recover (persister rf) = (CurrentTerm rf, VotedFor rf, SnapshotIndex rf, Logs rf)"

lemma indexed_from_Nil [simp]: "indexed_from k []"
  by (simp add: indexed_from_def)

lemma indexed_from_Cons [simp]:
  "indexed_from k (e # ls) \<longleftrightarrow> GlobalIndex e = k \<and> indexed_from (k + 1) ls"
  by (auto simp: indexed_from_def less_Suc_eq_0_disj nth_Cons')

lemma indexed_from_append [simp]:
  "indexed_from k (xs @ ys) \<longleftrightarrow> indexed_from k xs \<and> indexed_from (k + len xs) ys"
  by (induction xs arbitrary: k) (auto simp: add.assoc)

lemma indexed_from_drop: "indexed_from k ls \<Longrightarrow> n \<le> length ls \<Longrightarrow> indexed_from (k + int n) (drop n ls)"
  by (simp add: indexed_from_def add.assoc)

lemma indexed_from_take: "indexed_from k ls \<Longrightarrow> indexed_from k (take n ls)"
  by (simp add: indexed_from_def)

lemma recover_encode:
  "raftstate ps = encodeState rf \<Longrightarrow>
   recover ps = (CurrentTerm rf, VotedFor rf, SnapshotIndex rf, Logs rf)"
  by (simp add: recover_def Make_def Let_def dePersistState_def ReadRaftState_def
      decode_encodeState)

lemma recover_fields:
  "recover ps = (t, v, s, ls) \<Longrightarrow>
   fst (Make n i ps) =
     \<lparr>npeers = n, persister = ps, me = i, CurrentTerm = t, VotedFor = v, Logs = ls,
      SnapshotIndex = s, commitIndex = 0, lastApplied = 0, nextIndex = replicate n 1,
      matchIndex = replicate n 0, rstate = FOLLOWER, voteCount = 0\<rparr>"
  by (auto simp: recover_def Make_def Let_def dePersistState_def decodeState_def
      split: option.splits if_splits)

lemma durable_persistState [simp]: "durable (persistState rf)"
  unfolding durable_def
  by (rule trans [OF recover_encode [of _ rf]])
     (simp_all add: persistState_def SaveRaftState_def)

lemma persistState_fields [simp]:
  "npeers (persistState rf) = npeers rf" "me (persistState rf) = me rf"
  "CurrentTerm (persistState rf) = CurrentTerm rf" "VotedFor (persistState rf) = VotedFor rf"
  "Logs (persistState rf) = Logs rf" "SnapshotIndex (persistState rf) = SnapshotIndex rf"
  "commitIndex (persistState rf) = commitIndex rf"
  "lastApplied (persistState rf) = lastApplied rf"
  "nextIndex (persistState rf) = nextIndex rf" "matchIndex (persistState rf) = matchIndex rf"
  "rstate (persistState rf) = rstate rf" "voteCount (persistState rf) = voteCount rf"
  by (simp_all add: persistState_def)

lemma goBackToFollower_fields [simp]:
  "npeers (goBackToFollower rf) = npeers rf" "me (goBackToFollower rf) = me rf"
  "CurrentTerm (goBackToFollower rf) = CurrentTerm rf"
  "VotedFor (goBackToFollower rf) = VotedFor rf"
  "Logs (goBackToFollower rf) = Logs rf" "SnapshotIndex (goBackToFollower rf) = SnapshotIndex rf"
  "commitIndex (goBackToFollower rf) = commitIndex rf"
  "lastApplied (goBackToFollower rf) = lastApplied rf"
  "nextIndex (goBackToFollower rf) = nextIndex rf"
  "matchIndex (goBackToFollower rf) = matchIndex rf"
  "rstate (goBackToFollower rf) = FOLLOWER" "voteCount (goBackToFollower rf) = 0"
  "persister (goBackToFollower rf) = persister rf"
  by (simp_all add: goBackToFollower_def)

lemma durable_same:
  "\<lbrakk> durable rf; persister rf' = persister rf; CurrentTerm rf' = CurrentTerm rf;
     VotedFor rf' = VotedFor rf; SnapshotIndex rf' = SnapshotIndex rf; Logs rf' = Logs rf \<rbrakk>
   \<Longrightarrow> durable rf'"
  by (simp add: durable_def)

lemma durable_SaveStateAndSnapshot:
  "raftstate (persister rf) = encodeState rf \<Longrightarrow> durable rf"
  by (simp add: durable_def recover_encode)

lemma encodeState_persister [simp]: "encodeState (rf\<lparr>persister := ps\<rparr>) = encodeState rf"
  by (simp add: encodeState_def)

section \<open>How a peer may change in a critical section\<close>

text \<open>
  Every critical section other than the two that drive an election is passive: the term
  never goes back, a vote given in a term stays, and a peer that is not a follower
  afterwards was in the same role, in the same term and with the same vote count before.
\<close>

definition passive_step :: "('c, 's) Raft \<Rightarrow> ('c, 's) Raft \<Rightarrow> bool" where
  "passive_step rf rf' \<longleftrightarrow>
     npeers rf' = npeers rf \<and> me rf' = me rf \<and> CurrentTerm rf \<le> CurrentTerm rf' \<and>
     (CurrentTerm rf' = CurrentTerm rf \<longrightarrow> VotedFor rf' = VotedFor rf \<or> VotedFor rf = -1) \<and>
     (rstate rf' \<noteq> FOLLOWER \<longrightarrow>
        rstate rf' = rstate rf \<and> CurrentTerm rf' = CurrentTerm rf \<and> voteCount rf' = voteCount rf)"

lemma RequestVote_passive:
  "RequestVote rf args = Some (rf', reply, effs) \<Longrightarrow> passive_step rf rf'"
  by (auto simp: RequestVote_def Let_def passive_step_def bind_Some_iff split: if_splits)

lemma RequestVote_durable:
  "RequestVote rf args = Some (rf', reply, effs) \<Longrightarrow> durable rf \<Longrightarrow> durable rf'"
  by (auto simp: RequestVote_def Let_def bind_Some_iff split: if_splits)
     (metis durable_persistState)

lemma RequestVote_wf:
  "RequestVote rf args = Some (rf', reply, effs) \<Longrightarrow> raft_wf rf \<Longrightarrow> raft_wf rf'"
  by (auto simp: RequestVote_def Let_def raft_wf_def bind_Some_iff split: if_splits)

lemma RequestVote_total: "raft_wf rf \<Longrightarrow> RequestVote rf args \<noteq> None"
  by (auto simp: RequestVote_def Let_def raft_wf_def slice_get_last bind_not_None_iff
      split: if_splits prod.splits)

lemma RequestVote_log:
  "RequestVote rf args = Some (rf', reply, effs) \<Longrightarrow>
   Logs rf' = Logs rf \<and> SnapshotIndex rf' = SnapshotIndex rf \<and> commitIndex rf' = commitIndex rf
   \<and> lastApplied rf' = lastApplied rf"
  by (auto simp: RequestVote_def Let_def bind_Some_iff split: if_splits)

section \<open>The log as a function of the global index\<close>

definition entryAt :: "('c, 's) Raft \<Rightarrow> int \<Rightarrow> 'c LogEntry option" where
  "entryAt rf i = slice_get (Logs rf) (logIdxGlobal2Local rf i)"

definition termAt :: "('c, 's) Raft \<Rightarrow> int \<Rightarrow> int option" where
  "termAt rf i = map_option Term (entryAt rf i)"

section \<open>AppendEntries\<close>

lemma adoptTerm_fields:
  assumes "adoptTerm rf t = (rf', change)"
  shows "npeers rf' = npeers rf" "me rf' = me rf" "Logs rf' = Logs rf"
    "SnapshotIndex rf' = SnapshotIndex rf" "commitIndex rf' = commitIndex rf"
    "lastApplied rf' = lastApplied rf" "nextIndex rf' = nextIndex rf"
    "matchIndex rf' = matchIndex rf" "persister rf' = persister rf" "rstate rf' = FOLLOWER"
    "CurrentTerm rf' = max (CurrentTerm rf) t"
    "\<not> CurrentTerm rf < t \<Longrightarrow> VotedFor rf' = VotedFor rf"
    "change \<longleftrightarrow> CurrentTerm rf < t"
    "CurrentTerm rf < t \<Longrightarrow> VotedFor rf' = -1"
  using assms by (auto simp: adoptTerm_def split: if_splits)

lemma adoptTerm_passive: "adoptTerm rf t = (rf', change) \<Longrightarrow> passive_step rf rf'"
  by (auto simp: adoptTerm_def passive_step_def split: if_splits)

lemma adoptTerm_durable:
  "adoptTerm rf t = (rf', change) \<Longrightarrow> \<not> change \<Longrightarrow> durable rf \<Longrightarrow> durable rf'"
  by (auto simp: adoptTerm_def durable_def split: if_splits)

lemma persistState_wf [simp]: "raft_wf (persistState rf) = raft_wf rf"
  by (simp add: raft_wf_def)

lemma adoptTerm_wf: "adoptTerm rf t = (rf', change) \<Longrightarrow> raft_wf rf \<Longrightarrow> raft_wf rf'"
  by (auto simp: adoptTerm_def raft_wf_def split: if_splits)

lemma matchEntries_spec:
  assumes "matchEntries ls es i j = (i', j')" and "i \<le> length ls" and "j \<le> length es"
  shows "\<exists>k. i' = i + k \<and> j' = j + k \<and> i' \<le> length ls \<and> j' \<le> length es \<and>
    (\<forall>m < k. Term (ls ! (i + m)) = Term (es ! (j + m))) \<and>
    (i' < length ls \<longrightarrow> j' < length es \<longrightarrow> Term (ls ! i') \<noteq> Term (es ! j'))"
  using assms
proof (induction ls es i j arbitrary: i' j' rule: matchEntries.induct)
  case (1 ls es i j)
  show ?case
  proof (cases "i < length ls \<and> j < length es \<and> Term (ls ! i) = Term (es ! j)")
    case True
    with "1.prems"(1) have "matchEntries ls es (Suc i) (Suc j) = (i', j')"
      by (simp add: matchEntries.simps [of ls es i j])
    with "1.IH" True obtain k where k: "i' = Suc i + k" "j' = Suc j + k" "i' \<le> length ls"
      "j' \<le> length es" "\<forall>m < k. Term (ls ! (Suc i + m)) = Term (es ! (Suc j + m))"
      "i' < length ls \<longrightarrow> j' < length es \<longrightarrow> Term (ls ! i') \<noteq> Term (es ! j')"
      by (metis Suc_leI)
    have "Term (ls ! (i + m)) = Term (es ! (j + m))" if "m < Suc k" for m
      using that True k(5) by (cases m) auto
    with k show ?thesis
      by (intro exI [of _ "Suc k"]) auto
  next
    case False
    with "1.prems" have "i' = i" "j' = j"
      by (auto simp: matchEntries.simps [of ls es i j] split: if_splits)
    with False "1.prems"(2,3) show ?thesis
      by (intro exI [of _ 0]) auto
  qed
qed

lemma conflictHead_le: "conflictHead ls t i \<le> i"
  by (induction i) auto

lemma conflictHead_run:
  "conflictHead ls t i \<le> k \<Longrightarrow> k < i \<Longrightarrow> Term (ls ! k) = t"
  by (induction i) (auto split: if_splits simp: less_Suc_eq_le le_less)

lemma conflictHead_first:
  "0 < conflictHead ls t i \<Longrightarrow> Term (ls ! (conflictHead ls t i - 1)) \<noteq> t"
  by (induction i) auto

lemma mergeEntries_total:
  assumes "0 \<le> PrevLogIndex args - SnapshotIndex rf" "PrevLogIndex args \<le> lastIndex rf"
  shows "mergeEntries rf args \<noteq> None"
proof -
  obtain i j where ij: "matchEntries (Logs rf) (Entries args)
      (nat (logIdxGlobal2Local rf (PrevLogIndex args) + 1)) 0 = (i, j)"
    by fastforce
  have "nat (logIdxGlobal2Local rf (PrevLogIndex args) + 1) \<le> length (Logs rf)"
    using assms by (simp add: logIdxGlobal2Local_def lastIndex_def len_def nat_le_iff)
  from matchEntries_spec [OF ij this] have "i \<le> length (Logs rf)" by auto
  with ij show ?thesis
    by (auto simp: mergeEntries_def slice_to_def slice_from_def len_def)
qed

lemma mergeEntries_spec:
  assumes "mergeEntries rf args = Some (rf', grown)"
    and p: "p = nat (PrevLogIndex args - SnapshotIndex rf + 1)" "p \<le> length (Logs rf)"
  obtains k where "k \<le> length (Entries args)" "p + k \<le> length (Logs rf)"
    "\<forall>m < k. Term (Logs rf ! (p + m)) = Term (Entries args ! m)"
    "grown \<longleftrightarrow> k < length (Entries args)"
    "grown \<Longrightarrow> p + k < length (Logs rf) \<Longrightarrow> Term (Logs rf ! (p + k)) \<noteq> Term (Entries args ! k)"
    "rf' = (if grown then rf\<lparr>Logs := take (p + k) (Logs rf) @ drop k (Entries args)\<rparr> else rf)"
proof -
  obtain i j where ij: "matchEntries (Logs rf) (Entries args) p 0 = (i, j)"
    by fastforce
  from matchEntries_spec [OF ij p(2)] obtain k where
    k: "i = p + k" "j = k" "i \<le> length (Logs rf)" "k \<le> length (Entries args)"
      "\<forall>m < k. Term (Logs rf ! (p + m)) = Term (Entries args ! m)"
      "p + k < length (Logs rf) \<longrightarrow> k < length (Entries args) \<longrightarrow>
       Term (Logs rf ! (p + k)) \<noteq> Term (Entries args ! k)"
    by auto
  have "mergeEntries rf args =
    (if k < length (Entries args)
     then Some (rf\<lparr>Logs := take (p + k) (Logs rf) @ drop k (Entries args)\<rparr>, True)
     else Some (rf, False))"
    using k(1-4) ij
    by (simp add: mergeEntries_def logIdxGlobal2Local_def slice_to_def slice_from_def len_def
        p(1) [symmetric] nat_int_add)
  with assms(1) k that show thesis
    by (auto split: if_splits)
qed

text \<open>The outcomes of the handler, one case per branch of the code.\<close>

lemma AppendEntries_cases [consumes 1, case_names stale behind_snapshot beyond_log conflict accept]:
  assumes "AppendEntries rf args = Some (rf', reply, effs)"
  obtains "aeTerm args < CurrentTerm rf" "rf' = rf"
      "reply = \<lparr>aerTerm = CurrentTerm rf, Success = False, ConflictIndex = 0\<rparr>" "effs = []"
  | rf1 change where "CurrentTerm rf \<le> aeTerm args" "adoptTerm rf (aeTerm args) = (rf1, change)"
      "rf' = (if change then persistState rf1 else rf1)" "PrevLogIndex args < SnapshotIndex rf"
      "reply = \<lparr>aerTerm = aeTerm args, Success = False, ConflictIndex = lastIndex rf + 1\<rparr>"
      "effs = [ResetTimer]"
  | rf1 change where "CurrentTerm rf \<le> aeTerm args" "adoptTerm rf (aeTerm args) = (rf1, change)"
      "rf' = (if change then persistState rf1 else rf1)" "SnapshotIndex rf \<le> PrevLogIndex args"
      "lastIndex rf < PrevLogIndex args"
      "reply = \<lparr>aerTerm = aeTerm args, Success = False, ConflictIndex = lastIndex rf + 1\<rparr>"
      "effs = [ResetTimer]"
  | rf1 change t where "CurrentTerm rf \<le> aeTerm args"
      "adoptTerm rf (aeTerm args) = (rf1, change)"
      "rf' = (if change then persistState rf1 else rf1)" "SnapshotIndex rf \<le> PrevLogIndex args"
      "PrevLogIndex args \<le> lastIndex rf" "termAt rf (PrevLogIndex args) = Some t"
      "t \<noteq> PrevLogTerm args"
      "reply = \<lparr>aerTerm = aeTerm args, Success = False, ConflictIndex = SnapshotIndex rf +
         int (conflictHead (Logs rf) t (nat (PrevLogIndex args - SnapshotIndex rf)))\<rparr>"
      "effs = [ResetTimer]"
  | rf1 change rf2 grown rf3 ceffs where "CurrentTerm rf \<le> aeTerm args"
      "adoptTerm rf (aeTerm args) = (rf1, change)" "SnapshotIndex rf \<le> PrevLogIndex args"
      "PrevLogIndex args \<le> lastIndex rf" "termAt rf (PrevLogIndex args) = Some (PrevLogTerm args)"
      "mergeEntries rf1 args = Some (rf2, grown)" "followCommit rf2 (LeaderCommit args) = (rf3, ceffs)"
      "rf' = (if change \<or> grown then persistState rf3 else rf3)"
      "reply = \<lparr>aerTerm = aeTerm args, Success = True, ConflictIndex = 0\<rparr>"
      "effs = ResetTimer # ceffs"
proof (cases "aeTerm args < CurrentTerm rf")
  case True
  with assms show ?thesis by (intro that(1)) (auto simp: AppendEntries_def)
next
  case False
  obtain rf1 change where ad: "adoptTerm rf (aeTerm args) = (rf1, change)" by fastforce
  note [simp] = adoptTerm_fields [OF ad]
  note defs = lastIndex_def logIdxGlobal2Local_def logIdxLocal2Global_def termAt_def entryAt_def
  consider (b) "PrevLogIndex args < SnapshotIndex rf"
    | (l) "SnapshotIndex rf \<le> PrevLogIndex args" "lastIndex rf < PrevLogIndex args"
    | (r) "SnapshotIndex rf \<le> PrevLogIndex args" "PrevLogIndex args \<le> lastIndex rf"
    by linarith
  then show ?thesis
  proof cases
    case b
    with False assms ad show ?thesis
      by (intro that(2) [of rf1 change]) (auto simp: AppendEntries_def Let_def defs)
  next
    case l
    with False assms ad show ?thesis
      by (intro that(3) [of rf1 change]) (auto simp: AppendEntries_def Let_def defs)
  next
    case r
    then obtain e where e: "slice_get (Logs rf) (PrevLogIndex args - SnapshotIndex rf) = Some e"
      by (auto simp: slice_get_def lastIndex_def)
    show ?thesis
    proof (cases "Term e = PrevLogTerm args")
      case True
      with False assms ad e r obtain rf2 grown where
        m: "mergeEntries rf1 args = Some (rf2, grown)"
        by (auto simp: AppendEntries_def Let_def defs bind_Some_iff)
      obtain rf3 ceffs where c: "followCommit rf2 (LeaderCommit args) = (rf3, ceffs)"
        by fastforce
      from True False assms ad e r m c show ?thesis
        by (intro that(5) [of rf1 change rf2 grown rf3 ceffs])
           (auto simp: AppendEntries_def Let_def defs)
    next
      case F2: False
      with False assms ad e r show ?thesis
        by (intro that(4)) (auto simp: AppendEntries_def Let_def defs bind_Some_iff
            split: prod.splits)
    qed
  qed
qed

lemma followCommit_fields:
  assumes "followCommit rf c = (rf', effs)"
  shows "rf' = rf\<lparr>commitIndex := commitIndex rf'\<rparr>"
    "commitIndex rf' = (if c > commitIndex rf then min c (lastIndex rf) else commitIndex rf)"
    "effs = (if c > commitIndex rf then [CommitSignal] else [])" "lastIndex rf' = lastIndex rf"
  using assms
  by (auto simp: followCommit_def lastIndex_def logIdxLocal2Global_def algebra_simps
      split: if_splits)

lemma mergeEntries_fields:
  "mergeEntries rf args = Some (rf', grown) \<Longrightarrow> rf' = rf\<lparr>Logs := Logs rf'\<rparr>"
  by (auto simp: mergeEntries_def bind_Some_iff split: prod.splits if_splits)

lemma mergeEntries_unchanged:
  "mergeEntries rf args = Some (rf', False) \<Longrightarrow> rf' = rf"
  by (auto simp: mergeEntries_def bind_Some_iff split: prod.splits if_splits)

lemma upd_Logs_commit_fields:
  assumes "rf2 = rf1\<lparr>Logs := ls\<rparr>" "rf3 = rf2\<lparr>commitIndex := c\<rparr>"
  shows "npeers rf3 = npeers rf1" "me rf3 = me rf1" "CurrentTerm rf3 = CurrentTerm rf1"
    "VotedFor rf3 = VotedFor rf1" "rstate rf3 = rstate rf1" "voteCount rf3 = voteCount rf1"
    "SnapshotIndex rf3 = SnapshotIndex rf1" "nextIndex rf3 = nextIndex rf1"
    "matchIndex rf3 = matchIndex rf1" "persister rf3 = persister rf1"
    "lastApplied rf3 = lastApplied rf1" "Logs rf3 = ls"
  using assms by simp_all

lemma AppendEntries_passive:
  assumes "AppendEntries rf args = Some (rf', reply, effs)"
  shows "passive_step rf rf'"
  using assms
proof (cases rule: AppendEntries_cases)
  case (accept rf1 change rf2 grown rf3 ceffs)
  note u = upd_Logs_commit_fields [OF mergeEntries_fields [OF accept(6)]
      followCommit_fields(1) [OF accept(7)]]
  from adoptTerm_passive [OF accept(2)] accept(8) u show ?thesis
    by (simp add: passive_step_def)
qed (auto dest!: adoptTerm_passive simp: passive_step_def)

lemma AppendEntries_durable:
  assumes "AppendEntries rf args = Some (rf', reply, effs)" and "durable rf"
  shows "durable rf'"
  using assms
proof (cases rule: AppendEntries_cases)
  case (accept rf1 change rf2 grown rf3 ceffs)
  show ?thesis
  proof (cases "change \<or> grown")
    case True
    with accept show ?thesis by simp
  next
    case False
    then have "durable rf1" and "rf2 = rf1"
      using adoptTerm_durable [OF accept(2)] assms(2) mergeEntries_unchanged [of rf1 args]
        accept(6) by auto
    moreover obtain c where "rf3 = rf2\<lparr>commitIndex := c\<rparr>"
      using followCommit_fields(1) [OF accept(7)] by blast
    ultimately have "durable rf3" by (simp add: durable_def)
    with False accept(8) show ?thesis by simp
  qed
qed (auto dest: adoptTerm_durable)

lemma AppendEntries_total:
  assumes "raft_wf rf" shows "AppendEntries rf args \<noteq> None"
proof -
  obtain rf1 change where ad: "adoptTerm rf (aeTerm args) = (rf1, change)" by fastforce
  note f [simp] = adoptTerm_fields [OF ad]
  have *: "mergeEntries rf1 args \<noteq> None"
    if "\<not> PrevLogIndex args < SnapshotIndex rf" "\<not> len (Logs rf) - 1 < PrevLogIndex args - SnapshotIndex rf"
    using that by (intro mergeEntries_total) (auto simp: lastIndex_def)
  show ?thesis
    using * by (auto simp: AppendEntries_def ad Let_def logIdxGlobal2Local_def slice_get_def
        split: prod.splits)
qed

text \<open>The entries a leader sends are numbered from the index after \<open>PrevLogIndex\<close>.\<close>

definition args_indexed :: "'c AppendEntriesArgs \<Rightarrow> bool" where
  "args_indexed args \<longleftrightarrow> indexed_from (PrevLogIndex args + 1) (Entries args)"

lemma AppendEntries_wf:
  assumes "AppendEntries rf args = Some (rf', reply, effs)" "raft_wf rf" "args_indexed args"
  shows "raft_wf rf'"
  using assms(1)
proof (cases rule: AppendEntries_cases)
  case (accept rf1 change rf2 grown rf3 ceffs)
  note f = adoptTerm_fields [OF accept(2)]
  note u = upd_Logs_commit_fields [OF mergeEntries_fields [OF accept(6)]
      followCommit_fields(1) [OF accept(7)]]
  let ?p = "nat (PrevLogIndex args - SnapshotIndex rf1 + 1)"
  have p: "?p \<le> length (Logs rf1)" "int ?p = PrevLogIndex args - SnapshotIndex rf + 1"
    using accept(3,4) f by (auto simp: lastIndex_def len_def nat_le_iff)
  from mergeEntries_spec [OF accept(6) refl p(1)] obtain k where
    k: "k \<le> length (Entries args)" "?p + k \<le> length (Logs rf1)"
      "rf2 = (if grown then rf1\<lparr>Logs := take (?p + k) (Logs rf1) @ drop k (Entries args)\<rparr> else rf1)"
    by metis
  have "indexed_from (SnapshotIndex rf) (Logs rf2) \<and> Logs rf2 \<noteq> []"
  proof (cases grown)
    case True
    have "indexed_from (PrevLogIndex args + 1 + int k) (drop k (Entries args))"
      using assms(3) k(1) by (auto simp: args_indexed_def intro: indexed_from_drop)
    moreover have "SnapshotIndex rf + len (take (?p + k) (Logs rf)) = PrevLogIndex args + 1 + int k"
      using k(2) p f by (simp add: len_def min_absorb2)
    ultimately show ?thesis
      using True k f p assms(2) accept(3)
      by (auto simp: raft_wf_def indexed_from_take)
  next
    case False
    with k f assms(2) show ?thesis by (simp add: raft_wf_def)
  qed
  with assms(2) f u accept(8) show ?thesis
    by (auto simp: raft_wf_def)
qed (use assms(2) in \<open>auto dest: adoptTerm_wf\<close>)

section \<open>InstallSnapShot\<close>

lemma InstallSnapShot_cases [consumes 2, case_names stale outdated install]:
  assumes "InstallSnapShot rf args = Some (rf', reply, effs)" and "raft_wf rf"
  obtains "isTerm args < CurrentTerm rf" "rf' = rf" "reply = \<lparr>isrTerm = CurrentTerm rf\<rparr>" "effs = []"
  | rf1 change where "CurrentTerm rf \<le> isTerm args" "adoptTerm rf (isTerm args) = (rf1, change)"
      "LastIncludedIndex args \<le> SnapshotIndex rf \<or> LastIncludedIndex args \<le> commitIndex rf"
      "rf' = (if change then persistState rf1 else rf1)" "reply = \<lparr>isrTerm = isTerm args\<rparr>"
      "effs = [ResetTimer]"
  | rf1 change rest rf2 where "CurrentTerm rf \<le> isTerm args"
      "adoptTerm rf (isTerm args) = (rf1, change)"
      "SnapshotIndex rf < LastIncludedIndex args" "commitIndex rf < LastIncludedIndex args"
      "rest = (if termAt rf (LastIncludedIndex args) = Some (LastIncludedTerm args)
               then drop (nat (LastIncludedIndex args - SnapshotIndex rf + 1)) (Logs rf) else [])"
      "rf2 = rf1\<lparr>Logs := \<lparr>GlobalIndex = LastIncludedIndex args, Term = LastIncludedTerm args,
                          Command = None\<rparr> # rest,
               SnapshotIndex := LastIncludedIndex args\<rparr>"
      "rf' = rf2\<lparr>persister := \<lparr>raftstate = encodeState rf2, snapshot = isSnapshot args\<rparr>\<rparr>"
      "reply = \<lparr>isrTerm = isTerm args\<rparr>"
      "effs = ResetTimer # notifyAppUseNewSnapShot (isSnapshot args)"
proof (cases "isTerm args < CurrentTerm rf")
  case True
  with assms show ?thesis by (intro that(1)) (auto simp: InstallSnapShot_def)
next
  case False
  obtain rf1 change where ad: "adoptTerm rf (isTerm args) = (rf1, change)" by fastforce
  note f [simp] = adoptTerm_fields [OF ad]
  show ?thesis
  proof (cases "LastIncludedIndex args \<le> SnapshotIndex rf \<or> LastIncludedIndex args \<le> commitIndex rf")
    case True
    with False assms ad show ?thesis
      by (intro that(2) [of rf1 change]) (auto simp: InstallSnapShot_def Let_def)
  next
    case F2: False
    let ?l = "LastIncludedIndex args - SnapshotIndex rf"
    have t: "termAt rf (LastIncludedIndex args) =
        (if ?l < len (Logs rf) then Some (Term (Logs rf ! nat ?l)) else None)"
      using F2 by (simp add: termAt_def entryAt_def logIdxGlobal2Local_def slice_get_def)
    have d: "drop (nat (1 + LastIncludedIndex args - SnapshotIndex rf)) (Logs rf) = []"
      if "\<not> 1 + LastIncludedIndex args < SnapshotIndex rf + len (Logs rf)"
      using that F2 by (simp add: len_def)
    from F2 False assms ad show ?thesis
      by (intro that(3) [of rf1 change _ _])
         (auto simp: InstallSnapShot_def Let_def t d logIdxGlobal2Local_def slice_get_def
           slice_from_def SaveStateAndSnapshot_eq algebra_simps split: if_splits)
  qed
qed

lemma InstallSnapShot_total: "raft_wf rf \<Longrightarrow> InstallSnapShot rf args \<noteq> None"
  by (auto simp: InstallSnapShot_def Let_def slice_get_def slice_from_def logIdxGlobal2Local_def
      dest!: adoptTerm_fields split: prod.splits if_splits)

lemma InstallSnapShot_passive:
  assumes "InstallSnapShot rf args = Some (rf', reply, effs)" "raft_wf rf"
  shows "passive_step rf rf'"
  using assms
proof (cases rule: InstallSnapShot_cases)
  case (install rf1 change rest rf2)
  with adoptTerm_passive [OF install(2)] show ?thesis by (simp add: passive_step_def)
qed (auto dest!: adoptTerm_passive simp: passive_step_def)

lemma InstallSnapShot_durable:
  assumes "InstallSnapShot rf args = Some (rf', reply, effs)" "raft_wf rf" "durable rf"
  shows "durable rf'"
  using assms(1,2)
proof (cases rule: InstallSnapShot_cases)
  case (install rf1 change rest rf2)
  then show ?thesis by (intro durable_SaveStateAndSnapshot) simp
qed (use assms(3) in \<open>auto dest: adoptTerm_durable\<close>)

lemma InstallSnapShot_wf:
  assumes "InstallSnapShot rf args = Some (rf', reply, effs)" "raft_wf rf"
  shows "raft_wf rf'"
  using assms
proof (cases rule: InstallSnapShot_cases)
  case (install rf1 change rest rf2)
  let ?l = "LastIncludedIndex args - SnapshotIndex rf + 1"
  have "indexed_from (LastIncludedIndex args + 1) rest"
  proof (cases "nat ?l \<le> length (Logs rf)")
    case True
    have "indexed_from (SnapshotIndex rf + int (nat ?l)) (drop (nat ?l) (Logs rf))"
      using True assms(2) by (intro indexed_from_drop) (auto simp: raft_wf_def)
    with install(3,5) show ?thesis by (simp add: algebra_simps)
  next
    case False
    with install(5) show ?thesis by simp
  qed
  with install assms(2) adoptTerm_wf [OF install(2) assms(2)] show ?thesis
    by (auto simp: raft_wf_def)
qed (use assms(2) in \<open>auto dest: adoptTerm_wf\<close>)

section \<open>The service's operations\<close>

lemma Start_cases [consumes 1, case_names not_leader leader]:
  assumes "Start rf command = Some (rf', res, effs)"
  obtains "rstate rf \<noteq> LEADER" "rf' = rf" "res = (-1, -1, False)" "effs = []"
  | "rstate rf = LEADER" "0 \<le> me rf" "me rf < len (nextIndex rf)"
      "me rf < len (matchIndex rf)"
      "rf' = persistState (rf\<lparr>Logs := Logs rf @ [\<lparr>GlobalIndex = lastIndex rf + 1,
                               Term = CurrentTerm rf, Command = command\<rparr>],
               nextIndex := (nextIndex rf)[nat (me rf) := lastIndex rf + 2],
               matchIndex := (matchIndex rf)[nat (me rf) := lastIndex rf + 1]\<rparr>)"
      "res = (lastIndex rf + 1, CurrentTerm rf, True)" "effs = [GoFastBroadCastNewCommand]"
  using assms
  by (auto simp: Start_def Let_def slice_set_def lastIndex_def logIdxLocal2Global_def
      algebra_simps split: if_splits)

lemma Start_passive: "Start rf command = Some (rf', res, effs) \<Longrightarrow> passive_step rf rf'"
  by (erule Start_cases) (auto simp: passive_step_def)

lemma Start_durable:
  "Start rf command = Some (rf', res, effs) \<Longrightarrow> durable rf \<Longrightarrow> durable rf'"
  by (erule Start_cases) auto

lemma Start_wf: "Start rf command = Some (rf', res, effs) \<Longrightarrow> raft_wf rf \<Longrightarrow> raft_wf rf'"
  by (erule Start_cases) (auto simp: raft_wf_def lastIndex_def)

lemma Start_total: "raft_wf rf \<Longrightarrow> Start rf command \<noteq> None"
  by (auto simp: Start_def Let_def slice_set_def raft_wf_def len_def)

lemma Compact_cases [consumes 1, case_names ignored compacted]:
  assumes "Compact rf idx snap = Some rf'"
  obtains "idx \<le> SnapshotIndex rf \<or> lastIndex rf < idx" "rf' = rf"
  | e rf1 where "SnapshotIndex rf < idx" "idx \<le> lastIndex rf" "entryAt rf idx = Some e"
      "rf1 = rf\<lparr>Logs := \<lparr>GlobalIndex = idx, Term = Term e, Command = None\<rparr> #
                         drop (nat (idx - SnapshotIndex rf + 1)) (Logs rf),
               SnapshotIndex := idx\<rparr>"
      "rf' = rf1\<lparr>persister := \<lparr>raftstate = encodeState rf1, snapshot = snap\<rparr>\<rparr>"
proof (cases "idx \<le> SnapshotIndex rf \<or> lastIndex rf < idx")
  case True
  with assms show ?thesis
    by (intro that(1))
       (auto simp: Compact_def Let_def lastIndex_def logIdxGlobal2Local_def split: if_splits)
next
  case False
  have d: "drop (nat (1 + idx - SnapshotIndex rf)) (Logs rf) = []"
    if "\<not> idx - SnapshotIndex rf < len (Logs rf) - 1"
    using that False by (simp add: len_def)
  from False have "idx - SnapshotIndex rf < len (Logs rf)" by (simp add: lastIndex_def)
  with False assms show ?thesis
    by (intro that(2) [of "Logs rf ! nat (idx - SnapshotIndex rf)"])
       (auto simp: Compact_def Let_def lastIndex_def logIdxGlobal2Local_def slice_get_def
         slice_from_def entryAt_def SaveStateAndSnapshot_eq d algebra_simps split: if_splits)
qed

lemma Compact_passive: "Compact rf idx snap = Some rf' \<Longrightarrow> passive_step rf rf'"
  by (erule Compact_cases) (auto simp: passive_step_def)

lemma Compact_durable: "Compact rf idx snap = Some rf' \<Longrightarrow> durable rf \<Longrightarrow> durable rf'"
  by (erule Compact_cases) (auto intro: durable_SaveStateAndSnapshot)

lemma Compact_wf:
  assumes "Compact rf idx snap = Some rf'" "raft_wf rf" shows "raft_wf rf'"
  using assms(1)
proof (cases rule: Compact_cases)
  case (compacted e rf1)
  have "indexed_from (SnapshotIndex rf + int (nat (idx - SnapshotIndex rf + 1)))
      (drop (nat (idx - SnapshotIndex rf + 1)) (Logs rf))"
    using assms(2) compacted(1,2)
    by (intro indexed_from_drop) (auto simp: raft_wf_def lastIndex_def len_def nat_le_iff)
  with compacted assms(2) show ?thesis
    by (auto simp: raft_wf_def algebra_simps)
qed (use assms(2) in simp)

lemma Compact_total: "raft_wf rf \<Longrightarrow> Compact rf idx snap \<noteq> None"
  by (auto simp: Compact_def Let_def logIdxGlobal2Local_def slice_get_def slice_from_def)

end
