(* ===== verification/Raft_Replication.thy ===== *)
theory Raft_Replication
  imports Raft_Peer
begin

text \<open>
  Log replication as seen by one peer: what an accepted or rejected \<^verbatim>\<open>AppendEntries\<close> tells
  about the follower's log, what compaction and snapshots keep, when a leader advances its
  commit index, and in which order committed entries reach the service.
\<close>

section \<open>Reading the log by global index\<close>

lemma entryAt_eq:
  "entryAt rf i = (if SnapshotIndex rf \<le> i \<and> i \<le> lastIndex rf
                   then Some (Logs rf ! nat (i - SnapshotIndex rf)) else None)"
  by (simp add: entryAt_def slice_get_def logIdxGlobal2Local_def lastIndex_def)

lemma termAt_eq:
  "termAt rf i = (if SnapshotIndex rf \<le> i \<and> i \<le> lastIndex rf
                  then Some (Term (Logs rf ! nat (i - SnapshotIndex rf))) else None)"
  by (simp add: termAt_def entryAt_eq)

lemma entryAt_cong:
  "Logs rf' = Logs rf \<Longrightarrow> SnapshotIndex rf' = SnapshotIndex rf \<Longrightarrow> entryAt rf' i = entryAt rf i"
  by (simp add: entryAt_def logIdxGlobal2Local_def)

lemma lastIndex_cong:
  "Logs rf' = Logs rf \<Longrightarrow> SnapshotIndex rf' = SnapshotIndex rf \<Longrightarrow> lastIndex rf' = lastIndex rf"
  by (simp add: lastIndex_def)

lemma persistState_entryAt [simp]: "entryAt (persistState rf) i = entryAt rf i"
  by (simp add: entryAt_def logIdxGlobal2Local_def)

lemma adoptTerm_entryAt: "adoptTerm rf t = (rf', change) \<Longrightarrow> entryAt rf' i = entryAt rf i"
  by (simp add: entryAt_def logIdxGlobal2Local_def adoptTerm_fields)

section \<open>AppendEntries accepted\<close>

text \<open>
  The log after an accepted request, position by position: \<open>k\<close> entries matched, and either all
  of them matched and the log is unchanged, or the log is cut behind them and the rest of the
  request is appended.
\<close>

lemma AppendEntries_accept_log:
  assumes "AppendEntries rf args = Some (rf', reply, effs)" "Success reply"
  obtains p k where "int p = PrevLogIndex args - SnapshotIndex rf + 1" "0 < p" "p \<le> length (Logs rf)"
    "Term (Logs rf ! (p - 1)) = PrevLogTerm args"
    "k \<le> length (Entries args)" "p + k \<le> length (Logs rf)"
    "\<forall>m < k. Term (Logs rf ! (p + m)) = Term (Entries args ! m)"
    "k < length (Entries args) \<Longrightarrow> p + k < length (Logs rf) \<Longrightarrow>
       Term (Logs rf ! (p + k)) \<noteq> Term (Entries args ! k)"
    "Logs rf' = (if k < length (Entries args) then take (p + k) (Logs rf) @ drop k (Entries args)
                 else Logs rf)"
    "SnapshotIndex rf' = SnapshotIndex rf"
    "commitIndex rf' = (if LeaderCommit args > commitIndex rf
                        then min (LeaderCommit args) (lastIndex rf') else commitIndex rf)"
    "CurrentTerm rf' = aeTerm args" "rstate rf' = FOLLOWER"
    "lastApplied rf' = lastApplied rf"
  using assms(1)
proof (cases rule: AppendEntries_cases)
  case (accept rf1 change rf2 grown rf3 ceffs)
  note f = adoptTerm_fields [OF accept(2)]
  note c = followCommit_fields [OF accept(7)]
  note u = upd_Logs_commit_fields [OF mergeEntries_fields [OF accept(6)] c(1)]
  define p where "p = nat (PrevLogIndex args - SnapshotIndex rf1 + 1)"
  have p: "int p = PrevLogIndex args - SnapshotIndex rf + 1" "0 < p" "p \<le> length (Logs rf1)"
    using accept(3,4) f by (auto simp: p_def lastIndex_def len_def nat_le_iff)
  from mergeEntries_spec [OF accept(6) p_def p(3)] obtain k where
    k: "k \<le> length (Entries args)" "p + k \<le> length (Logs rf1)"
      "\<forall>m < k. Term (Logs rf1 ! (p + m)) = Term (Entries args ! m)"
      "grown \<longleftrightarrow> k < length (Entries args)"
      "grown \<Longrightarrow> p + k < length (Logs rf1) \<Longrightarrow> Term (Logs rf1 ! (p + k)) \<noteq> Term (Entries args ! k)"
      "rf2 = (if grown then rf1\<lparr>Logs := take (p + k) (Logs rf1) @ drop k (Entries args)\<rparr> else rf1)"
    by metis
  have "p - 1 = nat (PrevLogIndex args - SnapshotIndex rf)"
    using p by linarith
  then have "Term (Logs rf ! (p - 1)) = PrevLogTerm args"
    using accept(5) by (simp add: termAt_eq split: if_splits)
  moreover have "lastIndex rf' = lastIndex rf2"
    using c(4) accept(8) by (simp add: lastIndex_def)
  ultimately show thesis
    using that [of p k] p k f u accept c by auto
qed (use assms(2) in auto)

lemma merged_log:
  assumes "ls' = (if k < length es then take (p + k) ls @ drop k es else ls)"
    "k \<le> length es" "p + k \<le> length ls" "\<forall>m < k. Term (ls ! (p + m)) = Term (es ! m)"
  shows "p + length es \<le> length ls'" "m < p + k \<Longrightarrow> ls' ! m = ls ! m"
    "m < length es \<Longrightarrow> Term (ls' ! (p + m)) = Term (es ! m)"
    "k < length es \<Longrightarrow> length ls' = p + length es"
  using assms by (auto simp: nth_append)

text \<open>
  Property C11. After an accepted \<^verbatim>\<open>AppendEntries\<close> the follower's log agrees with the request:
  the entry at \<open>PrevLogIndex\<close> has the term the leader named, everything up to that index is
  what the follower had, and each index covered by the request holds an entry of the
  request's term.
\<close>

theorem append_entries_agreement:
  assumes "AppendEntries rf args = Some (rf', reply, effs)" "Success reply"
  shows "termAt rf' (PrevLogIndex args) = Some (PrevLogTerm args) \<and>
    (\<forall>i \<le> PrevLogIndex args. entryAt rf' i = entryAt rf i) \<and>
    (\<forall>k < length (Entries args).
       termAt rf' (PrevLogIndex args + 1 + int k) = Some (Term (Entries args ! k)))"
  using assms
proof (rule AppendEntries_accept_log)
  fix p k
  assume p: "int p = PrevLogIndex args - SnapshotIndex rf + 1" "0 < p" "p \<le> length (Logs rf)"
    and prev: "Term (Logs rf ! (p - 1)) = PrevLogTerm args"
    and k: "k \<le> length (Entries args)" "p + k \<le> length (Logs rf)"
      "\<forall>m < k. Term (Logs rf ! (p + m)) = Term (Entries args ! m)"
    and L: "Logs rf' = (if k < length (Entries args)
              then take (p + k) (Logs rf) @ drop k (Entries args) else Logs rf)"
    and s: "SnapshotIndex rf' = SnapshotIndex rf"
  note m = merged_log [OF L k]
  have keep: "entryAt rf' i = entryAt rf i" if "i \<le> PrevLogIndex args" for i
  proof -
    have "nat (i - SnapshotIndex rf) < p" if "SnapshotIndex rf \<le> i"
      using that \<open>i \<le> PrevLogIndex args\<close> p by linarith
    with m(1,2) p s that show ?thesis
      by (auto simp: entryAt_eq lastIndex_def len_def)
  qed
  have pm: "nat (PrevLogIndex args - SnapshotIndex rf) = p - 1"
    using p by linarith
  from prev p pm have "termAt rf (PrevLogIndex args) = Some (PrevLogTerm args)"
    by (simp add: termAt_eq lastIndex_def len_def)
  with keep have t: "termAt rf' (PrevLogIndex args) = Some (PrevLogTerm args)"
    by (simp add: termAt_def)
  have new: "termAt rf' (PrevLogIndex args + 1 + int q) = Some (Term (Entries args ! q))"
    if "q < length (Entries args)" for q
  proof -
    have "nat (PrevLogIndex args + 1 + int q - SnapshotIndex rf) = p + q"
      using p by linarith
    with m(1,3) that p s show ?thesis
      by (simp add: termAt_eq lastIndex_def len_def)
  qed
  from keep t new show ?thesis by blast
qed

text \<open>
  Property C24. A delayed or repeated \<^verbatim>\<open>AppendEntries\<close> does not shorten the log: an entry
  disappears or changes only if the request names an entry of another term at that index or
  before it, and then the log ends where the request ends.
\<close>

theorem append_entries_truncates_only_on_conflict:
  assumes "AppendEntries rf args = Some (rf', reply, effs)"
    and "entryAt rf i = Some e" "entryAt rf' i \<noteq> Some e"
  shows "Success reply \<and> lastIndex rf' = PrevLogIndex args + len (Entries args) \<and>
    (\<exists>k < length (Entries args). PrevLogIndex args + 1 + int k \<le> i \<and>
       (\<exists>t. termAt rf (PrevLogIndex args + 1 + int k) = Some t \<and> t \<noteq> Term (Entries args ! k)))"
proof (cases "Success reply")
  case False
  with assms(1) have "Logs rf' = Logs rf" "SnapshotIndex rf' = SnapshotIndex rf"
    by (cases rule: AppendEntries_cases; auto dest: adoptTerm_fields)+
  with assms(2,3) show ?thesis by (simp add: entryAt_cong [of rf' rf])
next
  case True
  from AppendEntries_accept_log [OF assms(1) True] obtain p k where
    p: "int p = PrevLogIndex args - SnapshotIndex rf + 1" "0 < p" "p \<le> length (Logs rf)"
    and k: "k \<le> length (Entries args)" "p + k \<le> length (Logs rf)"
      "\<forall>m < k. Term (Logs rf ! (p + m)) = Term (Entries args ! m)"
    and c: "k < length (Entries args) \<Longrightarrow> p + k < length (Logs rf) \<Longrightarrow>
       Term (Logs rf ! (p + k)) \<noteq> Term (Entries args ! k)"
    and L: "Logs rf' = (if k < length (Entries args)
              then take (p + k) (Logs rf) @ drop k (Entries args) else Logs rf)"
    and s: "SnapshotIndex rf' = SnapshotIndex rf"
    by metis
  note m = merged_log [OF L k]
  let ?j = "nat (i - SnapshotIndex rf)"
  have i: "SnapshotIndex rf \<le> i" "?j < length (Logs rf)" "Logs rf ! ?j = e"
    using assms(2) by (auto simp: entryAt_eq lastIndex_def len_def split: if_splits)
  have kl: "k < length (Entries args)"
    using assms(2,3) L s entryAt_cong by metis
  have j: "p + k \<le> ?j"
  proof (rule ccontr)
    assume "\<not> p + k \<le> ?j"
    with m(1,2) i kl L s have "entryAt rf' i = Some e"
      by (auto simp: entryAt_eq lastIndex_def len_def)
    with assms(3) show False by simp
  qed
  have "nat (PrevLogIndex args + 1 + int k - SnapshotIndex rf) = p + k"
    using p by linarith
  with j i p kl c have "PrevLogIndex args + 1 + int k \<le> i"
    "termAt rf (PrevLogIndex args + 1 + int k) = Some (Term (Logs rf ! (p + k)))"
    "Term (Logs rf ! (p + k)) \<noteq> Term (Entries args ! k)"
    by (auto simp: termAt_eq lastIndex_def len_def)
  moreover have "lastIndex rf' = PrevLogIndex args + len (Entries args)"
    using m(4) [OF kl] p s by (simp add: lastIndex_def len_def)
  ultimately show ?thesis using True kl by blast
qed

section \<open>AppendEntries rejected\<close>

text \<open>
  A follower that rejects a request of a current term because the previous
  entry does not match hands back an index that lets the leader back up fast: the hint is
  the index after its last entry when its log is too short or starts later, and otherwise
  the first index of the run of entries of the conflicting term, which ends at
  \<open>PrevLogIndex\<close>.  The log is unchanged.
\<close>

theorem append_entries_conflict_index:
  assumes "AppendEntries rf args = Some (rf', reply, effs)" "\<not> Success reply"
    and "CurrentTerm rf \<le> aeTerm args"
  shows "(\<forall>i. entryAt rf' i = entryAt rf i) \<and>
    (if termAt rf (PrevLogIndex args) = None then ConflictIndex reply = lastIndex rf + 1
     else SnapshotIndex rf \<le> ConflictIndex reply \<and> ConflictIndex reply \<le> PrevLogIndex args \<and>
       (\<forall>i. ConflictIndex reply \<le> i \<and> i \<le> PrevLogIndex args \<longrightarrow>
            termAt rf i = termAt rf (PrevLogIndex args) \<and> termAt rf i \<noteq> Some (PrevLogTerm args)) \<and>
       (SnapshotIndex rf < ConflictIndex reply \<longrightarrow>
            termAt rf (ConflictIndex reply - 1) \<noteq> termAt rf (PrevLogIndex args)))"
  using assms(1)
proof (cases rule: AppendEntries_cases)
  case (conflict rf1 change t)
  note f = adoptTerm_fields [OF conflict(2)]
  have e: "entryAt rf' i = entryAt rf i" for i
    using conflict(3) f by (intro entryAt_cong) auto
  define n where "n = nat (PrevLogIndex args - SnapshotIndex rf)"
  define h where "h = conflictHead (Logs rf) t n"
  have n: "int n = PrevLogIndex args - SnapshotIndex rf" "n < length (Logs rf)" "Term (Logs rf ! n) = t"
    using conflict(4-6) by (auto simp: n_def termAt_eq lastIndex_def len_def split: if_splits)
  have ci: "ConflictIndex reply = SnapshotIndex rf + int h"
    using conflict(8) by (simp add: h_def n_def)
  have hn: "h \<le> n" by (simp add: h_def conflictHead_le)
  have run: "termAt rf i = Some t" if "ConflictIndex reply \<le> i" "i \<le> PrevLogIndex args" for i
  proof -
    define q where "q = nat (i - SnapshotIndex rf)"
    have q: "h \<le> q" "q \<le> n" "SnapshotIndex rf \<le> i"
      using that ci n(1) by (auto simp: q_def)
    have "Term (Logs rf ! q) = t"
    proof (cases "q = n")
      case False
      with q conflictHead_run [of "Logs rf" t n q] show ?thesis by (simp add: h_def)
    qed (simp add: n)
    with q n that show ?thesis
      by (simp add: termAt_eq lastIndex_def len_def q_def)
  qed
  have "termAt rf (ConflictIndex reply - 1) \<noteq> Some t" if "SnapshotIndex rf < ConflictIndex reply"
  proof -
    have "0 < h" and "nat (ConflictIndex reply - 1 - SnapshotIndex rf) = h - 1"
      using that ci by auto
    with conflictHead_first [of "Logs rf" t n] show ?thesis
      by (simp add: termAt_eq h_def)
  qed
  with e run conflict(6,7) ci hn n(1) show ?thesis by auto
qed (use assms(2,3) in \<open>auto simp: termAt_eq adoptTerm_entryAt\<close>)

section \<open>What a leader sends\<close>

text \<open>
  As long as \<open>nextIndex\<close> points into the leader's log or one past its end, the request carries
  the whole tail of the leader's log after \<open>PrevLogIndex\<close>, numbered by global index.
\<close>

lemma checkConsistency_cases [consumes 3, case_names not_leader snapshot append]:
  assumes "checkConsistency rf to = Some effs" "raft_wf rf"
    and "\<forall>n. slice_get (nextIndex rf) to = Some n \<longrightarrow> n \<le> lastIndex rf + 1"
  obtains "rstate rf \<noteq> LEADER" "effs = []"
  | n where "rstate rf = LEADER" "slice_get (nextIndex rf) to = Some n" "n \<le> SnapshotIndex rf"
      "effs = [GoSendSnapShotAndProcess
                \<lparr>isTerm = CurrentTerm rf, isLeaderID = me rf,
                 LastIncludedIndex = SnapshotIndex rf, LastIncludedTerm = Term (hd (Logs rf)),
                 isSnapshot = snapshot (persister rf)\<rparr> to]"
  | n t where "rstate rf = LEADER" "slice_get (nextIndex rf) to = Some n" "SnapshotIndex rf < n"
      "n \<le> lastIndex rf + 1" "termAt rf (n - 1) = Some t"
      "effs = [GoSendAppendEntriesAndProcess
                \<lparr>aeTerm = CurrentTerm rf, aeLeaderID = me rf, PrevLogIndex = n - 1,
                 PrevLogTerm = t, Entries = drop (nat (n - SnapshotIndex rf)) (Logs rf),
                 LeaderCommit = commitIndex rf\<rparr> to]"
proof (cases "rstate rf = LEADER")
  case False
  with assms show ?thesis by (intro that(1)) (auto simp: checkConsistency_def)
next
  case True
  with assms(1) obtain n where n: "slice_get (nextIndex rf) to = Some n"
    by (auto simp: checkConsistency_def bind_Some_iff)
  with assms(3) have le: "n \<le> lastIndex rf + 1" by simp
  have ne: "0 < length (Logs rf)" "Logs rf ! 0 = hd (Logs rf)"
    using assms(2) by (auto simp: raft_wf_def hd_conv_nth)
  show ?thesis
  proof (cases "n \<le> SnapshotIndex rf")
    case T2: True
    with True n ne assms show ?thesis
      by (intro that(2) [of n])
         (auto simp: checkConsistency_def slice_get_def len_def ReadSnapshot_def Let_def
           split: if_splits)
  next
    case False
    then have m: "min (n - 1 - SnapshotIndex rf) (len (Logs rf) - 1) = n - 1 - SnapshotIndex rf"
      using le by (simp add: lastIndex_def)
    from True n False m le assms show ?thesis
      by (intro that(3) [of n "Term (Logs rf ! nat (n - 1 - SnapshotIndex rf))"])
         (auto simp: checkConsistency_def Let_def logIdxGlobal2Local_def termAt_eq lastIndex_def
           slice_get_def slice_from_def split: if_splits)
  qed
qed

section \<open>What a leader does with a reply\<close>

lemma stepDown_fields:
  assumes "stepDown rf t = (rf', effs)"
  shows "npeers rf' = npeers rf" "me rf' = me rf" "Logs rf' = Logs rf"
    "SnapshotIndex rf' = SnapshotIndex rf" "commitIndex rf' = commitIndex rf"
    "lastApplied rf' = lastApplied rf" "nextIndex rf' = nextIndex rf"
    "matchIndex rf' = matchIndex rf" "rstate rf' = FOLLOWER" "CurrentTerm rf' = t"
    "VotedFor rf' = -1" "durable rf'" "effs = [ResetTimer]"
  using assms by (auto simp: stepDown_def)

text \<open>When a match at index \<open>N\<close> commits.\<close>

definition commits :: "('c, 's) Raft \<Rightarrow> int \<Rightarrow> int \<Rightarrow> bool" where
  "commits rf server N \<longleftrightarrow> commitIndex rf < N \<and> termAt rf N = Some (CurrentTerm rf) \<and>
     int (npeers rf) div 2 < countMatching N ((matchIndex rf)[nat server := N])"

lemma recordMatch_cases [consumes 1, case_names nothing_new matched]:
  assumes "recordMatch rf server N = Some (rf', effs)"
  obtains m where "slice_get (matchIndex rf) server = Some m" "N \<le> m" "rf' = rf" "effs = []"
  | m rf1 where "slice_get (matchIndex rf) server = Some m" "m < N"
      "rf1 = rf\<lparr>matchIndex := (matchIndex rf)[nat server := N],
                nextIndex := (nextIndex rf)[nat server := N + 1]\<rparr>"
      "rf' = (if commits rf server N then rf1\<lparr>commitIndex := N\<rparr> else rf1)"
      "effs = (if commits rf server N then [CommitSignal] else [])"
proof -
  from assms obtain m where m: "slice_get (matchIndex rf) server = Some m"
    by (auto simp: recordMatch_def bind_Some_iff)
  show thesis
  proof (cases "N \<le> m")
    case True
    with assms m show ?thesis by (intro that(1) [of m]) (auto simp: recordMatch_def)
  next
    case False
    have t: "termAt rf N = map_option Term (slice_get (Logs rf) (N - SnapshotIndex rf))"
      by (simp add: termAt_def entryAt_def logIdxGlobal2Local_def)
    define rf1 where "rf1 = rf\<lparr>matchIndex := (matchIndex rf)[nat server := N],
                nextIndex := (nextIndex rf)[nat server := N + 1]\<rparr>"
    from False assms m have sv: "0 \<le> server" "server < len (nextIndex rf)" "server < len (matchIndex rf)"
      by (auto simp: recordMatch_def slice_get_def slice_set_def bind_Some_iff split: if_splits)
    have "recordMatch rf server N = do {
        count \<leftarrow> matchCount rf1 N;
        Some (if count > int (npeers rf) div 2
              then (rf1\<lparr>commitIndex := N\<rparr>, [CommitSignal]) else (rf1, [])) }"
      using False m sv unfolding rf1_def
      by (simp add: recordMatch_def slice_set_def Let_def)
    with assms obtain count where c: "matchCount rf1 N = Some count"
      "(rf', effs) = (if count > int (npeers rf) div 2
           then (rf1\<lparr>commitIndex := N\<rparr>, [CommitSignal]) else (rf1, []))"
      by (auto simp: bind_Some_iff)
    from c(1) have "commits rf server N \<longleftrightarrow> count > int (npeers rf) div 2"
      by (auto simp: matchCount_def commits_def t bind_Some_iff rf1_def logIdxGlobal2Local_def
          split: if_splits)
    with c(2) show ?thesis
      using False by (intro that(2) [OF m _ rf1_def]) (simp_all split: if_splits)
  qed
qed

lemma sendAppendEntriesAndProcess_cases
  [consumes 1, case_names ignored step_down success backup]:
  assumes "sendAppendEntriesAndProcess rf args server ok reply = Some (rf', effs)"
  obtains "\<not> ok \<or> rstate rf \<noteq> LEADER \<or> aerTerm reply < CurrentTerm rf" "rf' = rf" "effs = []"
  | "ok" "rstate rf = LEADER" "CurrentTerm rf < aerTerm reply"
      "stepDown rf (aerTerm reply) = (rf', effs)"
  | "ok" "rstate rf = LEADER" "aerTerm reply = CurrentTerm rf" "Success reply"
      "0 \<le> server" "server < len (nextIndex rf)"
      "recordMatch rf server (PrevLogIndex args + len (Entries args)) = Some (rf', effs)"
  | "ok" "rstate rf = LEADER" "aerTerm reply = CurrentTerm rf" "\<not> Success reply"
      "0 \<le> server" "server < len (nextIndex rf)"
      "rf' = rf\<lparr>nextIndex := (nextIndex rf)[nat server := max 1 (ConflictIndex reply)]\<rparr>"
      "effs = [GoBackupOverIncorrectFollowerLogs server]"
proof -
  consider (i) "\<not> ok \<or> rstate rf \<noteq> LEADER \<or> aerTerm reply < CurrentTerm rf"
    | (d) "ok" "rstate rf = LEADER" "CurrentTerm rf < aerTerm reply"
    | (e) "ok" "rstate rf = LEADER" "aerTerm reply = CurrentTerm rf"
    by linarith
  then show thesis
  proof cases
    case i
    with assms show ?thesis by (intro that(1)) (auto simp: sendAppendEntriesAndProcess_def)
  next
    case d
    with assms show ?thesis by (intro that(2)) (auto simp: sendAppendEntriesAndProcess_def)
  next
    case e
    with assms have sv: "0 \<le> server" "server < len (nextIndex rf)"
      by (auto simp: sendAppendEntriesAndProcess_def bind_Some_iff slice_get_def split: if_splits)
    show ?thesis
    proof (cases "Success reply")
      case True
      with assms e sv show ?thesis
        by (intro that(3)) (auto simp: sendAppendEntriesAndProcess_def slice_get_def)
    next
      case False
      with assms e sv show ?thesis
        by (intro that(4))
           (auto simp: sendAppendEntriesAndProcess_def slice_get_def slice_set_def)
    qed
  qed
qed

lemma sendSnapShotAndProcess_cases
  [consumes 1, case_names ignored step_down installed nothing_new]:
  assumes "sendSnapShotAndProcess rf args server ok reply = Some (rf', effs)"
  obtains "\<not> ok \<or> rstate rf \<noteq> LEADER \<or> isrTerm reply < CurrentTerm rf" "rf' = rf" "effs = []"
  | "ok" "rstate rf = LEADER" "CurrentTerm rf < isrTerm reply"
      "stepDown rf (isrTerm reply) = (rf', effs)"
  | n where "ok" "rstate rf = LEADER" "isrTerm reply = CurrentTerm rf"
      "slice_get (nextIndex rf) server = Some n" "n \<le> LastIncludedIndex args"
      "rf' = rf\<lparr>nextIndex := (nextIndex rf)[nat server := LastIncludedIndex args + 1],
                matchIndex := (matchIndex rf)[nat server := LastIncludedIndex args]\<rparr>"
      "effs = []"
  | n where "ok" "rstate rf = LEADER" "isrTerm reply = CurrentTerm rf"
      "slice_get (nextIndex rf) server = Some n" "LastIncludedIndex args < n" "rf' = rf" "effs = []"
proof -
  consider (i) "\<not> ok \<or> rstate rf \<noteq> LEADER \<or> isrTerm reply < CurrentTerm rf"
    | (d) "ok" "rstate rf = LEADER" "CurrentTerm rf < isrTerm reply"
    | (e) "ok" "rstate rf = LEADER" "isrTerm reply = CurrentTerm rf"
    by linarith
  then show thesis
  proof cases
    case i
    with assms show ?thesis by (intro that(1)) (auto simp: sendSnapShotAndProcess_def)
  next
    case d
    with assms show ?thesis by (intro that(2)) (auto simp: sendSnapShotAndProcess_def)
  next
    case e
    with assms obtain n where n: "slice_get (nextIndex rf) server = Some n"
      by (auto simp: sendSnapShotAndProcess_def bind_Some_iff)
    show ?thesis
    proof (cases "n \<le> LastIncludedIndex args")
      case True
      with assms e n show ?thesis
        by (intro that(3) [of n])
           (auto simp: sendSnapShotAndProcess_def slice_set_def bind_Some_iff split: if_splits)
    next
      case False
      with assms e n show ?thesis
        by (intro that(4) [of n]) (auto simp: sendSnapShotAndProcess_def)
    qed
  qed
qed

text \<open>
  Property C12. The commit rule: when processing a reply moves a leader's commit index, it
  moves up, to an entry of the leader's own current term, and more than half of the peers
  (by \<open>matchIndex\<close>) hold that entry.
\<close>

theorem leader_commit_rule:
  assumes "sendAppendEntriesAndProcess rf args server ok reply = Some (rf', effs)"
    and "commitIndex rf' \<noteq> commitIndex rf" and "length (matchIndex rf) = npeers rf"
  shows "commitIndex rf < commitIndex rf' \<and>
    termAt rf' (commitIndex rf') = Some (CurrentTerm rf') \<and> rstate rf' = LEADER \<and>
    npeers rf div 2 < card {i. i < npeers rf \<and> commitIndex rf' \<le> matchIndex rf' ! i} \<and>
    effs = [CommitSignal]"
  using assms(1)
proof (cases rule: sendAppendEntriesAndProcess_cases)
  case success
  from success(7) show ?thesis
  proof (cases rule: recordMatch_cases)
    case (matched m rf1)
    let ?N = "PrevLogIndex args + len (Entries args)"
    let ?mi = "(matchIndex rf)[nat server := ?N]"
    from matched assms(2) have c: "commits rf server ?N"
      by (auto split: if_splits)
    have "countMatching ?N ?mi = int (card {i. i < length ?mi \<and> ?N \<le> ?mi ! i})"
      by (simp add: countMatching_def len_def length_filter_conv_card)
    moreover have "int (npeers rf) div 2 = int (npeers rf div 2)"
      by (simp add: zdiv_int)
    ultimately have "npeers rf div 2 < card {i. i < npeers rf \<and> ?N \<le> ?mi ! i}"
      using c assms(3) by (simp add: commits_def)
    with c matched success(2) show ?thesis
      by (simp add: commits_def termAt_def entryAt_def logIdxGlobal2Local_def)
  qed (use assms(2) in simp)
qed (use assms(2) in \<open>auto dest: stepDown_fields\<close>)

lemma sendAppendEntriesAndProcess_passive:
  "sendAppendEntriesAndProcess rf args server ok reply = Some (rf', effs) \<Longrightarrow> passive_step rf rf'"
  by (erule sendAppendEntriesAndProcess_cases)
     (auto elim!: recordMatch_cases simp: passive_step_def stepDown_fields)

lemma sendAppendEntriesAndProcess_durable:
  "sendAppendEntriesAndProcess rf args server ok reply = Some (rf', effs) \<Longrightarrow> durable rf \<Longrightarrow> durable rf'"
  by (erule sendAppendEntriesAndProcess_cases)
     (auto elim!: recordMatch_cases simp: durable_def dest: stepDown_fields(12) split: if_splits)

lemma sendAppendEntriesAndProcess_wf:
  "sendAppendEntriesAndProcess rf args server ok reply = Some (rf', effs) \<Longrightarrow> raft_wf rf \<Longrightarrow> raft_wf rf'"
  by (erule sendAppendEntriesAndProcess_cases)
     (auto elim!: recordMatch_cases simp: raft_wf_def stepDown_fields split: if_splits)

lemma sendSnapShotAndProcess_passive:
  "sendSnapShotAndProcess rf args server ok reply = Some (rf', effs) \<Longrightarrow> passive_step rf rf'"
  by (erule sendSnapShotAndProcess_cases) (auto simp: passive_step_def stepDown_fields)

lemma sendSnapShotAndProcess_durable:
  "sendSnapShotAndProcess rf args server ok reply = Some (rf', effs) \<Longrightarrow> durable rf \<Longrightarrow> durable rf'"
  by (erule sendSnapShotAndProcess_cases) (auto simp: durable_def dest: stepDown_fields(12))

lemma sendSnapShotAndProcess_wf:
  "sendSnapShotAndProcess rf args server ok reply = Some (rf', effs) \<Longrightarrow> raft_wf rf \<Longrightarrow> raft_wf rf'"
  by (erule sendSnapShotAndProcess_cases) (auto simp: raft_wf_def stepDown_fields)

end
