(* ===== verification/Raft_Snapshot.thy ===== *)
theory Raft_Snapshot
  imports Raft_Replication
begin

text \<open>
  Compaction, snapshots and the delivery of committed entries: what \<^verbatim>\<open>Compact\<close> and
  \<^verbatim>\<open>InstallSnapShot\<close> keep of the log, and that \<^verbatim>\<open>applyLogEntryDaemon\<close> hands over every
  committed entry that no snapshot covers exactly once and in order.
\<close>

section \<open>Compaction\<close>

lemma nth_drop_global:
  assumes "ls \<noteq> []" "0 \<le> a" "a < len ls" "a < i" "i < len ls"
  shows "(x # drop (nat (a + 1)) ls) ! nat (i - a) = ls ! nat i"
proof -
  have "nat (i - a) = Suc (nat (i - a - 1))" using assms by linarith
  moreover have "nat (a + 1) + nat (i - a - 1) = nat i" using assms by linarith
  moreover have "nat (a + 1) \<le> length ls" using assms by (simp add: len_def)
  ultimately show ?thesis by simp
qed

text \<open>
  Property C25. Compacting the log at an index the peer holds keeps the term at that index and
  every later entry, moves the start of the log there, leaves the last index where it was,
  and saves the new state together with the snapshot in one write.
\<close>

theorem compact_keeps_suffix:
  assumes "raft_wf rf" "Compact rf idx snap = Some rf'"
    and "SnapshotIndex rf < idx" "idx \<le> lastIndex rf"
  shows "SnapshotIndex rf' = idx \<and> lastIndex rf' = lastIndex rf \<and>
    termAt rf' idx = termAt rf idx \<and> (\<forall>i > idx. entryAt rf' i = entryAt rf i) \<and>
    snapshot (persister rf') = snap \<and> durable rf'"
  using assms(2)
proof (cases rule: Compact_cases)
  case (compacted e rf1)
  let ?a = "idx - SnapshotIndex rf"
  have a: "0 \<le> ?a" "?a < len (Logs rf)"
    using assms(3,4) by (auto simp: lastIndex_def)
  have l: "lastIndex rf' = lastIndex rf"
    using a compacted(4,5) by (simp add: lastIndex_def len_def)
  have "entryAt rf' i = entryAt rf i" if "i > idx" for i
  proof (cases "i \<le> lastIndex rf")
    case True
    have "Logs rf' ! nat (i - idx) = Logs rf ! nat (i - SnapshotIndex rf)"
      using nth_drop_global [of "Logs rf" ?a "i - SnapshotIndex rf"] a that True assms(1)
        compacted(4,5)
      by (simp add: raft_wf_def lastIndex_def)
    with True l that assms(3) compacted(4,5) show ?thesis
      by (simp add: entryAt_eq)
  next
    case False
    with l show ?thesis by (simp add: entryAt_eq)
  qed
  moreover have "termAt rf' idx = termAt rf idx"
    using compacted(3-5) l assms(4) by (simp add: termAt_def) (simp add: entryAt_eq)
  moreover have "durable rf'"
    using compacted(4,5) by (intro durable_SaveStateAndSnapshot) simp
  ultimately show ?thesis using l compacted(4,5) by simp
qed (use assms(3,4) in auto)

section \<open>Installing a snapshot\<close>

text \<open>
  Property C26. A snapshot that reaches behind both the peer's snapshot and its commit index
  replaces the log up to its last included index.  The entries after it survive exactly when
  the peer's entry at that index has the snapshot's term; otherwise the log is discarded.
  The state and the snapshot are saved together, and the snapshot is handed to the service.
\<close>

theorem install_snapshot_effect:
  assumes "raft_wf rf" "InstallSnapShot rf args = Some (rf', reply, effs)"
    and "CurrentTerm rf \<le> isTerm args"
    and "SnapshotIndex rf < LastIncludedIndex args" "commitIndex rf < LastIncludedIndex args"
  shows "SnapshotIndex rf' = LastIncludedIndex args \<and>
    termAt rf' (LastIncludedIndex args) = Some (LastIncludedTerm args) \<and>
    (\<forall>i > LastIncludedIndex args. entryAt rf' i =
       (if termAt rf (LastIncludedIndex args) = Some (LastIncludedTerm args)
        then entryAt rf i else None)) \<and>
    snapshot (persister rf') = isSnapshot args \<and> durable rf' \<and>
    commitIndex rf' = commitIndex rf \<and> lastApplied rf' = lastApplied rf \<and>
    effs = ResetTimer # notifyAppUseNewSnapShot (isSnapshot args)"
  using assms(2,1)
proof (cases rule: InstallSnapShot_cases)
  case (install rf1 change rest rf2)
  note f = adoptTerm_fields [OF install(2)]
  let ?L = "LastIncludedIndex args"
  let ?keep = "termAt rf ?L = Some (LastIncludedTerm args)"
  have "entryAt rf' i = (if ?keep then entryAt rf i else None)" if "i > ?L" for i
  proof (cases ?keep)
    case False
    with install that show ?thesis by (simp add: entryAt_eq lastIndex_def)
  next
    case True
    let ?a = "?L - SnapshotIndex rf"
    from True have a: "0 \<le> ?a" "?a < len (Logs rf)"
      by (auto simp: termAt_eq lastIndex_def split: if_splits)
    have l: "lastIndex rf' = lastIndex rf"
      using a True install by (simp add: lastIndex_def len_def)
    have "Logs rf' ! nat (i - ?L) = Logs rf ! nat (i - SnapshotIndex rf)" if "i \<le> lastIndex rf"
      using nth_drop_global [of "Logs rf" ?a "i - SnapshotIndex rf"] a \<open>i > ?L\<close> that True assms(1)
        install
      by (simp add: raft_wf_def lastIndex_def)
    with l True \<open>i > ?L\<close> assms(4) install show ?thesis
      by (simp add: entryAt_eq)
  qed
  moreover have "durable rf'"
    using install by (intro durable_SaveStateAndSnapshot) simp
  ultimately show ?thesis using install f by (simp add: termAt_eq lastIndex_def)
qed (use assms(3-5) in auto)

section \<open>Applying committed entries\<close>

definition applied :: "('c, 's) Raft \<Rightarrow> int \<Rightarrow> ('c, 's) effect" where
  "applied rf i = Apply \<lparr>amCommandIndex = i,
     amCommand = Command (Logs rf ! nat (i - SnapshotIndex rf)), CommandValid = True, SnapShot = []\<rparr>"

lemma applyLoop_spec:
  assumes "hi \<le> lastIndex rf"
  shows "applyLoop rf i hi =
    Some (if max i (SnapshotIndex rf + 1) \<le> hi then rf\<lparr>lastApplied := hi\<rparr> else rf,
          map (applied rf) [max i (SnapshotIndex rf + 1)..hi])"
  using assms
proof (induction rf i hi rule: applyLoop.induct)
  case (1 rf i hi)
  consider (e) "hi < i" | (s) "i \<le> hi" "i \<le> SnapshotIndex rf" | (r) "i \<le> hi" "SnapshotIndex rf < i"
    by linarith
  then show ?case
  proof cases
    case e
    then show ?thesis by (simp add: applyLoop.simps [of rf i hi])
  next
    case s
    with "1.IH"(1) "1.prems" show ?thesis
      by (simp add: applyLoop.simps [of rf i hi] max_def)
  next
    case r
    let ?rf = "rf\<lparr>lastApplied := i\<rparr>"
    have m: "max i (SnapshotIndex rf + 1) = i" "max (i + 1) (SnapshotIndex rf + 1) = i + 1"
      using r by auto
    have e: "slice_get (Logs rf) (i - SnapshotIndex rf) = Some (Logs rf ! nat (i - SnapshotIndex rf))"
      using r "1.prems" by (simp add: slice_get_def lastIndex_def)
    have "applyLoop ?rf (i + 1) hi =
      Some (if i + 1 \<le> hi then rf\<lparr>lastApplied := hi\<rparr> else ?rf, map (applied rf) [i + 1..hi])"
      using "1.IH"(2) [OF r(1)] r "1.prems" e m
      by (simp add: lastIndex_def logIdxGlobal2Local_def applied_def)
    moreover have "?rf = rf\<lparr>lastApplied := hi\<rparr>" if "\<not> i + 1 \<le> hi"
      using that r by simp
    ultimately show ?thesis
      using r e m
      by (simp add: applyLoop.simps [of rf i hi] logIdxGlobal2Local_def applied_def upto_rec1)
  qed
qed

text \<open>
  Property C27. One round of the apply daemon never panics when the commit index lies inside
  the log, and it hands the service exactly the committed entries after the last applied
  one that no snapshot covers: consecutive indices in increasing order, each with the
  command of the log, ending at the commit index.
\<close>

theorem apply_daemon_in_order:
  assumes "commitIndex rf \<le> lastIndex rf"
  shows "applyLogEntryDaemon rf =
    Some (rf\<lparr>lastApplied := if max (lastApplied rf) (SnapshotIndex rf) < commitIndex rf
                          then commitIndex rf else lastApplied rf\<rparr>,
          map (applied rf) [max (lastApplied rf) (SnapshotIndex rf) + 1..commitIndex rf])"
proof -
  have "max (lastApplied rf + 1) (SnapshotIndex rf + 1) = max (lastApplied rf) (SnapshotIndex rf) + 1"
    by simp
  then show ?thesis
    using applyLoop_spec [OF assms, of "lastApplied rf + 1"]
    by (simp add: applyLogEntryDaemon_def add1_zle_eq)
qed

end
