(* ===== verification/Raft_Cluster.thy ===== *)
theory Raft_Cluster
  imports Raft_Snapshot
begin

text \<open>
  A cluster of peers that exchange RPCs over a network that delays, reorders and loses
  messages.  A step is one critical section of one peer, one delivery to a handler, one
  return of a call to the goroutine that made it, one restart of a peer from its persister,
  or one message handed to a service.  Goroutines that only wait before calling
  \<^verbatim>\<open>checkConsistency\<close> (\<^verbatim>\<open>syncUpDaemon\<close>, \<^verbatim>\<open>fastBroadCastNewCommand\<close>,
  \<^verbatim>\<open>backupOverIncorrectFollowerLogs\<close>) and the election timer are covered by letting
  \<^verbatim>\<open>checkConsistency\<close> and \<^verbatim>\<open>broadCastVote\<close> run at any time.
\<close>

section \<open>Calls in flight\<close>

datatype ('c, 's) request =
    RVReq RequestVoteArgs
  | AEReq "'c AppendEntriesArgs"
  | ISReq "'s InstallSnapshotArgs"

datatype response =
    RVRep RequestVoteReply
  | AERep AppendEntriesReply
  | ISRep InstallSnapshotReply

text \<open>
  One goroutine blocked in \<^verbatim>\<open>Call\<close>.  It is live until its call has returned or the peer that
  started it has been restarted.  A request is handled at most once.
\<close>

record ('c, 's) rpc =
  rpc_src :: nat
  rpc_dst :: nat
  rpc_live :: bool
  rpc_req :: "('c, 's) request"
  rpc_resp :: "response option"

fun spawn1 :: "nat \<Rightarrow> ('c, 's) effect \<Rightarrow> ('c, 's) rpc list" where
  "spawn1 n (GoSendRequestVoteAndProcess args to) =
     [\<lparr>rpc_src = n, rpc_dst = nat to, rpc_live = True, rpc_req = RVReq args, rpc_resp = None\<rparr>]"
| "spawn1 n (GoSendAppendEntriesAndProcess args to) =
     [\<lparr>rpc_src = n, rpc_dst = nat to, rpc_live = True, rpc_req = AEReq args, rpc_resp = None\<rparr>]"
| "spawn1 n (GoSendSnapShotAndProcess args to) =
     [\<lparr>rpc_src = n, rpc_dst = nat to, rpc_live = True, rpc_req = ISReq args, rpc_resp = None\<rparr>]"
| "spawn1 n _ = []"

definition spawn :: "nat \<Rightarrow> ('c, 's) effect list \<Rightarrow> ('c, 's) rpc list" where
  "spawn n effs = concat (map (spawn1 n) effs)"

fun applies :: "('c, 's) effect list \<Rightarrow> ('c, 's) ApplyMsg list" where
  "applies [] = []"
| "applies (Apply m # effs) = m # applies effs"
| "applies (_ # effs) = applies effs"

text \<open>The handler a request is dispatched to.\<close>

fun handle ::
    "('c, 's) Raft \<Rightarrow> ('c, 's) request \<Rightarrow>
     (('c, 's) Raft \<times> response \<times> ('c, 's) effect list) option" where
  "handle rf (RVReq args) =
     map_option (\<lambda>(rf', rep, effs). (rf', RVRep rep, effs)) (RequestVote rf args)"
| "handle rf (AEReq args) =
     map_option (\<lambda>(rf', rep, effs). (rf', AERep rep, effs)) (AppendEntries rf args)"
| "handle rf (ISReq args) =
     map_option (\<lambda>(rf', rep, effs). (rf', ISRep rep, effs)) (InstallSnapShot rf args)"

text \<open>
  The rest of the goroutine after \<^verbatim>\<open>Call\<close>: with a reply the call returned true, without one
  it returned false and the reply structure still has its zero values.
\<close>

fun finish ::
    "('c, 's) Raft \<Rightarrow> nat \<Rightarrow> ('c, 's) request \<Rightarrow> response option \<Rightarrow>
     (('c, 's) Raft \<times> ('c, 's) effect list) option" where
  "finish rf to (RVReq args) (Some (RVRep rep)) = sendRequestVoteAndProcess rf True rep"
| "finish rf to (RVReq args) None =
     sendRequestVoteAndProcess rf False \<lparr>rvrTerm = 0, VoteGranted = False\<rparr>"
| "finish rf to (AEReq args) (Some (AERep rep)) =
     sendAppendEntriesAndProcess rf args (int to) True rep"
| "finish rf to (AEReq args) None =
     sendAppendEntriesAndProcess rf args (int to) False
       \<lparr>aerTerm = 0, Success = False, ConflictIndex = 0\<rparr>"
| "finish rf to (ISReq args) (Some (ISRep rep)) =
     sendSnapShotAndProcess rf args (int to) True rep"
| "finish rf to (ISReq args) None =
     sendSnapShotAndProcess rf args (int to) False \<lparr>isrTerm = 0\<rparr>"
| "finish rf to _ _ = None"

section \<open>Cluster states and steps\<close>

text \<open>
  \<open>outbox\<close> holds the snapshots that an \<^verbatim>\<open>InstallSnapShot\<close> handler has still to send on
  \<^verbatim>\<open>applyCh\<close> (it does so after it released the mutex); \<open>delivered\<close> is what the service of a
  peer has received since the peer was started.
\<close>

record ('c, 's) cluster =
  peers :: "nat \<Rightarrow> ('c, 's) Raft"
  rpcs :: "('c, 's) rpc list"
  outbox :: "nat \<Rightarrow> ('c, 's) ApplyMsg list"
  delivered :: "nat \<Rightarrow> ('c, 's) ApplyMsg list"

definition init_cluster :: "nat \<Rightarrow> ('c, 's) cluster" where
  "init_cluster N =
     \<lparr>peers = (\<lambda>n. fst (Make N (int n) MakePersister)), rpcs = [],
      outbox = (\<lambda>_. []), delivered = (\<lambda>_. [])\<rparr>"

text \<open>Every goroutine of a peer dies with the instance of the peer that started it.\<close>

definition orphan :: "nat \<Rightarrow> ('c, 's) rpc \<Rightarrow> ('c, 's) rpc" where
  "orphan n r = (if rpc_src r = n then r\<lparr>rpc_live := False\<rparr> else r)"

inductive cstep :: "nat \<Rightarrow> ('c, 's) cluster \<Rightarrow> ('c, 's) cluster \<Rightarrow> bool" for N where
  timeout:
    "\<lbrakk> n < N; broadCastVote (peers c n) = Some (rf, effs) \<rbrakk> \<Longrightarrow>
     cstep N c (c\<lparr>peers := (peers c)(n := rf), rpcs := rpcs c @ spawn n effs\<rparr>)"
| deliver:
    "\<lbrakk> k < length (rpcs c); r = rpcs c ! k; rpc_resp r = None; n = rpc_dst r;
       handle (peers c n) (rpc_req r) = Some (rf, rep, effs) \<rbrakk> \<Longrightarrow>
     cstep N c (c\<lparr>peers := (peers c)(n := rf),
                  rpcs := (rpcs c)[k := r\<lparr>rpc_resp := Some rep\<rparr>],
                  outbox := (outbox c)(n := outbox c n @ applies effs)\<rparr>)"
| call_returns:
    "\<lbrakk> k < length (rpcs c); r = rpcs c ! k; rpc_live r; n = rpc_src r;
       out = None \<or> out = rpc_resp r;
       finish (peers c n) (rpc_dst r) (rpc_req r) out = Some (rf, effs) \<rbrakk> \<Longrightarrow>
     cstep N c (c\<lparr>peers := (peers c)(n := rf),
                  rpcs := (rpcs c)[k := r\<lparr>rpc_live := False\<rparr>] @ spawn n effs\<rparr>)"
| submit:
    "\<lbrakk> n < N; Start (peers c n) command = Some (rf, res, effs) \<rbrakk> \<Longrightarrow>
     cstep N c (c\<lparr>peers := (peers c)(n := rf), rpcs := rpcs c @ spawn n effs\<rparr>)"
| check:
    "\<lbrakk> n < N; to < N; to \<noteq> n; checkConsistency (peers c n) (int to) = Some effs \<rbrakk> \<Longrightarrow>
     cstep N c (c\<lparr>rpcs := rpcs c @ spawn n effs\<rparr>)"
| compact:
    "\<lbrakk> n < N; idx \<le> lastApplied (peers c n); Compact (peers c n) idx snap = Some rf \<rbrakk> \<Longrightarrow>
     cstep N c (c\<lparr>peers := (peers c)(n := rf)\<rparr>)"
| apply_round:
    "\<lbrakk> n < N; applyLogEntryDaemon (peers c n) = Some (rf, effs) \<rbrakk> \<Longrightarrow>
     cstep N c (c\<lparr>peers := (peers c)(n := rf),
                  delivered := (delivered c)(n := delivered c n @ applies effs)\<rparr>)"
| flush:
    "\<lbrakk> n < N; outbox c n = m # ms \<rbrakk> \<Longrightarrow>
     cstep N c (c\<lparr>outbox := (outbox c)(n := ms),
                  delivered := (delivered c)(n := delivered c n @ [m])\<rparr>)"
| restart:
    "\<lbrakk> n < N; Make N (int n) (CopyPersister (persister (peers c n))) = (rf, effs) \<rbrakk> \<Longrightarrow>
     cstep N c (c\<lparr>peers := (peers c)(n := rf), rpcs := map (orphan n) (rpcs c),
                  outbox := (outbox c)(n := []),
                  delivered := (delivered c)(n := applies effs)\<rparr>)"
| kill:
    "n < N \<Longrightarrow> cstep N c (c\<lparr>peers := (peers c)(n := Kill (peers c n))\<rparr>)"

inductive reachable :: "nat \<Rightarrow> ('c, 's) cluster \<Rightarrow> bool" for N where
  init: "reachable N (init_cluster N)"
| step: "reachable N c \<Longrightarrow> cstep N c c' \<Longrightarrow> reachable N c'"

end
