(* ===== verification/Raft_Steps.thy ===== *)
theory Raft_Steps
  imports Raft_Election
begin

text \<open>
  The base invariant of the cluster (every peer is well-formed, its stable storage is up to
  date, calls in flight are what their senders sent) and the classification of the steps of a
  cluster into passive steps, candidacies and counted votes.
\<close>

section \<open>Peers and calls are well-formed\<close>

definition peer_ok :: "nat \<Rightarrow> nat \<Rightarrow> ('c, 's) Raft \<Rightarrow> bool" where
  "peer_ok N n rf \<longleftrightarrow> raft_wf rf \<and> durable rf \<and> npeers rf = N \<and> me rf = int n"

fun req_ok :: "nat \<Rightarrow> ('c, 's) request \<Rightarrow> bool" where
  "req_ok n (RVReq args) \<longleftrightarrow> CandidateID args = int n"
| "req_ok n (AEReq args) \<longleftrightarrow> aeLeaderID args = int n \<and> args_indexed args"
| "req_ok n (ISReq args) \<longleftrightarrow> isLeaderID args = int n"

fun req_term :: "('c, 's) request \<Rightarrow> int" where
  "req_term (RVReq args) = rvTerm args"
| "req_term (AEReq args) = aeTerm args"
| "req_term (ISReq args) = isTerm args"

definition rpc_ok :: "nat \<Rightarrow> (nat \<Rightarrow> ('c, 's) Raft) \<Rightarrow> ('c, 's) rpc \<Rightarrow> bool" where
  "rpc_ok N ps r \<longleftrightarrow> rpc_src r < N \<and> rpc_dst r < N \<and> rpc_dst r \<noteq> rpc_src r \<and>
     req_ok (rpc_src r) (rpc_req r) \<and> req_term (rpc_req r) \<le> CurrentTerm (ps (rpc_src r))"

definition base_inv :: "nat \<Rightarrow> ('c, 's) cluster \<Rightarrow> bool" where
  "base_inv N c \<longleftrightarrow> (\<forall>n < N. peer_ok N n (peers c n)) \<and> (\<forall>r \<in> set (rpcs c). rpc_ok N (peers c) r)"

lemma passive_step_trivial [simp]: "passive_step rf rf"
  by (simp add: passive_step_def)

lemma Make_ok:
  assumes "n < N"
  shows "peer_ok N n (fst (Make N (int n) MakePersister))"
  using assms
  by (simp add: peer_ok_def raft_wf_def durable_def recover_def Make_def Let_def dePersistState_def
      decodeState_def persister_defs)

lemma recover_wf:
  "durable rf \<Longrightarrow> fst (Make N (int n) (persister rf)) =
     \<lparr>npeers = N, persister = persister rf, me = int n, CurrentTerm = CurrentTerm rf,
      VotedFor = VotedFor rf, Logs = Logs rf, SnapshotIndex = SnapshotIndex rf, commitIndex = 0,
      lastApplied = 0, nextIndex = replicate N 1, matchIndex = replicate N 0, rstate = FOLLOWER,
      voteCount = 0\<rparr>"
  by (rule recover_fields) (simp add: durable_def)

lemma restart_ok:
  assumes "peer_ok N n rf" "n < N"
  shows "peer_ok N n (fst (Make N (int n) (persister rf)))"
    and "passive_step rf (fst (Make N (int n) (persister rf)))"
  using assms recover_wf [of rf N n]
  by (auto simp: peer_ok_def raft_wf_def durable_def passive_step_def)

lemma handle_ok:
  assumes "handle rf req = Some (rf', rep, effs)" "peer_ok N n rf" "req_ok m req"
  shows "peer_ok N n rf' \<and> passive_step rf rf'"
proof (cases req)
  case (RVReq args)
  with assms show ?thesis
    by (auto simp: peer_ok_def dest: RequestVote_wf RequestVote_durable RequestVote_passive)
       (auto dest!: RequestVote_passive simp: passive_step_def)
next
  case (AEReq args)
  with assms show ?thesis
    by (auto simp: peer_ok_def dest: AppendEntries_wf AppendEntries_durable AppendEntries_passive)
       (auto dest!: AppendEntries_passive simp: passive_step_def)
next
  case (ISReq args)
  with assms show ?thesis
    by (auto simp: peer_ok_def dest: InstallSnapShot_wf InstallSnapShot_durable InstallSnapShot_passive)
       (auto dest!: InstallSnapShot_passive simp: passive_step_def)
qed

lemma spawn_simps [simp]:
  "spawn n [] = []" "spawn n (e # effs) = spawn1 n e @ spawn n effs"
  by (simp_all add: spawn_def)

lemma finish_ok:
  assumes "finish rf to req out = Some (rf', effs)" "peer_ok N n rf"
  shows "peer_ok N n rf' \<and> CurrentTerm rf \<le> CurrentTerm rf' \<and> spawn n effs = [] \<and>
    (passive_step rf rf' \<or>
     (\<exists>args rep. req = RVReq args \<and> out = Some (RVRep rep) \<and> rstate rf = CANDIDATE \<and>
        rvrTerm rep = CurrentTerm rf \<and> VoteGranted rep \<and> CurrentTerm rf' = CurrentTerm rf \<and>
        VotedFor rf' = VotedFor rf \<and> voteCount rf' = voteCount rf + 1 \<and>
        rstate rf' = (if int N div 2 < voteCount rf + 1 then LEADER else CANDIDATE)))"
proof -
  have p: ?thesis if "raft_wf rf'" "durable rf'" "passive_step rf rf'" "spawn n effs = []"
    using that assms(2) by (auto simp: peer_ok_def passive_step_def)
  have wf: "raft_wf rf" "durable rf" "npeers rf = N"
    using assms(2) by (auto simp: peer_ok_def)
  have v: ?thesis if s: "sendRequestVoteAndProcess rf ok rep = Some (rf', effs)" and
    "req = RVReq args" "ok \<Longrightarrow> out = Some (RVRep rep)" for ok rep args
    using s wf(1)
  proof (cases rule: sendRequestVoteAndProcess_cases)
    case ignored
    with p wf show ?thesis by simp
  next
    case step_down
    have "passive_step rf rf'"
      using step_down by (auto simp: passive_step_def stepDown_fields [OF step_down(3)])
    then show ?thesis
      using step_down s wf stepDown_fields [OF step_down(3)]
        sendRequestVoteAndProcess_wf [OF s wf(1)]
      by (intro p) auto
  qed (use that wf assms(2) sendRequestVoteAndProcess_wf [OF s wf(1)]
      sendRequestVoteAndProcess_durable [OF s wf(1,2)] in \<open>auto simp: peer_ok_def\<close>)
  have a: ?thesis if s: "sendAppendEntriesAndProcess rf args (int to) ok rep = Some (rf', effs)"
    for args ok rep
  proof (rule p)
    show "spawn n effs = []"
      using s by (cases rule: sendAppendEntriesAndProcess_cases)
        (auto elim!: recordMatch_cases dest: stepDown_fields)
  qed (use sendAppendEntriesAndProcess_wf [OF s wf(1)] sendAppendEntriesAndProcess_durable [OF s wf(2)]
      sendAppendEntriesAndProcess_passive [OF s] in auto)
  have i: ?thesis if s: "sendSnapShotAndProcess rf args (int to) ok rep = Some (rf', effs)"
    for args ok rep
  proof (rule p)
    show "spawn n effs = []"
      using s by (cases rule: sendSnapShotAndProcess_cases) (auto dest: stepDown_fields)
  qed (use sendSnapShotAndProcess_wf [OF s wf(1)] sendSnapShotAndProcess_durable [OF s wf(2)]
      sendSnapShotAndProcess_passive [OF s] in auto)
  from assms(1) show ?thesis
    by (cases "(rf, to, req, out)" rule: finish.cases) (use v a i in \<open>auto\<close>)
qed

lemma applyLoop_fields:
  "applyLoop rf i hi = Some (rf', effs) \<Longrightarrow>
   (\<exists>x. rf' = rf\<lparr>lastApplied := x\<rparr>) \<and> spawn n effs = []"
proof (induction rf i hi arbitrary: rf' effs rule: applyLoop.induct)
  case (1 rf i hi)
  consider (e) "hi < i" | (s) "i \<le> hi" "i \<le> SnapshotIndex rf" | (r) "i \<le> hi" "SnapshotIndex rf < i"
    by linarith
  then show ?case
  proof cases
    case e
    then have "rf' = rf\<lparr>lastApplied := lastApplied rf\<rparr>" "effs = []"
      using "1.prems" by (auto simp: applyLoop.simps [of rf i hi])
    then show ?thesis by (metis spawn_simps(1))
  next
    case s
    with "1.IH"(1) "1.prems" show ?thesis
      by (simp add: applyLoop.simps [of rf i hi])
  next
    case r
    then obtain e effs' where e: "slice_get (Logs rf) (logIdxGlobal2Local rf i) = Some e"
      "applyLoop (rf\<lparr>lastApplied := i\<rparr>) (i + 1) hi = Some (rf', effs')"
      "effs = Apply \<lparr>amCommandIndex = i, amCommand = Command e, CommandValid = True,
                    SnapShot = []\<rparr> # effs'"
      using "1.prems" by (auto simp: applyLoop.simps [of rf i hi] bind_Some_iff)
    from "1.IH"(2) [OF r(1) _ e(1,2)] r e(3) show ?thesis by auto
  qed
qed

lemma checkConsistency_sends:
  assumes "checkConsistency rf to = Some effs" "peer_ok N n rf" "r \<in> set (spawn n effs)"
  shows "rstate rf = LEADER \<and> rpc_src r = n \<and> rpc_dst r = nat to \<and> rpc_resp r = None \<and>
    req_ok n (rpc_req r) \<and> req_term (rpc_req r) = CurrentTerm rf \<and> (\<forall>a. rpc_req r \<noteq> RVReq a)"
proof -
  have wf: "raft_wf rf" "me rf = int n" using assms(2) by (auto simp: peer_ok_def)
  from assms(1,3) have l: "rstate rf = LEADER"
    by (auto simp: checkConsistency_def split: if_splits)
  with assms(1) obtain k where k: "slice_get (nextIndex rf) to = Some k"
    by (auto simp: checkConsistency_def bind_Some_iff)
  show ?thesis
  proof (cases "k - 1 < SnapshotIndex rf")
    case True
    with assms(1,3) l k wf show ?thesis
      by (auto simp: checkConsistency_def bind_Some_iff Let_def)
  next
    case False
    define j where "j = min (k - 1 - SnapshotIndex rf) (len (Logs rf) - 1)"
    have "indexed_from k (drop (nat (j + 1)) (Logs rf))"
    proof (cases "nat (j + 1) < length (Logs rf)")
      case True
      then have "k = SnapshotIndex rf + int (nat (j + 1))"
        using False by (auto simp: j_def len_def min_def split: if_splits)
      with True wf indexed_from_drop [of "SnapshotIndex rf" "Logs rf" "nat (j + 1)"] show ?thesis
        by (simp add: raft_wf_def)
    qed simp
    with False assms(1,3) l k wf show ?thesis
      by (auto simp: checkConsistency_def bind_Some_iff Let_def logIdxGlobal2Local_def
          slice_from_def args_indexed_def j_def split: if_splits)
  qed
qed

section \<open>Three kinds of steps\<close>

text \<open>
  A call in flight keeps its sender, receiver and request; it never becomes live again.
\<close>

definition evolves :: "('c, 's) rpc \<Rightarrow> ('c, 's) rpc \<Rightarrow> bool" where
  "evolves r r' \<longleftrightarrow> rpc_src r' = rpc_src r \<and> rpc_dst r' = rpc_dst r \<and> rpc_req r' = rpc_req r \<and>
     (rpc_live r' \<longrightarrow> rpc_live r)"

text \<open>A granted vote that is in flight after a step but was not before it.\<close>

definition grants :: "nat \<Rightarrow> ('c, 's) Raft \<Rightarrow> ('c, 's) rpc \<Rightarrow> RequestVoteReply \<Rightarrow> bool" where
  "grants n rf r rep \<longleftrightarrow> (\<exists>args. rpc_req r = RVReq args \<and> rpc_dst r = n \<and>
     rvrTerm rep = rvTerm args \<and> CurrentTerm rf = rvTerm args \<and> VotedFor rf = CandidateID args)"

definition passive_cluster_step ::
    "nat \<Rightarrow> ('c, 's) cluster \<Rightarrow> ('c, 's) cluster \<Rightarrow> nat \<Rightarrow> ('c, 's) Raft \<Rightarrow> bool" where
  "passive_cluster_step N c c' n rf \<longleftrightarrow> n < N \<and> peers c' = (peers c)(n := rf) \<and> peer_ok N n rf \<and>
     passive_step (peers c n) rf \<and>
     (\<exists>old new. rpcs c' = old @ new \<and> list_all2 evolves (rpcs c) old \<and>
        (\<forall>i < length old. \<forall>rep. rpc_resp (old ! i) = Some (RVRep rep) \<and> VoteGranted rep \<longrightarrow>
           rpc_resp (rpcs c ! i) = Some (RVRep rep) \<or> grants n rf (old ! i) rep) \<and>
        (\<forall>r \<in> set new. rpc_ok N (peers c) r \<and> rpc_src r = n \<and> rpc_resp r = None \<and>
           (\<forall>a. rpc_req r \<noteq> RVReq a) \<and> req_term (rpc_req r) = CurrentTerm (peers c n) \<and>
           rstate (peers c n) = LEADER))"

definition candidate_step ::
    "nat \<Rightarrow> ('c, 's) cluster \<Rightarrow> ('c, 's) cluster \<Rightarrow> nat \<Rightarrow> ('c, 's) Raft \<Rightarrow> bool" where
  "candidate_step N c c' n rf \<longleftrightarrow> n < N \<and> peers c' = (peers c)(n := rf) \<and> peer_ok N n rf \<and>
     rstate rf = CANDIDATE \<and> CurrentTerm rf = CurrentTerm (peers c n) + 1 \<and> VotedFor rf = int n \<and>
     voteCount rf = 1 \<and>
     (\<exists>args. CandidateID args = int n \<and> rvTerm args = CurrentTerm rf \<and>
        rpcs c' = rpcs c @ map (\<lambda>to. \<lparr>rpc_src = n, rpc_dst = to, rpc_live = True,
          rpc_req = RVReq args, rpc_resp = None\<rparr>) (filter (\<lambda>i. i \<noteq> n) [0..<N]))"

definition vote_step ::
    "nat \<Rightarrow> ('c, 's) cluster \<Rightarrow> ('c, 's) cluster \<Rightarrow> nat \<Rightarrow> ('c, 's) Raft \<Rightarrow> bool" where
  "vote_step N c c' n rf \<longleftrightarrow> n < N \<and> peers c' = (peers c)(n := rf) \<and> peer_ok N n rf \<and>
     rstate (peers c n) = CANDIDATE \<and> CurrentTerm rf = CurrentTerm (peers c n) \<and>
     VotedFor rf = VotedFor (peers c n) \<and> voteCount rf = voteCount (peers c n) + 1 \<and>
     rstate rf = (if int N div 2 < voteCount rf then LEADER else CANDIDATE) \<and>
     (\<exists>k r args rep. k < length (rpcs c) \<and> r = rpcs c ! k \<and> rpc_live r \<and> rpc_src r = n \<and>
        rpc_req r = RVReq args \<and> rpc_resp r = Some (RVRep rep) \<and> VoteGranted rep \<and>
        rvrTerm rep = CurrentTerm rf \<and> rpcs c' = (rpcs c)[k := r\<lparr>rpc_live := False\<rparr>])"

lemma evolves_refl [simp]: "evolves r r" "evolves r (r\<lparr>rpc_live := False\<rparr>)"
  "evolves r (r\<lparr>rpc_resp := x\<rparr>)" "evolves r (orphan n r)"
  by (simp_all add: evolves_def orphan_def)

lemma list_all2_evolves_update:
  "k < length rs \<Longrightarrow> evolves (rs ! k) r \<Longrightarrow> list_all2 evolves rs (rs[k := r])"
  by (simp add: list_all2_conv_all_nth nth_list_update)

lemma list_all2_evolves_refl [simp]: "list_all2 evolves rs rs"
  by (simp add: list_all2_conv_all_nth)

lemma passive_cluster_stepI:
  assumes "n < N" "peers c' = (peers c)(n := rf)" "peer_ok N n rf" "passive_step (peers c n) rf"
    "rpcs c' = old" "list_all2 evolves (rpcs c) old"
    "\<And>i rep. i < length old \<Longrightarrow> rpc_resp (old ! i) = Some (RVRep rep) \<Longrightarrow> VoteGranted rep \<Longrightarrow>
       rpc_resp (rpcs c ! i) = Some (RVRep rep) \<or> grants n rf (old ! i) rep"
  shows "passive_cluster_step N c c' n rf"
  unfolding passive_cluster_step_def
  using assms by (intro conjI exI [of _ old] exI [of _ "[]"]) auto

lemma deliver_passive:
  assumes "base_inv N c" "k < length (rpcs c)" "r = rpcs c ! k" "rpc_resp r = None" "n = rpc_dst r"
    "handle (peers c n) (rpc_req r) = Some (rf, rep, effs)"
    "peers c' = (peers c)(n := rf)" "rpcs c' = (rpcs c)[k := r\<lparr>rpc_resp := Some rep\<rparr>]"
  shows "passive_cluster_step N c c' n rf"
proof (rule passive_cluster_stepI [OF _ assms(7) _ _ assms(8)])
  have "r \<in> set (rpcs c)" using assms(2,3) by simp
  with assms(1) have ok: "rpc_ok N (peers c) r" by (simp add: base_inv_def)
  with assms(5) show n: "n < N" by (simp add: rpc_ok_def)
  with assms(1) have p: "peer_ok N n (peers c n)" by (simp add: base_inv_def)
  from handle_ok [OF assms(6) p] ok show "peer_ok N n rf" "passive_step (peers c n) rf"
    by (auto simp: rpc_ok_def)
  show "list_all2 evolves (rpcs c) ((rpcs c)[k := r\<lparr>rpc_resp := Some rep\<rparr>])"
    using assms(2,3) by (simp add: list_all2_evolves_update)
  fix i rep'
  assume i: "i < length ((rpcs c)[k := r\<lparr>rpc_resp := Some rep\<rparr>])"
    and rep': "rpc_resp ((rpcs c)[k := r\<lparr>rpc_resp := Some rep\<rparr>] ! i) = Some (RVRep rep')"
    and g: "VoteGranted rep'"
  show "rpc_resp (rpcs c ! i) = Some (RVRep rep') \<or>
      grants n rf ((rpcs c)[k := r\<lparr>rpc_resp := Some rep\<rparr>] ! i) rep'"
  proof (cases "i = k")
    case True
    with rep' i have "rep = RVRep rep'" by simp
    with assms(6) obtain args where a: "rpc_req r = RVReq args"
      "RequestVote (peers c n) args = Some (rf, rep', effs)"
      by (cases "rpc_req r") auto
    from RequestVote_granted [OF a(2) g] p have
      "rvrTerm rep' = rvTerm args" "CurrentTerm rf = rvTerm args" "VotedFor rf = CandidateID args"
      by (auto simp: peer_ok_def)
    with a(1) True i assms(5) show ?thesis by (simp add: grants_def)
  next
    case False
    with rep' show ?thesis by simp
  qed
qed

lemma call_returns_classified:
  assumes "base_inv N c" "k < length (rpcs c)" "r = rpcs c ! k" "rpc_live r" "n = rpc_src r"
    "out = None \<or> out = rpc_resp r"
    "finish (peers c n) (rpc_dst r) (rpc_req r) out = Some (rf, effs)"
    "peers c' = (peers c)(n := rf)" "rpcs c' = (rpcs c)[k := r\<lparr>rpc_live := False\<rparr>] @ spawn n effs"
  shows "passive_cluster_step N c c' n rf \<or> vote_step N c c' n rf"
proof -
  have "r \<in> set (rpcs c)" using assms(2,3) by simp
  with assms(1) have ok: "rpc_ok N (peers c) r" by (simp add: base_inv_def)
  with assms(5) have n: "n < N" by (simp add: rpc_ok_def)
  with assms(1) have p: "peer_ok N n (peers c n)" by (simp add: base_inv_def)
  note f = finish_ok [OF assms(7) p]
  then have rs: "rpcs c' = (rpcs c)[k := r\<lparr>rpc_live := False\<rparr>]"
    using assms(9) by simp
  show ?thesis
  proof (cases "passive_step (peers c n) rf")
    case True
    have "passive_cluster_step N c c' n rf"
      by (rule passive_cluster_stepI [OF n assms(8) _ True rs])
         (use f assms(2,3) in \<open>auto simp: list_all2_evolves_update nth_list_update\<close>)
    then show ?thesis ..
  next
    case False
    with f obtain args rep where v: "rpc_req r = RVReq args" "out = Some (RVRep rep)"
      "rstate (peers c n) = CANDIDATE" "rvrTerm rep = CurrentTerm (peers c n)" "VoteGranted rep"
      "CurrentTerm rf = CurrentTerm (peers c n)" "VotedFor rf = VotedFor (peers c n)"
      "voteCount rf = voteCount (peers c n) + 1"
      "rstate rf = (if int N div 2 < voteCount (peers c n) + 1 then LEADER else CANDIDATE)"
      by auto
    have "vote_step N c c' n rf"
      unfolding vote_step_def
      using v n f rs assms
      by (intro conjI exI [of _ k] exI [of _ r] exI [of _ args] exI [of _ rep]) auto
    then show ?thesis ..
  qed
qed

lemma timeout_classified:
  assumes "base_inv N c" "n < N" "broadCastVote (peers c n) = Some (rf, effs)"
    "peers c' = (peers c)(n := rf)" "rpcs c' = rpcs c @ spawn n effs"
  shows "passive_cluster_step N c c' n rf \<or> candidate_step N c c' n rf"
proof -
  from assms(1,2) have p: "peer_ok N n (peers c n)" by (simp add: base_inv_def)
  then have wf: "raft_wf (peers c n)" by (simp add: peer_ok_def)
  from assms(3) wf show ?thesis
  proof (cases rule: broadCastVote_cases)
    case leader
    with assms p have "passive_cluster_step N c c' n rf"
      by (intro passive_cluster_stepI [of _ _ _ _ _ "rpcs c"]) auto
    then show ?thesis ..
  next
    case (candidate args)
    have "spawn n effs = map (\<lambda>to. \<lparr>rpc_src = n, rpc_dst = to, rpc_live = True,
          rpc_req = RVReq args, rpc_resp = None\<rparr>) (filter (\<lambda>i. i \<noteq> n) [0..<N])"
      using p candidate(4)
      by (simp add: spawn_def otherPeers_def peer_ok_def filter_map o_def concat_map_singleton)
    moreover have "peer_ok N n rf"
      using candidate p broadCastVote_wf [OF assms(3) wf] by (simp add: peer_ok_def)
    ultimately have "candidate_step N c c' n rf"
      unfolding candidate_step_def
      using candidate assms p by (intro conjI exI [of _ args]) (auto simp: peer_ok_def)
    then show ?thesis ..
  qed
qed

lemma check_passive:
  assumes "base_inv N c" "n < N" "to < N" "to \<noteq> n"
    "checkConsistency (peers c n) (int to) = Some effs"
    "peers c' = peers c" "rpcs c' = rpcs c @ spawn n effs"
  shows "passive_cluster_step N c c' n (peers c n)"
proof -
  from assms(1,2) have p: "peer_ok N n (peers c n)" by (simp add: base_inv_def)
  have "rpc_ok N (peers c) r \<and> rpc_src r = n \<and> rpc_resp r = None \<and> (\<forall>a. rpc_req r \<noteq> RVReq a) \<and>
      req_term (rpc_req r) = CurrentTerm (peers c n) \<and> rstate (peers c n) = LEADER"
    if "r \<in> set (spawn n effs)" for r
    using checkConsistency_sends [OF assms(5) p that] assms(2-4) by (auto simp: rpc_ok_def)
  with assms p show ?thesis
    unfolding passive_cluster_step_def
    by (intro conjI exI [of _ "rpcs c"] exI [of _ "spawn n effs"]) auto
qed

lemma restart_passive:
  assumes "base_inv N c" "n < N" "Make N (int n) (CopyPersister (persister (peers c n))) = (rf, effs)"
    "peers c' = (peers c)(n := rf)" "rpcs c' = map (orphan n) (rpcs c)"
  shows "passive_cluster_step N c c' n rf"
proof -
  from assms(1,2) have p: "peer_ok N n (peers c n)" by (simp add: base_inv_def)
  have "rf = fst (Make N (int n) (persister (peers c n)))"
    using assms(3) by simp
  with restart_ok [OF p assms(2)] assms show ?thesis
    by (intro passive_cluster_stepI [of _ _ _ _ _ "map (orphan n) (rpcs c)"])
       (auto simp: list_all2_conv_all_nth orphan_def split: if_splits)
qed

lemma local_passive:
  assumes "base_inv N c" "n < N" "raft_wf rf" "durable rf" "passive_step (peers c n) rf"
    "peers c' = (peers c)(n := rf)" "rpcs c' = rpcs c"
  shows "passive_cluster_step N c c' n rf"
  using assms by (intro passive_cluster_stepI) (auto simp: base_inv_def peer_ok_def passive_step_def)

lemma cstep_classified [consumes 2, case_names passively candidacy vote]:
  assumes "cstep N c c'" "base_inv N c"
  obtains n rf where "passive_cluster_step N c c' n rf"
  | n rf where "candidate_step N c c' n rf"
  | n rf where "vote_step N c c' n rf"
proof -
  have p: "raft_wf (peers c n)" "durable (peers c n)" if "n < N" for n
    using assms(2) that by (auto simp: base_inv_def peer_ok_def)
  from assms(1) show thesis
  proof cases
    case (timeout n rf effs)
    then show ?thesis using timeout_classified [OF assms(2), of n rf effs c'] that by auto
  next
    case (deliver k r n rf rep effs)
    then show ?thesis using deliver_passive [OF assms(2), of k r n rf rep effs c'] that by auto
  next
    case (call_returns k r n out rf effs)
    then show ?thesis
      using call_returns_classified [OF assms(2), of k r n out rf effs c'] that by auto
  next
    case (submit n command rf res effs)
    then have "spawn n effs = []" by (auto elim!: Start_cases)
    with submit p show ?thesis
      by (intro that(1) local_passive [OF assms(2)])
         (auto dest: Start_wf Start_durable Start_passive)
  next
    case (check n to effs)
    then show ?thesis using check_passive [OF assms(2), of n to effs c'] that by auto
  next
    case (compact n idx snap rf)
    with p show ?thesis
      by (intro that(1) local_passive [OF assms(2)])
         (auto dest: Compact_wf Compact_durable Compact_passive)
  next
    case (apply_round n rf effs)
    then obtain x where "rf = (peers c n)\<lparr>lastApplied := x\<rparr>"
      by (auto simp: applyLogEntryDaemon_def dest: applyLoop_fields)
    with apply_round p show ?thesis
      by (intro that(1) local_passive [OF assms(2)])
         (auto simp: raft_wf_def durable_def passive_step_def)
  next
    case (flush n m ms)
    with p [of n] show ?thesis
      using local_passive [OF assms(2), of n "peers c n" c'] that(1) by auto
  next
    case (restart n rf effs)
    then show ?thesis using restart_passive [OF assms(2), of n rf effs c'] that by auto
  next
    case (kill n)
    have "raft_wf (Kill (peers c n))" "durable (Kill (peers c n))"
      "passive_step (peers c n) (Kill (peers c n))"
      using p [OF kill(2)] by (auto simp: Kill_def raft_wf_def durable_def passive_step_def)
    with kill show ?thesis
      using local_passive [OF assms(2), of n "Kill (peers c n)" c'] that(1) by auto
  qed
qed

end
