(* ===== verification/Raft_Exec.thy ===== *)
theory Raft_Exec
  imports Raft_Cluster
begin

text \<open>
  A scheduler for the cluster: an event names the step to take, and \<open>exec\<close> computes the
  state after it.  It takes exactly the steps of \<open>cstep\<close>, so that concrete executions can be
  computed and are reachable.
\<close>

datatype ('c, 's) event =
    Timeout nat
  | Deliver nat
  | CallReturns nat bool
  | Submit nat "'c option"
  | CheckPeer nat nat
  | CompactPeer nat int "'s list"
  | ApplyRound nat
  | Flush nat
  | Restart nat
  | KillPeer nat

fun exec :: "nat \<Rightarrow> ('c, 's) cluster \<Rightarrow> ('c, 's) event \<Rightarrow> ('c, 's) cluster option" where
  "exec N c (Timeout n) =
     (if n < N then do {
        (rf, effs) \<leftarrow> broadCastVote (peers c n);
        Some (c\<lparr>peers := (peers c)(n := rf), rpcs := rpcs c @ spawn n effs\<rparr>)
      } else None)"
| "exec N c (Deliver k) =
     (if k < length (rpcs c) \<and> rpc_resp (rpcs c ! k) = None then do {
        let r = rpcs c ! k; let n = rpc_dst r;
        (rf, rep, effs) \<leftarrow> handle (peers c n) (rpc_req r);
        Some (c\<lparr>peers := (peers c)(n := rf), rpcs := (rpcs c)[k := r\<lparr>rpc_resp := Some rep\<rparr>],
                outbox := (outbox c)(n := outbox c n @ applies effs)\<rparr>)
      } else None)"
| "exec N c (CallReturns k lost) =
     (if k < length (rpcs c) \<and> rpc_live (rpcs c ! k) then do {
        let r = rpcs c ! k; let n = rpc_src r;
        (rf, effs) \<leftarrow> finish (peers c n) (rpc_dst r) (rpc_req r)
                        (if lost then None else rpc_resp r);
        Some (c\<lparr>peers := (peers c)(n := rf),
                rpcs := (rpcs c)[k := r\<lparr>rpc_live := False\<rparr>] @ spawn n effs\<rparr>)
      } else None)"
| "exec N c (Submit n command) =
     (if n < N then do {
        (rf, res, effs) \<leftarrow> Start (peers c n) command;
        Some (c\<lparr>peers := (peers c)(n := rf), rpcs := rpcs c @ spawn n effs\<rparr>)
      } else None)"
| "exec N c (CheckPeer n to) =
     (if n < N \<and> to < N \<and> to \<noteq> n then do {
        effs \<leftarrow> checkConsistency (peers c n) (int to);
        Some (c\<lparr>rpcs := rpcs c @ spawn n effs\<rparr>)
      } else None)"
| "exec N c (CompactPeer n idx snap) =
     (if n < N \<and> idx \<le> lastApplied (peers c n) then do {
        rf \<leftarrow> Compact (peers c n) idx snap;
        Some (c\<lparr>peers := (peers c)(n := rf)\<rparr>)
      } else None)"
| "exec N c (ApplyRound n) =
     (if n < N then do {
        (rf, effs) \<leftarrow> applyLogEntryDaemon (peers c n);
        Some (c\<lparr>peers := (peers c)(n := rf),
                delivered := (delivered c)(n := delivered c n @ applies effs)\<rparr>)
      } else None)"
| "exec N c (Flush n) =
     (if n < N then
        (case outbox c n of
           [] \<Rightarrow> None
         | m # ms \<Rightarrow> Some (c\<lparr>outbox := (outbox c)(n := ms),
                              delivered := (delivered c)(n := delivered c n @ [m])\<rparr>))
      else None)"
| "exec N c (Restart n) =
     (if n < N then
        (let (rf, effs) = Make N (int n) (CopyPersister (persister (peers c n)))
         in Some (c\<lparr>peers := (peers c)(n := rf), rpcs := map (orphan n) (rpcs c),
                    outbox := (outbox c)(n := []), delivered := (delivered c)(n := applies effs)\<rparr>))
      else None)"
| "exec N c (KillPeer n) =
     (if n < N then Some (c\<lparr>peers := (peers c)(n := Kill (peers c n))\<rparr>) else None)"

fun run :: "nat \<Rightarrow> ('c, 's) cluster \<Rightarrow> ('c, 's) event list \<Rightarrow> ('c, 's) cluster option" where
  "run N c [] = Some c"
| "run N c (ev # evs) = do { c' \<leftarrow> exec N c ev; run N c' evs }"

lemma exec_sound:
  assumes "exec N c ev = Some c'"
  shows "cstep N c c'"
proof (cases ev)
  case (Timeout n)
  with assms show ?thesis by (auto simp: bind_Some_iff split: if_splits intro: cstep.timeout)
next
  case (Deliver k)
  with assms show ?thesis
    by (auto simp: bind_Some_iff Let_def split: if_splits intro: cstep.deliver)
next
  case (CallReturns k lost)
  with assms show ?thesis
    by (cases lost)
       (auto simp: bind_Some_iff Let_def split: if_splits intro: cstep.call_returns [OF _ refl _ refl])
next
  case (Submit n command)
  with assms show ?thesis by (auto simp: bind_Some_iff split: if_splits intro: cstep.submit)
next
  case (CheckPeer n to)
  with assms show ?thesis by (auto simp: bind_Some_iff split: if_splits intro: cstep.check)
next
  case (CompactPeer n idx snap)
  with assms show ?thesis by (auto simp: bind_Some_iff split: if_splits intro: cstep.compact)
next
  case (ApplyRound n)
  with assms show ?thesis by (auto simp: bind_Some_iff split: if_splits intro: cstep.apply_round)
next
  case (Flush n)
  with assms show ?thesis by (auto split: if_splits list.splits intro: cstep.flush)
next
  case (Restart n)
  with assms show ?thesis by (auto split: if_splits prod.splits intro: cstep.restart)
next
  case (KillPeer n)
  with assms show ?thesis by (auto split: if_splits intro: cstep.kill)
qed

lemma exec_complete:
  assumes "cstep N c c'"
  shows "\<exists>ev. exec N c ev = Some c'"
  using assms
proof cases
  case (timeout n rf effs)
  then show ?thesis by (intro exI [of _ "Timeout n"]) simp
next
  case (deliver k r n rf rep effs)
  then show ?thesis by (intro exI [of _ "Deliver k"]) (simp add: Let_def)
next
  case (call_returns k r n out rf effs)
  then show ?thesis by (intro exI [of _ "CallReturns k (out = None)"]) (auto simp: Let_def)
next
  case (submit n command rf res effs)
  then show ?thesis by (intro exI [of _ "Submit n command"]) simp
next
  case (check n to effs)
  then show ?thesis by (intro exI [of _ "CheckPeer n to"]) simp
next
  case (compact n idx snap rf)
  then show ?thesis by (intro exI [of _ "CompactPeer n idx snap"]) simp
next
  case (apply_round n rf effs)
  then show ?thesis by (intro exI [of _ "ApplyRound n"]) simp
next
  case (flush n m ms)
  then show ?thesis by (intro exI [of _ "Flush n"]) simp
next
  case (restart n rf effs)
  then show ?thesis by (intro exI [of _ "Restart n"]) simp
next
  case (kill n)
  then show ?thesis by (intro exI [of _ "KillPeer n"]) simp
qed

lemma run_reachable: "reachable N c \<Longrightarrow> run N c evs = Some c' \<Longrightarrow> reachable N c'"
  by (induction evs arbitrary: c) (auto simp: bind_Some_iff dest: exec_sound intro: reachable.step)

definition trace :: "nat \<Rightarrow> ('c, 's) event list \<Rightarrow> ('c, 's) cluster" where
  "trace N evs = the (run N (init_cluster N) evs)"

lemma trace_reachable: "run N (init_cluster N) evs \<noteq> None \<Longrightarrow> reachable N (trace N evs)"
  by (auto simp: trace_def intro: run_reachable reachable.init)

end
