(* ===== verification/Raft_Safety.thy ===== *)
theory Raft_Safety
  imports Raft_Steps Raft_Exec
begin

text \<open>
  Invariants of the reachable cluster states: every peer stays well-formed and its stable
  storage up to date, and a term has at most one leader.
\<close>

section \<open>The base invariant\<close>

lemma base_inv_init: "base_inv N (init_cluster N)"
  by (simp add: base_inv_def init_cluster_def Make_ok)

lemma rpc_ok_mono:
  assumes "rpc_ok N ps r" "evolves r r'" "ps' = ps(n := rf)" "CurrentTerm (ps n) \<le> CurrentTerm rf"
  shows "rpc_ok N ps' r'"
  using assms by (auto simp: rpc_ok_def evolves_def)

lemma evolves_source:
  "list_all2 evolves rs rs' \<Longrightarrow> r' \<in> set rs' \<Longrightarrow> \<exists>r \<in> set rs. evolves r r'"
  by (metis in_set_conv_nth list_all2_conv_all_nth)

lemma base_inv_step:
  assumes "cstep N c c'" "base_inv N c"
  shows "base_inv N c'"
  using assms
proof (cases rule: cstep_classified)
  case (passively n rf)
  then obtain old new where s: "n < N" "peers c' = (peers c)(n := rf)" "peer_ok N n rf"
    "passive_step (peers c n) rf" "rpcs c' = old @ new" "list_all2 evolves (rpcs c) old"
    "\<forall>r \<in> set new. rpc_ok N (peers c) r"
    by (auto simp: passive_cluster_step_def)
  have t: "CurrentTerm (peers c n) \<le> CurrentTerm rf"
    using s(4) by (simp add: passive_step_def)
  have "rpc_ok N (peers c') r" if "r \<in> set old" for r
  proof -
    from that s(6) obtain r0 where "r0 \<in> set (rpcs c)" "evolves r0 r"
      by (metis evolves_source)
    with assms(2) s(2) t show ?thesis by (auto simp: base_inv_def intro: rpc_ok_mono)
  qed
  moreover have "rpc_ok N (peers c') r" if "r \<in> set new" for r
    using that s(2,7) t rpc_ok_mono [of N "peers c" r r] by auto
  ultimately show ?thesis using s assms(2) by (auto simp: base_inv_def)
next
  case (candidacy n rf)
  then have t: "CurrentTerm (peers c n) \<le> CurrentTerm rf" and p: "peers c' = (peers c)(n := rf)"
    by (auto simp: candidate_step_def)
  have "rpc_ok N (peers c') r" if "r \<in> set (rpcs c)" for r
    using that assms(2) p t rpc_ok_mono [of N "peers c" r r] by (auto simp: base_inv_def)
  moreover from candidacy obtain args where a: "n < N" "peer_ok N n rf" "CandidateID args = int n"
    "rvTerm args = CurrentTerm rf"
    "rpcs c' = rpcs c @ map (\<lambda>to. \<lparr>rpc_src = n, rpc_dst = to, rpc_live = True,
          rpc_req = RVReq args, rpc_resp = None\<rparr>) (filter (\<lambda>i. i \<noteq> n) [0..<N])"
    by (auto simp: candidate_step_def)
  moreover have "rpc_ok N (peers c') \<lparr>rpc_src = n, rpc_dst = to, rpc_live = True,
          rpc_req = RVReq args, rpc_resp = None\<rparr>" if "to < N" "to \<noteq> n" for to
    using that a p by (simp add: rpc_ok_def)
  ultimately show ?thesis using assms(2) p by (auto simp: base_inv_def)
next
  case (vote n rf)
  then have t: "CurrentTerm (peers c n) \<le> CurrentTerm rf" and p: "peers c' = (peers c)(n := rf)"
    by (auto simp: vote_step_def)
  have "rpc_ok N (peers c') r'" if "r \<in> set (rpcs c)" "evolves r r'" for r r'
    using that assms(2) p t by (auto simp: base_inv_def intro: rpc_ok_mono)
  moreover from vote have "list_all2 evolves (rpcs c) (rpcs c')"
    by (auto simp: vote_step_def list_all2_evolves_update)
  ultimately have "\<forall>r' \<in> set (rpcs c'). rpc_ok N (peers c') r'"
    by (metis evolves_source)
  moreover have "peer_ok N n rf" using vote by (simp add: vote_step_def)
  ultimately show ?thesis using assms(2) p by (auto simp: base_inv_def)
qed

lemma reachable_base_inv: "reachable N c \<Longrightarrow> base_inv N c"
  by (induction rule: reachable.induct) (auto intro: base_inv_init base_inv_step)

section \<open>Votes\<close>

text \<open>
  The invariant speaks of a history of the votes cast: \<open>h T j\<close> is the candidate that peer
  \<open>j\<close> voted for in term \<open>T\<close>.  The history is not part of the model; the invariant says that
  some history fits the state.
\<close>

type_synonym votes = "int \<Rightarrow> nat \<Rightarrow> int option"

definition vote_of :: "('c, 's) Raft \<Rightarrow> int option" where
  "vote_of rf = (if VotedFor rf = -1 then None else Some (VotedFor rf))"

definition voters :: "nat \<Rightarrow> votes \<Rightarrow> int \<Rightarrow> nat \<Rightarrow> nat set" where
  "voters N h T n = {j. j < N \<and> h T j = Some (int n)}"

definition hist_ok :: "nat \<Rightarrow> votes \<Rightarrow> (nat \<Rightarrow> ('c, 's) Raft) \<Rightarrow> bool" where
  "hist_ok N h ps \<longleftrightarrow> (\<forall>n < N. h (CurrentTerm (ps n)) n = vote_of (ps n) \<and>
     (\<forall>T > CurrentTerm (ps n). h T n = None))"

definition extends :: "votes \<Rightarrow> votes \<Rightarrow> bool" where
  "extends h h' \<longleftrightarrow> (\<forall>T j v. h T j = Some v \<longrightarrow> h' T j = Some v)"

definition cast :: "votes \<Rightarrow> nat \<Rightarrow> ('c, 's) Raft \<Rightarrow> votes" where
  "cast h n rf = h(CurrentTerm rf := (h (CurrentTerm rf))(n := vote_of rf))"

lemma voters_mono: "extends h h' \<Longrightarrow> voters N h T n \<subseteq> voters N h' T n"
  by (auto simp: voters_def extends_def)

lemma voters_finite [simp]: "finite (voters N h T n)"
  by (simp add: voters_def)

lemma cast_at [simp]: "cast h n rf (CurrentTerm rf) n = vote_of rf"
  by (simp add: cast_def)

lemma hist_ok_cast:
  assumes "hist_ok N h ps" "n < N" "CurrentTerm (ps n) \<le> CurrentTerm rf"
    "CurrentTerm rf = CurrentTerm (ps n) \<longrightarrow> VotedFor rf = VotedFor (ps n) \<or> VotedFor (ps n) = -1"
  shows "hist_ok N (cast h n rf) (ps(n := rf))" and "extends h (cast h n rf)"
proof -
  show "hist_ok N (cast h n rf) (ps(n := rf))"
    using assms by (auto simp: hist_ok_def cast_def)
  have "vote_of rf = Some v" if "h (CurrentTerm rf) n = Some v" for v
  proof -
    from that assms(1,2) have "\<not> CurrentTerm (ps n) < CurrentTerm rf"
      by (auto simp: hist_ok_def)
    with assms(3) have "CurrentTerm rf = CurrentTerm (ps n)" by simp
    with that assms show ?thesis by (auto simp: hist_ok_def vote_of_def split: if_splits)
  qed
  then show "extends h (cast h n rf)" by (auto simp: extends_def cast_def)
qed

text \<open>A request for a vote that its sender still waits for.\<close>

definition asking :: "nat \<Rightarrow> int \<Rightarrow> ('c, 's) rpc \<Rightarrow> bool" where
  "asking n T r \<longleftrightarrow> rpc_live r \<and> rpc_src r = n \<and> (\<exists>args. rpc_req r = RVReq args \<and> rvTerm args = T)"

definition quorum :: "nat \<Rightarrow> votes \<Rightarrow> int \<Rightarrow> nat \<Rightarrow> bool" where
  "quorum N h T n \<longleftrightarrow> N div 2 < card (voters N h T n)"

definition granted_ok :: "votes \<Rightarrow> ('c, 's) rpc \<Rightarrow> bool" where
  "granted_ok h r \<longleftrightarrow> (\<forall>args rep. rpc_req r = RVReq args \<and> rpc_resp r = Some (RVRep rep) \<and>
     VoteGranted rep \<longrightarrow>
       rvrTerm rep = rvTerm args \<and> h (rvTerm args) (rpc_dst r) = Some (CandidateID args))"

definition tally_ok :: "nat \<Rightarrow> votes \<Rightarrow> ('c, 's) rpc list \<Rightarrow> nat \<Rightarrow> ('c, 's) Raft \<Rightarrow> bool" where
  "tally_ok N h rs n rf \<longleftrightarrow> (rstate rf = CANDIDATE \<longrightarrow>
     (\<exists>S \<subseteq> voters N h (CurrentTerm rf) n. voteCount rf = int (card S) \<and>
        (\<forall>r \<in> set rs. asking n (CurrentTerm rf) r \<longrightarrow> rpc_dst r \<notin> S)))"

definition asked_once :: "('c, 's) rpc list \<Rightarrow> bool" where
  "asked_once rs \<longleftrightarrow> (\<forall>j < length rs. \<forall>i < j. \<forall>n T. asking n T (rs ! i) \<and> asking n T (rs ! j) \<longrightarrow>
     rpc_dst (rs ! i) \<noteq> rpc_dst (rs ! j))"

definition leads_ok :: "nat \<Rightarrow> votes \<Rightarrow> ('c, 's) rpc \<Rightarrow> bool" where
  "leads_ok N h r \<longleftrightarrow> (\<forall>args. rpc_req r \<noteq> RVReq args) \<longrightarrow> quorum N h (req_term (rpc_req r)) (rpc_src r)"

definition election_inv :: "nat \<Rightarrow> votes \<Rightarrow> ('c, 's) cluster \<Rightarrow> bool" where
  "election_inv N h c \<longleftrightarrow> base_inv N c \<and> hist_ok N h (peers c) \<and>
     (\<forall>n < N. tally_ok N h (rpcs c) n (peers c n) \<and>
        (rstate (peers c n) = LEADER \<longrightarrow> quorum N h (CurrentTerm (peers c n)) n)) \<and>
     (\<forall>r \<in> set (rpcs c). granted_ok h r \<and> leads_ok N h r) \<and> asked_once (rpcs c)"

lemma quorum_mono: "extends h h' \<Longrightarrow> quorum N h T n \<Longrightarrow> quorum N h' T n"
  unfolding quorum_def by (meson card_mono le_trans not_le voters_finite voters_mono)

lemma granted_ok_mono: "extends h h' \<Longrightarrow> granted_ok h r \<Longrightarrow> granted_ok h' r"
  by (auto simp: granted_ok_def extends_def)

lemma leads_ok_mono: "extends h h' \<Longrightarrow> leads_ok N h r \<Longrightarrow> leads_ok N h' r"
  by (auto simp: leads_ok_def intro: quorum_mono)

lemma tally_ok_mono:
  assumes "tally_ok N h rs n rf" "extends h h'"
    "\<And>r' T. r' \<in> set rs' \<Longrightarrow> asking n (CurrentTerm rf) r' \<Longrightarrow>
       \<exists>r \<in> set rs. asking n (CurrentTerm rf) r \<and> rpc_dst r = rpc_dst r'"
  shows "tally_ok N h' rs' n rf"
  using assms voters_mono [OF assms(2)] unfolding tally_ok_def by (metis order_trans)

lemma tally_ok_passive: "passive_step rf rf' \<Longrightarrow> tally_ok N h rs n rf \<Longrightarrow> tally_ok N h rs n rf'"
  unfolding tally_ok_def passive_step_def by (metis role.distinct(1))

lemma asking_evolves: "evolves r r' \<Longrightarrow> asking n T r' \<Longrightarrow> asking n T r \<and> rpc_dst r = rpc_dst r'"
  by (auto simp: asking_def evolves_def)

lemma asked_once_evolves:
  assumes "asked_once rs" "list_all2 evolves rs old" "\<forall>r \<in> set new. \<forall>a. rpc_req r \<noteq> RVReq a"
  shows "asked_once (old @ new)"
  unfolding asked_once_def
proof (intro allI impI)
  fix j i n T
  assume j: "j < length (old @ new)" "i < j"
    and a: "asking n T ((old @ new) ! i) \<and> asking n T ((old @ new) ! j)"
  have "j < length old"
  proof (rule ccontr)
    assume "\<not> j < length old"
    with j have "(old @ new) ! j \<in> set new" by (simp add: nth_append)
    with assms(3) a show False by (auto simp: asking_def)
  qed
  with j a have i: "i < length rs" "j < length rs" "asking n T (old ! i)" "asking n T (old ! j)"
    and eq: "(old @ new) ! i = old ! i" "(old @ new) ! j = old ! j"
    using list_all2_lengthD [OF assms(2)] by (auto simp: nth_append)
  have "evolves (rs ! i) (old ! i)" "evolves (rs ! j) (old ! j)"
    using i(1,2) assms(2) by (auto simp: list_all2_conv_all_nth)
  with i(3,4) have "asking n T (rs ! i)" "rpc_dst (rs ! i) = rpc_dst (old ! i)"
    "asking n T (rs ! j)" "rpc_dst (rs ! j) = rpc_dst (old ! j)"
    using asking_evolves by blast+
  with assms(1) i(2) j(2) show "rpc_dst ((old @ new) ! i) \<noteq> rpc_dst ((old @ new) ! j)"
    unfolding asked_once_def eq by metis
qed

lemma election_inv_passive:
  assumes "passive_cluster_step N c c' n rf" "base_inv N c'" "election_inv N h c"
  shows "election_inv N (cast h n rf) c'"
proof -
  let ?h = "cast h n rf"
  from assms(1) obtain old new where s: "n < N" "peers c' = (peers c)(n := rf)"
    "passive_step (peers c n) rf" "rpcs c' = old @ new" "list_all2 evolves (rpcs c) old"
    and g: "\<And>i rep. i < length old \<Longrightarrow> rpc_resp (old ! i) = Some (RVRep rep) \<Longrightarrow> VoteGranted rep \<Longrightarrow>
           rpc_resp (rpcs c ! i) = Some (RVRep rep) \<or> grants n rf (old ! i) rep"
    and w: "\<forall>r \<in> set new. rpc_src r = n \<and> rpc_resp r = None \<and> (\<forall>a. rpc_req r \<noteq> RVReq a) \<and>
           req_term (rpc_req r) = CurrentTerm (peers c n) \<and> rstate (peers c n) = LEADER"
    by (auto simp: passive_cluster_step_def)
  note inv = assms(3) [unfolded election_inv_def]
  have h: "hist_ok N ?h (peers c')" and e: "extends h ?h"
    unfolding s(2) by (rule hist_ok_cast; use inv s in \<open>auto simp: passive_step_def\<close>)+
  have tally: "tally_ok N ?h (rpcs c') m (peers c m)" if "m < N" for m
  proof (rule tally_ok_mono [OF _ e])
    show "tally_ok N h (rpcs c) m (peers c m)" using inv that by simp
    fix r' assume "r' \<in> set (rpcs c')" "asking m (CurrentTerm (peers c m)) r'"
    moreover from this w have "r' \<in> set old" by (auto simp: s(4) asking_def)
    ultimately show "\<exists>r \<in> set (rpcs c). asking m (CurrentTerm (peers c m)) r \<and> rpc_dst r = rpc_dst r'"
      using evolves_source [OF s(5)] asking_evolves by metis
  qed
  have "tally_ok N ?h (rpcs c') m (peers c' m)" if "m < N" for m
    using tally [OF that] tally_ok_passive [OF s(3)] unfolding s(2) by (cases "m = n") simp_all
  moreover have "quorum N ?h (CurrentTerm (peers c' m)) m"
    if "m < N" "rstate (peers c' m) = LEADER" for m
  proof -
    from that(2) s(2,3) have "rstate (peers c m) = LEADER \<and> CurrentTerm (peers c' m) = CurrentTerm (peers c m)"
      by (cases "m = n") (auto simp: passive_step_def)
    with inv that(1) show ?thesis using quorum_mono [OF e] by metis
  qed
  moreover have "granted_ok ?h r \<and> leads_ok N ?h r" if "r \<in> set old" for r
  proof -
    from that obtain i where i: "i < length old" "r = old ! i" by (auto simp: in_set_conv_nth)
    with s(5) have ev: "evolves (rpcs c ! i) r" "rpcs c ! i \<in> set (rpcs c)"
      by (auto simp: list_all2_conv_all_nth)
    with inv have "granted_ok ?h (rpcs c ! i)" "leads_ok N ?h (rpcs c ! i)"
      using granted_ok_mono [OF e] leads_ok_mono [OF e] by blast+
    moreover have "?h (rvTerm args) (rpc_dst r) = Some (CandidateID args)"
      if "grants n rf r rep" "rpc_req r = RVReq args" for args rep
    proof -
      from that have "rpc_dst r = n" "rvTerm args = CurrentTerm rf" "VotedFor rf = CandidateID args"
        by (auto simp: grants_def)
      moreover have "CandidateID args = int (rpc_src r)"
      proof -
        have "r \<in> set (rpcs c')" using \<open>r \<in> set old\<close> s(4) by simp
        with assms(2) that(2) show ?thesis by (auto simp: base_inv_def rpc_ok_def)
      qed
      ultimately show ?thesis by (simp add: vote_of_def)
    qed
    ultimately show ?thesis using g [OF i(1)] ev(1) i(2)
      by (fastforce simp: granted_ok_def leads_ok_def evolves_def grants_def)
  qed
  moreover have "granted_ok ?h r \<and> leads_ok N ?h r" if "r \<in> set new" for r
    using that w inv s(1) quorum_mono [OF e] by (auto simp: granted_ok_def leads_ok_def)
  moreover have "asked_once (rpcs c')"
    using asked_once_evolves [of "rpcs c" old new] inv s(4,5) w by simp
  ultimately show ?thesis using h assms(2) s(4) by (auto simp: election_inv_def)
qed

lemma election_inv_vote:
  assumes "vote_step N c c' n rf" "base_inv N c'" "election_inv N h c"
  shows "election_inv N h c'"
proof -
  from assms(1) obtain k r args rep where s: "n < N" "peers c' = (peers c)(n := rf)"
    "rstate (peers c n) = CANDIDATE" "CurrentTerm rf = CurrentTerm (peers c n)"
    "VotedFor rf = VotedFor (peers c n)" "voteCount rf = voteCount (peers c n) + 1"
    "rstate rf = (if int N div 2 < voteCount rf then LEADER else CANDIDATE)"
    and k: "k < length (rpcs c)" "r = rpcs c ! k" "rpc_live r" "rpc_src r = n"
        "rpc_req r = RVReq args" "rpc_resp r = Some (RVRep rep)" "VoteGranted rep"
        "rvrTerm rep = CurrentTerm rf" "rpcs c' = (rpcs c)[k := r\<lparr>rpc_live := False\<rparr>]"
    by (auto simp: vote_step_def)
  let ?T = "CurrentTerm rf" and ?rs = "rpcs c'"
  note inv = assms(3) [unfolded election_inv_def]
  have ev: "list_all2 evolves (rpcs c) ?rs" using k by (simp add: list_all2_evolves_update)
  have r: "r \<in> set (rpcs c)" using k by simp
  with inv have "granted_ok h r" by blast
  then have ht: "rvTerm args = ?T" "h ?T (rpc_dst r) = Some (CandidateID args)"
    unfolding granted_ok_def using k(5-8) by metis+
  from r inv have "rpc_ok N (peers c) r" by (simp add: base_inv_def)
  with k(4,5) have ok: "CandidateID args = int n" "rpc_dst r < N"
    by (auto simp: rpc_ok_def)
  have ask: "asking n ?T r" using k ht by (simp add: asking_def)
  from inv s(1) have "tally_ok N h (rpcs c) n (peers c n)" by blast
  with s(3,4) obtain S where S: "S \<subseteq> voters N h ?T n" "voteCount (peers c n) = int (card S)"
    "\<forall>r \<in> set (rpcs c). asking n ?T r \<longrightarrow> rpc_dst r \<notin> S"
    by (auto simp: tally_ok_def)
  let ?S = "insert (rpc_dst r) S"
  have S': "?S \<subseteq> voters N h ?T n" using S(1) ht ok by (auto simp: voters_def)
  have fin: "finite S" using S(1) voters_finite by (rule finite_subset)
  have cnt: "voteCount rf = int (card ?S)"
    using S(2,3) fin r ask s(6) by simp
  have free: "rpc_dst r' \<notin> ?S" if "r' \<in> set ?rs" "asking n ?T r'" for r'
  proof -
    from that obtain i where i: "i < length ?rs" "r' = ?rs ! i" by (auto simp: in_set_conv_nth)
    have "i \<noteq> k" using i that(2) k by (auto simp: asking_def)
    with i k have r': "r' = rpcs c ! i" "i < length (rpcs c)" by auto
    then have "rpc_dst r' \<notin> S" using S(3) that(2) by auto
    moreover have "rpc_dst r' \<noteq> rpc_dst r"
      using inv k(1,2) r' \<open>i \<noteq> k\<close> that(2) ask unfolding asked_once_def by (metis nat_neq_iff)
    ultimately show ?thesis by simp
  qed
  have "tally_ok N h ?rs n rf" unfolding tally_ok_def using S' cnt free by blast
  moreover have "tally_ok N h ?rs m (peers c m)" if "m < N" for m
  proof (rule tally_ok_mono)
    show "tally_ok N h (rpcs c) m (peers c m)" "extends h h"
      using inv that by (simp_all add: extends_def)
  qed (metis asking_evolves evolves_source [OF ev])
  moreover have "quorum N h ?T n" if "rstate rf = LEADER"
  proof -
    from that s(7) cnt have "N div 2 < card ?S" by (auto split: if_splits)
    with card_mono [OF voters_finite S'] show ?thesis by (simp add: quorum_def)
  qed
  moreover have "hist_ok N h (peers c')" using inv s by (auto simp: hist_ok_def vote_of_def)
  moreover have "granted_ok h r' \<and> leads_ok N h r'" if "r' \<in> set ?rs" for r'
  proof -
    have "r' \<in> set (rpcs c) \<or> r' = r\<lparr>rpc_live := False\<rparr>"
      using that set_update_subset_insert [of "rpcs c" k] unfolding k(9) by blast
    moreover have "granted_ok h (r\<lparr>rpc_live := False\<rparr>) = granted_ok h r"
      "leads_ok N h (r\<lparr>rpc_live := False\<rparr>) = leads_ok N h r"
      by (simp_all add: granted_ok_def leads_ok_def)
    ultimately show ?thesis using inv r by metis
  qed
  moreover have "asked_once ?rs" using asked_once_evolves [OF _ ev, of "[]"] inv by simp
  ultimately show ?thesis using inv assms(2) s(2) by (auto simp: election_inv_def)
qed

lemma asked_once_append:
  assumes "asked_once old" "distinct ds" "\<And>r. r \<in> set old \<Longrightarrow> \<not> asking n T r"
    "\<And>d. rpc_dst (f d) = d \<and> rpc_src (f d) = n" "\<And>d m U. asking m U (f d) \<Longrightarrow> U = T"
  shows "asked_once (old @ map f ds)"
  unfolding asked_once_def
proof (intro allI impI)
  fix j i m U
  assume j: "j < length (old @ map f ds)" "i < j"
    and a: "asking m U ((old @ map f ds) ! i) \<and> asking m U ((old @ map f ds) ! j)"
  consider "j < length old" | "length old \<le> j" "i < length old" | "length old \<le> i"
    by linarith
  then show "rpc_dst ((old @ map f ds) ! i) \<noteq> rpc_dst ((old @ map f ds) ! j)"
  proof cases
    case 1
    with j a assms(1) show ?thesis unfolding asked_once_def by (auto simp: nth_append)
  next
    case 2
    with j a have f: "asking m U (f (ds ! (j - length old)))" by (simp add: nth_append)
    then have "m = n" "U = T" using assms(4) assms(5) [OF f] by (auto simp: asking_def)
    with 2 a assms(3) show ?thesis by (simp add: nth_append)
  next
    case 3
    with j assms(2,4) show ?thesis by (auto simp: nth_append nth_eq_iff_index_eq)
  qed
qed

lemma election_inv_candidate:
  assumes "candidate_step N c c' n rf" "base_inv N c'" "election_inv N h c"
  shows "election_inv N (cast h n rf) c'"
proof -
  let ?h = "cast h n rf" and ?T = "CurrentTerm rf"
  from assms(1) obtain args where s: "n < N" "peers c' = (peers c)(n := rf)"
    "rstate rf = CANDIDATE" "?T = CurrentTerm (peers c n) + 1" "VotedFor rf = int n"
    "voteCount rf = 1" "CandidateID args = int n" "rvTerm args = ?T" and
    r: "rpcs c' = rpcs c @ map (\<lambda>to. \<lparr>rpc_src = n, rpc_dst = to, rpc_live = True,
          rpc_req = RVReq args, rpc_resp = None\<rparr>) (filter (\<lambda>i. i \<noteq> n) [0..<N])"
    unfolding candidate_step_def by blast
  define f :: "nat \<Rightarrow> ('a, 'b) rpc" where "f = (\<lambda>to. \<lparr>rpc_src = n, rpc_dst = to,
      rpc_live = True, rpc_req = RVReq args, rpc_resp = None\<rparr>)"
  define new where "new = map f (filter (\<lambda>i. i \<noteq> n) [0..<N])"
  have rs: "rpcs c' = rpcs c @ new" by (simp only: r new_def f_def)
  note inv = assms(3) [unfolded election_inv_def]
  have t: "CurrentTerm (peers c n) \<le> ?T" "?T \<noteq> CurrentTerm (peers c n)" using s(4) by linarith+
  have h: "hist_ok N ?h (peers c')" and e: "extends h ?h"
    unfolding s(2) by (rule hist_ok_cast [of N h "peers c"]; use inv t s(1) in blast)+
  have old: "\<not> asking n ?T r" if "r \<in> set (rpcs c)" for r
  proof -
    from that inv have "rpc_ok N (peers c) r" by (simp add: base_inv_def)
    then show ?thesis using s(4) by (auto simp: rpc_ok_def asking_def)
  qed
  have "{n} \<subseteq> voters N ?h ?T n" using s(1,5) by (simp add: voters_def vote_of_def)
  moreover have "rpc_dst r \<notin> {n}" if "r \<in> set (rpcs c')" "asking n ?T r" for r
  proof -
    from that old have "r \<in> set new" by (auto simp: rs)
    moreover have "\<forall>r \<in> set new. rpc_dst r \<noteq> n" by (simp add: new_def f_def)
    ultimately show ?thesis by simp
  qed
  ultimately have "tally_ok N ?h (rpcs c') n rf"
    unfolding tally_ok_def using s(6) by (intro impI exI [of _ "{n}"]) auto
  moreover have "tally_ok N ?h (rpcs c') m (peers c m)" if "m < N" "m \<noteq> n" for m
  proof (rule tally_ok_mono [OF _ e])
    show "tally_ok N h (rpcs c) m (peers c m)" using inv that by simp
    fix r' assume "r' \<in> set (rpcs c')" "asking m (CurrentTerm (peers c m)) r'"
    moreover from this that have "r' \<in> set (rpcs c)" by (auto simp: rs new_def f_def asking_def)
    ultimately show "\<exists>r \<in> set (rpcs c). asking m (CurrentTerm (peers c m)) r \<and> rpc_dst r = rpc_dst r'"
      by blast
  qed
  moreover have "quorum N ?h (CurrentTerm (peers c m)) m"
    if "m < N" "rstate (peers c m) = LEADER" for m
    using that inv quorum_mono [OF e] by blast
  moreover have "granted_ok ?h r \<and> leads_ok N ?h r" if "r \<in> set (rpcs c')" for r
  proof (cases "r \<in> set (rpcs c)")
    case True
    with inv show ?thesis using granted_ok_mono [OF e] leads_ok_mono [OF e] by blast
  next
    case False
    with that show ?thesis by (auto simp: rs new_def f_def granted_ok_def leads_ok_def)
  qed
  moreover have "asked_once (rpcs c')"
    unfolding rs new_def using inv old s(8)
    by (intro asked_once_append [of _ _ n ?T]) (auto simp: f_def asking_def)
  ultimately show ?thesis using h assms(2) s(2,3) by (auto simp: election_inv_def)
qed

lemma election_inv_init: "election_inv N (\<lambda>_ _. None) (init_cluster N)"
  using base_inv_init [of N]
  by (simp add: election_inv_def init_cluster_def hist_ok_def tally_ok_def asked_once_def vote_of_def
      Make_def Let_def dePersistState_def decodeState_def persister_defs)

lemma reachable_election_inv: "reachable N c \<Longrightarrow> \<exists>h. election_inv N h c"
proof (induction rule: reachable.induct)
  case init
  show ?case using election_inv_init by blast
next
  case (step c c')
  then obtain h where h: "election_inv N h c" by blast
  then have b: "base_inv N c" by (simp add: election_inv_def)
  with step(2) have b': "base_inv N c'" by (rule base_inv_step)
  from step(2) b show ?case
    by (cases rule: cstep_classified)
       (use election_inv_passive election_inv_candidate election_inv_vote b' h in blast)+
qed

lemma quorum_unique:
  assumes "quorum N h T m" "quorum N h T n"
  shows "m = n"
proof -
  have "voters N h T m \<inter> voters N h T n \<noteq> {}"
    using assms by (intro majorities_intersect [of _ N]) (auto simp: quorum_def voters_def)
  then show ?thesis by (auto simp: voters_def)
qed

text \<open>
  Property C1. Election safety: in every state a cluster can reach, through timeouts, lost,
  delayed and reordered RPCs, crashes and restarts, a term has at most one leader.
\<close>

theorem election_safety:
  assumes "reachable N c"
  shows "card {n. n < N \<and> rstate (peers c n) = LEADER \<and> CurrentTerm (peers c n) = T} \<le> 1"
proof -
  from assms obtain h where "election_inv N h c" using reachable_election_inv by blast
  then have "quorum N h T n" if "n < N" "rstate (peers c n) = LEADER" "CurrentTerm (peers c n) = T" for n
    using that by (auto simp: election_inv_def)
  then show ?thesis
    by (intro card_le_Suc0_iff_eq [THEN iffD2, folded One_nat_def]) (auto intro: quorum_unique)
qed

theorem election_safety_witness:
  "let c = trace 3 [Timeout 0, Timeout 1, Deliver 1, CallReturns 1 False] :: (int, int) cluster in
   rstate (peers c 0) = LEADER \<and> rstate (peers c 1) = CANDIDATE \<and> CurrentTerm (peers c 1) = 1 \<and>
   card {n. n < 3 \<and> rstate (peers c n) = LEADER \<and> CurrentTerm (peers c n) = 1} \<le> 1"
proof -
  let ?c = "trace 3 [Timeout 0, Timeout 1, Deliver 1, CallReturns 1 False] :: (int, int) cluster"
  have r: "reachable 3 ?c" by (rule trace_reachable) code_simp
  have l: "rstate (peers ?c 0) = LEADER" "rstate (peers ?c 1) = CANDIDATE"
    "CurrentTerm (peers ?c 1) = 1" by code_simp+
  show ?thesis unfolding Let_def using l election_safety [OF r, of 1] by simp
qed

text \<open>
  Property C18. A leader never receives a request of its own term: every AppendEntries and
  InstallSnapshot call in flight in a leader's term was sent by that leader, so the handlers
  never have to turn a leader of the request's term into a follower.
\<close>

theorem leader_requests_unique:
  assumes "reachable N c" "n < N" "rstate (peers c n) = LEADER" "r \<in> set (rpcs c)"
    "\<And>args. rpc_req r \<noteq> RVReq args" "req_term (rpc_req r) = CurrentTerm (peers c n)"
  shows "rpc_src r = n \<and> rpc_dst r \<noteq> n"
proof -
  from assms(1) obtain h where h: "election_inv N h c" using reachable_election_inv by blast
  with assms(4,5) have "quorum N h (req_term (rpc_req r)) (rpc_src r)"
    by (auto simp: election_inv_def leads_ok_def)
  moreover from h assms(2,3) have "quorum N h (CurrentTerm (peers c n)) n"
    by (simp add: election_inv_def)
  ultimately have "rpc_src r = n" using assms(6) by (auto intro: quorum_unique)
  moreover from h assms(4) have "rpc_ok N (peers c) r" by (simp add: election_inv_def base_inv_def)
  ultimately show ?thesis by (auto simp: rpc_ok_def)
qed

theorem leader_requests_unique_witness:
  "let c = trace 3 [Timeout 0, Deliver 0, CallReturns 0 False, CheckPeer 0 2] :: (int, int) cluster in
   reachable 3 c \<and> rpc_src (rpcs c ! 2) = 0 \<and> rpc_dst (rpcs c ! 2) \<noteq> 0"
proof -
  let ?c = "trace 3 [Timeout 0, Deliver 0, CallReturns 0 False, CheckPeer 0 2] :: (int, int) cluster"
  have r: "reachable 3 ?c" by (rule trace_reachable) code_simp
  have l: "rstate (peers ?c 0) = LEADER" by code_simp
  have k: "2 < length (rpcs ?c)" by code_simp
  have a: "case rpc_req (rpcs ?c ! 2) of RVReq _ \<Rightarrow> False | _ \<Rightarrow> True" by code_simp
  have t: "req_term (rpc_req (rpcs ?c ! 2)) = CurrentTerm (peers ?c 0)" by code_simp
  show ?thesis
    unfolding Let_def
    using r leader_requests_unique [OF r _ l nth_mem [OF k] _ t] a by (auto split: request.splits)
qed

section \<open>Terms, votes and stable storage\<close>

lemma cstep_votes:
  assumes "cstep N c c'" "base_inv N c" "n < N"
  shows "CurrentTerm (peers c n) \<le> CurrentTerm (peers c' n) \<and>
    (CurrentTerm (peers c' n) = CurrentTerm (peers c n) \<longrightarrow>
       VotedFor (peers c' n) = VotedFor (peers c n) \<or> VotedFor (peers c n) = -1)"
  using assms(1,2)
proof (cases rule: cstep_classified)
  case (passively m rf)
  then show ?thesis by (auto simp: passive_cluster_step_def passive_step_def)
next
  case (candidacy m rf)
  then show ?thesis by (cases "n = m") (auto simp: candidate_step_def)
next
  case (vote m rf)
  then show ?thesis by (cases "n = m") (auto simp: vote_step_def)
qed

lemma run_votes:
  assumes "reachable N c" "run N c evs = Some c'" "n < N"
  shows "CurrentTerm (peers c n) \<le> CurrentTerm (peers c' n) \<and>
    (CurrentTerm (peers c' n) = CurrentTerm (peers c n) \<longrightarrow>
       VotedFor (peers c' n) = VotedFor (peers c n) \<or> VotedFor (peers c n) = -1)"
  using assms(1,2)
proof (induction evs arbitrary: c)
  case (Cons ev evs)
  then obtain c1 where c1: "exec N c ev = Some c1" "run N c1 evs = Some c'"
    by (auto simp: bind_Some_iff)
  from c1(1) have s: "cstep N c c1" by (rule exec_sound)
  with Cons.prems(1) have "reachable N c1" by (rule reachable.step)
  from Cons.IH [OF this c1(2)] cstep_votes [OF s reachable_base_inv [OF Cons.prems(1)] assms(3)]
  show ?case by auto
qed simp

text \<open>
  Property C16. Terms never go back and a vote is never changed: along every execution, crashes
  and restarts of the peer included, the current term of a peer does not decrease, and as long
  as the term is the same, a peer that has voted keeps its vote.
\<close>

theorem vote_is_final:
  assumes "reachable N c" "run N c evs = Some c'" "n < N"
  shows "CurrentTerm (peers c n) \<le> CurrentTerm (peers c' n) \<and>
    (CurrentTerm (peers c' n) = CurrentTerm (peers c n) \<and> VotedFor (peers c n) \<noteq> -1 \<longrightarrow>
       VotedFor (peers c' n) = VotedFor (peers c n))"
  using run_votes [OF assms] by blast

theorem vote_is_final_witness:
  "let c = trace 3 [Timeout 0, Deliver 0] :: (int, int) cluster;
       evs = [Timeout 2, Restart 1, Deliver 2, Deliver 3] in
   reachable 3 c \<and> run 3 c evs \<noteq> None \<and> VotedFor (peers c 1) = 0 \<and>
   VotedFor (peers (the (run 3 c evs)) 1) = 0"
proof -
  let ?c = "trace 3 [Timeout 0, Deliver 0] :: (int, int) cluster"
  let ?evs = "[Timeout 2, Restart 1, Deliver 2, Deliver 3] :: (int, int) event list"
  let ?c' = "the (run 3 ?c ?evs)"
  have r: "reachable 3 ?c" by (rule trace_reachable) code_simp
  have d: "run 3 ?c ?evs \<noteq> None" by code_simp
  then have e: "run 3 ?c ?evs = Some ?c'" by simp
  have t: "CurrentTerm (peers ?c' 1) = CurrentTerm (peers ?c 1)" by code_simp
  have v: "VotedFor (peers ?c 1) = 0" by code_simp
  show ?thesis
    unfolding Let_def using r d v t vote_is_final [OF r e, of 1] by simp
qed

text \<open>
  Property C17. Stable storage is always up to date between two critical sections: a peer of a
  reachable cluster that crashes and is made again from a copy of its persister has the term,
  the vote, the snapshot index and the log it had, and starts as a follower.
\<close>

theorem restart_recovers:
  assumes "reachable N c" "n < N"
  shows "let rf = peers c n; rf' = fst (Make N (int n) (CopyPersister (persister rf))) in
     CurrentTerm rf' = CurrentTerm rf \<and> VotedFor rf' = VotedFor rf \<and>
     SnapshotIndex rf' = SnapshotIndex rf \<and> Logs rf' = Logs rf \<and> rstate rf' = FOLLOWER \<and>
     ReadSnapshot (persister rf') = ReadSnapshot (persister rf)"
proof -
  from assms have "durable (peers c n)"
    using reachable_base_inv by (auto simp: base_inv_def peer_ok_def)
  from recover_wf [OF this, of N n] show ?thesis by (simp add: Let_def)
qed

theorem restart_recovers_witness:
  "let c = trace 3 [Timeout 0, Deliver 0, CallReturns 0 False, Submit 0 (Some 7)] :: (int, int) cluster;
       rf' = fst (Make 3 0 (CopyPersister (persister (peers c 0)))) in
   reachable 3 c \<and> CurrentTerm rf' = 1 \<and> VotedFor rf' = 0 \<and> map Command (Logs rf') = [None, Some 7]"
proof -
  let ?c = "trace 3 [Timeout 0, Deliver 0, CallReturns 0 False, Submit 0 (Some 7)] :: (int, int) cluster"
  have r: "reachable 3 ?c" by (rule trace_reachable) code_simp
  have "CurrentTerm (peers ?c 0) = 1" "VotedFor (peers ?c 0) = 0"
    "map Command (Logs (peers ?c 0)) = [None, Some 7]" by code_simp+
  with r restart_recovers [OF r, of 0] show ?thesis by (simp add: Let_def)
qed

end
