(* ===== verification/Raft_Logs.thy ===== *)
theory Raft_Logs
  imports Raft_Safety
begin

text \<open>
  Logs as a whole, from the first entry on.  A peer keeps only what is not compacted; the
  proofs speak of the log it would have without compaction and of the log that the leader of
  every term has or had.  Such logs are compared by their terms: an entry belongs to the log
  of the leader of its term.
\<close>

section \<open>Agreement of logs\<close>

type_synonym 'c log = "'c LogEntry list"

text \<open>The term of the entry at an index; indices start at 1, and index 0 has term 0.\<close>

definition tat :: "'c log \<Rightarrow> nat \<Rightarrow> int" where
  "tat f i = (if i = 0 then 0 else Term (f ! (i - 1)))"

definition agree :: "nat \<Rightarrow> 'c log \<Rightarrow> 'c log \<Rightarrow> bool" where
  "agree i f g \<longleftrightarrow> i \<le> length f \<and> i \<le> length g \<and> take i f = take i g"

lemma tat_0 [simp]: "tat f 0 = 0"
  by (simp add: tat_def)

lemma agree_0 [simp]: "agree 0 f g"
  by (simp add: agree_def)

lemma agree_refl: "i \<le> length f \<Longrightarrow> agree i f f"
  by (simp add: agree_def)

lemma agree_sym: "agree i f g \<Longrightarrow> agree i g f"
  by (simp add: agree_def)

lemma agree_trans: "agree i f g \<Longrightarrow> agree i g h \<Longrightarrow> agree i f h"
  by (simp add: agree_def)

lemma agree_le: "agree i f g \<Longrightarrow> k \<le> i \<Longrightarrow> agree k f g"
  unfolding agree_def by (metis le_trans min.absorb1 take_take)

lemma agree_append: "agree i f g \<Longrightarrow> agree i f (g @ x)"
  by (simp add: agree_def)

lemma agree_append_iff: "i \<le> length g \<Longrightarrow> agree i f (g @ x) = agree i f g"
  by (simp add: agree_def)

lemma agree_nth: "agree i f g \<Longrightarrow> k < i \<Longrightarrow> f ! k = g ! k"
  unfolding agree_def by (metis nth_take)

lemma agree_tat: "agree i f g \<Longrightarrow> k \<le> i \<Longrightarrow> tat f k = tat g k"
  using agree_nth [of i f g "k - 1"] by (auto simp: tat_def)

lemma agree_take: "i \<le> k \<Longrightarrow> k \<le> length f \<Longrightarrow> agree i (take k f) g = agree i f g"
  by (auto simp: agree_def min_absorb1)

lemma agree_lengths: "agree i f g \<Longrightarrow> i \<le> length f \<and> i \<le> length g"
  by (simp add: agree_def)

lemma tat_append [simp]: "i \<le> length f \<Longrightarrow> tat (f @ x) i = tat f i"
  by (cases i) (simp_all add: tat_def nth_append)

lemma tat_take [simp]: "i \<le> k \<Longrightarrow> tat (take k f) i = tat f i"
  by (cases i) (simp_all add: tat_def)

lemma tat_mem: "0 < i \<Longrightarrow> i \<le> length f \<Longrightarrow> \<exists>e \<in> set f. tat f i = Term e"
  by (cases i) (auto simp: tat_def)

section \<open>The logs of the leaders\<close>

text \<open>
  What is remembered of an execution: \<open>base t\<close> is the log with which the leader of term \<open>t\<close> was
  elected, \<open>tlog t\<close> the log it has or had last, and \<open>acks\<close> the peers that had, while they were
  in term \<open>t\<close>, the log of its leader up to an entry of that term.
\<close>

record 'c ghost =
  base :: "int \<Rightarrow> 'c log option"
  tlog :: "int \<Rightarrow> 'c log"
  acks :: "(nat \<times> nat \<times> int) set"

text \<open>A log is coherent when every entry comes from the leader of its term, with all before it.\<close>

definition coh :: "'c ghost \<Rightarrow> 'c log \<Rightarrow> bool" where
  "coh g f \<longleftrightarrow> (\<forall>i. 0 < i \<and> i \<le> length f \<longrightarrow>
     base g (tat f i) \<noteq> None \<and> agree i f (tlog g (tat f i)))"

definition terms_ok :: "'c ghost \<Rightarrow> bool" where
  "terms_ok g \<longleftrightarrow> (\<forall>t b. base g t = Some b \<longrightarrow> 0 < t \<and> coh g (tlog g t) \<and>
     (\<forall>e \<in> set b. Term e < t) \<and> (\<exists>x. tlog g t = b @ x \<and> (\<forall>e \<in> set x. Term e = t)))"

text \<open>What happens to the record of an execution: nothing is forgotten, logs of leaders grow.\<close>

definition gle :: "'c ghost \<Rightarrow> 'c ghost \<Rightarrow> bool" where
  "gle g g' \<longleftrightarrow> acks g \<subseteq> acks g' \<and>
     (\<forall>t b. base g t = Some b \<longrightarrow> base g' t = Some b \<and> (\<exists>x. tlog g' t = tlog g t @ x))"

lemma gle_refl [simp]: "gle g g"
  by (auto simp: gle_def)

lemma gle_trans: "gle g g' \<Longrightarrow> gle g' g'' \<Longrightarrow> gle g g''"
  unfolding gle_def by (metis append.assoc order_trans)

lemma gle_tlog:
  assumes "gle g g'" and "base g t \<noteq> None"
  obtains x where "tlog g' t = tlog g t @ x" and "base g' t = base g t"
  using assms unfolding gle_def by (metis option.exhaust)

lemma gle_agree: "gle g g' \<Longrightarrow> base g t \<noteq> None \<Longrightarrow> agree i f (tlog g t) \<Longrightarrow> agree i f (tlog g' t)"
  by (metis agree_append gle_tlog)

lemma gle_agree_iff:
  "gle g g' \<Longrightarrow> base g t \<noteq> None \<Longrightarrow> i \<le> length (tlog g t) \<Longrightarrow> agree i f (tlog g' t) = agree i f (tlog g t)"
  by (metis agree_append_iff gle_tlog)

lemma gle_tat: "gle g g' \<Longrightarrow> base g t \<noteq> None \<Longrightarrow> i \<le> length (tlog g t) \<Longrightarrow> tat (tlog g' t) i = tat (tlog g t) i"
  by (metis gle_tlog tat_append)

lemma gle_length: "gle g g' \<Longrightarrow> base g t \<noteq> None \<Longrightarrow> length (tlog g t) \<le> length (tlog g' t)"
  by (metis gle_tlog le_add1 length_append)

lemma coh_mono: "gle g g' \<Longrightarrow> coh g f \<Longrightarrow> coh g' f"
  unfolding coh_def by (metis gle_agree gle_tlog)

lemma coh_take: "coh g f \<Longrightarrow> coh g (take k f)"
  unfolding coh_def
proof (intro allI impI)
  fix i assume f: "\<forall>i. 0 < i \<and> i \<le> length f \<longrightarrow> base g (tat f i) \<noteq> None \<and> agree i f (tlog g (tat f i))"
    and i: "0 < i \<and> i \<le> length (take k f)"
  then have "agree i (take k f) h = agree i f h" for h by (auto simp: agree_def min_absorb1)
  moreover have "tat (take k f) i = tat f i" using i by simp
  ultimately show "base g (tat (take k f) i) \<noteq> None \<and> agree i (take k f) (tlog g (tat (take k f) i))"
    using f i by simp
qed

lemma coh_nil [simp]: "coh g []"
  by (simp add: coh_def)

text \<open>Log matching: two coherent logs with entries of the same term at an index agree up to it.\<close>

lemma coh_matching:
  assumes "coh g f" and "coh g f'" and "i \<le> length f" and "i \<le> length f'" and "tat f i = tat f' i"
  shows "agree i f f'"
  using assms unfolding coh_def by (cases "i = 0") (metis agree_0, metis agree_sym agree_trans not_gr_zero)

lemma tlog_terms:
  assumes "terms_ok g" and "base g t = Some b" and "0 < i" and "i \<le> length (tlog g t)"
  shows "tat (tlog g t) i \<le> t" and "tat (tlog g t) i = t \<longleftrightarrow> length b < i"
proof -
  obtain x where b: "\<forall>e \<in> set b. Term e < t" and x: "tlog g t = b @ x" "\<forall>e \<in> set x. Term e = t"
    using assms(1,2) unfolding terms_ok_def by blast
  have "tat (tlog g t) i < t" if "i \<le> length b"
    using tat_mem [OF assms(3) that] b x(1) that by auto
  moreover have "tat (tlog g t) i = t" if "length b < i"
  proof -
    have "(b @ x) ! (i - 1) = x ! (i - 1 - length b)" "i - 1 - length b < length x"
      using that assms(4) x(1) by (auto simp: nth_append)
    then show ?thesis using x that by (simp add: tat_def)
  qed
  ultimately show "tat (tlog g t) i \<le> t" and "tat (tlog g t) i = t \<longleftrightarrow> length b < i"
    by (metis less_imp_le not_le order_refl, metis less_irrefl not_le)
qed

lemma coh_sorted:
  assumes g: "terms_ok g" and f: "coh g f" and i: "k \<le> i" "i \<le> length f"
  shows "tat f k \<le> tat f i"
proof (cases "0 < i")
  case True
  then have b: "base g (tat f i) \<noteq> None" and a: "agree i f (tlog g (tat f i))"
    using f i by (auto simp: coh_def)
  then obtain b where b: "base g (tat f i) = Some b" by blast
  show ?thesis
  proof (cases "k = 0")
    case True
    then show ?thesis using g b by (auto simp: terms_ok_def less_imp_le)
  next
    case False
    then have "tat (tlog g (tat f i)) k \<le> tat f i"
      using tlog_terms(1) [OF g b, of k] a i by (auto simp: agree_def)
    then show ?thesis using agree_tat [OF a i(1)] by simp
  qed
qed (use i in simp)

lemma coh_pos: "terms_ok g \<Longrightarrow> coh g f \<Longrightarrow> 0 < i \<Longrightarrow> i \<le> length f \<Longrightarrow> 0 < tat f i"
  unfolding terms_ok_def coh_def by (metis option.exhaust)

section \<open>Replacing a log by that of a leader\<close>

text \<open>
  What a follower's log becomes under a request of term \<open>u\<close>: whatever it had in common with any
  log is kept, unless the leader of term \<open>u\<close> does not have it.
\<close>

definition follows :: "'c ghost \<Rightarrow> int \<Rightarrow> 'c log \<Rightarrow> 'c log \<Rightarrow> bool" where
  "follows g u f f' \<longleftrightarrow> base g u \<noteq> None \<and> coh g f' \<and> (\<forall>i \<le> length f'. tat f' i \<le> u) \<and>
     (\<forall>i h. agree i f h \<longrightarrow> agree i f' h \<or> \<not> agree i (tlog g u) h)"

lemma follows_take:
  assumes g: "terms_ok g" "base g u \<noteq> None" and k: "k \<le> length (tlog g u)"
    and diff: "p < k" "length f \<le> p \<or> tat f (Suc p) \<noteq> tat (tlog g u) (Suc p)"
  shows "follows g u f (take k (tlog g u))"
proof -
  let ?G = "tlog g u"
  obtain b where b: "base g u = Some b" using g(2) by blast
  have "coh g (take k ?G)" using g(1) b by (auto simp: terms_ok_def intro: coh_take)
  moreover have "tat (take k ?G) i \<le> u" if "i \<le> length (take k ?G)" for i
  proof (cases "i = 0")
    case True
    then show ?thesis using g(1) b by (force simp: terms_ok_def)
  next
    case False
    then show ?thesis using that tlog_terms(1) [OF g(1) b, of i] by simp
  qed
  moreover have "agree i (take k ?G) h \<or> \<not> agree i ?G h" if "agree i f h" for i h
  proof (cases "i \<le> k")
    case True
    then show ?thesis using agree_take [OF True k] by blast
  next
    case False
    then have "p < length f" "tat f (Suc p) \<noteq> tat ?G (Suc p)" using diff that by (auto simp: agree_def)
    moreover have "tat f (Suc p) = tat h (Suc p)" using agree_tat [OF that, of "Suc p"] False diff by simp
    moreover have "tat ?G (Suc p) = tat h (Suc p)" if "agree i ?G h"
      using agree_tat [OF that, of "Suc p"] False diff by simp
    ultimately show ?thesis by auto
  qed
  ultimately show ?thesis using g(2) by (simp add: follows_def)
qed

lemma follows_agree: "follows g u f f' \<Longrightarrow> agree i f (tlog g u) \<Longrightarrow> agree i f' (tlog g u)"
  unfolding follows_def by (metis agree_lengths agree_refl)

end
