(* ===== verification/Raft_Core.thy ===== *)
theory Raft_Core
  imports Raft_Logs
begin

text \<open>
  The argument for the safety of Raft, away from the code: what a peer is, for this argument, is
  its term, its role and its whole log, and what it does is one of four things.  It follows (keeps
  or replaces its log as the leader of its term says, moves to a later term, gives a vote), becomes
  a candidate, is elected, or appends an entry as a leader.  Every step keeps the invariant
  \<open>core_inv\<close>, and the invariant gives the completeness of the logs of leaders.
\<close>

section \<open>The invariant\<close>

record 'c view =
  vterm :: int
  vrole :: role
  vlog :: "'c log"

definition view_ok :: "'c ghost \<Rightarrow> 'c view \<Rightarrow> bool" where
  "view_ok g x \<longleftrightarrow> 0 \<le> vterm x \<and> (vrole x = CANDIDATE \<longrightarrow> 0 < vterm x) \<and> coh g (vlog x) \<and> (\<forall>e \<in> set (vlog x). Term e \<le> vterm x) \<and>
     (vrole x = CANDIDATE \<longrightarrow> (\<forall>e \<in> set (vlog x). Term e < vterm x)) \<and>
     (vrole x = LEADER \<longrightarrow> base g (vterm x) \<noteq> None \<and> tlog g (vterm x) = vlog x)"

text \<open>
  The first \<open>i\<close> entries of the leader of term \<open>t\<close> are in the log \<open>f\<close>, unless they are not in the
  log of some leader after \<open>t\<close> up to term \<open>T\<close>.
\<close>

definition held :: "'c ghost \<Rightarrow> nat \<Rightarrow> int \<Rightarrow> int \<Rightarrow> 'c log \<Rightarrow> bool" where
  "held g i t T f \<longleftrightarrow> agree i f (tlog g t) \<or>
     (\<exists>r b. t < r \<and> r \<le> T \<and> base g r = Some b \<and> \<not> agree i b (tlog g t))"

text \<open>What the peers have of the logs of the leaders of their terms.\<close>

definition current :: "nat \<Rightarrow> (nat \<Rightarrow> 'c view) \<Rightarrow> 'c ghost \<Rightarrow> (nat \<times> nat \<times> int) set" where
  "current N v g = {(w, i, t). w < N \<and> t = vterm (v w) \<and> base g t \<noteq> None \<and> 0 < i \<and>
     agree i (vlog (v w)) (tlog g t) \<and> tat (tlog g t) i = t}"

definition acks_sound :: "nat \<Rightarrow> (nat \<Rightarrow> 'c view) \<Rightarrow> 'c ghost \<Rightarrow> bool" where
  "acks_sound N v g \<longleftrightarrow>
     (\<forall>w i t. (w, i, t) \<in> acks g \<longrightarrow> w < N \<and> base g t \<noteq> None \<and> 0 < i \<and> i \<le> length (tlog g t) \<and>
        tat (tlog g t) i = t \<and> t \<le> vterm (v w) \<and> held g i t (vterm (v w)) (vlog (v w)) \<and>
        (\<forall>k. 0 < k \<and> k \<le> i \<and> tat (tlog g t) k = t \<longrightarrow> (w, k, t) \<in> acks g))"

lemma acks_soundD:
  assumes "acks_sound N v g" and "(w, i, t) \<in> acks g"
  shows "w < N" "base g t \<noteq> None" "0 < i" "i \<le> length (tlog g t)" "tat (tlog g t) i = t"
    "t \<le> vterm (v w)" "held g i t (vterm (v w)) (vlog (v w))"
    "0 < k \<Longrightarrow> k \<le> i \<Longrightarrow> tat (tlog g t) k = t \<Longrightarrow> (w, k, t) \<in> acks g"
  using assms unfolding acks_sound_def by blast+

definition acks_ok :: "nat \<Rightarrow> (nat \<Rightarrow> 'c view) \<Rightarrow> 'c ghost \<Rightarrow> bool" where
  "acks_ok N v g \<longleftrightarrow> current N v g \<subseteq> acks g \<and> acks_sound N v g"

definition votes_ok :: "nat \<Rightarrow> votes \<Rightarrow> (nat \<Rightarrow> 'c view) \<Rightarrow> 'c ghost \<Rightarrow> bool" where
  "votes_ok N h v g \<longleftrightarrow> (\<forall>w n T. w < N \<and> n < N \<and> h T w = Some (int n) \<longrightarrow>
     T \<le> vterm (v w) \<and> T \<le> vterm (v n) \<and>
     (vrole (v n) = CANDIDATE \<and> vterm (v n) = T \<longrightarrow>
        (\<forall>i t. (w, i, t) \<in> acks g \<and> t < T \<longrightarrow> held g i t T (vlog (v n)))))"

text \<open>Who led a term, and the voters that elected it: what they had is in its log.\<close>

definition led :: "nat \<Rightarrow> votes \<Rightarrow> (nat \<Rightarrow> 'c view) \<Rightarrow> int \<Rightarrow> bool" where
  "led N h v u \<longleftrightarrow>
     (\<exists>n < N. quorum N h u n \<and> (u < vterm (v n) \<or> u = vterm (v n) \<and> vrole (v n) \<noteq> CANDIDATE))"

definition backed :: "nat \<Rightarrow> (nat \<Rightarrow> 'c view) \<Rightarrow> 'c ghost \<Rightarrow> int \<Rightarrow> 'c log \<Rightarrow> bool" where
  "backed N v g u b \<longleftrightarrow> (\<exists>Q \<subseteq> {..<N}. N div 2 < card Q \<and> (\<forall>w \<in> Q. u \<le> vterm (v w) \<and>
     (\<forall>i t. (w, i, t) \<in> acks g \<and> t < u \<longrightarrow> held g i t (u - 1) b)))"

definition bases_ok :: "nat \<Rightarrow> votes \<Rightarrow> (nat \<Rightarrow> 'c view) \<Rightarrow> 'c ghost \<Rightarrow> bool" where
  "bases_ok N h v g \<longleftrightarrow> (\<forall>u b. base g u = Some b \<longrightarrow> led N h v u \<and> backed N v g u b)"

definition core_inv :: "nat \<Rightarrow> votes \<Rightarrow> (nat \<Rightarrow> 'c view) \<Rightarrow> 'c ghost \<Rightarrow> bool" where
  "core_inv N h v g \<longleftrightarrow> terms_ok g \<and> (\<forall>n < N. view_ok g (v n)) \<and> acks_ok N v g \<and>
     votes_ok N h v g \<and> bases_ok N h v g"

lemma core_sound: "core_inv N h v g \<Longrightarrow> acks_sound N v g"
  by (simp add: core_inv_def acks_ok_def)

section \<open>Completeness of the logs of leaders\<close>

text \<open>
  An entry is chosen when a majority had it, with all before it, in the term in which it was made.
\<close>

definition chosen :: "nat \<Rightarrow> 'c ghost \<Rightarrow> nat \<Rightarrow> int \<Rightarrow> bool" where
  "chosen N g i t \<longleftrightarrow> (\<exists>Q \<subseteq> {..<N}. N div 2 < card Q \<and> (\<forall>w \<in> Q. (w, i, t) \<in> acks g))"

lemma quorums_meet:
  assumes "Q \<subseteq> {..<N}" "N div 2 < card Q" "R \<subseteq> {..<N}" "N div 2 < card R"
  obtains w where "w \<in> Q" "w \<in> R"
  using majorities_intersect [of Q N R] assms by (auto simp: lessThan_def)

lemma chosen_base:
  assumes inv: "core_inv N h v g" and ch: "chosen N g i t"
  shows "base g u = Some b \<Longrightarrow> t < u \<Longrightarrow> agree i b (tlog g t)"
proof (induction "nat (u - t)" arbitrary: u b rule: less_induct)
  case less
  obtain Q where Q: "Q \<subseteq> {..<N}" "N div 2 < card Q" "\<forall>w \<in> Q. (w, i, t) \<in> acks g"
    using ch by (auto simp: chosen_def)
  obtain R where R: "R \<subseteq> {..<N}" "N div 2 < card R"
    "\<forall>w \<in> R. \<forall>i t. (w, i, t) \<in> acks g \<and> t < u \<longrightarrow> held g i t (u - 1) b"
    using inv less.prems(1) unfolding core_inv_def bases_ok_def backed_def by meson
  obtain w where w: "w \<in> Q" "w \<in> R" using quorums_meet [OF Q(1,2) R(1,2)] .
  have "held g i t (u - 1) b" using w Q(3) R(3) less.prems(2) by blast
  moreover have "agree i b' (tlog g t)" if "t < r" "r \<le> u - 1" "base g r = Some b'" for r b'
    by (rule less.hyps [OF _ that(3,1)]) (use that in simp)
  ultimately show ?case by (auto simp: held_def)
qed

lemma chosen_facts:
  assumes inv: "core_inv N h v g" and ch: "chosen N g i t"
  shows "base g t \<noteq> None" "0 < i" "i \<le> length (tlog g t)" "tat (tlog g t) i = t"
proof -
  obtain Q where Q: "Q \<subseteq> {..<N}" "N div 2 < card Q" "\<forall>w \<in> Q. (w, i, t) \<in> acks g"
    using ch by (auto simp: chosen_def)
  then obtain w where "w \<in> Q" by (metis card.empty equals0I not_less_zero)
  then have "(w, i, t) \<in> acks g" using Q by blast
  then show "base g t \<noteq> None" "0 < i" "i \<le> length (tlog g t)" "tat (tlog g t) i = t"
    using acks_soundD [OF core_sound [OF inv]] by blast+
qed

text \<open>Leader completeness: a chosen entry is in the logs of all later leaders.\<close>

lemma leader_complete:
  assumes inv: "core_inv N h v g" and ch: "chosen N g i t" and u: "base g u \<noteq> None" "t \<le> u"
  shows "agree i (tlog g u) (tlog g t)"
proof (cases "t = u")
  case True
  then show ?thesis using chosen_facts(3) [OF inv ch] by (simp add: agree_refl)
next
  case False
  obtain b where b: "base g u = Some b" using u(1) by blast
  then obtain x where "tlog g u = b @ x" using inv unfolding core_inv_def terms_ok_def by blast
  then show ?thesis using chosen_base [OF inv ch b] False u(2) by (auto simp: agree_def)
qed

lemma chosen_mono: "gle g g' \<Longrightarrow> chosen N g i t \<Longrightarrow> chosen N g' i t"
  unfolding chosen_def gle_def by blast


section \<open>Recording what the peers have\<close>

lemma held_mono:
  assumes "gle g g'" and "base g t \<noteq> None" and "i \<le> length (tlog g t)" and "held g i t T f" and "T \<le> T'"
  shows "held g' i t T' f"
  using assms(4)
proof (unfold held_def, elim disjE exE conjE)
  assume "agree i f (tlog g t)"
  then show "agree i f (tlog g' t) \<or> (\<exists>r b. t < r \<and> r \<le> T' \<and> base g' r = Some b \<and> \<not> agree i b (tlog g' t))"
    using gle_agree [OF assms(1,2)] by blast
next
  fix r b assume r: "t < r" "r \<le> T" "base g r = Some b" "\<not> agree i b (tlog g t)"
  then have "base g' r = Some b" "\<not> agree i b (tlog g' t)" "r \<le> T'"
    using assms(1,5) gle_agree_iff [OF assms(1-3)] by (auto simp: gle_def)
  then show "agree i f (tlog g' t) \<or> (\<exists>r b. t < r \<and> r \<le> T' \<and> base g' r = Some b \<and> \<not> agree i b (tlog g' t))"
    using r(1) by blast
qed

definition saturate :: "nat \<Rightarrow> (nat \<Rightarrow> 'c view) \<Rightarrow> 'c ghost \<Rightarrow> 'c ghost" where
  "saturate N v g = g\<lparr>acks := acks g \<union> current N v g\<rparr>"

lemma saturate_simps [simp]:
  "base (saturate N v g) = base g" "tlog (saturate N v g) = tlog g"
  "acks (saturate N v g) = acks g \<union> current N v g"
  "coh (saturate N v g) f = coh g f" "held (saturate N v g) = held g"
  "current N v (saturate N v g) = current N v g" "view_ok (saturate N v g) = view_ok g"
  "terms_ok (saturate N v g) = terms_ok g"
  by (simp_all add: saturate_def coh_def held_def current_def view_ok_def terms_ok_def fun_eq_iff)

lemma gle_saturate: "gle g g' \<Longrightarrow> gle g (saturate N v g')"
  by (auto simp: gle_def)

lemma current_term: "(w, i, t) \<in> current N v g \<Longrightarrow> t = vterm (v w)"
  by (simp add: current_def)

lemma acks_ok_saturate:
  assumes sound: "acks_sound N v g"
  shows "acks_ok N v (saturate N v g)"
  unfolding acks_ok_def acks_sound_def saturate_simps
proof (intro conjI allI impI)
  fix w i t assume a: "(w, i, t) \<in> acks g \<union> current N v g"
  have "w < N \<and> base g t \<noteq> None \<and> 0 < i \<and> i \<le> length (tlog g t) \<and> tat (tlog g t) i = t \<and>
      t \<le> vterm (v w) \<and> held g i t (vterm (v w)) (vlog (v w))"
  proof (cases "(w, i, t) \<in> acks g")
    case True
    then show ?thesis using acks_soundD [OF sound True] by blast
  next
    case False
    then show ?thesis using a by (auto simp: current_def held_def agree_def)
  qed
  then show "w < N" "base g t \<noteq> None" "0 < i" "i \<le> length (tlog g t)" "tat (tlog g t) i = t"
    "t \<le> vterm (v w)" "held g i t (vterm (v w)) (vlog (v w))" by auto
  fix k assume k: "0 < k \<and> k \<le> i \<and> tat (tlog g t) k = t"
  show "(w, k, t) \<in> acks g \<union> current N v g"
  proof (cases "(w, i, t) \<in> acks g")
    case True
    then show ?thesis using acks_soundD(8) [OF sound True] k by blast
  next
    case False
    then show ?thesis using a k agree_le by (auto simp: current_def)
  qed
qed simp

lemma votes_ok_saturate:
  assumes "votes_ok N h v g"
  shows "votes_ok N h v (saturate N v g)"
proof -
  have "(w, i, t) \<in> acks g" if "(w, i, t) \<in> acks g \<union> current N v g" "T \<le> vterm (v w)" "t < T" for w i t T
    using that current_term [of w i t N v g] by auto
  then show ?thesis using assms unfolding votes_ok_def saturate_simps by blast
qed

lemma backed_saturate: 
  assumes "backed N v g u b" shows "backed N v (saturate N v g) u b"
proof -
  obtain Q where Q: "Q \<subseteq> {..<N}" "N div 2 < card Q" "\<forall>w \<in> Q. u \<le> vterm (v w) \<and>
      (\<forall>i t. (w, i, t) \<in> acks g \<and> t < u \<longrightarrow> held g i t (u - 1) b)"
    using assms unfolding backed_def by blast
  have "held g i t (u - 1) b" if "w \<in> Q" "(w, i, t) \<in> acks g \<union> current N v g" "t < u" for w i t
    using that Q(3) current_term [of w i t N v g] by fastforce
  then show ?thesis using Q unfolding backed_def saturate_simps by blast
qed

lemma bases_ok_saturate: "bases_ok N h v g \<Longrightarrow> bases_ok N h v (saturate N v g)"
  by (simp add: bases_ok_def backed_saturate)

lemma core_saturate:
  assumes "terms_ok g" "\<forall>n < N. view_ok g (v n)" "acks_sound N v g" "votes_ok N h v g" "bases_ok N h v g"
  shows "core_inv N h v (saturate N v g)"
  using assms acks_ok_saturate votes_ok_saturate bases_ok_saturate by (auto simp: core_inv_def)

end
