(* ===== verification/Raft_Core_Steps.thy ===== *)
theory Raft_Core_Steps
  imports Raft_Core
begin

text \<open>
  The four kinds of steps keep the invariant: following, becoming a candidate, being elected and
  appending an entry.
\<close>

section \<open>Votes\<close>

text \<open>The comparison of logs that a vote depends on.\<close>

definition uptodate :: "'c log \<Rightarrow> 'c log \<Rightarrow> bool" where
  "uptodate f w \<longleftrightarrow> tat w (length w) < tat f (length f) \<or>
     tat w (length w) = tat f (length f) \<and> length w \<le> length f"

lemma held_agree: "agree i f (tlog g t) \<Longrightarrow> held g i t T f"
  by (simp add: held_def)

lemma held_later: "t < r \<Longrightarrow> r \<le> T \<Longrightarrow> base g r = Some b \<Longrightarrow> \<not> agree i b (tlog g t) \<Longrightarrow> held g i t T f"
  unfolding held_def by blast

lemma uptodate_held:
  assumes g: "terms_ok g" "coh g f" "coh g w" and up: "uptodate f w" and lt: "\<forall>e \<in> set f. Term e < T"
    and w: "agree i w (tlog g t)" and a: "base g t \<noteq> None" "0 < i" "tat (tlog g t) i = t"
  shows "held g i t T f"
proof -
  let ?L = "tat f (length f)"
  have "t = tat w i" using agree_tat [OF w] a(3) by simp
  then have tw: "t \<le> tat w (length w)" using coh_sorted [OF g(1,3)] w by (auto simp: agree_def)
  have "0 < t" using g(1) a(1) by (auto simp: terms_ok_def)
  then have "0 < ?L" using tw up by (auto simp: uptodate_def)
  then have ne: "0 < length f" by (cases f) simp_all
  then have L: "base g ?L \<noteq> None" "agree (length f) f (tlog g ?L)" using g(2) by (auto simp: coh_def)
  show ?thesis
  proof (cases "?L = t")
    case True
    then have "i \<le> length f" using up tw w by (auto simp: uptodate_def agree_def)
    then show ?thesis using agree_le [OF L(2)] True by (simp add: held_def)
  next
    case False
    then have tL: "t < ?L" using tw up by (auto simp: uptodate_def)
    have "?L < T" using tat_mem [OF ne order_refl] lt by auto
    obtain b where b: "base g ?L = Some b" using L(1) by blast
    then obtain x where x: "tlog g ?L = b @ x" using g(1) unfolding terms_ok_def by blast
    have "length b < length f"
      using tlog_terms(2) [OF g(1) b ne] L(2) agree_tat [OF L(2) order_refl] by (auto simp: agree_def)
    have "agree i f (tlog g t)" if i: "agree i b (tlog g t)"
    proof -
      have "agree i f (tlog g ?L)" using agree_le [OF L(2)] i \<open>length b < length f\<close> by (simp add: agree_def)
      moreover have "agree i (tlog g ?L) b" using i x by (auto simp: agree_def)
      ultimately show ?thesis using i agree_trans by blast
    qed
    then show ?thesis
      using held_agree held_later [OF tL less_imp_le [OF \<open>?L < T\<close>] b] by blast
  qed
qed

section \<open>Steps in general\<close>

lemma led_mono:
  assumes "led N h v u" "extends h h'" "\<And>m. vterm (v m) \<le> vterm (v' m)"
    "\<And>m. vterm (v' m) = vterm (v m) \<Longrightarrow> vrole (v' m) = CANDIDATE \<Longrightarrow> vrole (v m) = CANDIDATE"
  shows "led N h' v' u"
proof -
  obtain m where m: "m < N" "quorum N h u m" "u < vterm (v m) \<or> u = vterm (v m) \<and> vrole (v m) \<noteq> CANDIDATE"
    using assms(1) by (auto simp: led_def)
  have "u < vterm (v' m) \<or> u = vterm (v' m) \<and> vrole (v' m) \<noteq> CANDIDATE"
    using m(3) assms(3,4) [of m] by fastforce
  then show ?thesis using m quorum_mono [OF assms(2) m(2)] by (auto simp: led_def)
qed

lemma backed_mono:
  assumes "backed N v g u b" "gle g g'" "acks g' = acks g" "acks_sound N v g" "\<And>m. vterm (v m) \<le> vterm (v' m)"
  shows "backed N v' g' u b"
proof -
  obtain Q where Q: "Q \<subseteq> {..<N}" "N div 2 < card Q" "\<forall>w \<in> Q. u \<le> vterm (v w) \<and>
      (\<forall>i t. (w, i, t) \<in> acks g \<and> t < u \<longrightarrow> held g i t (u - 1) b)"
    using assms(1) unfolding backed_def by blast
  have "held g' i t (u - 1) b" if "w \<in> Q" "(w, i, t) \<in> acks g" "t < u" for w i t
    using held_mono [OF assms(2) acks_soundD(2,4) [OF assms(4) that(2)] _ order_refl] Q(3) that by blast
  moreover have "u \<le> vterm (v' w)" if "w \<in> Q" for w using Q(3) that assms(5) [of w] by fastforce
  ultimately show ?thesis unfolding backed_def assms(3) using Q(1,2) by blast
qed

lemma core_step:
  assumes inv: "core_inv N h v g" and gle: "gle g g1" and ack: "acks g1 = acks g"
    and g1: "terms_ok g1" "\<forall>m < N. view_ok g1 (v' m)" and e: "extends h h'"
    and le: "\<And>m. vterm (v m) \<le> vterm (v' m)"
    and cand: "\<And>m. vterm (v' m) = vterm (v m) \<Longrightarrow> vrole (v' m) = CANDIDATE \<Longrightarrow> vrole (v m) = CANDIDATE"
    and held: "\<And>w i t. (w, i, t) \<in> acks g \<Longrightarrow> held g1 i t (vterm (v' w)) (vlog (v' w))"
    and votes: "votes_ok N h' v' g1"
    and new: "\<And>u b. base g1 u = Some b \<Longrightarrow> base g u = None \<Longrightarrow> led N h' v' u \<and> backed N v' g1 u b"
  shows "core_inv N h' v' (saturate N v' g1)"
proof (rule core_saturate [OF g1 _ votes])
  note sound = core_sound [OF inv]
  show "bases_ok N h' v' g1"
    unfolding bases_ok_def
  proof (intro allI impI)
    fix u b assume u: "base g1 u = Some b"
    show "led N h' v' u \<and> backed N v' g1 u b"
    proof (cases "base g u")
      case (Some b')
      then have "b' = b" using u gle by (auto simp: gle_def)
      then have "led N h v u" and b: "backed N v g u b" using inv Some by (auto simp: core_inv_def bases_ok_def)
      then have "led N h' v' u" by (elim led_mono [OF _ e le]) (rule cand)
      then show ?thesis using backed_mono [OF b gle ack sound le] by blast
    qed (use new u in blast)
  qed
  show "acks_sound N v' g1"
    unfolding acks_sound_def
  proof (intro allI impI)
    fix w i t assume a: "(w, i, t) \<in> acks g1"
    then have a': "(w, i, t) \<in> acks g" using ack by simp
    note s = acks_soundD [OF sound a']
    have "tat (tlog g1 t) k = tat (tlog g t) k" if "k \<le> i" for k
      using gle_tat [OF gle s(2)] s(4) that by simp
    moreover have "base g1 t \<noteq> None" "i \<le> length (tlog g1 t)"
      using gle_length [OF gle s(2)] s(2,4) gle by (auto simp: gle_def)
    ultimately show "w < N \<and> base g1 t \<noteq> None \<and> 0 < i \<and> i \<le> length (tlog g1 t) \<and> tat (tlog g1 t) i = t \<and>
        t \<le> vterm (v' w) \<and> held g1 i t (vterm (v' w)) (vlog (v' w)) \<and>
        (\<forall>k. 0 < k \<and> k \<le> i \<and> tat (tlog g1 t) k = t \<longrightarrow> (w, k, t) \<in> acks g1)"
      using s held [OF a'] order_trans [OF s(6) le] ack by auto
  qed
qed

section \<open>Following\<close>

text \<open>
  A peer goes to the view \<open>x\<close>; the votes change only in what it votes for in its new term, and a
  new vote goes to a candidate whose log is not behind.
\<close>

definition follow :: "nat \<Rightarrow> votes \<Rightarrow> (nat \<Rightarrow> 'c view) \<Rightarrow> 'c ghost \<Rightarrow> nat \<Rightarrow> 'c view \<Rightarrow> votes \<Rightarrow> bool" where
  "follow N h v g n x h' \<longleftrightarrow> n < N \<and> vterm (v n) \<le> vterm x \<and>
     (vrole x \<noteq> FOLLOWER \<longrightarrow> x = v n) \<and>
     (vlog x = vlog (v n) \<or> follows g (vterm x) (vlog (v n)) (vlog x)) \<and>
     extends h h' \<and> (\<forall>T j. h' T j \<noteq> h T j \<longrightarrow> T = vterm x \<and> j = n) \<and>
     (\<forall>m < N. h' (vterm x) n = Some (int m) \<and> h (vterm x) n \<noteq> Some (int m) \<longrightarrow> vterm x \<le> vterm (v m) \<and>
        (vrole (v m) = CANDIDATE \<and> vterm (v m) = vterm x \<longrightarrow> uptodate (vlog (v m)) (vlog (v n))))"

lemma follow_view:
  assumes "follow N h v g n x h'" and "view_ok g (v n)"
  shows "view_ok g x"
proof (cases "vrole x = FOLLOWER")
  case True
  have "\<forall>e \<in> set (vlog x). Term e \<le> vterm x" if "follows g (vterm x) (vlog (v n)) (vlog x)"
  proof
    fix e assume "e \<in> set (vlog x)"
    then obtain k where "k < length (vlog x)" "vlog x ! k = e" by (auto simp: in_set_conv_nth)
    then have "tat (vlog x) (Suc k) = Term e" "Suc k \<le> length (vlog x)" by (auto simp: tat_def)
    then show "Term e \<le> vterm x" using that unfolding follows_def by metis
  qed
  then show ?thesis using assms True by (fastforce simp: follow_def view_ok_def follows_def)
next
  case False
  then show ?thesis using assms by (simp add: follow_def)
qed

lemma follow_held:
  assumes f: "follow N h v g n x h'" and g: "terms_ok g"
    and a: "base g t \<noteq> None" "t \<le> vterm (v n)" "held g i t (vterm (v n)) (vlog (v n))"
  shows "held g i t (vterm x) (vlog x)"
proof -
  let ?u = "vterm x"
  have le: "vterm (v n) \<le> ?u" using f by (simp add: follow_def)
  show ?thesis
  proof (cases "agree i (vlog (v n)) (tlog g t)")
    case True
    show ?thesis
    proof (cases "agree i (vlog x) (tlog g t)")
      case False
      then have fo: "follows g ?u (vlog (v n)) (vlog x)" using f True by (auto simp: follow_def)
      then have no: "\<not> agree i (tlog g ?u) (tlog g t)" using True False by (auto simp: follows_def)
      then have "t \<noteq> ?u" using True agree_refl [of i "tlog g t"] by (auto simp: agree_def)
      obtain b where b: "base g ?u = Some b" using fo by (auto simp: follows_def)
      then obtain y where "tlog g ?u = b @ y" using g unfolding terms_ok_def by blast
      then have "\<not> agree i b (tlog g t)" using no by (auto simp: agree_def)
      then show ?thesis using held_later [OF _ order_refl b] a(2) le \<open>t \<noteq> ?u\<close> by simp
    qed (simp add: held_def)
  next
    case False
    then show ?thesis using a(3) le by (fastforce simp: held_def)
  qed
qed

lemma follow_votes:
  assumes f: "follow N h v g n x h'" and inv: "core_inv N h v g"
  shows "votes_ok N h' (v(n := x)) g"
proof -
  have g: "terms_ok g" and v: "\<forall>m < N. view_ok g (v m)" and vo: "votes_ok N h v g"
    using inv by (auto simp: core_inv_def)
  have n: "n < N" "vterm (v n) \<le> vterm x" and role: "vrole x \<noteq> FOLLOWER \<Longrightarrow> x = v n"
    using f by (auto simp: follow_def)
  have le: "vterm (v m) \<le> vterm ((v(n := x)) m)" for m using n by simp
  have cand: "(v(n := x)) m = v m" if "vrole ((v(n := x)) m) = CANDIDATE" for m
    using that role by (cases "m = n") auto
  show ?thesis
    unfolding votes_ok_def
  proof (intro allI impI)
    fix w m T assume a: "w < N \<and> m < N \<and> h' T w = Some (int m)"
    show "T \<le> vterm ((v(n := x)) w) \<and> T \<le> vterm ((v(n := x)) m) \<and>
      (vrole ((v(n := x)) m) = CANDIDATE \<and> vterm ((v(n := x)) m) = T \<longrightarrow>
         (\<forall>i t. (w, i, t) \<in> acks g \<and> t < T \<longrightarrow> held g i t T (vlog ((v(n := x)) m))))"
    proof (cases "h T w = Some (int m)")
      case True
      then have o: "T \<le> vterm (v w)" "T \<le> vterm (v m)" "vrole (v m) = CANDIDATE \<and> vterm (v m) = T \<longrightarrow>
          (\<forall>i t. (w, i, t) \<in> acks g \<and> t < T \<longrightarrow> held g i t T (vlog (v m)))"
        using vo a unfolding votes_ok_def by blast+
      then show ?thesis using le [of w] le [of m] cand [of m] by (metis order_trans)
    next
      case False
      then have T: "T = vterm x" "w = n" using f a unfolding follow_def by metis+
      then have m: "vterm x \<le> vterm (v m)"
        and up: "vrole (v m) = CANDIDATE \<and> vterm (v m) = vterm x \<Longrightarrow> uptodate (vlog (v m)) (vlog (v n))"
        using f a False unfolding follow_def by metis+
      have "held g i t T (vlog (v m))"
        if c: "vrole (v m) = CANDIDATE" "vterm (v m) = T" and ack: "(w, i, t) \<in> acks g" "t < T" for i t
      proof -
        note s = acks_soundD [OF core_sound [OF inv] ack(1)]
        show ?thesis
        proof (cases "agree i (vlog (v n)) (tlog g t)")
          case True
          have "coh g (vlog (v m))" "coh g (vlog (v n))" "\<forall>e \<in> set (vlog (v m)). Term e < T"
            using v a n c by (auto simp: view_ok_def)
          then show ?thesis using uptodate_held [OF g _ _ up _ True s(2,3,5)] c T by blast
        next
          case False
          then show ?thesis using s(7) n(2) T by (fastforce simp: held_def)
        qed
      qed
      then have "vrole ((v(n := x)) m) = CANDIDATE \<and> vterm ((v(n := x)) m) = T \<longrightarrow>
          (\<forall>i t. (w, i, t) \<in> acks g \<and> t < T \<longrightarrow> held g i t T (vlog ((v(n := x)) m)))"
        using cand [of m] by metis
      moreover have "T \<le> vterm ((v(n := x)) w)" using T by simp
      moreover have "T \<le> vterm ((v(n := x)) m)" unfolding T(1) using m le [of m] by (rule order_trans)
      ultimately show ?thesis by blast
    qed
  qed
qed

lemma core_follow:
  assumes f: "follow N h v g n x h'" and inv: "core_inv N h v g"
  shows "core_inv N h' (v(n := x)) (saturate N (v(n := x)) g)"
proof (rule core_step [OF inv gle_refl refl])
  have g: "terms_ok g" and v: "\<forall>m < N. view_ok g (v m)" using inv by (auto simp: core_inv_def)
  have n: "n < N" "vterm (v n) \<le> vterm x" and e: "extends h h'" and role: "vrole x \<noteq> FOLLOWER \<Longrightarrow> x = v n"
    using f by (auto simp: follow_def)
  show "terms_ok g" "extends h h'" by fact+
  show "\<forall>m < N. view_ok g ((v(n := x)) m)" using v follow_view [OF f] n by auto
  show "votes_ok N h' (v(n := x)) g" by (rule follow_votes [OF f inv])
  show "vterm (v m) \<le> vterm ((v(n := x)) m)" for m using n by simp
  show "vrole (v m) = CANDIDATE" if "vrole ((v(n := x)) m) = CANDIDATE" for m
    using that role by (cases "m = n") auto
  show "held g i t (vterm ((v(n := x)) w)) (vlog ((v(n := x)) w))" if "(w, i, t) \<in> acks g" for w i t
    using acks_soundD [OF core_sound [OF inv] that] follow_held [OF f g, of t i] by (cases "w = n") auto
qed simp

section \<open>Becoming a candidate\<close>

lemma core_candidate:
  assumes inv: "core_inv N h v g" and n: "n < N"
    and x: "x = \<lparr>vterm = vterm (v n) + 1, vrole = CANDIDATE, vlog = vlog (v n)\<rparr>"
    and h': "extends h h'" "\<forall>T j. h' T j \<noteq> h T j \<longrightarrow> T = vterm x \<and> j = n" "h' (vterm x) n = Some (int n)"
  shows "core_inv N h' (v(n := x)) (saturate N (v(n := x)) g)"
proof (rule core_step [OF inv gle_refl refl])
  have g: "terms_ok g" and v: "\<forall>m < N. view_ok g (v m)" and vo: "votes_ok N h v g"
    using inv by (auto simp: core_inv_def)
  show "terms_ok g" "extends h h'" by fact+
  have "view_ok g (v n)" using v n by blast
  then have "view_ok g x" by (auto simp: view_ok_def x)
  then show "\<forall>m < N. view_ok g ((v(n := x)) m)" using v by auto
  show le: "vterm (v m) \<le> vterm ((v(n := x)) m)" for m by (simp add: x)
  show "vrole (v m) = CANDIDATE"
    if "vterm ((v(n := x)) m) = vterm (v m)" "vrole ((v(n := x)) m) = CANDIDATE" for m
    using that by (auto simp: x split: if_splits)
  have held: "held g i t (vterm (v w) + 1) (vlog (v w))" if "(w, i, t) \<in> acks g" for w i t
    using acks_soundD(2,4,7) [OF core_sound [OF inv] that] held_mono [of g g t i "vterm (v w)" _ "vterm (v w) + 1"] by simp
  show "held g i t (vterm ((v(n := x)) w)) (vlog ((v(n := x)) w))" if "(w, i, t) \<in> acks g" for w i t
    using acks_soundD(7) [OF core_sound [OF inv] that] held [OF that] by (cases "w = n") (auto simp: x)
  show "votes_ok N h' (v(n := x)) g"
    unfolding votes_ok_def
  proof (intro allI impI)
    fix w m T assume a: "w < N \<and> m < N \<and> h' T w = Some (int m)"
    show "T \<le> vterm ((v(n := x)) w) \<and> T \<le> vterm ((v(n := x)) m) \<and>
      (vrole ((v(n := x)) m) = CANDIDATE \<and> vterm ((v(n := x)) m) = T \<longrightarrow>
         (\<forall>i t. (w, i, t) \<in> acks g \<and> t < T \<longrightarrow> held g i t T (vlog ((v(n := x)) m))))"
    proof (cases "h T w = Some (int m)")
      case True
      then have o: "T \<le> vterm (v w)" "T \<le> vterm (v m)" "vrole (v m) = CANDIDATE \<and> vterm (v m) = T \<longrightarrow>
          (\<forall>i t. (w, i, t) \<in> acks g \<and> t < T \<longrightarrow> held g i t T (vlog (v m)))"
        using vo a unfolding votes_ok_def by blast+
      have "T \<le> vterm ((v(n := x)) w)" "T \<le> vterm ((v(n := x)) m)"
        using o(1,2) le [of w] le [of m] by (metis order_trans)+
      then show ?thesis using o(2,3) by (cases "m = n") (auto simp: x)
    next
      case False
      then have T: "T = vterm x" "w = n" using h'(2) a by metis+
      then have "m = n" using h'(3) a by simp
      then show ?thesis using T held by (auto simp: x)
    qed
  qed
qed simp

section \<open>Being elected\<close>

definition elected :: "'c ghost \<Rightarrow> 'c view \<Rightarrow> 'c ghost" where
  "elected g x = g\<lparr>base := (base g)(vterm x \<mapsto> vlog x), tlog := (tlog g)(vterm x := vlog x)\<rparr>"

lemma not_yet_led:
  assumes inv: "core_inv N h v g" and n: "vrole (v n) = CANDIDATE" "quorum N h (vterm (v n)) n"
  shows "base g (vterm (v n)) = None"
proof (rule ccontr)
  assume "base g (vterm (v n)) \<noteq> None"
  then have "led N h v (vterm (v n))" using inv unfolding core_inv_def bases_ok_def by blast
  then obtain m where "quorum N h (vterm (v n)) m"
    "vterm (v n) < vterm (v m) \<or> vterm (v n) = vterm (v m) \<and> vrole (v m) \<noteq> CANDIDATE"
    by (auto simp: led_def)
  moreover from this have "m = n" using n(2) quorum_unique by blast
  ultimately show False using n(1) by simp
qed

lemma elected_terms:
  assumes g: "terms_ok g" and none: "base g (vterm x) = None"
    and x: "coh g (vlog x)" "\<forall>e \<in> set (vlog x). Term e < vterm x" "0 < vterm x"
  shows "gle g (elected g x)" and "terms_ok (elected g x)" and "coh (elected g x) (vlog x)"
proof -
  let ?g = "elected g x"
  show gle: "gle g ?g" using none by (auto simp: gle_def elected_def)
  show cx: "coh ?g (vlog x)" by (rule coh_mono [OF gle x(1)])
  have "coh ?g (tlog ?g t)" if "base ?g t = Some b" for t b
  proof (cases "t = vterm x")
    case False
    then have "coh g (tlog g t)" using that g by (auto simp: elected_def terms_ok_def)
    then show ?thesis using coh_mono [OF gle] False by (simp add: elected_def)
  qed (use cx in \<open>simp add: elected_def\<close>)
  then show "terms_ok ?g" using g x unfolding terms_ok_def by (auto simp: elected_def)
qed

lemma elected_backed:
  assumes inv: "core_inv N h v g" and n: "n < N" "vrole (v n) = CANDIDATE" "quorum N h (vterm (v n)) n"
  shows "backed N v g (vterm (v n)) (vlog (v n))"
  unfolding backed_def
proof (intro exI [of _ "voters N h (vterm (v n)) n"] conjI ballI)
  let ?u = "vterm (v n)"
  show "voters N h ?u n \<subseteq> {..<N}" "N div 2 < card (voters N h ?u n)"
    using n(3) by (auto simp: voters_def quorum_def)
  fix w assume "w \<in> voters N h ?u n"
  then have w: "?u \<le> vterm (v w)" "\<forall>i t. (w, i, t) \<in> acks g \<and> t < ?u \<longrightarrow> held g i t ?u (vlog (v n))"
    using inv n unfolding core_inv_def votes_ok_def voters_def by blast+
  have "held g i t (?u - 1) (vlog (v n))" if "held g i t ?u (vlog (v n))" for i t
    using that not_yet_led [OF inv n(2,3)] unfolding held_def
    by (metis option.distinct(1) order_le_less zle_diff1_eq)
  then show "?u \<le> vterm (v w)" "\<forall>i t. (w, i, t) \<in> acks g \<and> t < ?u \<longrightarrow> held g i t (?u - 1) (vlog (v n))"
    using w by auto
qed

lemma core_elected:
  assumes inv: "core_inv N h v g" and n: "n < N" "vrole (v n) = CANDIDATE" "quorum N h (vterm (v n)) n"
    and x: "x = (v n)\<lparr>vrole := LEADER\<rparr>"
  shows "core_inv N h (v(n := x)) (saturate N (v(n := x)) (elected g x))" and "gle g (elected g x)"
proof -
  let ?u = "vterm (v n)" and ?g = "elected g x" and ?v = "v(n := x)"
  have none: "base g ?u = None" using not_yet_led [OF inv n(2,3)] .
  have g: "terms_ok g" and v: "\<forall>m < N. view_ok g (v m)" and vo: "votes_ok N h v g"
    using inv by (auto simp: core_inv_def)
  have vn: "coh g (vlog (v n))" "\<forall>e \<in> set (vlog (v n)). Term e < ?u" "0 < ?u"
    using v n by (auto simp: view_ok_def)
  then have gle: "gle g ?g" and g': "terms_ok ?g" and cx: "coh ?g (vlog x)"
    using elected_terms [OF g, of x] none by (auto simp: x)
  show "gle g ?g" by fact
  have ack: "acks ?g = acks g" by (simp add: elected_def)
  have le: "vterm (v m) \<le> vterm (?v m)" for m by (simp add: x)
  show "core_inv N h ?v (saturate N ?v ?g)"
  proof (rule core_step [OF inv gle ack g' _ _ le])
    have "view_ok ?g (v m)" if "m < N" for m
    proof -
      have "view_ok g (v m)" using v that by blast
      then show ?thesis using none coh_mono [OF gle] by (auto simp: view_ok_def elected_def x)
    qed
    moreover have "view_ok ?g x" using vn cx by (auto simp: view_ok_def elected_def x)
    ultimately show "\<forall>m < N. view_ok ?g (?v m)" by simp
    show "extends h h" by (simp add: extends_def)
    show "vrole (?v m) = CANDIDATE \<Longrightarrow> vrole (v m) = CANDIDATE" for m by (auto simp: x split: if_splits)
    have held: "held ?g i t T f" if "(w, i, t) \<in> acks g" "held g i t T f" for w i t T f
      using held_mono [OF gle acks_soundD(2,4) [OF core_sound [OF inv] that(1)] that(2) order_refl] .
    then show "held ?g i t (vterm (?v w)) (vlog (?v w))" if "(w, i, t) \<in> acks g" for w i t
      using acks_soundD(7) [OF core_sound [OF inv] that] that by (cases "w = n") (auto simp: x)
    show "votes_ok N h ?v ?g"
      unfolding votes_ok_def
    proof (intro allI impI)
      fix w m T assume "w < N \<and> m < N \<and> h T w = Some (int m)"
      then have o: "T \<le> vterm (v w)" "T \<le> vterm (v m)" "vrole (v m) = CANDIDATE \<and> vterm (v m) = T \<longrightarrow>
          (\<forall>i t. (w, i, t) \<in> acks g \<and> t < T \<longrightarrow> held g i t T (vlog (v m)))"
        using vo unfolding votes_ok_def by blast+
      then show "T \<le> vterm (?v w) \<and> T \<le> vterm (?v m) \<and> (vrole (?v m) = CANDIDATE \<and> vterm (?v m) = T \<longrightarrow>
         (\<forall>i t. (w, i, t) \<in> acks ?g \<and> t < T \<longrightarrow> held ?g i t T (vlog (?v m))))"
        using held by (auto simp: x elected_def)
    qed
    fix u b assume "base ?g u = Some b" "base g u = None"
    then have u: "u = ?u" "b = vlog (v n)" by (auto simp: elected_def x split: if_splits)
    have "led N h ?v u" using n u by (auto simp: led_def x)
    moreover have "backed N ?v ?g u b"
      unfolding u using backed_mono [OF elected_backed [OF inv n] gle ack core_sound [OF inv] le] .
    ultimately show "led N h ?v u \<and> backed N ?v ?g u b" ..
  qed
qed

section \<open>Appending an entry\<close>

definition appended :: "'c ghost \<Rightarrow> 'c view \<Rightarrow> 'c ghost" where
  "appended g x = g\<lparr>tlog := (tlog g)(vterm x := vlog x)\<rparr>"

lemma appended_terms:
  assumes g: "terms_ok g" and x: "vlog x = tlog g (vterm x) @ [e]" "Term e = vterm x" and b: "base g (vterm x) \<noteq> None"
  shows "gle g (appended g x)" and "terms_ok (appended g x)" and "coh (appended g x) (vlog x)"
proof -
  let ?u = "vterm x" and ?g = "appended g x"
  show gle: "gle g ?g" by (auto simp: gle_def appended_def x)
  have c: "coh ?g (tlog g t)" if "base g t \<noteq> None" for t
    using that g coh_mono [OF gle] unfolding terms_ok_def by blast
  show cx: "coh ?g (vlog x)"
    unfolding coh_def
  proof (intro allI impI)
    fix i assume i: "0 < i \<and> i \<le> length (vlog x)"
    show "base ?g (tat (vlog x) i) \<noteq> None \<and> agree i (vlog x) (tlog ?g (tat (vlog x) i))"
    proof (cases "i = length (vlog x)")
      case True
      then have "tat (vlog x) i = ?u" using x by (simp add: tat_def nth_append)
      then show ?thesis using b True by (simp add: appended_def agree_refl)
    next
      case False
      then have l: "i \<le> length (tlog g ?u)" using i x by simp
      then have "tat (vlog x) i = tat (tlog g ?u) i" using x(1) by simp
      moreover have "agree i (vlog x) f" if "agree i (tlog g ?u) f" for f
        using that x(1) by (simp add: agree_def)
      ultimately show ?thesis using c [OF b] i l unfolding coh_def by metis
    qed
  qed
  show "terms_ok ?g"
    unfolding terms_ok_def
  proof (intro allI impI)
    fix t b assume t: "base ?g t = Some b"
    then have "base g t = Some b" by (simp add: appended_def)
    then obtain y where y: "0 < t" "\<forall>e \<in> set b. Term e < t" "tlog g t = b @ y" "\<forall>e \<in> set y. Term e = t"
      using g unfolding terms_ok_def by blast
    have "tlog ?g t = b @ (if t = ?u then y @ [e] else y)" using y(3) x(1) by (auto simp: appended_def)
    moreover have "\<forall>e' \<in> set (if t = ?u then y @ [e] else y). Term e' = t" using y(4) x(2) by auto
    moreover have "coh ?g (tlog ?g t)" using cx c \<open>base g t = Some b\<close> by (cases "t = ?u") (simp_all add: appended_def)
    ultimately show "0 < t \<and> coh ?g (tlog ?g t) \<and> (\<forall>e \<in> set b. Term e < t) \<and>
        (\<exists>x. tlog ?g t = b @ x \<and> (\<forall>e \<in> set x. Term e = t))"
      using y(1,2) by blast
  qed
qed

lemma core_append:
  assumes inv: "core_inv N h v g" and n: "n < N" "vrole (v n) = LEADER"
    and only: "\<forall>m < N. vrole (v m) = LEADER \<and> vterm (v m) = vterm (v n) \<longrightarrow> m = n"
    and x: "x = (v n)\<lparr>vlog := vlog (v n) @ [e]\<rparr>" "Term e = vterm (v n)"
  shows "core_inv N h (v(n := x)) (saturate N (v(n := x)) (appended g x))" and "gle g (appended g x)"
proof -
  let ?u = "vterm (v n)" and ?g = "appended g x" and ?v = "v(n := x)"
  have g: "terms_ok g" and v: "\<forall>m < N. view_ok g (v m)" and vo: "votes_ok N h v g"
    using inv by (auto simp: core_inv_def)
  then have vn: "view_ok g (v n)" using n by blast
  then have tl: "tlog g ?u = vlog (v n)" "base g ?u \<noteq> None" using n(2) by (auto simp: view_ok_def)
  then have gle: "gle g ?g" and g': "terms_ok ?g" and cx: "coh ?g (vlog x)"
    using appended_terms [OF g, of x e] x by auto
  show "gle g ?g" by fact
  show "core_inv N h ?v (saturate N ?v ?g)"
  proof (rule core_step [OF inv gle _ g'])
    show "acks ?g = acks g" by (simp add: appended_def)
    have "view_ok ?g (v m)" if "m < N" "m \<noteq> n" for m
    proof -
      have "view_ok g (v m)" using v that by blast
      moreover have "tlog ?g (vterm (v m)) = tlog g (vterm (v m))" if "vrole (v m) = LEADER"
        using only that \<open>m < N\<close> \<open>m \<noteq> n\<close> by (auto simp: appended_def x)
      moreover have "base ?g = base g" by (simp add: appended_def)
      ultimately show ?thesis using coh_mono [OF gle] unfolding view_ok_def by metis
    qed
    moreover have "view_ok ?g x"
      using vn n(2) cx tl x by (auto simp: view_ok_def appended_def)
    ultimately show "\<forall>m < N. view_ok ?g (?v m)" by simp
    show "extends h h" by (simp add: extends_def)
    show "vterm (v m) \<le> vterm (?v m)" "vrole (?v m) = CANDIDATE \<Longrightarrow> vrole (v m) = CANDIDATE" for m
      by (auto simp: x split: if_splits)
    have held: "held ?g i t T f" if "(w, i, t) \<in> acks g" "held g i t T f" for w i t T f
      using held_mono [OF gle acks_soundD(2,4) [OF core_sound [OF inv] that(1)] that(2) order_refl] .
    have longer: "held ?g i t T (f @ y)" if "held ?g i t T f" for i t T f y
      using that by (auto simp: held_def agree_def)
    show "held ?g i t (vterm (?v w)) (vlog (?v w))" if "(w, i, t) \<in> acks g" for w i t
      using held [OF that acks_soundD(7) [OF core_sound [OF inv] that]] longer by (cases "w = n") (auto simp: x)
    show "votes_ok N h ?v ?g"
      unfolding votes_ok_def
    proof (intro allI impI)
      fix w m T assume "w < N \<and> m < N \<and> h T w = Some (int m)"
      then have o: "T \<le> vterm (v w)" "T \<le> vterm (v m)" "vrole (v m) = CANDIDATE \<and> vterm (v m) = T \<longrightarrow>
          (\<forall>i t. (w, i, t) \<in> acks g \<and> t < T \<longrightarrow> held g i t T (vlog (v m)))"
        using vo unfolding votes_ok_def by blast+
      then show "T \<le> vterm (?v w) \<and> T \<le> vterm (?v m) \<and> (vrole (?v m) = CANDIDATE \<and> vterm (?v m) = T \<longrightarrow>
         (\<forall>i t. (w, i, t) \<in> acks ?g \<and> t < T \<longrightarrow> held ?g i t T (vlog (?v m))))"
        using held n(2) by (cases "m = n") (auto simp: x appended_def)
    qed
  qed (simp add: appended_def)
qed

end
