(* ===== verification/Raft_Full.thy ===== *)
theory Raft_Full
  imports Raft_Core_Steps
begin

text \<open>
  The log of a peer of \<^verbatim>\<open>raft.go\<close> as the part of a whole log that is not compacted, and what
  the handlers and the operations of the service do to the whole log.
\<close>

section \<open>The whole log of a peer\<close>

definition rep :: "('c, 's) Raft \<Rightarrow> 'c log \<Rightarrow> bool" where
  "rep rf f \<longleftrightarrow> 0 \<le> SnapshotIndex rf \<and> nat (SnapshotIndex rf) \<le> length f \<and>
     (\<exists>e. Logs rf = e # drop (nat (SnapshotIndex rf)) f \<and> Term e = tat f (nat (SnapshotIndex rf)))"

lemma rep_cong: "Logs rf' = Logs rf \<Longrightarrow> SnapshotIndex rf' = SnapshotIndex rf \<Longrightarrow> rep rf' f = rep rf f"
  by (simp add: rep_def)

lemma rep_lastIndex: "rep rf f \<Longrightarrow> lastIndex rf = int (length f)"
  by (auto simp: rep_def lastIndex_def len_def)

lemma rep_snapshot: "rep rf f \<Longrightarrow> 0 \<le> SnapshotIndex rf \<and> SnapshotIndex rf \<le> int (length f)"
  by (auto simp: rep_def)

lemma rep_nth:
  assumes "rep rf f" and "SnapshotIndex rf < i" and "i \<le> int (length f)"
  shows "Logs rf ! nat (i - SnapshotIndex rf) = f ! (nat i - 1)"
proof -
  obtain e where e: "Logs rf = e # drop (nat (SnapshotIndex rf)) f" "0 \<le> SnapshotIndex rf"
    using assms(1) by (auto simp: rep_def)
  have "nat (i - SnapshotIndex rf) = Suc (nat i - 1 - nat (SnapshotIndex rf))" using assms(2) e(2) by linarith
  moreover have "nat (SnapshotIndex rf) + (nat i - 1 - nat (SnapshotIndex rf)) = nat i - 1"
    using assms(2) e(2) by linarith
  ultimately show ?thesis using e assms(2,3) by simp
qed

lemma rep_termAt:
  assumes "rep rf f" and "SnapshotIndex rf \<le> i" and "i \<le> int (length f)"
  shows "termAt rf i = Some (tat f (nat i))"
proof (cases "i = SnapshotIndex rf")
  case True
  then show ?thesis using assms rep_lastIndex [OF assms(1)] by (auto simp: termAt_eq rep_def)
next
  case False
  then show ?thesis
    using assms rep_nth [OF assms(1), of i] rep_lastIndex [OF assms(1)] rep_snapshot [OF assms(1)]
    by (simp add: termAt_eq tat_def)
qed

lemma rep_entryAt:
  assumes "rep rf f" and "SnapshotIndex rf < i" and "i \<le> int (length f)"
  shows "entryAt rf i = Some (f ! (nat i - 1))"
  using assms rep_nth [OF assms] rep_lastIndex [OF assms(1)] by (simp add: entryAt_eq)

lemma rep_drop:
  assumes "rep rf f" and "SnapshotIndex rf \<le> i"
  shows "drop (nat (i - SnapshotIndex rf + 1)) (Logs rf) = drop (nat i) f"
proof -
  obtain e where e: "Logs rf = e # drop (nat (SnapshotIndex rf)) f" "0 \<le> SnapshotIndex rf"
    using assms(1) by (auto simp: rep_def)
  have "nat (i - SnapshotIndex rf + 1) = Suc (nat (i - SnapshotIndex rf))" using assms(2) by simp
  moreover have "nat (i - SnapshotIndex rf) + nat (SnapshotIndex rf) = nat i" using assms(2) e(2) by simp
  ultimately show ?thesis by (simp add: e(1))
qed

lemma rep_init: "rep (fst (Make N i MakePersister)) []"
  by (simp add: rep_def Make_def Let_def dePersistState_def decodeState_def persister_defs)

lemma rep_last: "rep rf f \<Longrightarrow> Term (last (Logs rf)) = tat f (length f)"
  by (cases "nat (SnapshotIndex rf) = length f") (auto simp: rep_def tat_def last_conv_nth last_drop)

lemma rep_Start:
  assumes "rep rf f"
  shows "rep (rf\<lparr>Logs := Logs rf @ [e]\<rparr>) (f @ [e])"
  using assms by (auto simp: rep_def)

lemma rep_Compact:
  assumes "Compact rf idx snap = Some rf'" and "rep rf f"
  shows "rep rf' f"
  using assms(1)
proof (cases rule: Compact_cases)
  case (compacted e rf1)
  note i = compacted(1) compacted(2) [unfolded rep_lastIndex [OF assms(2)]]
  have "termAt rf idx = Some (Term e)" using compacted(3) by (simp add: termAt_def)
  then have t: "Term e = tat f (nat idx)" using rep_termAt [OF assms(2), of idx] i by simp
  show ?thesis
    using compacted(4,5) t i rep_drop [OF assms(2), of idx] rep_snapshot [OF assms(2)] by (simp add: rep_def)
qed (use assms in simp)

section \<open>Requests of a leader\<close>

text \<open>
  A request to append describes the log of its leader from \<open>PrevLogIndex\<close> on.  When the leader
  believed the follower's log to be longer than its own, it names an index beyond its log but the
  term of its last entry, and sends nothing.
\<close>

definition ae_within :: "'c ghost \<Rightarrow> 'c AppendEntriesArgs \<Rightarrow> bool" where
  "ae_within g args \<longleftrightarrow> nat (PrevLogIndex args) \<le> length (tlog g (aeTerm args)) \<and>
     PrevLogTerm args = tat (tlog g (aeTerm args)) (nat (PrevLogIndex args)) \<and>
     (\<exists>m. Entries args = take m (drop (nat (PrevLogIndex args)) (tlog g (aeTerm args))))"

definition ae_ok :: "'c ghost \<Rightarrow> 'c AppendEntriesArgs \<Rightarrow> bool" where
  "ae_ok g args \<longleftrightarrow> base g (aeTerm args) \<noteq> None \<and> 0 \<le> PrevLogIndex args \<and>
     (ae_within g args \<or> Entries args = [])"

definition is_ok :: "'c ghost \<Rightarrow> 's InstallSnapshotArgs \<Rightarrow> bool" where
  "is_ok g args \<longleftrightarrow> base g (isTerm args) \<noteq> None \<and> 0 \<le> LastIncludedIndex args \<and>
     nat (LastIncludedIndex args) \<le> length (tlog g (isTerm args)) \<and>
     LastIncludedTerm args = tat (tlog g (isTerm args)) (nat (LastIncludedIndex args))"

lemma ae_within_mono:
  assumes "gle g g'" and "base g (aeTerm args) \<noteq> None" and "ae_within g args"
  shows "ae_within g' args"
proof -
  let ?t = "aeTerm args" and ?p = "nat (PrevLogIndex args)"
  obtain x where x: "tlog g' ?t = tlog g ?t @ x" using gle_tlog [OF assms(1,2)] by blast
  obtain m where m: "Entries args = take m (drop ?p (tlog g ?t))" and p: "?p \<le> length (tlog g ?t)"
    using assms(3) by (auto simp: ae_within_def)
  have "Entries args = take (min m (length (tlog g ?t) - ?p)) (drop ?p (tlog g' ?t))"
    using m p x by (auto simp: min_def)
  then have "\<exists>m. Entries args = take m (drop ?p (tlog g' ?t))" by blast
  then show ?thesis using assms(3) x p by (simp add: ae_within_def)
qed

lemma ae_ok_mono: "gle g g' \<Longrightarrow> ae_ok g args \<Longrightarrow> ae_ok g' args"
  using ae_within_mono [of g g' args] by (auto simp: ae_ok_def elim: gle_tlog)

lemma is_ok_mono: "gle g g' \<Longrightarrow> is_ok g args \<Longrightarrow> is_ok g' args"
  using gle_tlog [of g g' "isTerm args"] by (fastforce simp: is_ok_def)

section \<open>What a request does to the whole log\<close>

definition moves :: "'c ghost \<Rightarrow> int \<Rightarrow> 'c log \<Rightarrow> 'c log \<Rightarrow> bool" where
  "moves g u f f' \<longleftrightarrow> f' = f \<or> follows g u f f'"

lemma rep_InstallSnapShot:
  assumes "InstallSnapShot rf args = Some (rf', reply, effs)" and wf: "raft_wf rf"
    and f: "rep rf f" "coh g f" and g: "terms_ok g" and ok: "is_ok g args"
  shows "\<exists>f'. rep rf' f' \<and> (rf' = rf \<and> f' = f \<or> rstate rf' = FOLLOWER \<and> moves g (CurrentTerm rf') f f')"
  using assms(1) wf
proof (cases rule: InstallSnapShot_cases)
  case (outdated rf1 change)
  have "rep rf' f \<and> rstate rf' = FOLLOWER"
    using adoptTerm_fields [OF outdated(2)] f(1) outdated(4) by (auto simp: rep_def)
  then show ?thesis by (auto simp: moves_def)
next
  case (install rf1 change rest rf2)
  note a = adoptTerm_fields [OF install(2)]
  define L where "L = nat (LastIncludedIndex args)"
  let ?u = "isTerm args" and ?S = "SnapshotIndex rf"
  have L: "int L = LastIncludedIndex args" "0 < L" "L \<le> length (tlog g ?u)" "LastIncludedTerm args = tat (tlog g ?u) L"
    "base g ?u \<noteq> None" and S: "0 \<le> ?S" "?S < int L"
    using ok install(3) rep_snapshot [OF f(1)] by (auto simp: is_ok_def L_def)
  have fields: "rstate rf' = FOLLOWER" "CurrentTerm rf' = ?u" "SnapshotIndex rf' = int L"
    "Logs rf' = \<lparr>GlobalIndex = LastIncludedIndex args, Term = LastIncludedTerm args, Command = None\<rparr> # rest"
    using install(1,6,7) a L(1) by simp_all
  show ?thesis
  proof (cases "L \<le> length f \<and> tat f L = tat (tlog g ?u) L")
    case True
    have "termAt rf (int L) = Some (LastIncludedTerm args)"
      using rep_termAt [OF f(1), of "int L"] True S L(4) by simp
    then have "rest = drop L f" using install(5) L(1) rep_drop [OF f(1), of "int L"] S L_def by simp
    then have "rep rf' f" using fields True L(4) by (simp add: rep_def)
    then show ?thesis using fields by (auto simp: moves_def)
  next
    case False
    have "termAt rf (int L) \<noteq> Some (LastIncludedTerm args)"
    proof
      assume t: "termAt rf (int L) = Some (LastIncludedTerm args)"
      then have "L \<le> length f" using rep_lastIndex [OF f(1)] by (simp add: termAt_eq split: if_splits)
      then show False using t rep_termAt [OF f(1), of "int L"] S False L(4) by simp
    qed
    then have "rest = []" using install(5) L(1) by simp
    then have "rep rf' (take L (tlog g ?u))" using fields L L_def by (simp add: rep_def)
    moreover have "follows g ?u f (take L (tlog g ?u))"
      using False L by (intro follows_take [OF g L(5,3), of "L - 1"]) auto
    ultimately show ?thesis using fields by (auto simp: moves_def)
  qed
qed (use f in auto)


lemma accepted_log:
  assumes f: "coh g f" and g: "terms_ok g" "base g u \<noteq> None" and G: "G = tlog g u"
    and P: "P \<le> length G" "P \<le> length f" "tat f P = tat G P" and es: "es = take m (drop P G)"
    and k: "k < length es" "P + k \<le> length f" "\<forall>j < k. Term (f ! (P + j)) = Term (es ! j)"
      "P + k < length f \<Longrightarrow> Term (f ! (P + k)) \<noteq> Term (es ! k)"
  shows "follows g u f (take (P + k) f @ drop k es)"
proof -
  have cG: "coh g G" using g G unfolding terms_ok_def by blast
  have len: "P + length es \<le> length G" using es P(1) by (auto simp: min_def)
  have nth: "es ! j = G ! (P + j)" if "j < length es" for j using that es P(1) by simp
  have "tat f (P + k) = tat G (P + k)"
  proof (cases k)
    case (Suc j)
    then have "Term (f ! (P + j)) = Term (G ! (P + j))" using k(1,3) nth [of j] by simp
    then show ?thesis using Suc by (simp add: tat_def)
  qed (use P in simp)
  then have "agree (P + k) f G" using coh_matching [OF f cG k(2)] k(1) len by simp
  moreover have "es = take (length es) (drop P G)" using es by (simp add: min_def)
  ultimately have "take (P + k) f @ drop k es = take (P + k) G @ drop k (take (length es) (drop P G))"
    unfolding agree_def by metis
  also have "\<dots> = take (P + length es) G"
    using append_take_drop_id [of k "take (length es) (drop P G)"] k(1) by (simp add: take_add min_absorb1)
  finally have f': "take (P + k) f @ drop k es = take (P + length es) G" .
  have "tat f (Suc (P + k)) \<noteq> tat G (Suc (P + k))" if "P + k < length f"
    using k(4) [OF that] nth [OF k(1)] by (simp add: tat_def)
  then show ?thesis
    unfolding f' G using k(1) len G by (intro follows_take [OF g, of _ "P + k"]) (auto simp: not_less)
qed

lemma rep_AppendEntries:
  assumes ae: "AppendEntries rf args = Some (rf', reply, effs)"
    and f: "rep rf f" "coh g f" and g: "terms_ok g" and ok: "ae_ok g args"
  shows "\<exists>f'. rep rf' f' \<and> (rf' = rf \<and> f' = f \<or> rstate rf' = FOLLOWER \<and> moves g (CurrentTerm rf') f f')"
proof (cases "Success reply")
  case False
  from ae have "rf' = rf \<or> Logs rf' = Logs rf \<and> SnapshotIndex rf' = SnapshotIndex rf \<and> rstate rf' = FOLLOWER"
    by (cases rule: AppendEntries_cases) (use False adoptTerm_fields in auto)
  then show ?thesis using f rep_cong [of rf' rf f] by (auto simp: moves_def)
next
  case True
  obtain p k where p: "int p = PrevLogIndex args - SnapshotIndex rf + 1" "0 < p" "p \<le> length (Logs rf)"
    "Term (Logs rf ! (p - 1)) = PrevLogTerm args" and
    k: "k \<le> length (Entries args)" "p + k \<le> length (Logs rf)"
    "\<forall>m < k. Term (Logs rf ! (p + m)) = Term (Entries args ! m)"
    "k < length (Entries args) \<Longrightarrow> p + k < length (Logs rf) \<Longrightarrow> Term (Logs rf ! (p + k)) \<noteq> Term (Entries args ! k)" and
    l: "Logs rf' = (if k < length (Entries args) then take (p + k) (Logs rf) @ drop k (Entries args) else Logs rf)"
    "SnapshotIndex rf' = SnapshotIndex rf" and
    r: "CurrentTerm rf' = aeTerm args" "rstate rf' = FOLLOWER"
    using AppendEntries_accept_log [OF ae True] by metis
  show ?thesis
  proof (cases "k < length (Entries args)")
    case False
    then show ?thesis using l r f rep_cong [of rf' rf f] by (auto simp: moves_def)
  next
    case grown: True
    let ?S = "nat (SnapshotIndex rf)" and ?P = "nat (PrevLogIndex args)"
    obtain e where e: "Logs rf = e # drop ?S f" "0 \<le> SnapshotIndex rf" "?S \<le> length f"
      using f(1) by (auto simp: rep_def)
    have P: "int ?P = PrevLogIndex args" "?P + 1 = p + ?S" "?P \<le> length f" "?P + k \<le> length f"
      using p k(2) e by (auto simp: nat_eq_iff)
    have nth: "Logs rf ! (p + j) = f ! (?P + j)" if "p + j < length (Logs rf)" for j
    proof -
      have "p + j = Suc (p - 1 + j)" "?S + (p - 1 + j) = ?P + j" using P(2) p(2) by linarith+
      then show ?thesis using that e by simp
    qed
    have w: "ae_within g args" "base g (aeTerm args) \<noteq> None" using ok grown by (auto simp: ae_ok_def)
    obtain m where m: "Entries args = take m (drop ?P (tlog g (aeTerm args)))" and
      PG: "?P \<le> length (tlog g (aeTerm args))" "PrevLogTerm args = tat (tlog g (aeTerm args)) ?P"
      using w(1) by (auto simp: ae_within_def)
    have "termAt rf (PrevLogIndex args) = Some (PrevLogTerm args)"
    proof -
      have "p - 1 = nat (PrevLogIndex args - SnapshotIndex rf)" using p(1,2) by linarith
      then show ?thesis using p by (simp add: termAt_eq lastIndex_def len_def)
    qed
    then have "tat f ?P = PrevLogTerm args"
      using rep_termAt [OF f(1), of "PrevLogIndex args"] P p(1,2) by simp
    moreover have "\<forall>j < k. Term (f ! (?P + j)) = Term (Entries args ! j)" using k(2,3) nth by simp
    moreover have "Term (f ! (?P + k)) \<noteq> Term (Entries args ! k)" if "?P + k < length f"
    proof -
      have "p + k < length (Logs rf)" using that P(2) e by simp
      then show ?thesis using k(4) [OF grown] nth by simp
    qed
    ultimately have fo: "follows g (aeTerm args) f (take (?P + k) f @ drop k (Entries args))"
      using accepted_log [OF f(2) g w(2) refl PG(1) P(3) _ m grown P(4)] PG(2) by simp
    have "take (p + k) (Logs rf) = e # drop ?S (take (?P + k) f)"
    proof -
      have "p + k = Suc (?P + k - ?S)" using P(2) p(2) by linarith
      then show ?thesis by (simp add: e(1) drop_take)
    qed
    moreover have "?S \<le> ?P + k" using P(2) p(2) by linarith
    ultimately have "Logs rf' = e # drop ?S (take (?P + k) f @ drop k (Entries args))"
      using l(1) grown P(4) by simp
    moreover have "tat (take (?P + k) f @ drop k (Entries args)) ?S = tat f ?S"
    proof -
      have "?S \<le> length (take (?P + k) f)" using P p(2) e by simp
      then show ?thesis using P p(2) by simp
    qed
    ultimately have "rep rf' (take (?P + k) f @ drop k (Entries args))"
      using f(1) e l(2) P p(2) by (simp add: rep_def)
    then show ?thesis using fo r by (auto simp: moves_def)
  qed
qed

end
