(* ===== verification/Raft_Matching.thy ===== *)
theory Raft_Matching
  imports Raft_Full
begin

text \<open>
  The steps of a cluster as the steps of \<open>Raft_Core_Steps\<close>: every reachable state has whole logs
  for its peers and a record of its leaders that satisfy \<open>core_inv\<close>.
\<close>

section \<open>The invariant of a cluster\<close>

definition views :: "('c, 's) cluster \<Rightarrow> (nat \<Rightarrow> 'c log) \<Rightarrow> nat \<Rightarrow> 'c view" where
  "views c fl n = \<lparr>vterm = CurrentTerm (peers c n), vrole = rstate (peers c n), vlog = fl n\<rparr>"

definition rv_ok :: "('c, 's) cluster \<Rightarrow> (nat \<Rightarrow> 'c log) \<Rightarrow> nat \<Rightarrow> RequestVoteArgs \<Rightarrow> bool" where
  "rv_ok c fl n args \<longleftrightarrow>
     (rstate (peers c n) = CANDIDATE \<and> CurrentTerm (peers c n) = rvTerm args \<longrightarrow>
        LastLogIndex args = int (length (fl n)) \<and> LastLogTerm args = tat (fl n) (length (fl n)))"

definition req_fits :: "'c ghost \<Rightarrow> ('c, 's) cluster \<Rightarrow> (nat \<Rightarrow> 'c log) \<Rightarrow> ('c, 's) rpc \<Rightarrow> bool" where
  "req_fits g c fl r = (case rpc_req r of
     RVReq args \<Rightarrow> rv_ok c fl (rpc_src r) args | AEReq args \<Rightarrow> ae_ok g args | ISReq args \<Rightarrow> is_ok g args)"

definition linv :: "nat \<Rightarrow> votes \<Rightarrow> 'c ghost \<Rightarrow> (nat \<Rightarrow> 'c log) \<Rightarrow> ('c, 's) cluster \<Rightarrow> bool" where
  "linv N h g fl c \<longleftrightarrow> election_inv N h c \<and> core_inv N h (views c fl) g \<and>
     (\<forall>n < N. rep (peers c n) (fl n)) \<and> (\<forall>r \<in> set (rpcs c). req_fits g c fl r)"

lemma views_simps [simp]:
  "vterm (views c fl n) = CurrentTerm (peers c n)" "vrole (views c fl n) = rstate (peers c n)"
  "vlog (views c fl n) = fl n"
  by (simp_all add: views_def)

lemma views_update:
  "peers c' = (peers c)(n := rf) \<Longrightarrow>
   views c' (fl(n := f)) = (views c fl)(n := \<lparr>vterm = CurrentTerm rf, vrole = rstate rf, vlog = f\<rparr>)"
  by (auto simp: views_def fun_eq_iff)

lemma linvD:
  assumes "linv N h g fl c"
  shows "election_inv N h c" "core_inv N h (views c fl) g" "terms_ok g" "base_inv N c"
    "n < N \<Longrightarrow> rep (peers c n) (fl n)" "n < N \<Longrightarrow> peer_ok N n (peers c n)"
    "n < N \<Longrightarrow> coh g (fl n)" "r \<in> set (rpcs c) \<Longrightarrow> req_fits g c fl r"
    "n < N \<Longrightarrow> rstate (peers c n) = LEADER \<Longrightarrow>
       base g (CurrentTerm (peers c n)) \<noteq> None \<and> tlog g (CurrentTerm (peers c n)) = fl n"
proof -
  show e: "election_inv N h c" and c: "core_inv N h (views c fl) g"
    and "n < N \<Longrightarrow> rep (peers c n) (fl n)" and "r \<in> set (rpcs c) \<Longrightarrow> req_fits g c fl r"
    using assms by (auto simp: linv_def)
  show "terms_ok g" using c by (simp add: core_inv_def)
  show "base_inv N c" "n < N \<Longrightarrow> peer_ok N n (peers c n)" using e by (auto simp: election_inv_def base_inv_def)
  assume n: "n < N"
  then have v: "view_ok g (views c fl n)" using c by (simp add: core_inv_def)
  then show "coh g (fl n)" by (simp add: view_ok_def)
  show "rstate (peers c n) = LEADER \<Longrightarrow>
      base g (CurrentTerm (peers c n)) \<noteq> None \<and> tlog g (CurrentTerm (peers c n)) = fl n"
    using v by (simp add: view_ok_def)
qed

text \<open>Votes that do not change, or only by being withdrawn with a new term.\<close>

definition votes_kept :: "('c, 's) Raft \<Rightarrow> ('c, 's) Raft \<Rightarrow> bool" where
  "votes_kept rf rf' \<longleftrightarrow>
     VotedFor rf' = -1 \<or> CurrentTerm rf' = CurrentTerm rf \<and> VotedFor rf' = VotedFor rf"

lemma req_fits_mono:
  assumes fits: "req_fits g c fl r" and ev: "evolves r r'" and gle: "gle g g'"
    and same: "\<And>n. rstate (peers c' n) = CANDIDATE \<Longrightarrow>
      rstate (peers c n) = CANDIDATE \<and> CurrentTerm (peers c' n) = CurrentTerm (peers c n) \<and> fl' n = fl n"
  shows "req_fits g' c' fl' r'"
proof (cases "rpc_req r")
  case (RVReq args)
  then show ?thesis
    using fits ev same [of "rpc_src r"] by (auto simp: req_fits_def evolves_def rv_ok_def)
next
  case (AEReq args)
  then show ?thesis using fits ev ae_ok_mono [OF gle] by (simp add: req_fits_def evolves_def)
next
  case (ISReq args)
  then show ?thesis using fits ev is_ok_mono [OF gle] by (simp add: req_fits_def evolves_def)
qed

text \<open>What a step leaves: the invariant again, and logs that grew, or that follow a leader.\<close>

definition changed :: "'c ghost \<Rightarrow> int \<Rightarrow> 'c log \<Rightarrow> 'c log \<Rightarrow> bool" where
  "changed g u f f' \<longleftrightarrow> f' = f \<or> (\<exists>e. f' = f @ [e]) \<or> follows g u f f'"

definition linv_next :: "nat \<Rightarrow> 'c ghost \<Rightarrow> (nat \<Rightarrow> 'c log) \<Rightarrow> ('c, 's) cluster \<Rightarrow> bool" where
  "linv_next N g fl c' \<longleftrightarrow> (\<exists>h g' fl'. gle g g' \<and> linv N h g' fl' c' \<and>
     (\<forall>n < N. changed g (CurrentTerm (peers c' n)) (fl n) (fl' n)))"

section \<open>Passive steps\<close>

lemma follow_cast:
  assumes inv: "linv N h g fl c" and p: "passive_step (peers c n) rf" and n: "n < N"
    and mv: "f = fl n \<or> rstate rf = FOLLOWER \<and> follows g (CurrentTerm rf) (fl n) f"
    and vote: "\<And>m. m < N \<Longrightarrow> VotedFor rf = int m \<Longrightarrow> \<not> votes_kept (peers c n) rf \<Longrightarrow>
      CurrentTerm rf \<le> CurrentTerm (peers c m) \<and>
      (rstate (peers c m) = CANDIDATE \<and> CurrentTerm (peers c m) = CurrentTerm rf \<longrightarrow> uptodate (fl m) (fl n))"
  shows "follow N h (views c fl) g n \<lparr>vterm = CurrentTerm rf, vrole = rstate rf, vlog = f\<rparr> (cast h n rf)"
proof -
  have hist: "hist_ok N h (peers c)" using linvD(1) [OF inv] by (simp add: election_inv_def)
  have e: "extends h (cast h n rf)"
    by (rule hist_ok_cast(2) [OF hist n]) (use p in \<open>auto simp: passive_step_def\<close>)
  have only: "\<forall>T j. cast h n rf T j \<noteq> h T j \<longrightarrow> T = CurrentTerm rf \<and> j = n"
    by (auto simp: cast_def)
  have "CurrentTerm rf \<le> CurrentTerm (peers c m) \<and>
      (rstate (peers c m) = CANDIDATE \<and> CurrentTerm (peers c m) = CurrentTerm rf \<longrightarrow> uptodate (fl m) (fl n))"
    if m: "m < N" and v: "cast h n rf (CurrentTerm rf) n = Some (int m)" "h (CurrentTerm rf) n \<noteq> Some (int m)" for m
  proof (rule vote [OF m])
    show vf: "VotedFor rf = int m" using v(1) by (simp add: vote_of_def split: if_splits)
    show "\<not> votes_kept (peers c n) rf"
      using v(2) vf hist n by (auto simp: votes_kept_def hist_ok_def vote_of_def)
  qed
  moreover have "rstate rf \<noteq> FOLLOWER \<longrightarrow> rstate rf = rstate (peers c n) \<and> CurrentTerm rf = CurrentTerm (peers c n)"
    "CurrentTerm (peers c n) \<le> CurrentTerm rf" using p by (auto simp: passive_step_def)
  ultimately show ?thesis using n mv e only by (auto simp: follow_def views_def)
qed

lemma linv_passive:
  assumes inv: "linv N h g fl c" and p: "passive_cluster_step N c c' n rf" and b: "base_inv N c'"
    and f: "rep rf f" and mv: "f = fl n \<or> rstate rf = FOLLOWER \<and> follows g (CurrentTerm rf) (fl n) f"
    and vote: "\<And>m. m < N \<Longrightarrow> VotedFor rf = int m \<Longrightarrow> \<not> votes_kept (peers c n) rf \<Longrightarrow>
      CurrentTerm rf \<le> CurrentTerm (peers c m) \<and>
      (rstate (peers c m) = CANDIDATE \<and> CurrentTerm (peers c m) = CurrentTerm rf \<longrightarrow> uptodate (fl m) (fl n))"
    and new: "\<And>r. r \<in> set (rpcs c') \<Longrightarrow> (\<exists>r0 \<in> set (rpcs c). evolves r0 r) \<or>
      (\<forall>args. rpc_req r \<noteq> RVReq args) \<and> req_fits g c fl r"
  shows "linv_next N g fl c'"
proof -
  let ?x = "\<lparr>vterm = CurrentTerm rf, vrole = rstate rf, vlog = f\<rparr>" and ?fl = "fl(n := f)"
  have n: "n < N" and peers: "peers c' = (peers c)(n := rf)" and ps: "passive_step (peers c n) rf"
    using p by (auto simp: passive_cluster_step_def)
  define g' where "g' = saturate N (views c' ?fl) g"
  have gle: "gle g g'" by (simp add: g'_def gle_saturate)
  have "follow N h (views c fl) g n ?x (cast h n rf)" by (rule follow_cast [OF inv ps n mv vote])
  then have "core_inv N (cast h n rf) (views c' ?fl) g'"
    unfolding g'_def views_update [OF peers] using core_follow linvD(2) [OF inv] by blast
  moreover have "election_inv N (cast h n rf) c'" by (rule election_inv_passive [OF p b linvD(1) [OF inv]])
  moreover have "rep (peers c' m) (?fl m)" if "m < N" for m using that f linvD(5) [OF inv] by (simp add: peers)
  moreover have "req_fits g' c' ?fl r" if "r \<in> set (rpcs c')" for r
    using new [OF that]
  proof
    assume "\<exists>r0 \<in> set (rpcs c). evolves r0 r"
    then obtain r0 where r0: "r0 \<in> set (rpcs c)" "evolves r0 r" by blast
    show ?thesis
      by (rule req_fits_mono [OF linvD(8) [OF inv r0(1)] r0(2) gle])
         (use ps mv in \<open>auto simp: peers passive_step_def\<close>)
  next
    assume "(\<forall>args. rpc_req r \<noteq> RVReq args) \<and> req_fits g c fl r"
    then show ?thesis
      using ae_ok_mono [OF gle] is_ok_mono [OF gle] by (auto simp: req_fits_def split: request.splits)
  qed
  ultimately have "linv N (cast h n rf) g' ?fl c'" by (auto simp: linv_def)
  moreover have "\<forall>m < N. changed g (CurrentTerm (peers c' m)) (fl m) (?fl m)"
    using mv by (auto simp: peers changed_def)
  ultimately show ?thesis using gle unfolding linv_next_def by blast
qed

text \<open>The common case: the log and the vote stay, and so do the requests in flight.\<close>

lemma linv_quiet:
  assumes inv: "linv N h g fl c" and p: "passive_cluster_step N c c' n rf" and b: "base_inv N c'"
    and same: "Logs rf = Logs (peers c n)" "SnapshotIndex rf = SnapshotIndex (peers c n)" "votes_kept (peers c n) rf"
    and new: "\<And>r. r \<in> set (rpcs c') \<Longrightarrow> (\<exists>r0 \<in> set (rpcs c). evolves r0 r) \<or>
      (\<forall>args. rpc_req r \<noteq> RVReq args) \<and> req_fits g c fl r"
  shows "linv_next N g fl c'"
proof (rule linv_passive [OF inv p b])
  have "n < N" using p by (simp add: passive_cluster_step_def)
  then show "rep rf (fl n)" using linvD(5) [OF inv] rep_cong [OF same(1,2)] by blast
qed (use same(3) new in auto)

section \<open>Deliveries\<close>

lemma RequestVote_new_vote:
  assumes "RequestVote rf args = Some (rf', reply, effs)" "raft_wf rf" "\<not> votes_kept rf rf'"
  shows "VotedFor rf' = CandidateID args" "CurrentTerm rf' = rvTerm args"
    "moreUpToDate args (Term (last (Logs rf))) (lastIndex rf)"
  using assms
  by (auto simp: RequestVote_def Let_def bind_Some_iff raft_wf_def slice_get_last votes_kept_def
      logIdxLocal2Global_def lastIndex_def algebra_simps split: if_splits)

lemma votes_kept_refl [simp]: "votes_kept rf rf"
  by (simp add: votes_kept_def)

lemma votes_kept_cong:
  "CurrentTerm rf'' = CurrentTerm rf' \<Longrightarrow> VotedFor rf'' = VotedFor rf' \<Longrightarrow> votes_kept rf rf'' = votes_kept rf rf'"
  by (simp add: votes_kept_def)

lemma adoptTerm_votes: "adoptTerm rf t = (rf', change) \<Longrightarrow> votes_kept rf rf'"
  by (auto simp: adoptTerm_def votes_kept_def split: if_splits)

lemma AppendEntries_votes_kept:
  assumes "AppendEntries rf args = Some (rf', reply, effs)"
  shows "votes_kept rf rf'"
  using assms
proof (cases rule: AppendEntries_cases)
  case (accept rf1 change rf2 grown rf3 ceffs)
  note u = upd_Logs_commit_fields [OF mergeEntries_fields [OF accept(6)] followCommit_fields(1) [OF accept(7)]]
  have "votes_kept rf rf' = votes_kept rf rf1" by (rule votes_kept_cong) (simp_all add: accept(8) u)
  then show ?thesis using adoptTerm_votes [OF accept(2)] by simp
qed (auto simp: votes_kept_def dest!: adoptTerm_votes)

lemma InstallSnapShot_votes_kept:
  assumes "InstallSnapShot rf args = Some (rf', reply, effs)" "raft_wf rf"
  shows "votes_kept rf rf'"
  using assms
proof (cases rule: InstallSnapShot_cases)
  case (install rf1 change rest rf2)
  have "votes_kept rf rf' = votes_kept rf rf1" by (rule votes_kept_cong) (simp_all add: install(6,7))
  then show ?thesis using adoptTerm_votes [OF install(2)] by simp
qed (auto simp: votes_kept_def dest!: adoptTerm_votes)

lemma moreUpToDate_uptodate:
  assumes "moreUpToDate args (Term (last (Logs rf))) (lastIndex rf)" "rep rf f"
    and "LastLogIndex args = int (length f')" "LastLogTerm args = tat f' (length f')"
  shows "uptodate f' f"
  using assms rep_last [OF assms(2)] rep_lastIndex [OF assms(2)] by (auto simp: moreUpToDate_def uptodate_def)

text \<open>What a handler leaves of the whole log of the peer.\<close>

lemma handle_log:
  assumes inv: "linv N h g fl c" and r: "r \<in> set (rpcs c)" "n = rpc_dst r"
    and hd: "handle (peers c n) (rpc_req r) = Some (rf, rsp, effs)"
  shows "\<exists>f. rep rf f \<and> (f = fl n \<or> rstate rf = FOLLOWER \<and> follows g (CurrentTerm rf) (fl n) f)"
proof -
  have "rpc_ok N (peers c) r" using linvD(4) [OF inv] r(1) by (simp add: base_inv_def)
  then have n: "n < N" using r(2) by (simp add: rpc_ok_def)
  note p = linvD(5,7) [OF inv n] and g = linvD(3) [OF inv] and fits = linvD(8) [OF inv r(1)]
  have wf: "raft_wf (peers c n)" using linvD(6) [OF inv n] by (simp add: peer_ok_def)
  show ?thesis
  proof (cases "rpc_req r")
    case (RVReq args)
    then obtain rep' where "RequestVote (peers c n) args = Some (rf, rep', effs)" using hd by auto
    then have "rep rf (fl n)" using p(1) RequestVote_log rep_cong by metis
    then show ?thesis by blast
  next
    case (AEReq args)
    then obtain rep' where "AppendEntries (peers c n) args = Some (rf, rep', effs)" using hd by auto
    from rep_AppendEntries [OF this p g] fits AEReq show ?thesis by (auto simp: req_fits_def moves_def)
  next
    case (ISReq args)
    then obtain rep' where "InstallSnapShot (peers c n) args = Some (rf, rep', effs)" using hd by auto
    from rep_InstallSnapShot [OF this wf p g] fits ISReq show ?thesis by (auto simp: req_fits_def moves_def)
  qed
qed

text \<open>A new vote goes to a candidate with a log that is not behind.\<close>

lemma handle_vote:
  assumes inv: "linv N h g fl c" and r: "r \<in> set (rpcs c)" "n = rpc_dst r"
    and hd: "handle (peers c n) (rpc_req r) = Some (rf, rsp, effs)"
    and m: "VotedFor rf = int m" and new: "\<not> votes_kept (peers c n) rf"
  shows "CurrentTerm rf \<le> CurrentTerm (peers c m) \<and>
      (rstate (peers c m) = CANDIDATE \<and> CurrentTerm (peers c m) = CurrentTerm rf \<longrightarrow> uptodate (fl m) (fl n))"
proof -
  have ok: "rpc_ok N (peers c) r" using linvD(4) [OF inv] r(1) by (simp add: base_inv_def)
  then have n: "n < N" using r(2) by (simp add: rpc_ok_def)
  have wf: "raft_wf (peers c n)" using linvD(6) [OF inv n] by (simp add: peer_ok_def)
  show ?thesis
  proof (cases "rpc_req r")
    case (RVReq args)
    then obtain rep' where rv: "RequestVote (peers c n) args = Some (rf, rep', effs)" using hd by auto
    note v = RequestVote_new_vote [OF rv wf new]
    have src: "rpc_src r = m" "rvTerm args \<le> CurrentTerm (peers c m)"
      using ok RVReq v(1) m by (auto simp: rpc_ok_def)
    have "rv_ok c fl m args" using linvD(8) [OF inv r(1)] RVReq src by (simp add: req_fits_def)
    then show ?thesis
      using src(2) v(2) moreUpToDate_uptodate [OF v(3) linvD(5) [OF inv n]] by (auto simp: rv_ok_def)
  next
    case (AEReq args)
    then show ?thesis using hd new by (auto dest: AppendEntries_votes_kept)
  next
    case (ISReq args)
    then show ?thesis using hd new wf by (auto dest: InstallSnapShot_votes_kept)
  qed
qed

lemma linv_deliver:
  assumes inv: "linv N h g fl c" and b: "base_inv N c'"
    and k: "k < length (rpcs c)" "r = rpcs c ! k" "rpc_resp r = None" "n = rpc_dst r"
    and hd: "handle (peers c n) (rpc_req r) = Some (rf, rsp, effs)"
    and c': "peers c' = (peers c)(n := rf)" "rpcs c' = (rpcs c)[k := r\<lparr>rpc_resp := Some rsp\<rparr>]"
  shows "linv_next N g fl c'"
proof -
  have p: "passive_cluster_step N c c' n rf" by (rule deliver_passive [OF linvD(4) [OF inv] k hd c'])
  have r: "r \<in> set (rpcs c)" using k by simp
  obtain f where f: "rep rf f" "f = fl n \<or> rstate rf = FOLLOWER \<and> follows g (CurrentTerm rf) (fl n) f"
    using handle_log [OF inv r k(4) hd] by blast
  have "list_all2 evolves (rpcs c) (rpcs c')" unfolding c'(2) using k by (simp add: list_all2_evolves_update)
  then show ?thesis
    using evolves_source by (intro linv_passive [OF inv p b f handle_vote [OF inv r k(4) hd]]) blast+
qed

end
