(* ===== verification/Raft_Log_Matching.thy ===== *)
theory Raft_Log_Matching
  imports Raft_Matching Raft_Exec
begin

text \<open>
  The remaining steps of a cluster, and with them the log matching property: every reachable state
  satisfies the invariant \<open>linv\<close>.
\<close>

section \<open>Returns of calls\<close>

lemma stepDown_votes: "stepDown rf t = (rf', effs) \<Longrightarrow> votes_kept rf rf'"
  using stepDown_fields(11) [of rf t rf' effs] by (simp add: votes_kept_def)

lemma recordMatch_fields:
  assumes "recordMatch rf server i = Some (rf', effs)"
  shows "Logs rf' = Logs rf" "SnapshotIndex rf' = SnapshotIndex rf" "CurrentTerm rf' = CurrentTerm rf"
    "VotedFor rf' = VotedFor rf" "rstate rf' = rstate rf" "lastApplied rf' = lastApplied rf"
  using assms by (cases rule: recordMatch_cases, auto)+

lemma finish_log:
  assumes "finish rf to req out = Some (rf', effs)" and wf: "raft_wf rf"
  shows "Logs rf' = Logs rf \<and> SnapshotIndex rf' = SnapshotIndex rf \<and> votes_kept rf rf'"
proof -
  have v: "Logs rf' = Logs rf \<and> SnapshotIndex rf' = SnapshotIndex rf \<and> votes_kept rf rf'"
    if s: "sendRequestVoteAndProcess rf ok reply = Some (rf', effs)" for ok reply
    using s wf by (cases rule: sendRequestVoteAndProcess_cases)
      (auto simp: stepDown_fields stepDown_votes votes_kept_def)
  have a: "Logs rf' = Logs rf \<and> SnapshotIndex rf' = SnapshotIndex rf \<and> votes_kept rf rf'"
    if s: "sendAppendEntriesAndProcess rf args (int to) ok reply = Some (rf', effs)" for args ok reply
    using s by (cases rule: sendAppendEntriesAndProcess_cases)
      (auto simp: stepDown_fields stepDown_votes votes_kept_def recordMatch_fields)
  have i: "Logs rf' = Logs rf \<and> SnapshotIndex rf' = SnapshotIndex rf \<and> votes_kept rf rf'"
    if s: "sendSnapShotAndProcess rf args (int to) ok reply = Some (rf', effs)" for args ok reply
    using s by (cases rule: sendSnapShotAndProcess_cases)
      (auto simp: stepDown_fields stepDown_votes votes_kept_def)
  from assms(1) show ?thesis
    by (cases "(rf, to, req, out)" rule: finish.cases) (use v a i in auto)
qed

lemma linv_vote:
  assumes inv: "linv N h g fl c" and vs: "vote_step N c c' n rf" and b: "base_inv N c'"
    and same: "Logs rf = Logs (peers c n)" "SnapshotIndex rf = SnapshotIndex (peers c n)"
  shows "linv_next N g fl c'"
proof -
  have n: "n < N" and peers: "peers c' = (peers c)(n := rf)" and cand: "rstate (peers c n) = CANDIDATE"
    and t: "CurrentTerm rf = CurrentTerm (peers c n)" and role: "rstate rf = LEADER \<or> rstate rf = CANDIDATE"
    and ev: "list_all2 evolves (rpcs c) (rpcs c')"
    using vs by (auto simp: vote_step_def list_all2_evolves_update)
  have e: "election_inv N h c'" by (rule election_inv_vote [OF vs b linvD(1) [OF inv]])
  have r: "\<forall>m < N. rep (peers c' m) (fl m)"
    using linvD(5) [OF inv] rep_cong [OF same] n by (simp add: peers)
  have fits: "\<forall>r \<in> set (rpcs c'). req_fits g' c' fl r" if gle: "gle g g'" for g'
  proof
    fix r assume "r \<in> set (rpcs c')"
    then obtain r0 where r0: "r0 \<in> set (rpcs c)" "evolves r0 r" using evolves_source [OF ev] by blast
    show "req_fits g' c' fl r"
      by (rule req_fits_mono [OF linvD(8) [OF inv r0(1)] r0(2) gle])
         (use t cand in \<open>auto simp: peers split: if_splits\<close>)
  qed
  have "\<exists>g'. gle g g' \<and> core_inv N h (views c' fl) g'"
  proof (cases "rstate rf = LEADER")
    case True
    let ?x = "(views c fl n)\<lparr>vrole := LEADER\<rparr>"
    have "views c' fl = (views c fl)(n := ?x)" using True t by (auto simp: views_def peers fun_eq_iff)
    moreover have "quorum N h (CurrentTerm (peers c n)) n"
      using e n True t by (auto simp: election_inv_def peers)
    ultimately show ?thesis
      using core_elected [OF linvD(2) [OF inv] n _ _ refl] cand gle_saturate by fastforce
  next
    case False
    then have "views c' fl = views c fl" using role t cand by (auto simp: views_def peers fun_eq_iff)
    then show ?thesis using linvD(2) [OF inv] gle_refl by metis
  qed
  then show ?thesis
    using e r fits unfolding linv_next_def linv_def changed_def by blast
qed

lemma linv_returns:
  assumes inv: "linv N h g fl c" and b: "base_inv N c'"
    and k: "k < length (rpcs c)" "r = rpcs c ! k" "rpc_live r" "n = rpc_src r" "out = None \<or> out = rpc_resp r"
    and fin: "finish (peers c n) (rpc_dst r) (rpc_req r) out = Some (rf, effs)"
    and c': "peers c' = (peers c)(n := rf)" "rpcs c' = (rpcs c)[k := r\<lparr>rpc_live := False\<rparr>] @ spawn n effs"
  shows "linv_next N g fl c'"
proof -
  have r: "r \<in> set (rpcs c)" using k by simp
  then have "rpc_ok N (peers c) r" using linvD(4) [OF inv] by (simp add: base_inv_def)
  then have n: "n < N" using k(4) by (simp add: rpc_ok_def)
  then have p: "peer_ok N n (peers c n)" by (rule linvD(6) [OF inv])
  then have fl: "Logs rf = Logs (peers c n)" "SnapshotIndex rf = SnapshotIndex (peers c n)" "votes_kept (peers c n) rf"
    using finish_log [OF fin] by (auto simp: peer_ok_def)
  have "rpcs c' = (rpcs c)[k := r\<lparr>rpc_live := False\<rparr>]" using finish_ok [OF fin p] c'(2) by simp
  then have ev: "list_all2 evolves (rpcs c) (rpcs c')" using k by (simp add: list_all2_evolves_update)
  from call_returns_classified [OF linvD(4) [OF inv] k fin c'] show ?thesis
  proof
    assume "passive_cluster_step N c c' n rf"
    then show ?thesis using evolves_source [OF ev] by (intro linv_quiet [OF inv _ b fl]) blast+
  next
    assume "vote_step N c c' n rf"
    then show ?thesis using linv_vote [OF inv _ b fl(1,2)] by blast
  qed
qed

section \<open>Sending\<close>

lemma check_fits:
  assumes ch: "checkConsistency rf to = Some effs" and r: "r \<in> set (spawn n effs)" and f: "rep rf f"
    and g: "rstate rf = LEADER \<Longrightarrow> base g (CurrentTerm rf) \<noteq> None \<and> tlog g (CurrentTerm rf) = f"
  shows "req_fits g c fl r"
proof -
  have l: "rstate rf = LEADER" using ch r by (auto simp: checkConsistency_def split: if_splits)
  then obtain k where k: "slice_get (nextIndex rf) to = Some k"
    using ch by (auto simp: checkConsistency_def bind_Some_iff)
  obtain e where e: "Logs rf = e # drop (nat (SnapshotIndex rf)) f" "Term e = tat f (nat (SnapshotIndex rf))"
    and S: "0 \<le> SnapshotIndex rf" "nat (SnapshotIndex rf) \<le> length f"
    using f by (auto simp: rep_def)
  show ?thesis
  proof (cases "k - 1 < SnapshotIndex rf")
    case True
    moreover have "slice_get (Logs rf) 0 = Some e" using e by (simp add: slice_get_def len_def)
    ultimately show ?thesis
      using ch r l k g [OF l] e S
      by (auto simp: checkConsistency_def bind_Some_iff Let_def req_fits_def is_ok_def)
  next
    case False
    define j where "j = min (k - 1 - SnapshotIndex rf) (len (Logs rf) - 1)"
    obtain e' where e': "slice_get (Logs rf) j = Some e'"
      using ch l k False by (auto simp: checkConsistency_def bind_Some_iff Let_def logIdxGlobal2Local_def j_def)
    define args where "args = \<lparr>aeTerm = CurrentTerm rf, aeLeaderID = me rf, PrevLogIndex = k - 1,
        PrevLogTerm = Term e', Entries = drop (nat (j + 1)) (Logs rf), LeaderCommit = commitIndex rf\<rparr>"
    have req: "rpc_req r = AEReq args"
      using ch r l k False e'
      by (auto simp: checkConsistency_def bind_Some_iff Let_def logIdxGlobal2Local_def slice_from_def
          args_def j_def split: if_splits)
    have "ae_within g args \<or> Entries args = []"
    proof (cases "k - 1 \<le> int (length f)")
      case True
      then have j: "j = k - 1 - SnapshotIndex rf"
        using rep_lastIndex [OF f] by (simp add: j_def lastIndex_def)
      have "termAt rf (k - 1) = Some (Term e')"
        using e' j by (simp add: termAt_def entryAt_def logIdxGlobal2Local_def)
      then have "Term e' = tat f (nat (k - 1))" using rep_termAt [OF f, of "k - 1"] True False by simp
      moreover have "Entries args = drop (nat (k - 1)) f"
        using rep_drop [OF f, of "k - 1"] False j by (simp add: args_def)
      moreover have "nat (k - 1) \<le> length f" using True by simp
      ultimately show ?thesis
        using g [OF l] by (auto simp: ae_within_def args_def intro!: exI [of _ "length f"])
    next
      case False
      then have "j = len (Logs rf) - 1" using rep_lastIndex [OF f] by (simp add: j_def lastIndex_def)
      then show ?thesis by (simp add: args_def len_def)
    qed
    then show ?thesis using req g [OF l] S False by (simp add: req_fits_def ae_ok_def args_def)
  qed
qed

text \<open>Steps that leave every call in flight as it is.\<close>

lemma linv_still:
  assumes inv: "linv N h g fl c" and p: "passive_cluster_step N c c' n rf" and b: "base_inv N c'"
    and same: "Logs rf = Logs (peers c n)" "SnapshotIndex rf = SnapshotIndex (peers c n)" "votes_kept (peers c n) rf"
    and rs: "rpcs c' = rpcs c"
  shows "linv_next N g fl c'"
proof (rule linv_quiet [OF inv p b same])
  fix r assume "r \<in> set (rpcs c')"
  then have "\<exists>r0 \<in> set (rpcs c). evolves r0 r" using evolves_refl(1) rs by metis
  then show "(\<exists>r0 \<in> set (rpcs c). evolves r0 r) \<or> (\<forall>args. rpc_req r \<noteq> RVReq args) \<and> req_fits g c fl r" ..
qed

section \<open>Candidacies and submissions\<close>

lemma req_fits_candidacy:
  assumes inv: "linv N h g fl c" and r: "r \<in> set (rpcs c)" and gle: "gle g g'"
    and c': "peers c' = (peers c)(n := rf)" and t: "CurrentTerm rf = CurrentTerm (peers c n) + 1"
  shows "req_fits g' c' fl r"
proof -
  have "rpc_ok N (peers c) r" using linvD(4) [OF inv] r by (simp add: base_inv_def)
  then show ?thesis
    using linvD(8) [OF inv r] ae_ok_mono [OF gle] is_ok_mono [OF gle]
    by (cases "rpc_src r = n") (auto simp: req_fits_def rv_ok_def rpc_ok_def c' t split: request.splits)
qed

lemma linv_timeout:
  assumes inv: "linv N h g fl c" and n: "n < N" and bc: "broadCastVote (peers c n) = Some (rf, effs)"
    and c': "peers c' = (peers c)(n := rf)" "rpcs c' = rpcs c @ spawn n effs" and b: "base_inv N c'"
  shows "linv_next N g fl c'"
proof -
  have p: "peer_ok N n (peers c n)" by (rule linvD(6) [OF inv n])
  have wf: "raft_wf (peers c n)" using p by (simp add: peer_ok_def)
  from bc wf show ?thesis
  proof (cases rule: broadCastVote_cases)
    case leader
    have "passive_cluster_step N c c' n rf"
      using leader p c' n by (intro passive_cluster_stepI [of _ _ _ _ _ "rpcs c"]) auto
    moreover have "rpcs c' = rpcs c" using c'(2) leader by simp
    ultimately show ?thesis using leader by (intro linv_still [OF inv _ b]) auto
  next
    case (candidate args)
    let ?x = "\<lparr>vterm = CurrentTerm rf, vrole = rstate rf, vlog = fl n\<rparr>" and ?h = "cast h n rf"
    have f: "CurrentTerm rf = CurrentTerm (peers c n) + 1" "rstate rf = CANDIDATE" "VotedFor rf = int n"
      using candidate(3) p by (simp_all add: peer_ok_def)
    have r: "rep rf (fl n)" using linvD(5) [OF inv n] rep_cong [of rf "peers c n"] candidate(3) by simp
    have cs: "candidate_step N c c' n rf"
      using timeout_classified [OF linvD(4) [OF inv] n bc c'] f(1)
      by (auto simp: passive_cluster_step_def passive_step_def f(2))
    have e: "election_inv N ?h c'" by (rule election_inv_candidate [OF cs b linvD(1) [OF inv]])
    have hist: "hist_ok N h (peers c)" using linvD(1) [OF inv] by (simp add: election_inv_def)
    have ext: "extends h ?h" by (rule hist_ok_cast(2) [OF hist n]) (simp_all add: f)
    define v' where "v' = (views c fl)(n := ?x)"
    have gle: "gle g (saturate N v' g)" by (simp add: gle_saturate)
    have "core_inv N ?h v' (saturate N v' g)"
      unfolding v'_def by (rule core_candidate [OF linvD(2) [OF inv] n _ ext])
        (auto simp: f cast_def vote_of_def)
    moreover have "views c' fl = v'" using views_update [OF c'(1), of fl "fl n"] by (simp add: v'_def)
    moreover have "req_fits (saturate N v' g) c' fl r" if "r \<in> set (rpcs c')" for r
    proof (cases "r \<in> set (rpcs c)")
      case True
      then show ?thesis by (rule req_fits_candidacy [OF inv _ gle c'(1) f(1)])
    next
      case False
      then have "r \<in> set (spawn n effs)" using that c'(2) by simp
      then have "rpc_src r = n" "rpc_req r = RVReq args"
        by (auto simp: candidate(4) spawn_def)
      then show ?thesis
        using rep_lastIndex [OF linvD(5) [OF inv n]] rep_last [OF linvD(5) [OF inv n]]
        by (simp add: req_fits_def rv_ok_def c'(1) candidate(2))
    qed
    moreover have "\<forall>m < N. rep (peers c' m) (fl m)" using r linvD(5) [OF inv] by (simp add: c'(1))
    ultimately have "linv N ?h (saturate N v' g) fl c'" using e by (simp add: linv_def)
    then show ?thesis using gle unfolding linv_next_def changed_def by blast
  qed
qed

lemma cast_same:
  assumes "hist_ok N h (peers c)" "n < N" "CurrentTerm rf = CurrentTerm (peers c n)" "VotedFor rf = VotedFor (peers c n)"
  shows "cast h n rf = h"
proof -
  have "vote_of rf = vote_of (peers c n)" using assms(3,4) by (simp add: vote_of_def)
  then show ?thesis using assms by (auto simp: cast_def hist_ok_def fun_eq_iff)
qed

lemma linv_submit:
  assumes inv: "linv N h g fl c" and n: "n < N" and st: "Start (peers c n) command = Some (rf, res, effs)"
    and c': "peers c' = (peers c)(n := rf)" "rpcs c' = rpcs c @ spawn n effs" and b: "base_inv N c'"
  shows "linv_next N g fl c'"
proof -
  have p: "peer_ok N n (peers c n)" by (rule linvD(6) [OF inv n])
  have rs: "rpcs c' = rpcs c" using st c'(2) by (auto elim!: Start_cases)
  have ps: "passive_cluster_step N c c' n rf"
    using st p n c'(1) rs
    by (intro local_passive [OF linvD(4) [OF inv]]) (auto simp: peer_ok_def dest: Start_wf Start_durable Start_passive)
  from st show ?thesis
  proof (cases rule: Start_cases)
    case not_leader
    then show ?thesis using rs by (intro linv_still [OF inv ps b]) auto
  next
    case leader
    define e where "e = \<lparr>GlobalIndex = lastIndex (peers c n) + 1, Term = CurrentTerm (peers c n), Command = command\<rparr>"
    let ?f = "fl n @ [e]" and ?x = "(views c fl n)\<lparr>vlog := fl n @ [e]\<rparr>"
    have f: "CurrentTerm rf = CurrentTerm (peers c n)" "rstate rf = LEADER" "VotedFor rf = VotedFor (peers c n)"
      using leader by simp_all
    have "rep (peers c n\<lparr>Logs := Logs (peers c n) @ [e]\<rparr>) ?f" by (rule rep_Start [OF linvD(5) [OF inv n]])
    then have r: "rep rf ?f"
      using rep_cong [of rf "peers c n\<lparr>Logs := Logs (peers c n) @ [e]\<rparr>" ?f] leader(5) by (simp add: e_def)
    have hist: "hist_ok N h (peers c)" using linvD(1) [OF inv] by (simp add: election_inv_def)
    have e': "election_inv N h c'"
      using election_inv_passive [OF ps b linvD(1) [OF inv]] cast_same [OF hist n f(1,3)] by simp
    have q: "quorum N h (CurrentTerm (peers c m)) m" if "m < N" "rstate (peers c m) = LEADER" for m
      using linvD(1) [OF inv] that by (simp add: election_inv_def)
    have only: "\<forall>m < N. vrole (views c fl m) = LEADER \<and> vterm (views c fl m) = vterm (views c fl n) \<longrightarrow> m = n"
    proof (intro allI impI)
      fix m assume "m < N" "vrole (views c fl m) = LEADER \<and> vterm (views c fl m) = vterm (views c fl n)"
      then have "quorum N h (CurrentTerm (peers c n)) m" using q [of m] by simp
      then show "m = n" using q [OF n leader(1)] by (rule quorum_unique)
    qed
    define v' where "v' = (views c fl)(n := ?x)"
    define g' where "g' = saturate N v' (appended g ?x)"
    have core: "core_inv N h v' g'" and gle: "gle g g'"
    proof -
      show "core_inv N h v' g'" unfolding v'_def g'_def by (rule core_append(1) [where e = e, OF linvD(2) [OF inv] n _ only])
          (simp_all add: leader(1) e_def)
      have "gle g (appended g ?x)" by (rule core_append(2) [where e = e, OF linvD(2) [OF inv] n _ only])
          (simp_all add: leader(1) e_def)
      then show "gle g g'" using gle_saturate gle_trans unfolding g'_def by blast
    qed
    have "views c' (fl(n := ?f)) = v'"
      unfolding views_update [OF c'(1)] v'_def using f leader(1) by (simp add: views_def)
    moreover have "req_fits g' c' (fl(n := ?f)) r" if "r \<in> set (rpcs c')" for r
      by (rule req_fits_mono [OF linvD(8) [OF inv that [unfolded rs]] evolves_refl(1) gle])
         (use f leader(1) in \<open>auto simp: c'(1) split: if_splits\<close>)
    moreover have "\<forall>m < N. rep (peers c' m) ((fl(n := ?f)) m)" using r linvD(5) [OF inv] by (simp add: c'(1))
    ultimately have "linv N h g' (fl(n := ?f)) c'" using e' core by (simp add: linv_def)
    moreover have "\<forall>m < N. changed g (CurrentTerm (peers c' m)) (fl m) ((fl(n := ?f)) m)"
      by (auto simp: changed_def)
    ultimately show ?thesis using gle unfolding linv_next_def by blast
  qed
qed

section \<open>Every step\<close>

lemma linv_check:
  assumes inv: "linv N h g fl c" and n: "n < N" "to < N" "to \<noteq> n"
    and ch: "checkConsistency (peers c n) (int to) = Some effs"
    and c': "peers c' = peers c" "rpcs c' = rpcs c @ spawn n effs" and b: "base_inv N c'"
  shows "linv_next N g fl c'"
proof (rule linv_quiet [OF inv check_passive [OF linvD(4) [OF inv] n ch c'] b])
  have p: "peer_ok N n (peers c n)" by (rule linvD(6) [OF inv n(1)])
  fix r assume "r \<in> set (rpcs c')"
  then consider "r \<in> set (rpcs c)" | "r \<in> set (spawn n effs)" using c'(2) by auto
  then show "(\<exists>r0 \<in> set (rpcs c). evolves r0 r) \<or> (\<forall>args. rpc_req r \<noteq> RVReq args) \<and> req_fits g c fl r"
  proof cases
    case 1
    then show ?thesis using evolves_refl(1) by blast
  next
    case 2
    then show ?thesis
      using checkConsistency_sends [OF ch p 2] check_fits [OF ch 2 linvD(5) [OF inv n(1)] linvD(9) [OF inv n(1)]]
      by simp
  qed
qed simp_all

lemma linv_restart:
  assumes inv: "linv N h g fl c" and n: "n < N"
    and mk: "Make N (int n) (CopyPersister (persister (peers c n))) = (rf, effs)"
    and c': "peers c' = (peers c)(n := rf)" "rpcs c' = map (orphan n) (rpcs c)" and b: "base_inv N c'"
  shows "linv_next N g fl c'"
proof -
  have "peer_ok N n (peers c n)" by (rule linvD(6) [OF inv n])
  then have "durable (peers c n)" by (simp add: peer_ok_def)
  moreover have "rf = fst (Make N (int n) (persister (peers c n)))" using mk by simp
  ultimately have f: "Logs rf = Logs (peers c n)" "SnapshotIndex rf = SnapshotIndex (peers c n)"
    "votes_kept (peers c n) rf"
    using recover_wf [of "peers c n" N n] by (simp_all add: votes_kept_def)
  show ?thesis
  proof (rule linv_quiet [OF inv restart_passive [OF linvD(4) [OF inv] n mk c'] b f])
    fix r assume "r \<in> set (rpcs c')"
    then obtain r0 where "r0 \<in> set (rpcs c)" "r = orphan n r0" using c'(2) by auto
    then have "\<exists>r0 \<in> set (rpcs c). evolves r0 r" using evolves_refl(4) by blast
    then show "(\<exists>r0 \<in> set (rpcs c). evolves r0 r) \<or> (\<forall>args. rpc_req r \<noteq> RVReq args) \<and> req_fits g c fl r" ..
  qed
qed

lemma linv_compact:
  assumes inv: "linv N h g fl c" and n: "n < N" and cm: "Compact (peers c n) idx snap = Some rf"
    and c': "peers c' = (peers c)(n := rf)" "rpcs c' = rpcs c" and b: "base_inv N c'"
  shows "linv_next N g fl c'"
proof -
  have p: "raft_wf (peers c n)" "durable (peers c n)" using linvD(6) [OF inv n] by (auto simp: peer_ok_def)
  have ps: "passive_cluster_step N c c' n rf"
    by (rule local_passive [OF linvD(4) [OF inv] n])
       (use cm c' p in \<open>auto dest: Compact_wf Compact_durable Compact_passive\<close>)
  have "votes_kept (peers c n) rf" using cm by (auto elim!: Compact_cases simp: votes_kept_def)
  moreover have "\<exists>r0 \<in> set (rpcs c). evolves r0 r" if "r \<in> set (rpcs c')" for r
    using that c'(2) evolves_refl(1) by metis
  ultimately show ?thesis
    using rep_Compact [OF cm linvD(5) [OF inv n]] by (intro linv_passive [OF inv ps b]) blast+
qed

lemma linv_step:
  assumes inv: "linv N h g fl c" and st: "cstep N c c'"
  shows "linv_next N g fl c'"
proof -
  have b: "base_inv N c'" by (rule base_inv_step [OF st linvD(4) [OF inv]])
  have p: "raft_wf (peers c n)" "durable (peers c n)" if "n < N" for n
    using linvD(6) [OF inv that] by (auto simp: peer_ok_def)
  from st show ?thesis
  proof cases
    case (timeout n rf effs)
    then show ?thesis by (intro linv_timeout [OF inv timeout(2,3) _ _ b]) simp_all
  next
    case (deliver k r n rf rsp effs)
    then show ?thesis by (intro linv_deliver [OF inv b deliver(2-6)]) simp_all
  next
    case (call_returns k r n out rf effs)
    then show ?thesis by (intro linv_returns [OF inv b call_returns(2-7)]) simp_all
  next
    case (submit n command rf res effs)
    then show ?thesis by (intro linv_submit [OF inv submit(2,3) _ _ b]) simp_all
  next
    case (check n to effs)
    then show ?thesis by (intro linv_check [OF inv check(2-5) _ _ b]) simp_all
  next
    case (compact n idx snap rf)
    then show ?thesis by (intro linv_compact [OF inv compact(2,4) _ _ b]) simp_all
  next
    case (apply_round n rf effs)
    then obtain x where x: "rf = (peers c n)\<lparr>lastApplied := x\<rparr>"
      by (auto simp: applyLogEntryDaemon_def dest: applyLoop_fields)
    have "passive_cluster_step N c c' n rf"
      by (rule local_passive [OF linvD(4) [OF inv] apply_round(2)])
         (use apply_round p [OF apply_round(2)] x in \<open>auto simp: raft_wf_def durable_def passive_step_def\<close>)
    then show ?thesis by (rule linv_still [OF inv _ b]) (simp_all add: x apply_round(1) votes_kept_def)
  next
    case (flush n m ms)
    have "passive_cluster_step N c c' n (peers c n)"
      by (rule local_passive [OF linvD(4) [OF inv] flush(2)]) (use flush p [OF flush(2)] in auto)
    then show ?thesis by (rule linv_still [OF inv _ b]) (simp_all add: flush(1))
  next
    case (restart n rf effs)
    then show ?thesis by (intro linv_restart [OF inv restart(2,3) _ _ b]) simp_all
  next
    case (kill n)
    have "raft_wf (Kill (peers c n))" "durable (Kill (peers c n))" "passive_step (peers c n) (Kill (peers c n))"
      using p [OF kill(2)] by (auto simp: Kill_def raft_wf_def durable_def passive_step_def)
    then have "passive_cluster_step N c c' n (Kill (peers c n))"
      by (intro local_passive [OF linvD(4) [OF inv] kill(2)]) (simp_all add: kill(1))
    then show ?thesis by (rule linv_still [OF inv _ b]) (simp_all add: Kill_def kill(1) votes_kept_def)
  qed
qed

definition no_ghost :: "'c ghost" where
  "no_ghost = \<lparr>base = \<lambda>_. None, tlog = \<lambda>_. [], acks = {}\<rparr>"

lemma linv_init: "linv N (\<lambda>_ _. None) no_ghost (\<lambda>_. []) (init_cluster N)"
proof -
  have "core_inv N (\<lambda>_ _. None) (views (init_cluster N) (\<lambda>_. [])) no_ghost"
    by (auto simp: core_inv_def no_ghost_def terms_ok_def view_ok_def coh_def acks_ok_def acks_sound_def
        votes_ok_def bases_ok_def current_def views_def init_cluster_def Make_def Let_def dePersistState_def
        decodeState_def persister_defs)
  then show ?thesis
    unfolding linv_def by (intro conjI election_inv_init) (simp_all add: init_cluster_def rep_init)
qed

lemma reachable_linv: "reachable N c \<Longrightarrow> \<exists>h g fl. linv N h g fl c"
proof (induction rule: reachable.induct)
  case init
  then show ?case using linv_init by blast
next
  case (step c c')
  then show ?case using linv_step unfolding linv_next_def by blast
qed

section \<open>Log matching\<close>

text \<open>
  Property C4.  Log matching: in every reachable state, if the logs of two peers have an entry of
  the same term at the same index, then they have the same entry at every index up to it that
  neither has compacted into a snapshot.
\<close>

theorem log_matching:
  assumes "reachable N c" and "m < N" and "n < N"
    and "termAt (peers c m) i = Some t" and "termAt (peers c n) i = Some t"
    and "SnapshotIndex (peers c m) < j" and "SnapshotIndex (peers c n) < j" and "j \<le> i"
  shows "entryAt (peers c m) j = entryAt (peers c n) j \<and> entryAt (peers c m) j \<noteq> None"
proof -
  obtain h g fl where inv: "linv N h g fl c" using reachable_linv [OF assms(1)] by blast
  note r = linvD(5) [OF inv assms(2)] linvD(5) [OF inv assms(3)]
  have i: "SnapshotIndex (peers c m) \<le> i" "i \<le> int (length (fl m))"
    "SnapshotIndex (peers c n) \<le> i" "i \<le> int (length (fl n))"
    using assms(4,5) by (auto simp: termAt_eq rep_lastIndex [OF r(1)] rep_lastIndex [OF r(2)] split: if_splits)
  then have "tat (fl m) (nat i) = tat (fl n) (nat i)"
    using assms(4,5) rep_termAt [OF r(1)] rep_termAt [OF r(2)] by simp
  then have a: "agree (nat i) (fl m) (fl n)"
    using coh_matching [OF linvD(7) [OF inv assms(2)] linvD(7) [OF inv assms(3)]] i by simp
  have "nat j - 1 < nat i" using assms(6,8) rep_snapshot [OF r(1)] by linarith
  then have "fl m ! (nat j - 1) = fl n ! (nat j - 1)" using agree_nth [OF a] by simp
  then show ?thesis
    using rep_entryAt [OF r(1) assms(6)] rep_entryAt [OF r(2) assms(7)] assms(8) i by simp
qed

definition replicated :: "(string, int) event list" where
  "replicated = [Timeout 0, Deliver 0, CallReturns 0 False, Submit 0 (Some ''x''), Submit 0 (Some ''y''),
     CheckPeer 0 1, Deliver 2]"

theorem log_matching_witness:
  "entryAt (peers (trace 3 replicated) 0) 1 = entryAt (peers (trace 3 replicated) 1) 1 \<and>
   entryAt (peers (trace 3 replicated) 0) 1 \<noteq> None"
proof (rule log_matching [of 3 _ 0 1 2 1])
  show "reachable 3 (trace 3 replicated)"
    by (rule trace_reachable) code_simp
qed (simp, simp, code_simp+)

end
