(* ===== verification/Raft_Commit.thy ===== *)
theory Raft_Commit
  imports Raft_Log_Matching
begin

text \<open>
  Committed entries.  A prefix of a log is committed when it is part of what a majority acknowledged
  to a leader (\<open>chosen\<close>).  This theory states what the peers and the calls in flight know of
  committed prefixes (\<open>cinv\<close>) and what a step has to show to keep it.
\<close>

section \<open>Committed prefixes\<close>

definition cmt :: "nat \<Rightarrow> 'c ghost \<Rightarrow> int \<Rightarrow> nat \<Rightarrow> 'c log \<Rightarrow> bool" where
  "cmt N g T k f \<longleftrightarrow> k = 0 \<or> (\<exists>i t. chosen N g i t \<and> t \<le> T \<and> k \<le> i \<and> agree k f (tlog g t))"

lemma cmt_0 [simp]: "cmt N g T 0 f"
  by (simp add: cmt_def)

lemma cmt_length: "cmt N g T k f \<Longrightarrow> k \<le> length f"
  by (auto simp: cmt_def agree_def)

lemma cmt_le: "cmt N g T k f \<Longrightarrow> k' \<le> k \<Longrightarrow> cmt N g T k' f"
  unfolding cmt_def by (metis agree_le le_trans le_zero_eq)

lemma cmt_agree: "cmt N g T k f \<Longrightarrow> agree k' f' f \<Longrightarrow> k \<le> k' \<Longrightarrow> T \<le> T' \<Longrightarrow> cmt N g T' k f'"
  unfolding cmt_def by (meson agree_le agree_trans order_trans)

lemma cmt_mono:
  assumes "core_inv N h v g" and gle: "gle g g'" and "cmt N g T k f"
  shows "cmt N g' T k f"
proof (cases "k = 0")
  case False
  then obtain i t where c: "chosen N g i t" "t \<le> T" "k \<le> i" "agree k f (tlog g t)"
    using assms(3) by (auto simp: cmt_def)
  have "agree k f (tlog g' t)" using gle_agree [OF gle chosen_facts(1) [OF assms(1) c(1)] c(4)] .
  then show ?thesis using chosen_mono [OF gle c(1)] c(2,3) by (auto simp: cmt_def)
qed simp

text \<open>A committed prefix survives every change of a log: the leader that is followed has it.\<close>

lemma cmt_changed:
  assumes inv: "core_inv N h v g" and c: "cmt N g T k f" and ch: "changed g T' f f'" and T: "T \<le> T'"
  shows "cmt N g T' k f'"
proof (cases "k = 0")
  case False
  then obtain i t where i: "chosen N g i t" "t \<le> T" "k \<le> i" "agree k f (tlog g t)"
    using c by (auto simp: cmt_def)
  consider "f' = f" | e where "f' = f @ [e]" | "follows g T' f f'"
    using ch by (auto simp: changed_def)
  then have "agree k f' (tlog g t)"
  proof cases
    case 3
    then have "base g T' \<noteq> None" by (simp add: follows_def)
    then have "agree k (tlog g T') (tlog g t)"
      using leader_complete [OF inv i(1)] i(2,3) T agree_le by (metis order_trans)
    then have "agree k f' (tlog g T')" using follows_agree [OF 3] i(4) agree_sym agree_trans by metis
    then show ?thesis using \<open>agree k (tlog g T') (tlog g t)\<close> agree_trans by metis
  qed (use i(4) in \<open>auto simp: agree_def\<close>)
  then show ?thesis using i T by (auto simp: cmt_def)
qed simp

section \<open>The invariant\<close>

text \<open>
  A peer: what it committed, applied or compacted is committed.  A leader: what its \<open>matchIndex\<close> says
  of entries of its term that it still has was acknowledged.
\<close>

definition counters :: "('c, 's) Raft \<Rightarrow> int set" where
  "counters rf = {commitIndex rf, SnapshotIndex rf, lastApplied rf}"

definition matched :: "'c ghost \<Rightarrow> ('c, 's) Raft \<Rightarrow> nat \<Rightarrow> int \<Rightarrow> bool" where
  "matched g rf j i \<longleftrightarrow> i \<le> lastIndex rf \<and> (\<forall>k. SnapshotIndex rf < k \<and> k \<le> i \<and>
     termAt rf k = Some (CurrentTerm rf) \<longrightarrow> (j, nat k, CurrentTerm rf) \<in> acks g)"

definition matches :: "nat \<Rightarrow> 'c ghost \<Rightarrow> ('c, 's) Raft \<Rightarrow> bool" where
  "matches N g rf \<longleftrightarrow> (rstate rf = LEADER \<longrightarrow> (\<forall>j < N. matched g rf j (matchIndex rf ! j)))"

definition pinv :: "nat \<Rightarrow> 'c ghost \<Rightarrow> ('c, 's) Raft \<Rightarrow> 'c log \<Rightarrow> bool" where
  "pinv N g rf f \<longleftrightarrow> (\<forall>k \<in> counters rf. cmt N g (CurrentTerm rf) (nat k) f) \<and> matches N g rf"

definition ae_cmt :: "nat \<Rightarrow> 'c ghost \<Rightarrow> 'c AppendEntriesArgs \<Rightarrow> bool" where
  "ae_cmt N g args \<longleftrightarrow> base g (aeTerm args) \<noteq> None \<and> 0 \<le> PrevLogIndex args \<and> ae_within g args \<and>
     LeaderCommit args \<le> PrevLogIndex args + len (Entries args) \<and>
     cmt N g (aeTerm args) (nat (LeaderCommit args)) (tlog g (aeTerm args))"

definition is_cmt :: "nat \<Rightarrow> 'c ghost \<Rightarrow> 's InstallSnapshotArgs \<Rightarrow> bool" where
  "is_cmt N g args \<longleftrightarrow> base g (isTerm args) \<noteq> None \<and>
     cmt N g (isTerm args) (nat (LastIncludedIndex args)) (tlog g (isTerm args))"

text \<open>A successful answer: the peer had the entries of the leader up to the last one sent.\<close>

definition acked :: "'c ghost \<Rightarrow> nat \<Rightarrow> 'c AppendEntriesArgs \<Rightarrow> AppendEntriesReply \<Rightarrow> bool" where
  "acked g j args rsp \<longleftrightarrow> (Success rsp \<longrightarrow> aerTerm rsp = aeTerm args \<and>
     (\<forall>k. 0 < k \<and> int k \<le> PrevLogIndex args + len (Entries args) \<and>
        tat (tlog g (aeTerm args)) k = aeTerm args \<longrightarrow> (j, k, aeTerm args) \<in> acks g))"

fun call_ok :: "nat \<Rightarrow> 'c ghost \<Rightarrow> ('c, 's) cluster \<Rightarrow> nat \<Rightarrow> nat \<Rightarrow> bool \<Rightarrow>
    ('c, 's) request \<Rightarrow> response option \<Rightarrow> bool" where
  "call_ok N g c n j live (AEReq args) out \<longleftrightarrow> ae_cmt N g args \<and>
     (\<forall>rsp. out = Some (AERep rsp) \<longrightarrow> acked g j args rsp)"
| "call_ok N g c n j live (ISReq args) out \<longleftrightarrow> is_cmt N g args \<and>
     (live \<longrightarrow> LastIncludedIndex args \<le> SnapshotIndex (peers c n))"
| "call_ok N g c n j live (RVReq args) out \<longleftrightarrow> True"

definition rpc_cmt :: "nat \<Rightarrow> 'c ghost \<Rightarrow> ('c, 's) cluster \<Rightarrow> ('c, 's) rpc \<Rightarrow> bool" where
  "rpc_cmt N g c r \<longleftrightarrow> call_ok N g c (rpc_src r) (rpc_dst r) (rpc_live r) (rpc_req r) (rpc_resp r)"

text \<open>A command handed to a service is the one at its index in a chosen prefix.\<close>

definition msg_ok :: "nat \<Rightarrow> 'c ghost \<Rightarrow> ('c, 's) ApplyMsg \<Rightarrow> bool" where
  "msg_ok N g m \<longleftrightarrow> (CommandValid m \<longrightarrow> 0 < amCommandIndex m \<and> (\<exists>i t. chosen N g i t \<and>
     nat (amCommandIndex m) \<le> i \<and> amCommand m = Command (tlog g t ! (nat (amCommandIndex m) - 1))))"

definition cinv :: "nat \<Rightarrow> 'c ghost \<Rightarrow> (nat \<Rightarrow> 'c log) \<Rightarrow> ('c, 's) cluster \<Rightarrow> bool" where
  "cinv N g fl c \<longleftrightarrow> (\<forall>n < N. pinv N g (peers c n) (fl n)) \<and> (\<forall>r \<in> set (rpcs c). rpc_cmt N g c r) \<and>
     (\<forall>n. \<forall>m \<in> set (outbox c n). msg_ok N g m) \<and> (\<forall>n. \<forall>m \<in> set (delivered c n). msg_ok N g m)"

section \<open>What stays\<close>

lemma matches_mono: "gle g g' \<Longrightarrow> matches N g rf \<Longrightarrow> matches N g' rf"
  unfolding matches_def matched_def gle_def by blast

lemma gle_base: "gle g g' \<Longrightarrow> base g t \<noteq> None \<Longrightarrow> base g' t \<noteq> None"
  by (metis gle_tlog)

text \<open>What is committed of the log of a leader.\<close>

lemma cmt_tlog_mono:
  assumes inv: "core_inv N h v g" and gle: "gle g g'" and b: "base g t \<noteq> None" and c: "cmt N g t k (tlog g t)"
  shows "cmt N g' t k (tlog g' t)"
proof -
  have "agree (length (tlog g t)) (tlog g' t) (tlog g t)"
    using gle_agree [OF gle b agree_refl [OF order_refl]] by (rule agree_sym)
  then have "cmt N g t k (tlog g' t)" by (rule cmt_agree [OF c _ cmt_length [OF c] order_refl])
  then show ?thesis by (rule cmt_mono [OF inv gle])
qed

lemma ae_cmt_mono:
  assumes "core_inv N h v g" and "gle g g'" and "ae_cmt N g args"
  shows "ae_cmt N g' args"
  using assms(3) gle_base [OF assms(2)] ae_within_mono [OF assms(2)] cmt_tlog_mono [OF assms(1,2)]
  unfolding ae_cmt_def by blast

lemma is_cmt_mono:
  assumes "core_inv N h v g" and "gle g g'" and "is_cmt N g args"
  shows "is_cmt N g' args"
  using assms(3) gle_base [OF assms(2)] cmt_tlog_mono [OF assms(1,2)] unfolding is_cmt_def by blast

lemma ae_cmt_length:
  "ae_cmt N g args \<Longrightarrow> PrevLogIndex args + len (Entries args) \<le> int (length (tlog g (aeTerm args)))"
  by (auto simp: ae_cmt_def ae_within_def len_def min_def)

lemma acked_mono:
  assumes gle: "gle g g'" and ae: "ae_cmt N g args" and a: "acked g j args rsp"
  shows "acked g' j args rsp"
proof -
  have b: "base g (aeTerm args) \<noteq> None" using ae by (simp add: ae_cmt_def)
  have "tat (tlog g' (aeTerm args)) k = tat (tlog g (aeTerm args)) k"
    if "int k \<le> PrevLogIndex args + len (Entries args)" for k
    using gle_tat [OF gle b] ae_cmt_length [OF ae] that by simp
  then show ?thesis using a gle unfolding acked_def gle_def by auto
qed

lemma rpc_cmt_mono:
  assumes inv: "core_inv N h v g" and gle: "gle g g'" and r: "rpc_cmt N g c r0"
    and ev: "evolves r0 r" "rpc_resp r = rpc_resp r0"
    and s: "rpc_live r \<Longrightarrow> SnapshotIndex (peers c (rpc_src r)) \<le> SnapshotIndex (peers c' (rpc_src r))"
  shows "rpc_cmt N g' c' r"
proof (cases "rpc_req r0")
  case (AEReq args)
  then show ?thesis
    using r ev ae_cmt_mono [OF inv gle] acked_mono [OF gle] by (auto simp: rpc_cmt_def evolves_def)
next
  case (ISReq args)
  then show ?thesis using r ev s is_cmt_mono [OF inv gle] by (auto simp: rpc_cmt_def evolves_def)
qed (use ev in \<open>simp add: rpc_cmt_def evolves_def\<close>)

lemma msg_ok_mono:
  assumes inv: "core_inv N h v g" and gle: "gle g g'" and m: "msg_ok N g m"
  shows "msg_ok N g' m"
proof (cases "CommandValid m")
  case True
  then obtain i t where c: "chosen N g i t" "0 < amCommandIndex m" "nat (amCommandIndex m) \<le> i"
    "amCommand m = Command (tlog g t ! (nat (amCommandIndex m) - 1))"
    using m by (auto simp: msg_ok_def)
  have "i \<le> length (tlog g t)" "base g t \<noteq> None" using chosen_facts [OF inv c(1)] by auto
  then have "tlog g' t ! (nat (amCommandIndex m) - 1) = tlog g t ! (nat (amCommandIndex m) - 1)"
    using agree_nth [OF gle_agree [OF gle _ agree_refl [OF order_refl]], of t] c(2,3) by simp
  then have "amCommand m = Command (tlog g' t ! (nat (amCommandIndex m) - 1))" using c(4) by simp
  then show ?thesis using c(2,3) chosen_mono [OF gle c(1)] unfolding msg_ok_def by blast
qed (simp add: msg_ok_def)

text \<open>
  A step of the logs (\<open>lstep\<close>), and what is left to show for a step that changes one peer: its new
  counters and matches, the new calls and answers, and the new messages.
\<close>

definition lstep :: "nat \<Rightarrow> 'c ghost \<Rightarrow> (nat \<Rightarrow> 'c log) \<Rightarrow> ('c, 's) cluster \<Rightarrow>
    'c ghost \<Rightarrow> (nat \<Rightarrow> 'c log) \<Rightarrow> ('c, 's) cluster \<Rightarrow> bool" where
  "lstep N g fl c g' fl' c' \<longleftrightarrow> (\<exists>h. linv N h g fl c) \<and> cinv N g fl c \<and> gle g g' \<and> (\<exists>h. linv N h g' fl' c') \<and>
     (\<forall>m < N. changed g (CurrentTerm (peers c' m)) (fl m) (fl' m) \<and>
        CurrentTerm (peers c m) \<le> CurrentTerm (peers c' m))"

lemma lstepD:
  assumes "lstep N g fl c g' fl' c'"
  obtains h h' where "linv N h g fl c" "linv N h' g' fl' c'" "gle g g'" "core_inv N h (views c fl) g"
    "core_inv N h' (views c' fl') g'"
  using assms linvD(2) unfolding lstep_def by blast

lemma lstep_cmt:
  assumes st: "lstep N g fl c g' fl' c'" and m: "m < N" and k: "cmt N g (CurrentTerm (peers c m)) k (fl m)"
  shows "cmt N g' (CurrentTerm (peers c' m)) k (fl' m)"
proof -
  obtain h where core: "core_inv N h (views c fl) g" and gle: "gle g g'" using lstepD [OF st] by metis
  have T: "CurrentTerm (peers c m) \<le> CurrentTerm (peers c' m)"
    and ch: "changed g (CurrentTerm (peers c' m)) (fl m) (fl' m)"
    using st m unfolding lstep_def by blast+
  have "cmt N g (CurrentTerm (peers c' m)) k (fl' m)" by (rule cmt_changed [OF core k ch T])
  then show ?thesis by (rule cmt_mono [OF core gle])
qed

lemma lstep_counters:
  assumes st: "lstep N g fl c g' fl' c'" and m: "m < N" and k: "k0 \<in> counters (peers c m)" "k \<le> k0"
  shows "cmt N g' (CurrentTerm (peers c' m)) (nat k) (fl' m)"
proof (rule lstep_cmt [OF st m])
  have "cinv N g fl c" using st by (simp add: lstep_def)
  then have "cmt N g (CurrentTerm (peers c m)) (nat k0) (fl m)" using m k(1) by (simp add: cinv_def pinv_def)
  then show "cmt N g (CurrentTerm (peers c m)) (nat k) (fl m)" by (rule cmt_le) (use k(2) in simp)
qed

lemma cinv_frame:
  assumes st: "lstep N g fl c g' fl' c'" and p: "peers c' = (peers c)(n := rf)" "n < N"
    and new: "\<And>k. k \<in> counters rf \<Longrightarrow> (\<exists>k0 \<in> counters (peers c n). k \<le> k0) \<or>
        cmt N g' (CurrentTerm rf) (nat k) (fl' n)" "matches N g' rf"
    and snap: "SnapshotIndex (peers c n) \<le> SnapshotIndex rf"
    and rs: "\<And>r. r \<in> set (rpcs c') \<Longrightarrow>
      (\<exists>r0 \<in> set (rpcs c). evolves r0 r \<and> rpc_resp r = rpc_resp r0) \<or> rpc_cmt N g' c' r"
    and ms: "\<And>m i. m \<in> set (outbox c' i) \<union> set (delivered c' i) \<Longrightarrow>
      m \<in> set (outbox c i) \<union> set (delivered c i) \<or> msg_ok N g' m"
  shows "cinv N g' fl' c'"
proof -
  obtain h where core: "core_inv N h (views c fl) g" and gle: "gle g g'" using lstepD [OF st] by metis
  have old: "\<forall>m < N. pinv N g (peers c m) (fl m)" "\<forall>r \<in> set (rpcs c). rpc_cmt N g c r"
    "\<forall>i. \<forall>m \<in> set (outbox c i) \<union> set (delivered c i). msg_ok N g m"
    using st unfolding lstep_def cinv_def by blast+
  have "pinv N g' (peers c' m) (fl' m)" if "m < N" for m
  proof (cases "m = n")
    case True
    then have "cmt N g' (CurrentTerm rf) (nat k) (fl' n)" if "k \<in> counters rf" for k
      using new(1) [OF that] lstep_counters [OF st p(2)] p(1) by auto
    then show ?thesis using True new(2) p(1) by (simp add: pinv_def)
  next
    case False
    have "matches N g' (peers c m)" by (rule matches_mono [OF gle]) (use old(1) that in \<open>simp add: pinv_def\<close>)
    then show ?thesis using lstep_counters [OF st that _ order_refl] False p by (auto simp: pinv_def)
  qed
  moreover have "rpc_cmt N g' c' r" if "r \<in> set (rpcs c')" for r
    using rs [OF that]
  proof
    assume "\<exists>r0 \<in> set (rpcs c). evolves r0 r \<and> rpc_resp r = rpc_resp r0"
    then obtain r0 where r0: "r0 \<in> set (rpcs c)" "evolves r0 r" "rpc_resp r = rpc_resp r0" by blast
    show ?thesis by (rule rpc_cmt_mono [OF core gle _ r0(2,3)]) (use old(2) r0(1) snap p in auto)
  qed
  moreover have "msg_ok N g' m" if "m \<in> set (outbox c' i) \<union> set (delivered c' i)" for m i
    using ms [OF that] old(3) msg_ok_mono [OF core gle] by blast
  ultimately show ?thesis by (auto simp: cinv_def)
qed

end
