(* ===== verification/Raft_Commit_Steps.thy ===== *)
theory Raft_Commit_Steps
  imports Raft_Commit
begin

text \<open>Every step of a cluster keeps the invariant of \<open>Raft_Commit\<close>.\<close>

section \<open>Matches\<close>

lemma matched_cong:
  assumes "Logs rf' = Logs rf" "SnapshotIndex rf' = SnapshotIndex rf" "CurrentTerm rf' = CurrentTerm rf"
  shows "matched g rf' j i = matched g rf j i"
  using assms by (simp add: matched_def termAt_eq lastIndex_def)

lemma matches_cong:
  assumes "Logs rf' = Logs rf" "SnapshotIndex rf' = SnapshotIndex rf" "CurrentTerm rf' = CurrentTerm rf"
    "matchIndex rf' = matchIndex rf" "rstate rf = LEADER" "matches N g rf"
  shows "matches N g rf'"
  using assms(4-6) matched_cong [OF assms(1-3)] by (simp add: matches_def)

text \<open>What a leader has of its own term it acknowledged itself.\<close>

lemma own_matched:
  assumes inv: "linv N h g fl c" and n: "n < N" and l: "rstate (peers c n) = LEADER" and i: "i \<le> lastIndex (peers c n)"
  shows "matched g (peers c n) n i"
proof -
  let ?T = "CurrentTerm (peers c n)"
  have core: "current N (views c fl) g \<subseteq> acks g" using linvD(2) [OF inv] by (simp add: core_inv_def acks_ok_def)
  note r = linvD(5) [OF inv n] and b = linvD(9) [OF inv n l]
  have "(n, nat k, ?T) \<in> acks g" if k: "SnapshotIndex (peers c n) < k" "termAt (peers c n) k = Some ?T" for k
  proof -
    have le: "k \<le> int (length (fl n))" "0 < k"
      using k rep_lastIndex [OF r] rep_snapshot [OF r] by (auto simp: termAt_eq split: if_splits)
    then have "tat (fl n) (nat k) = ?T" using rep_termAt [OF r, of k] k by simp
    then have "(n, nat k, ?T) \<in> current N (views c fl) g"
      using le n b by (simp add: current_def agree_refl)
    then show ?thesis using core by blast
  qed
  then show ?thesis using i by (simp add: matched_def)
qed

lemma matched_0: "0 \<le> SnapshotIndex rf \<Longrightarrow> Logs rf \<noteq> [] \<Longrightarrow> i \<le> SnapshotIndex rf \<Longrightarrow> matched g rf j i"
  by (cases "Logs rf") (auto simp: matched_def lastIndex_def len_def)

lemma elected_matches:
  assumes inv: "linv N h g fl c'" and n: "n < N"
    and m: "matchIndex (peers c' n) = (replicate N 0)[n := lastIndex (peers c' n)]"
  shows "matches N g (peers c' n)"
proof -
  have "raft_wf (peers c' n)" using linvD(6) [OF inv n] by (simp add: peer_ok_def)
  then have "matched g (peers c' n) j 0" for j by (intro matched_0) (auto simp: raft_wf_def)
  then show ?thesis
    using own_matched [OF inv n] m n by (auto simp: matches_def nth_list_update)
qed

section \<open>Committing\<close>

text \<open>A majority of matches at an entry of the leader's term makes it chosen.\<close>

lemma matches_chosen:
  assumes core: "core_inv N h v g" and f: "rep rf f" "base g (CurrentTerm rf) \<noteq> None" "tlog g (CurrentTerm rf) = f"
    and k: "SnapshotIndex rf < k" "termAt rf k = Some (CurrentTerm rf)"
    and ms: "\<And>j. j < N \<Longrightarrow> matched g rf j (mi ! j)" and maj: "N div 2 < card {j. j < N \<and> k \<le> mi ! j}"
  shows "cmt N g (CurrentTerm rf) (nat k) f"
proof -
  have "(j, nat k, CurrentTerm rf) \<in> acks g" if "j \<in> {j. j < N \<and> k \<le> mi ! j}" for j
    using ms [of j] k that unfolding matched_def by blast
  then have "chosen N g (nat k) (CurrentTerm rf)"
    unfolding chosen_def using maj by (intro exI [of _ "{j. j < N \<and> k \<le> mi ! j}"]) auto
  moreover have "nat k \<le> length f"
    using k rep_lastIndex [OF f(1)] by (auto simp: termAt_eq split: if_splits)
  ultimately show ?thesis using f(3) agree_refl unfolding cmt_def by blast
qed

lemma recordMatch_matches:
  assumes rm: "recordMatch rf (int j) i = Some (rf', effs)" and l: "rstate rf = LEADER"
    and ms: "matches N g rf" and new: "matched g rf j i" and N: "length (matchIndex rf) = N"
  shows "matches N g rf'"
proof -
  have same: "Logs rf' = Logs rf" "SnapshotIndex rf' = SnapshotIndex rf" "CurrentTerm rf' = CurrentTerm rf"
    using recordMatch_fields [OF rm] by auto
  from rm show ?thesis
  proof (cases rule: recordMatch_cases)
    case (matched m rf1)
    then have "matchIndex rf' = (matchIndex rf)[j := i]" by simp
    moreover have "matched g rf a ((matchIndex rf)[j := i] ! a)" if "a < N" for a
      using ms new l N that by (cases "a = j") (auto simp: matches_def)
    ultimately show ?thesis using matched_cong [OF same] by (simp add: matches_def)
  qed (use ms in simp)
qed

lemma recordMatch_commit:
  assumes rm: "recordMatch rf (int j) i = Some (rf', effs)" and l: "rstate rf = LEADER"
    and ms: "matches N g rf" and new: "matched g rf j i" and N: "length (matchIndex rf) = N" "npeers rf = N"
    and core: "core_inv N h v g" and f: "rep rf f" "base g (CurrentTerm rf) \<noteq> None" "tlog g (CurrentTerm rf) = f"
  shows "(\<exists>k0 \<in> counters rf. commitIndex rf' \<le> k0) \<or> cmt N g (CurrentTerm rf) (nat (commitIndex rf')) f"
  using rm
proof (cases rule: recordMatch_cases)
  case (matched m rf1)
  show ?thesis
  proof (cases "commits rf (int j) i \<and> SnapshotIndex rf < i")
    case True
    have mi: "matchIndex rf' = (matchIndex rf)[j := i]" using matched by simp
    have "countMatching i (matchIndex rf') = int (card {a. a < length (matchIndex rf') \<and> i \<le> matchIndex rf' ! a})"
      by (simp add: countMatching_def len_def length_filter_conv_card)
    moreover have "int (npeers rf) div 2 = int (npeers rf div 2)" by (simp add: zdiv_int)
    ultimately have "N div 2 < card {a. a < N \<and> i \<le> matchIndex rf' ! a}"
      using True N mi by (simp add: commits_def)
    moreover have "matched g rf a (matchIndex rf' ! a)" if "a < N" for a
      using ms new l N(1) that mi by (cases "a = j") (auto simp: matches_def)
    moreover have "termAt rf i = Some (CurrentTerm rf)" using True by (simp add: commits_def)
    ultimately have "cmt N g (CurrentTerm rf) (nat i) f"
      using True by (intro matches_chosen [OF core f]) auto
    then show ?thesis using matched True by simp
  next
    case False
    then have "commitIndex rf' \<in> counters rf \<or> commitIndex rf' \<le> SnapshotIndex rf"
      using matched by (auto simp: counters_def)
    then show ?thesis by (auto simp: counters_def)
  qed
qed (auto simp: counters_def)

section \<open>Returns of calls\<close>

lemma acked_matched:
  assumes ae: "ae_cmt N g args" and a: "acked g j args rsp" "Success rsp" "aerTerm rsp = CurrentTerm rf"
    and f: "rep rf f" "tlog g (CurrentTerm rf) = f"
  shows "matched g rf j (PrevLogIndex args + len (Entries args))"
proof -
  have t: "aeTerm args = CurrentTerm rf" using a by (simp add: acked_def)
  have "(j, nat k, CurrentTerm rf) \<in> acks g"
    if k: "SnapshotIndex rf < k" "k \<le> PrevLogIndex args + len (Entries args)" "termAt rf k = Some (CurrentTerm rf)" for k
  proof -
    have "k \<le> int (length f)" "0 < k"
      using k(1,3) rep_lastIndex [OF f(1)] rep_snapshot [OF f(1)] by (auto simp: termAt_eq split: if_splits)
    then have "tat f (nat k) = CurrentTerm rf" using rep_termAt [OF f(1), of k] k by simp
    then show ?thesis using a(1,2) t f(2) k \<open>0 < k\<close> by (auto simp: acked_def)
  qed
  then show ?thesis
    using ae_cmt_length [OF ae] t f(2) rep_lastIndex [OF f(1)] by (simp add: matched_def)
qed

text \<open>What a returned call leaves of the counters and the matches of its caller.\<close>

definition advanced :: "nat \<Rightarrow> 'c ghost \<Rightarrow> 'c log \<Rightarrow> ('c, 's) Raft \<Rightarrow> ('c, 's) Raft \<Rightarrow> bool" where
  "advanced N g f rf rf' \<longleftrightarrow>
     (\<forall>k \<in> counters rf'. (\<exists>k0 \<in> counters rf. k \<le> k0) \<or> cmt N g (CurrentTerm rf) (nat k) f) \<and>
     (matches N g rf' \<or> matchIndex rf' = (replicate N 0)[nat (me rf') := lastIndex rf'])"

lemma advanced_same:
  assumes "counters rf' = counters rf" "matches N g rf'"
  shows "advanced N g f rf rf'"
  using assms by (auto simp: advanced_def)

lemma advanced_follower: "counters rf' = counters rf \<Longrightarrow> rstate rf' \<noteq> LEADER \<Longrightarrow> advanced N g f rf rf'"
  by (simp add: advanced_same matches_def)

lemma stepDown_advanced: "stepDown rf t = (rf', effs) \<Longrightarrow> advanced N g f rf rf'"
  by (rule advanced_follower) (auto simp: stepDown_fields counters_def)

lemma vote_advanced:
  assumes s: "sendRequestVoteAndProcess rf ok reply = Some (rf', effs)" and p: "peer_ok N n rf" "matches N g rf"
  shows "advanced N g f rf rf'"
proof -
  have wf: "raft_wf rf" using p by (simp add: peer_ok_def)
  from s wf show ?thesis
  proof (cases rule: sendRequestVoteAndProcess_cases)
    case elected
    then show ?thesis using p by (auto simp: advanced_def counters_def peer_ok_def lastIndex_def)
  qed (use p(2) in \<open>auto intro: stepDown_advanced advanced_follower advanced_same simp: counters_def\<close>)
qed

lemma append_advanced:
  assumes s: "sendAppendEntriesAndProcess rf args (int j) ok reply = Some (rf', effs)"
    and p: "peer_ok N n rf" "matches N g rf" and core: "core_inv N h v g" and f: "rep rf f"
    and l: "rstate rf = LEADER \<Longrightarrow> base g (CurrentTerm rf) \<noteq> None \<and> tlog g (CurrentTerm rf) = f"
    and ae: "ae_cmt N g args" "ok \<Longrightarrow> acked g j args reply"
  shows "advanced N g f rf rf'"
  using s
proof (cases rule: sendAppendEntriesAndProcess_cases)
  case success
  have N: "length (matchIndex rf) = N" "npeers rf = N" using p(1) by (auto simp: peer_ok_def raft_wf_def)
  have new: "matched g rf j (PrevLogIndex args + len (Entries args))"
    by (rule acked_matched [OF ae(1) ae(2) _ _ f]) (use success l in auto)
  have "matches N g rf'" by (rule recordMatch_matches [OF success(7,2) p(2) new N(1)])
  moreover have "(\<exists>k0 \<in> counters rf. commitIndex rf' \<le> k0) \<or> cmt N g (CurrentTerm rf) (nat (commitIndex rf')) f"
    by (rule recordMatch_commit [OF success(7,2) p(2) new N core f]) (use success l in auto)
  moreover have "SnapshotIndex rf' = SnapshotIndex rf" "lastApplied rf' = lastApplied rf"
    using recordMatch_fields [OF success(7)] by auto
  ultimately show ?thesis by (auto simp: advanced_def counters_def)
next
  case backup
  have "matches N g rf'" by (rule matches_cong [OF _ _ _ _ backup(2) p(2)]) (simp_all add: backup)
  then show ?thesis using backup by (intro advanced_same) (simp_all add: counters_def)
qed (use p(2) in \<open>auto intro: stepDown_advanced advanced_same\<close>)

lemma snapshot_advanced:
  assumes s: "sendSnapShotAndProcess rf args (int j) ok reply = Some (rf', effs)"
    and p: "peer_ok N n rf" "matches N g rf" and L: "LastIncludedIndex args \<le> SnapshotIndex rf"
  shows "advanced N g f rf rf'"
  using s
proof (cases rule: sendSnapShotAndProcess_cases)
  case (installed m)
  have wf: "raft_wf rf" using p(1) by (simp add: peer_ok_def)
  then have new: "matched g rf j (LastIncludedIndex args)" using L by (intro matched_0) (auto simp: raft_wf_def)
  have same: "Logs rf' = Logs rf" "SnapshotIndex rf' = SnapshotIndex rf" "CurrentTerm rf' = CurrentTerm rf"
    using installed by auto
  have "matched g rf a (matchIndex rf' ! a)" if "a < N" for a
    using p new wf installed(2,6) that by (cases "a = j") (auto simp: matches_def peer_ok_def raft_wf_def)
  then have "matches N g rf'" using matched_cong [OF same] by (simp add: matches_def)
  then show ?thesis using installed(6) by (intro advanced_same) (simp_all add: counters_def)
qed (use p(2) in \<open>auto intro: stepDown_advanced advanced_same\<close>)

lemma finish_advanced:
  assumes fin: "finish rf j req out = Some (rf', effs)"
    and p: "peer_ok N n rf" "matches N g rf" and core: "core_inv N h v g" and f: "rep rf f"
    and l: "rstate rf = LEADER \<Longrightarrow> base g (CurrentTerm rf) \<noteq> None \<and> tlog g (CurrentTerm rf) = f"
    and ok: "call_ok N g c n j True req out'" "out = None \<or> out = out'" and rf: "rf = peers c n"
  shows "advanced N g f rf rf'"
proof (cases req)
  case (RVReq args)
  then obtain ok reply where "sendRequestVoteAndProcess rf ok reply = Some (rf', effs)"
    using fin by (cases "(rf, j, req, out)" rule: finish.cases) auto
  then show ?thesis by (rule vote_advanced [OF _ p])
next
  case (AEReq args)
  then obtain ok reply where s: "sendAppendEntriesAndProcess rf args (int j) ok reply = Some (rf', effs)"
    "ok \<Longrightarrow> out = Some (AERep reply)"
    using fin by (cases "(rf, j, req, out)" rule: finish.cases) auto
  show ?thesis by (rule append_advanced [OF s(1) p core f l]) (use ok s(2) AEReq in auto)
next
  case (ISReq args)
  then obtain ok reply where s: "sendSnapShotAndProcess rf args (int j) ok reply = Some (rf', effs)"
    using fin by (cases "(rf, j, req, out)" rule: finish.cases) auto
  show ?thesis by (rule snapshot_advanced [OF s p]) (use ok ISReq rf in auto)
qed

lemma cinv_returns:
  assumes st: "lstep N g fl c g' fl' c'"
    and k: "k < length (rpcs c)" "r = rpcs c ! k" "rpc_live r" "n = rpc_src r" "out = None \<or> out = rpc_resp r"
    and fin: "finish (peers c n) (rpc_dst r) (rpc_req r) out = Some (rf, effs)"
    and c': "peers c' = (peers c)(n := rf)" "rpcs c' = (rpcs c)[k := r\<lparr>rpc_live := False\<rparr>] @ spawn n effs"
      "outbox c' = outbox c" "delivered c' = delivered c"
  shows "cinv N g' fl' c'"
proof -
  obtain h h' where inv: "linv N h g fl c" and inv': "linv N h' g' fl' c'" and gle: "gle g g'"
    and core: "core_inv N h (views c fl) g" using lstepD [OF st] by metis
  have cinv: "cinv N g fl c" using st by (simp add: lstep_def)
  have r: "r \<in> set (rpcs c)" using k by simp
  then have "rpc_ok N (peers c) r" using linvD(4) [OF inv] by (simp add: base_inv_def)
  then have n: "n < N" using k(4) by (simp add: rpc_ok_def)
  have p: "peer_ok N n (peers c n)" by (rule linvD(6) [OF inv n])
  have "matches N g (peers c n)" "call_ok N g c n (rpc_dst r) True (rpc_req r) (rpc_resp r)"
    using cinv n r k(3,4) by (auto simp: cinv_def pinv_def rpc_cmt_def)
  then have adv: "advanced N g (fl n) (peers c n) rf"
    using finish_advanced [OF fin p _ core linvD(5) [OF inv n] linvD(9) [OF inv n] _ k(5) refl] by blast
  have rf: "rf = peers c' n" using c'(1) by simp
  have "me rf = int n" using linvD(6) [OF inv' n] rf by (simp add: peer_ok_def)
  then have m: "matches N g' rf"
    using adv elected_matches [OF inv' n] matches_mono [OF gle, of N rf] rf by (auto simp: advanced_def)
  have f: "Logs rf = Logs (peers c n)" "SnapshotIndex rf = SnapshotIndex (peers c n)"
    using finish_log [OF fin] p by (auto simp: peer_ok_def)
  have rs: "rpcs c' = (rpcs c)[k := r\<lparr>rpc_live := False\<rparr>]" using finish_ok [OF fin p] c'(2) by simp
  show ?thesis
  proof (rule cinv_frame [OF st c'(1) n _ m])
    fix i assume "i \<in> counters rf"
    then consider "\<exists>k0 \<in> counters (peers c n). i \<le> k0" | "cmt N g (CurrentTerm (peers c n)) (nat i) (fl n)"
      using adv by (auto simp: advanced_def)
    then show "(\<exists>k0 \<in> counters (peers c n). i \<le> k0) \<or> cmt N g' (CurrentTerm rf) (nat i) (fl' n)"
      using lstep_cmt [OF st n] rf by cases auto
  next
    fix r1 assume "r1 \<in> set (rpcs c')"
    then have "r1 \<in> set (rpcs c) \<or> r1 = r\<lparr>rpc_live := False\<rparr>"
      unfolding rs using set_update_subset_insert [of "rpcs c" k] by blast
    then have "\<exists>r0 \<in> set (rpcs c). evolves r0 r1 \<and> rpc_resp r1 = rpc_resp r0"
      using r evolves_refl(1,2) by fastforce
    then show "(\<exists>r0 \<in> set (rpcs c). evolves r0 r1 \<and> rpc_resp r1 = rpc_resp r0) \<or> rpc_cmt N g' c' r1" ..
  qed (use f c'(3,4) in auto)
qed

section \<open>Deliveries\<close>

lemma accepted_end:
  assumes "AppendEntries rf args = Some (rf', reply, effs)" and "Success reply"
  shows "SnapshotIndex rf' \<le> PrevLogIndex args \<and> termAt rf' (PrevLogIndex args + len (Entries args)) =
    Some (if Entries args = [] then PrevLogTerm args else Term (last (Entries args)))"
  using assms
proof (rule AppendEntries_accept_log)
  fix p k
  assume p: "int p = PrevLogIndex args - SnapshotIndex rf + 1" "0 < p" "p \<le> length (Logs rf)"
    and prev: "Term (Logs rf ! (p - 1)) = PrevLogTerm args"
    and k: "k \<le> length (Entries args)" "p + k \<le> length (Logs rf)"
      "\<forall>m < k. Term (Logs rf ! (p + m)) = Term (Entries args ! m)"
    and L: "Logs rf' = (if k < length (Entries args)
              then take (p + k) (Logs rf) @ drop k (Entries args) else Logs rf)"
    and s: "SnapshotIndex rf' = SnapshotIndex rf"
  note m = merged_log [OF L k]
  let ?es = "Entries args"
  have i: "nat (PrevLogIndex args + len ?es - SnapshotIndex rf) = p - 1 + length ?es"
    using p by (simp add: len_def)
  have "p - 1 + length ?es < length (Logs rf')" using m(1) p(2) by linarith
  then have t: "termAt rf' (PrevLogIndex args + len ?es) = Some (Term (Logs rf' ! (p - 1 + length ?es)))"
    using p(1,2) s i by (simp add: termAt_eq lastIndex_def len_def)
  show ?thesis
  proof (cases "?es = []")
    case True
    then have "Logs rf' = Logs rf" using L by simp
    then show ?thesis using t True prev p s by simp
  next
    case False
    have "p - 1 + length ?es = p + (length ?es - 1)" using False p(2) by (cases ?es) auto
    then have "Term (Logs rf' ! (p - 1 + length ?es)) = Term (last ?es)"
      using m(3) [of "length ?es - 1"] False by (simp add: last_conv_nth)
    then show ?thesis using t False p s by simp
  qed
qed

lemma nth_take_drop: "es = take m (drop p xs) \<Longrightarrow> i < length es \<Longrightarrow> es ! i = xs ! (p + i)"
  by (simp add: less_diff_conv add.commute)

text \<open>A peer that accepted entries has the log of the leader up to the last of them.\<close>

lemma accepted_agree:
  assumes ae: "AppendEntries rf args = Some (rf', reply, effs)" "Success reply" and ac: "ae_cmt N g args"
    and f: "rep rf' f" "coh g f" and g: "terms_ok g"
  shows "agree (nat (PrevLogIndex args + len (Entries args))) f (tlog g (aeTerm args))"
proof -
  let ?i = "PrevLogIndex args + len (Entries args)" and ?G = "tlog g (aeTerm args)"
  have w: "ae_within g args" "base g (aeTerm args) \<noteq> None" "0 \<le> PrevLogIndex args"
    using ac by (auto simp: ae_cmt_def)
  obtain m where m: "Entries args = take m (drop (nat (PrevLogIndex args)) ?G)"
    using w(1) by (auto simp: ae_within_def)
  have e: "SnapshotIndex rf' \<le> PrevLogIndex args" "termAt rf' ?i =
    Some (if Entries args = [] then PrevLogTerm args else Term (last (Entries args)))"
    using accepted_end [OF ae] by auto
  have "(if Entries args = [] then PrevLogTerm args else Term (last (Entries args))) = tat ?G (nat ?i)"
  proof (cases "Entries args = []")
    case True
    then show ?thesis using w(1) by (simp add: ae_within_def)
  next
    case False
    let ?l = "length (Entries args)"
    have l: "0 < ?l" using False by simp
    have "nat ?i = nat (PrevLogIndex args) + ?l" using w(3) by (simp add: len_def)
    moreover have "last (Entries args) = Entries args ! (?l - 1)" using False by (rule last_conv_nth)
    moreover have "Entries args ! (?l - 1) = ?G ! (nat (PrevLogIndex args) + (?l - 1))"
      by (rule nth_take_drop [OF m]) (use l in simp)
    ultimately show ?thesis using False l by (simp add: tat_def)
  qed
  moreover have i: "?i \<le> int (length f)"
    using e rep_lastIndex [OF f(1)] by (auto simp: termAt_eq split: if_splits)
  moreover have "termAt rf' ?i = Some (tat f (nat ?i))"
    using rep_termAt [OF f(1) _ i] e(1) by (simp add: len_def)
  ultimately have "tat f (nat ?i) = tat ?G (nat ?i)" using e(2) by simp
  moreover have "coh g ?G" using g w(2) unfolding terms_ok_def by blast
  ultimately show ?thesis using coh_matching [OF f(2)] i ae_cmt_length [OF ac] by simp
qed

lemma counters_persistState [simp]: "counters (persistState rf) = counters rf"
  by (simp add: counters_def)

lemma adoptTerm_counters: "adoptTerm rf t = (rf', change) \<Longrightarrow> counters rf' = counters rf"
  by (simp add: counters_def adoptTerm_fields)

lemma followed_commit:
  assumes ae: "AppendEntries rf args = Some (rf', reply, effs)" and ac: "ae_cmt N g args"
    and f: "rep rf' f" "coh g f" and g: "terms_ok g"
  shows "counters rf' = counters rf \<or> Success reply \<and> lastApplied rf' = lastApplied rf \<and>
    SnapshotIndex rf' = SnapshotIndex rf \<and> cmt N g (CurrentTerm rf') (nat (commitIndex rf')) f"
proof (cases "Success reply")
  case False
  from ae have "counters rf' = counters rf"
    by (cases rule: AppendEntries_cases) (use False in \<open>auto simp: adoptTerm_counters\<close>)
  then show ?thesis ..
next
  case True
  let ?i = "PrevLogIndex args + len (Entries args)"
  note a = accepted_agree [OF ae True ac f g]
  have lc: "LeaderCommit args \<le> ?i" "cmt N g (aeTerm args) (nat (LeaderCommit args)) (tlog g (aeTerm args))"
    using ac by (auto simp: ae_cmt_def)
  from ae True show ?thesis
  proof (rule AppendEntries_accept_log)
    assume s: "SnapshotIndex rf' = SnapshotIndex rf" "CurrentTerm rf' = aeTerm args" "lastApplied rf' = lastApplied rf"
      and ci: "commitIndex rf' = (if LeaderCommit args > commitIndex rf
                        then min (LeaderCommit args) (lastIndex rf') else commitIndex rf)"
    show ?thesis
    proof (cases "LeaderCommit args > commitIndex rf")
      case moved: True
      have "nat (commitIndex rf') \<le> nat (LeaderCommit args)" using ci moved by simp
      then have "cmt N g (aeTerm args) (nat (commitIndex rf')) (tlog g (aeTerm args))" by (rule cmt_le [OF lc(2)])
      then have "cmt N g (aeTerm args) (nat (commitIndex rf')) f"
        by (rule cmt_agree [OF _ a _ order_refl]) (use ci moved lc(1) in simp)
      then show ?thesis using s True by simp
    next
      case False
      then show ?thesis using s ci by (auto simp: counters_def)
    qed
  qed
qed

lemma installed_commit:
  assumes ins: "InstallSnapShot rf args = Some (rf', reply, effs)" "raft_wf rf" and ic: "is_cmt N g args" "is_ok g args"
    and f: "rep rf' f" "coh g f" and g: "terms_ok g" and k: "k \<in> counters rf'"
  shows "k \<in> counters rf \<or> cmt N g (CurrentTerm rf') (nat k) f"
  using ins
proof (cases rule: InstallSnapShot_cases)
  case (install rf1 change rest rf2)
  let ?G = "tlog g (isTerm args)" and ?L = "LastIncludedIndex args"
  note a = adoptTerm_fields [OF install(2)]
  have b: "base g (isTerm args) \<noteq> None" using ic by (simp add: is_cmt_def)
  have r: "SnapshotIndex rf' = ?L" "Term (hd (Logs rf')) = LastIncludedTerm args" "CurrentTerm rf' = isTerm args"
    using install(1,6,7) a by auto
  have "tat f (nat ?L) = tat ?G (nat ?L)" "nat ?L \<le> length f"
    using f(1) r ic(2) by (auto simp: rep_def is_ok_def)
  moreover have "coh g ?G" using g b unfolding terms_ok_def by blast
  ultimately have "agree (nat ?L) f ?G" using coh_matching [OF f(2)] ic(2) by (simp add: is_ok_def)
  then have "cmt N g (isTerm args) (nat ?L) f"
    using cmt_agree [of N g "isTerm args" "nat ?L" ?G] ic(1) by (simp add: is_cmt_def)
  then show ?thesis using k r install(6,7) a by (auto simp: counters_def)
next
  case (outdated rf1 change)
  then show ?thesis using k adoptTerm_counters [OF outdated(2)] by (cases change) auto
qed (use k in auto)

lemma RequestVote_matchIndex:
  "RequestVote rf args = Some (rf', reply, effs) \<Longrightarrow> matchIndex rf' = matchIndex rf \<and> applies effs = []"
  by (auto simp: RequestVote_def Let_def bind_Some_iff split: if_splits)

lemma handle_matches:
  assumes hd: "handle rf req = Some (rf', rsp, effs)" and wf: "raft_wf rf" and m: "matches N g rf"
  shows "matches N g rf' \<and> SnapshotIndex rf \<le> SnapshotIndex rf'"
proof (cases req)
  case (RVReq args)
  then obtain reply where rv: "RequestVote rf args = Some (rf', reply, effs)" using hd by auto
  note l = RequestVote_log [OF rv] and mi = RequestVote_matchIndex [OF rv] and p = RequestVote_passive [OF rv]
  have "matches N g rf'"
  proof (cases "rstate rf' = LEADER")
    case True
    then have "rstate rf = LEADER" "CurrentTerm rf' = CurrentTerm rf" using p by (auto simp: passive_step_def)
    then show ?thesis using l mi m by (intro matches_cong [of rf' rf]) auto
  qed (simp add: matches_def)
  then show ?thesis using l by simp
next
  case (AEReq args)
  then obtain reply where "AppendEntries rf args = Some (rf', reply, effs)" using hd by auto
  then have "rf' = rf \<or> rstate rf' = FOLLOWER \<and> SnapshotIndex rf' = SnapshotIndex rf"
  proof (cases rule: AppendEntries_cases)
    case (accept rf1 change rf2 grown rf3 ceffs)
    note u = upd_Logs_commit_fields [OF mergeEntries_fields [OF accept(6)] followCommit_fields(1) [OF accept(7)]]
    then show ?thesis using accept(8) adoptTerm_fields [OF accept(2)] by simp
  qed (auto simp: adoptTerm_fields)
  then show ?thesis using m by (auto simp: matches_def)
next
  case (ISReq args)
  then obtain reply where "InstallSnapShot rf args = Some (rf', reply, effs)" using hd by auto
  from this wf have "rf' = rf \<or> rstate rf' = FOLLOWER \<and> SnapshotIndex rf \<le> SnapshotIndex rf'"
    by (cases rule: InstallSnapShot_cases) (auto simp: adoptTerm_fields)
  then show ?thesis using m by (auto simp: matches_def)
qed

lemma handle_msgs:
  assumes hd: "handle rf req = Some (rf', rsp, effs)" and wf: "raft_wf rf" and m: "m \<in> set (applies effs)"
  shows "\<not> CommandValid m"
proof (cases req)
  case (RVReq args)
  then show ?thesis using hd m by (auto dest: RequestVote_matchIndex)
next
  case (AEReq args)
  then obtain reply where "AppendEntries rf args = Some (rf', reply, effs)" using hd by auto
  then have "applies effs = []"
    by (cases rule: AppendEntries_cases) (auto dest!: followCommit_fields(3))
  then show ?thesis using m by simp
next
  case (ISReq args)
  then obtain reply where "InstallSnapShot rf args = Some (rf', reply, effs)" using hd by auto
  from this wf show ?thesis
    by (cases rule: InstallSnapShot_cases)
       (use m in \<open>auto simp: notifyAppUseNewSnapShot_def split: if_splits\<close>)
qed

lemma accepted_acked:
  assumes inv: "linv N h g fl c'" and n: "n < N" and ac: "ae_cmt N g args"
    and ae: "AppendEntries rf args = Some (peers c' n, reply, effs)"
  shows "acked g n args reply"
proof (cases "Success reply")
  case True
  let ?t = "aeTerm args" and ?i = "nat (PrevLogIndex args + len (Entries args))"
  have core: "current N (views c' fl) g \<subseteq> acks g" using linvD(2) [OF inv] by (simp add: core_inv_def acks_ok_def)
  have a: "agree ?i (fl n) (tlog g ?t)"
    by (rule accepted_agree [OF ae True ac linvD(5,7) [OF inv n] linvD(3) [OF inv]])
  have t: "CurrentTerm (peers c' n) = ?t" by (rule AppendEntries_accept_log [OF ae True])
  have t': "aerTerm reply = ?t" using ae True by (auto elim!: AppendEntries_cases)
  have b: "base g ?t \<noteq> None" using ac by (simp add: ae_cmt_def)
  have "(n, k, ?t) \<in> acks g"
    if k: "0 < k" "int k \<le> PrevLogIndex args + len (Entries args)" "tat (tlog g ?t) k = ?t" for k
  proof -
    have "k \<le> ?i" using k(2) by linarith
    then have "agree k (fl n) (tlog g ?t)" by (rule agree_le [OF a])
    then have "(n, k, ?t) \<in> current N (views c' fl) g" using n b t k by (simp add: current_def)
    then show ?thesis using core by blast
  qed
  then show ?thesis using t' by (auto simp: acked_def)
qed (simp add: acked_def)

lemma handle_counters:
  assumes hd: "handle rf req = Some (rf', rsp, effs)" and wf: "raft_wf rf"
    and f: "rep rf' f" "coh g f" and g: "terms_ok g" and k: "k \<in> counters rf'"
    and ok: "\<And>args. req = AEReq args \<Longrightarrow> ae_cmt N g args"
      "\<And>args. req = ISReq args \<Longrightarrow> is_cmt N g args \<and> is_ok g args"
  shows "k \<in> counters rf \<or> cmt N g (CurrentTerm rf') (nat k) f"
proof (cases req)
  case (RVReq args)
  then show ?thesis using hd k by (auto dest!: RequestVote_log simp: counters_def)
next
  case (AEReq args)
  then obtain reply where "AppendEntries rf args = Some (rf', reply, effs)" using hd by auto
  from followed_commit [OF this ok(1) [OF AEReq] f g] k show ?thesis by (auto simp: counters_def)
next
  case (ISReq args)
  then obtain reply where "InstallSnapShot rf args = Some (rf', reply, effs)" using hd by auto
  then show ?thesis using ok(2) [OF ISReq] by (intro installed_commit [OF _ wf _ _ f g k]) auto
qed

lemma cinv_deliver:
  assumes st: "lstep N g fl c g' fl' c'"
    and k: "k < length (rpcs c)" "r = rpcs c ! k" "rpc_resp r = None" "n = rpc_dst r"
    and hd: "handle (peers c n) (rpc_req r) = Some (rf, rsp, effs)"
    and c': "peers c' = (peers c)(n := rf)" "rpcs c' = (rpcs c)[k := r\<lparr>rpc_resp := Some rsp\<rparr>]"
      "outbox c' = (outbox c)(n := outbox c n @ applies effs)" "delivered c' = delivered c"
  shows "cinv N g' fl' c'"
proof -
  obtain h h' where inv: "linv N h g fl c" and inv': "linv N h' g' fl' c'" and gle: "gle g g'"
    and core: "core_inv N h (views c fl) g" using lstepD [OF st] by metis
  have cinv: "cinv N g fl c" using st by (simp add: lstep_def)
  have r: "r \<in> set (rpcs c)" using k by simp
  then have "rpc_ok N (peers c) r" using linvD(4) [OF inv] by (simp add: base_inv_def)
  then have n: "n < N" using k(4) by (simp add: rpc_ok_def)
  have wf: "raft_wf (peers c n)" using linvD(6) [OF inv n] by (simp add: peer_ok_def)
  have rf: "peers c' n = rf" using c'(1) by simp
  note f = linvD(5,7) [OF inv' n, unfolded rf] and g = linvD(3) [OF inv']
  have ms: "matches N g (peers c n)" and rc: "rpc_cmt N g c r" using cinv n r by (auto simp: cinv_def pinv_def)
  note hm = handle_matches [OF hd wf ms]
  have rc': "rpc_cmt N g' c' r" by (rule rpc_cmt_mono [OF core gle rc]) (use hm c'(1) in auto)
  have ae: "ae_cmt N g' args" if "rpc_req r = AEReq args" for args using rc' that by (simp add: rpc_cmt_def)
  have ic: "is_cmt N g' args \<and> is_ok g' args" if "rpc_req r = ISReq args" for args
    using rc' that linvD(8) [OF inv r] is_ok_mono [OF gle] by (simp add: rpc_cmt_def req_fits_def)
  have new: "rpc_cmt N g' c' (r\<lparr>rpc_resp := Some rsp\<rparr>)"
  proof (cases "rpc_req r")
    case (AEReq args)
    then obtain reply where "AppendEntries (peers c n) args = Some (rf, reply, effs)" "rsp = AERep reply"
      using hd by auto
    then show ?thesis
      using AEReq ae [OF AEReq] accepted_acked [OF inv' n ae [OF AEReq]] rf k(4) by (auto simp: rpc_cmt_def)
  qed (use rc' in \<open>auto simp: rpc_cmt_def\<close>)
  show ?thesis
  proof (rule cinv_frame [OF st c'(1) n _ matches_mono [OF gle]])
    fix i assume "i \<in> counters rf"
    then show "(\<exists>k0 \<in> counters (peers c n). i \<le> k0) \<or> cmt N g' (CurrentTerm rf) (nat i) (fl' n)"
      using handle_counters [OF hd wf f g _ ae ic] by blast
  next
    fix r1 assume "r1 \<in> set (rpcs c')"
    then have "r1 \<in> set (rpcs c) \<or> r1 = r\<lparr>rpc_resp := Some rsp\<rparr>"
      unfolding c'(2) using set_update_subset_insert [of "rpcs c" k] by blast
    then show "(\<exists>r0 \<in> set (rpcs c). evolves r0 r1 \<and> rpc_resp r1 = rpc_resp r0) \<or> rpc_cmt N g' c' r1"
      using new evolves_refl(1) by blast
  next
    fix m i assume "m \<in> set (outbox c' i) \<union> set (delivered c' i)"
    then have "m \<in> set (outbox c i) \<union> set (delivered c i) \<or> m \<in> set (applies effs)"
      by (auto simp: c'(3,4) split: if_splits)
    then show "m \<in> set (outbox c i) \<union> set (delivered c i) \<or> msg_ok N g' m"
      using handle_msgs [OF hd wf] unfolding msg_ok_def by blast
  qed (use hm in auto)
qed

end
