(* ===== verification/Raft_Agreement.thy ===== *)
theory Raft_Agreement
  imports Raft_Commit_Steps
begin

text \<open>
  The remaining steps, and with them state machine safety: along every execution in which the
  \<open>nextIndex\<close> of a leader never points beyond the entry after its log, the services of all peers are
  handed the same command at the same index.
\<close>

section \<open>The remaining steps\<close>

text \<open>Every \<open>nextIndex\<close> of a leader is at most one beyond its log.\<close>

definition in_range :: "nat \<Rightarrow> ('c, 's) cluster \<Rightarrow> bool" where
  "in_range N c \<longleftrightarrow> (\<forall>n < N. rstate (peers c n) = LEADER \<longrightarrow>
     (\<forall>to < N. nextIndex (peers c n) ! to \<le> lastIndex (peers c n) + 1))"

text \<open>Steps that leave the calls and the messages.\<close>

lemma cinv_local:
  assumes st: "lstep N g fl c g' fl' c'" and n: "n < N" and p: "peers c' = (peers c)(n := rf)"
    and new: "\<And>k. k \<in> counters rf \<Longrightarrow> (\<exists>k0 \<in> counters (peers c n). k \<le> k0) \<or>
        cmt N g' (CurrentTerm rf) (nat k) (fl' n)" "matches N g' rf"
    and snap: "SnapshotIndex (peers c n) \<le> SnapshotIndex rf"
    and rs: "\<And>r. r \<in> set (rpcs c') \<Longrightarrow> r \<in> set (rpcs c) \<or> rpc_cmt N g' c' r"
    and ms: "\<And>m i. m \<in> set (outbox c' i) \<union> set (delivered c' i) \<Longrightarrow>
      m \<in> set (outbox c i) \<union> set (delivered c i) \<or> msg_ok N g' m"
  shows "cinv N g' fl' c'"
proof (rule cinv_frame [OF st p n new snap _ ms])
  fix r assume "r \<in> set (rpcs c')"
  then show "(\<exists>r0 \<in> set (rpcs c). evolves r0 r \<and> rpc_resp r = rpc_resp r0) \<or> rpc_cmt N g' c' r"
    using rs evolves_refl(1) by blast
qed

lemma lstep_matches: "lstep N g fl c g' fl' c' \<Longrightarrow> n < N \<Longrightarrow> matches N g' (peers c n)"
  unfolding lstep_def cinv_def pinv_def using matches_mono by blast

lemma cinv_timeout:
  assumes st: "lstep N g fl c g' fl' c'" and n: "n < N" and bc: "broadCastVote (peers c n) = Some (rf, effs)"
    and c': "peers c' = (peers c)(n := rf)" "rpcs c' = rpcs c @ spawn n effs"
      "outbox c' = outbox c" "delivered c' = delivered c"
  shows "cinv N g' fl' c'"
proof -
  obtain h where inv: "linv N h g fl c" using lstepD [OF st] by metis
  have wf: "raft_wf (peers c n)" using linvD(6) [OF inv n] by (simp add: peer_ok_def)
  note ms = lstep_matches [OF st n]
  from bc wf have "counters rf = counters (peers c n)" "SnapshotIndex rf = SnapshotIndex (peers c n)" "matches N g' rf"
    "\<forall>r \<in> set (spawn n effs). rpc_cmt N g' c' r"
    using ms by (auto elim!: broadCastVote_cases simp: counters_def matches_def spawn_def rpc_cmt_def)
  then show ?thesis by (intro cinv_local [OF st n c'(1)]) (auto simp: c'(2-4))
qed

lemma cinv_submit:
  assumes st: "lstep N g fl c g' fl' c'" and n: "n < N" and sb: "Start (peers c n) command = Some (rf, res, effs)"
    and c': "peers c' = (peers c)(n := rf)" "rpcs c' = rpcs c @ spawn n effs"
      "outbox c' = outbox c" "delivered c' = delivered c"
  shows "cinv N g' fl' c'"
proof -
  obtain h h' where inv: "linv N h g fl c" and inv': "linv N h' g' fl' c'" using lstepD [OF st] by metis
  note ms = lstep_matches [OF st n]
  have p: "peer_ok N n (peers c n)" by (rule linvD(6) [OF inv n])
  have rf: "peers c' n = rf" using c'(1) by simp
  have rs: "rpcs c' = rpcs c" using sb c'(2) by (auto elim!: Start_cases)
  have "matches N g' rf"
    using sb
  proof (cases rule: Start_cases)
    case leader
    have l: "lastIndex rf = lastIndex (peers c n) + 1" using leader(5) by (simp add: lastIndex_def)
    have me: "nat (me (peers c n)) = n" using p by (simp add: peer_ok_def)
    have t: "termAt rf k = termAt (peers c n) k" if "k \<le> lastIndex (peers c n)" for k
      using that leader(5) by (auto simp: termAt_eq lastIndex_def len_def nth_append)
    have old: "matched g' rf j i" if "matched g' (peers c n) j i" for j i
      using that t l leader(5) by (auto simp: matched_def)
    have "matched g' rf j (matchIndex rf ! j)" if "j < N" for j
    proof (cases "j = n")
      case True
      have "matchIndex rf ! n = lastIndex rf"
        using leader(5) l me p n by (simp add: peer_ok_def raft_wf_def)
      then show ?thesis using own_matched [OF inv' n] rf True leader by simp
    next
      case False
      then have "matchIndex rf ! j = matchIndex (peers c n) ! j" using leader(5) me by simp
      then show ?thesis using ms old leader(1) that by (simp add: matches_def)
    qed
    then show ?thesis by (simp add: matches_def)
  qed (use ms in simp)
  moreover have "counters rf = counters (peers c n)" "SnapshotIndex rf = SnapshotIndex (peers c n)"
    using sb by (auto elim!: Start_cases simp: counters_def)
  ultimately show ?thesis by (intro cinv_local [OF st n c'(1)]) (auto simp: rs c'(3,4))
qed

lemma check_cmt:
  assumes inv: "linv N h g fl c" and cinv: "cinv N g fl c" and n: "n < N" and to: "to < N"
    and ch: "checkConsistency (peers c n) (int to) = Some effs" and rng: "in_range N c"
    and r: "r \<in> set (spawn n effs)"
  shows "rpc_cmt N g c r"
proof -
  let ?rf = "peers c n"
  have wf: "raft_wf ?rf" using linvD(6) [OF inv n] by (simp add: peer_ok_def)
  note rp = linvD(5) [OF inv n]
  have cs: "cmt N g (CurrentTerm ?rf) (nat (commitIndex ?rf)) (fl n)" "cmt N g (CurrentTerm ?rf) (nat (SnapshotIndex ?rf)) (fl n)"
    using cinv n by (auto simp: cinv_def pinv_def counters_def)
  have "\<forall>i. slice_get (nextIndex ?rf) (int to) = Some i \<longrightarrow> i \<le> lastIndex ?rf + 1" if "rstate ?rf = LEADER"
    using rng n to that by (auto simp: in_range_def slice_get_def split: if_splits)
  moreover have l: "rstate ?rf = LEADER" using ch r by (auto simp: checkConsistency_def split: if_splits)
  ultimately have i: "\<forall>i. slice_get (nextIndex ?rf) (int to) = Some i \<longrightarrow> i \<le> lastIndex ?rf + 1" by blast
  have b: "base g (CurrentTerm ?rf) \<noteq> None" "tlog g (CurrentTerm ?rf) = fl n" using linvD(9) [OF inv n l] by auto
  from ch wf i show ?thesis
  proof (cases rule: checkConsistency_cases)
    case not_leader
    then show ?thesis using l by simp
  next
    case (snapshot i)
    then show ?thesis using r b cs(2) by (simp add: rpc_cmt_def is_cmt_def)
  next
    case (append i t)
    have len: "i - 1 \<le> int (length (fl n))" using append(4) rep_lastIndex [OF rp] by simp
    have "0 \<le> SnapshotIndex ?rf" using rep_snapshot [OF rp] by simp
    then have pos: "0 \<le> i - 1" using append(3) by linarith
    have "t = tat (fl n) (nat (i - 1))" using rep_termAt [OF rp _ len] append(3,5) by simp
    moreover have es: "drop (nat (i - SnapshotIndex ?rf)) (Logs ?rf) = drop (nat (i - 1)) (fl n)"
      using rep_drop [OF rp, of "i - 1"] append(3) by (simp add: algebra_simps)
    moreover have "commitIndex ?rf \<le> i - 1 + len (drop (nat (i - 1)) (fl n))"
      using cmt_length [OF cs(1)] len pos by (simp add: len_def)
    ultimately show ?thesis
      using append(6) r b cs(1) len pos by (auto simp: rpc_cmt_def ae_cmt_def ae_within_def intro: exI [of _ "length (fl n)"])
  qed
qed

lemma cinv_check:
  assumes st: "lstep N g fl c g' fl' c'" and n: "n < N" "to < N" and rng: "in_range N c"
    and ch: "checkConsistency (peers c n) (int to) = Some effs"
    and c': "peers c' = peers c" "rpcs c' = rpcs c @ spawn n effs" "outbox c' = outbox c" "delivered c' = delivered c"
  shows "cinv N g' fl' c'"
proof -
  obtain h where inv: "linv N h g fl c" and gle: "gle g g'" and core: "core_inv N h (views c fl) g"
    using lstepD [OF st] by metis
  have cinv: "cinv N g fl c" using st by (simp add: lstep_def)
  have "rpc_cmt N g' c' r" if "r \<in> set (spawn n effs)" for r
    by (rule rpc_cmt_mono [OF core gle check_cmt [OF inv cinv n ch rng that]]) (auto simp: c'(1))
  then show ?thesis
    using lstep_matches [OF st n(1)] by (intro cinv_local [OF st n(1), of "peers c n"]) (auto simp: c')
qed

lemma cinv_compact:
  assumes st: "lstep N g fl c g' fl' c'" and n: "n < N" and i: "idx \<le> lastApplied (peers c n)"
    and cm: "Compact (peers c n) idx snap = Some rf"
    and c': "peers c' = (peers c)(n := rf)" "rpcs c' = rpcs c" "outbox c' = outbox c" "delivered c' = delivered c"
  shows "cinv N g' fl' c'"
proof -
  obtain h where inv: "linv N h g fl c" using lstepD [OF st] by metis
  note ms = lstep_matches [OF st n] and r = linvD(5) [OF inv n]
  note r' = rep_Compact [OF cm r]
  have "k \<in> counters (peers c n) \<or> k \<le> lastApplied (peers c n)" if "k \<in> counters rf" for k
    using cm that i by (auto elim!: Compact_cases simp: counters_def)
  then have "\<exists>k0 \<in> counters (peers c n). k \<le> k0" if "k \<in> counters rf" for k
    using that unfolding counters_def by blast
  moreover have s: "SnapshotIndex (peers c n) \<le> SnapshotIndex rf" "CurrentTerm rf = CurrentTerm (peers c n)"
    "matchIndex rf = matchIndex (peers c n)" "rstate rf = rstate (peers c n)"
    using cm by (auto elim!: Compact_cases)
  moreover have "matches N g' rf"
  proof -
    have l: "lastIndex rf = lastIndex (peers c n)" using rep_lastIndex [OF r] rep_lastIndex [OF r'] by simp
    have "termAt (peers c n) k = termAt rf k" if "SnapshotIndex rf < k" for k
    proof (cases "k \<le> int (length (fl n))")
      case True
      then show ?thesis using rep_termAt [OF r, of k] rep_termAt [OF r', of k] that s(1) by simp
    next
      case False
      then show ?thesis using l rep_lastIndex [OF r] by (simp add: termAt_eq)
    qed
    then have "matched g' rf j a" if "matched g' (peers c n) j a" for j a
      using that l s(1,2) by (auto simp: matched_def)
    then show ?thesis using ms s(3,4) by (simp add: matches_def)
  qed
  ultimately show ?thesis by (intro cinv_local [OF st n c'(1)]) (auto simp: c'(2-4))
qed

lemma applied_msg:
  assumes core: "core_inv N h v g" and r: "rep rf f" and ci: "cmt N g T (nat (commitIndex rf)) f"
    and i: "SnapshotIndex rf < i" "i \<le> commitIndex rf"
  shows "msg_ok N g \<lparr>amCommandIndex = i, amCommand = Command (Logs rf ! nat (i - SnapshotIndex rf)),
    CommandValid = True, SnapShot = []\<rparr>"
proof -
  have pos: "0 < i" using i rep_snapshot [OF r] by linarith
  then have "nat (commitIndex rf) \<noteq> 0" using i by simp
  then obtain k t where c: "chosen N g k t" "nat (commitIndex rf) \<le> k" "agree (nat (commitIndex rf)) f (tlog g t)"
    using ci by (auto simp: cmt_def)
  have "nat i - 1 < nat (commitIndex rf)" using pos i by linarith
  then have "f ! (nat i - 1) = tlog g t ! (nat i - 1)" by (rule agree_nth [OF c(3)])
  moreover have "i \<le> int (length f)" using cmt_length [OF ci] i(2) pos by linarith
  ultimately have "Logs rf ! nat (i - SnapshotIndex rf) = tlog g t ! (nat i - 1)" using rep_nth [OF r i(1)] by simp
  moreover have "nat i \<le> k" using i(2) c(2) by linarith
  ultimately show ?thesis using pos c(1) unfolding msg_ok_def by auto
qed

lemma applies_applied: "applies (map (applied rf) is) = map (\<lambda>i. \<lparr>amCommandIndex = i,
    amCommand = Command (Logs rf ! nat (i - SnapshotIndex rf)), CommandValid = True, SnapShot = []\<rparr>) is"
  by (induction "is") (simp_all add: applied_def)

lemma cinv_apply:
  assumes st: "lstep N g fl c g' fl' c'" and n: "n < N"
    and ap: "applyLogEntryDaemon (peers c n) = Some (rf, effs)"
    and c': "peers c' = (peers c)(n := rf)" "rpcs c' = rpcs c" "outbox c' = outbox c"
      "delivered c' = (delivered c)(n := delivered c n @ applies effs)"
  shows "cinv N g' fl' c'"
proof -
  let ?rf = "peers c n"
  obtain h where inv: "linv N h g fl c" and gle: "gle g g'" and core: "core_inv N h (views c fl) g"
    using lstepD [OF st] by metis
  have ci: "cmt N g (CurrentTerm ?rf) (nat (commitIndex ?rf)) (fl n)"
    using st n by (auto simp: lstep_def cinv_def pinv_def counters_def)
  have "commitIndex ?rf \<le> lastIndex ?rf" using cmt_length [OF ci] rep_lastIndex [OF linvD(5) [OF inv n]] by linarith
  note sp = applyLoop_spec [OF this, of "lastApplied ?rf + 1"]
  have rf: "rf = ?rf \<or> rf = ?rf\<lparr>lastApplied := commitIndex ?rf\<rparr>"
    and e: "effs = map (applied ?rf) [max (lastApplied ?rf + 1) (SnapshotIndex ?rf + 1)..commitIndex ?rf]"
    using ap sp by (auto simp: applyLogEntryDaemon_def split: if_splits)
  have msg: "msg_ok N g' m" if "m \<in> set (applies effs)" for m
  proof (rule msg_ok_mono [OF core gle])
    show "msg_ok N g m"
      using that by (auto simp: e applies_applied intro!: applied_msg [OF core linvD(5) [OF inv n] ci])
  qed
  have "matches N g' rf" using rf lstep_matches [OF st n]
    by (auto simp: matches_def matched_def termAt_eq lastIndex_def)
  moreover have "counters rf \<subseteq> counters ?rf" using rf by (auto simp: counters_def)
  moreover have "SnapshotIndex rf = SnapshotIndex ?rf" using rf by auto
  moreover have "m \<in> set (outbox c i) \<union> set (delivered c i) \<or> msg_ok N g' m"
    if "m \<in> set (outbox c' i) \<union> set (delivered c' i)" for m i
    using that msg by (auto simp: c'(3,4) split: if_splits)
  ultimately show ?thesis by (intro cinv_local [OF st n c'(1)]) (use c'(2) in auto)
qed

lemma cinv_restart:
  assumes st: "lstep N g fl c g' fl' c'" and n: "n < N"
    and mk: "Make N (int n) (CopyPersister (persister (peers c n))) = (rf, effs)"
    and c': "peers c' = (peers c)(n := rf)" "rpcs c' = map (orphan n) (rpcs c)"
      "outbox c' = (outbox c)(n := [])" "delivered c' = (delivered c)(n := applies effs)"
  shows "cinv N g' fl' c'"
proof -
  obtain h where inv: "linv N h g fl c" using lstepD [OF st] by metis
  have "durable (peers c n)" using linvD(6) [OF inv n] by (simp add: peer_ok_def)
  then have rf: "SnapshotIndex rf = SnapshotIndex (peers c n)" "commitIndex rf = 0" "lastApplied rf = 0" "rstate rf = FOLLOWER"
    using recover_wf [of "peers c n" N n] mk by (auto simp: fst_def split: prod.splits)
  have "\<not> CommandValid m" if "m \<in> set (applies effs)" for m
    using mk that by (auto simp: Make_def Let_def notifyAppUseNewSnapShot_def split: if_splits)
  then have msg: "m \<in> set (outbox c i) \<union> set (delivered c i) \<or> msg_ok N g' m"
    if "m \<in> set (outbox c' i) \<union> set (delivered c' i)" for m i
    using that by (auto simp: c'(3,4) msg_ok_def split: if_splits)
  have "\<exists>r0 \<in> set (rpcs c). evolves r0 r \<and> rpc_resp r = rpc_resp r0" if r: "r \<in> set (rpcs c')" for r
  proof -
    obtain r0 where r0: "r0 \<in> set (rpcs c)" "r = orphan n r0" using r c'(2) by auto
    moreover have "rpc_resp (orphan n r0) = rpc_resp r0" by (simp add: orphan_def)
    ultimately show ?thesis using evolves_refl(4) by blast
  qed
  then show ?thesis
    using msg rf by (intro cinv_frame [OF st c'(1) n]) (auto simp: counters_def matches_def)
qed

lemma cinv_step:
  assumes st: "lstep N g fl c g' fl' c'" and step: "cstep N c c'" and rng: "in_range N c"
  shows "cinv N g' fl' c'"
  using step
proof cases
  case (timeout n rf effs)
  then show ?thesis by (intro cinv_timeout [OF st timeout(2,3)]) simp_all
next
  case (deliver k r n rf rsp effs)
  then show ?thesis by (intro cinv_deliver [OF st deliver(2-6)]) simp_all
next
  case (call_returns k r n out rf effs)
  then show ?thesis by (intro cinv_returns [OF st call_returns(2-7)]) simp_all
next
  case (submit n command rf res effs)
  then show ?thesis by (intro cinv_submit [OF st submit(2,3)]) simp_all
next
  case (check n to effs)
  then show ?thesis by (intro cinv_check [OF st check(2,3) rng check(5)]) simp_all
next
  case (compact n idx snap rf)
  then show ?thesis by (intro cinv_compact [OF st compact(2-4)]) simp_all
next
  case (apply_round n rf effs)
  then show ?thesis by (intro cinv_apply [OF st apply_round(2,3)]) simp_all
next
  case (flush n m ms)
  then show ?thesis
    using lstep_matches [OF st flush(2)] by (intro cinv_local [OF st flush(2), of "peers c n"]) (auto split: if_splits)
next
  case (restart n rf effs)
  then show ?thesis by (intro cinv_restart [OF st restart(2,3)]) simp_all
next
  case (kill n)
  then show ?thesis
    by (intro cinv_local [OF st kill(2), of "Kill (peers c n)"]) (auto simp: Kill_def counters_def matches_def)
qed

section \<open>Executions\<close>

inductive kept :: "nat \<Rightarrow> ('c, 's) cluster \<Rightarrow> ('c, 's) cluster \<Rightarrow> bool" for N where
  start: "kept N c c"
| step: "kept N c c' \<Longrightarrow> in_range N c' \<Longrightarrow> cstep N c' c'' \<Longrightarrow> kept N c c''"

lemma lstep_exists:
  assumes inv: "linv N h g fl c" "cinv N g fl c" and st: "cstep N c c'"
  shows "\<exists>g' fl'. lstep N g fl c g' fl' c'"
proof -
  obtain h' g' fl' where n: "gle g g'" "linv N h' g' fl' c'"
    "\<forall>n < N. changed g (CurrentTerm (peers c' n)) (fl n) (fl' n)"
    using linv_step [OF inv(1) st] unfolding linv_next_def by blast
  have "CurrentTerm (peers c m) \<le> CurrentTerm (peers c' m)" if "m < N" for m
    using cstep_votes [OF st linvD(4) [OF inv(1)] that] by simp
  then have "lstep N g fl c g' fl' c'" using inv n unfolding lstep_def by blast
  then show ?thesis by blast
qed

lemma kept_inv:
  assumes "kept N c c'" and "linv N h g fl c" and "cinv N g fl c"
  shows "\<exists>h' g' fl'. gle g g' \<and> linv N h' g' fl' c' \<and> cinv N g' fl' c'"
  using assms
proof (induction rule: kept.induct)
  case (start c)
  then show ?case using gle_refl by blast
next
  case (step c c' c'')
  then obtain h' g' fl' where i: "gle g g'" "linv N h' g' fl' c'" "cinv N g' fl' c'" by blast
  obtain g'' fl'' where s: "lstep N g' fl' c' g'' fl'' c''" using lstep_exists [OF i(2,3) step(3)] by blast
  moreover have "cinv N g'' fl'' c''" by (rule cinv_step [OF s step(3,2)])
  ultimately show ?case using i(1) gle_trans unfolding lstep_def by blast
qed

lemma cinv_init: "cinv N no_ghost (\<lambda>_. []) (init_cluster N)"
  by (simp add: cinv_def pinv_def counters_def matches_def init_cluster_def Make_def Let_def dePersistState_def
      decodeState_def persister_defs)

lemma msgs_agree:
  assumes core: "core_inv N h v g" and m: "msg_ok N g m" "msg_ok N g m'" "CommandValid m" "CommandValid m'"
    "amCommandIndex m = amCommandIndex m'"
  shows "amCommand m = amCommand m'"
proof -
  obtain i t where a: "chosen N g i t" "nat (amCommandIndex m) \<le> i" "0 < amCommandIndex m"
    "amCommand m = Command (tlog g t ! (nat (amCommandIndex m) - 1))"
    using m(1,3) by (auto simp: msg_ok_def)
  obtain i' t' where b: "chosen N g i' t'" "nat (amCommandIndex m) \<le> i'"
    "amCommand m' = Command (tlog g t' ! (nat (amCommandIndex m) - 1))"
    using m(2,4,5) by (auto simp: msg_ok_def)
  have k: "nat (amCommandIndex m) - 1 < i" "nat (amCommandIndex m) - 1 < i'" using a(2,3) b(2) by linarith+
  have "agree i (tlog g t') (tlog g t)" if "t \<le> t'"
    by (rule leader_complete [OF core a(1) chosen_facts(1) [OF core b(1)] that])
  moreover have "agree i' (tlog g t) (tlog g t')" if "t' \<le> t"
    by (rule leader_complete [OF core b(1) chosen_facts(1) [OF core a(1)] that])
  ultimately have "tlog g t ! (nat (amCommandIndex m) - 1) = tlog g t' ! (nat (amCommandIndex m) - 1)"
    using agree_nth k by (metis nle_le)
  then show ?thesis using a(4) b(3) by simp
qed

lemma kept_agree:
  assumes "kept N (init_cluster N) c" and "kept N c c'"
    and "m \<in> set (delivered c n)" and "m' \<in> set (delivered c' n')"
    and "CommandValid m" and "CommandValid m'" and "amCommandIndex m = amCommandIndex m'"
  shows "amCommand m = amCommand m'"
proof -
  obtain h g fl where i: "linv N h g fl c" "cinv N g fl c"
    using kept_inv [OF assms(1) linv_init cinv_init] by blast
  then obtain h' g' fl' where i': "gle g g'" "linv N h' g' fl' c'" "cinv N g' fl' c'"
    using kept_inv [OF assms(2)] by blast
  have "msg_ok N g m" using i(2) assms(3) by (auto simp: cinv_def)
  then have "msg_ok N g' m" by (rule msg_ok_mono [OF linvD(2) [OF i(1)] i'(1)])
  moreover have "msg_ok N g' m'" using i'(3) assms(4) by (auto simp: cinv_def)
  ultimately show ?thesis by (rule msgs_agree [OF linvD(2) [OF i'(2)] _ _ assms(5-7)])
qed

text \<open>
  Property C2.  State machine safety: along every execution in which no leader's \<open>nextIndex\<close> points
  further than one beyond its log, two services that are ever handed a command at the same index, at
  whatever times and on whatever peers, restarts included, are handed the same command.
\<close>

theorem state_machine_safety:
  assumes "kept N (init_cluster N) c" and "kept N c c'"
    and "m \<in> set (delivered c n)" and "m' \<in> set (delivered c' n')"
    and "CommandValid m" and "CommandValid m'" and "amCommandIndex m = amCommandIndex m'"
  shows "amCommand m = amCommand m'"
  by (rule kept_agree [OF assms])

end
