(* ===== verification/Raft_Plain.thy ===== *)
theory Raft_Plain
  imports Raft_Agreement Raft_Exec
begin

text \<open>
  Executions in which no peer has a snapshot: every \<open>nextIndex\<close> stays in range, so that state machine
  safety holds without a condition on them.  Snapshots are what breaks it: a concrete execution with
  one compaction hands two services different commands at one index.
\<close>

section \<open>Answers and the index of a follower\<close>

definition range_ok :: "nat \<Rightarrow> ('c, 's) Raft \<Rightarrow> bool" where
  "range_ok N rf \<longleftrightarrow> (rstate rf = LEADER \<longrightarrow> (\<forall>to < N. nextIndex rf ! to \<le> lastIndex rf + 1))"

text \<open>The index a follower asks for, when it has no snapshot, is not beyond the one it was asked about.\<close>

definition conflict_ok :: "'c AppendEntriesArgs \<Rightarrow> AppendEntriesReply \<Rightarrow> bool" where
  "conflict_ok args rsp \<longleftrightarrow> Success rsp \<or> ConflictIndex rsp = 0 \<or>
     aerTerm rsp = aeTerm args \<and> ConflictIndex rsp \<le> PrevLogIndex args"

definition answers_ok :: "('c, 's) rpc \<Rightarrow> bool" where
  "answers_ok r \<longleftrightarrow> (\<forall>args rsp. rpc_req r = AEReq args \<and> rpc_resp r = Some (AERep rsp) \<longrightarrow> conflict_ok args rsp)"

definition flat :: "nat \<Rightarrow> ('c, 's) cluster \<Rightarrow> bool" where
  "flat N c \<longleftrightarrow> (\<forall>n < N. range_ok N (peers c n)) \<and> (\<forall>r \<in> set (rpcs c). answers_ok r)"

lemma flat_in_range: "flat N c \<Longrightarrow> in_range N c"
  by (simp add: flat_def in_range_def range_ok_def)

definition no_snapshots :: "nat \<Rightarrow> ('c, 's) cluster \<Rightarrow> bool" where
  "no_snapshots N c \<longleftrightarrow> (\<forall>n < N. SnapshotIndex (peers c n) = 0)"

lemma AppendEntries_conflict_ok:
  assumes "AppendEntries rf args = Some (rf', reply, effs)" "SnapshotIndex rf = 0" "0 \<le> PrevLogIndex args"
  shows "conflict_ok args reply"
  using assms(1)
proof (cases rule: AppendEntries_cases)
  case (conflict rf1 change t)
  have "int (conflictHead (Logs rf) t (nat (PrevLogIndex args))) \<le> PrevLogIndex args"
    using conflictHead_le [of "Logs rf" t "nat (PrevLogIndex args)"] assms(3) by linarith
  then show ?thesis using conflict assms(2) by (simp add: conflict_ok_def)
qed (use assms(2,3) in \<open>auto simp: conflict_ok_def\<close>)

lemma flat_frame:
  assumes "flat N c" and p: "peers c' = (peers c)(n := rf)" "range_ok N rf"
    and rs: "\<And>r. r \<in> set (rpcs c') \<Longrightarrow>
      (\<exists>r0 \<in> set (rpcs c). rpc_req r = rpc_req r0 \<and> rpc_resp r = rpc_resp r0) \<or> answers_ok r"
  shows "flat N c'"
proof -
  have "answers_ok r" if "r \<in> set (rpcs c')" for r
    using rs [OF that] assms(1) by (auto simp: flat_def answers_ok_def)
  then show ?thesis using assms(1) p by (auto simp: flat_def)
qed

lemma range_same:
  assumes "range_ok N rf" "rstate rf' = LEADER \<Longrightarrow> rstate rf = LEADER" "nextIndex rf' = nextIndex rf" "lastIndex rf \<le> lastIndex rf'"
  shows "range_ok N rf'"
  using assms by (fastforce simp: range_ok_def)

lemma range_set:
  assumes "range_ok N rf" "nextIndex rf' = (nextIndex rf)[j := i]" "lastIndex rf' = lastIndex rf"
    "rstate rf' = rstate rf" "i \<le> lastIndex rf + 1" "length (nextIndex rf) = N"
  shows "range_ok N rf'"
  unfolding range_ok_def
proof (intro impI allI)
  fix to assume "rstate rf' = LEADER" "to < N"
  then show "nextIndex rf' ! to \<le> lastIndex rf' + 1"
    using assms by (cases "to = j") (auto simp: range_ok_def)
qed

section \<open>Steps\<close>

lemma RequestVote_nextIndex: "RequestVote rf args = Some (rf', reply, effs) \<Longrightarrow> nextIndex rf' = nextIndex rf"
  by (auto simp: RequestVote_def Let_def bind_Some_iff split: if_splits)

lemma handle_range:
  assumes hd: "handle rf req = Some (rf', rsp, effs)" and wf: "raft_wf rf" and r: "range_ok N rf"
  shows "range_ok N rf'"
proof (cases req)
  case (RVReq args)
  then obtain reply where rv: "RequestVote rf args = Some (rf', reply, effs)" using hd by auto
  show ?thesis
    by (rule range_same [OF r])
       (use RequestVote_log [OF rv] RequestVote_nextIndex [OF rv] RequestVote_passive [OF rv] in
         \<open>auto simp: passive_step_def lastIndex_def\<close>)
next
  case (AEReq args)
  then obtain reply where "AppendEntries rf args = Some (rf', reply, effs)" using hd by auto
  then have "rf' = rf \<or> rstate rf' = FOLLOWER"
  proof (cases rule: AppendEntries_cases)
    case (accept rf1 change rf2 grown rf3 ceffs)
    note u = upd_Logs_commit_fields [OF mergeEntries_fields [OF accept(6)] followCommit_fields(1) [OF accept(7)]]
    then show ?thesis using accept(8) adoptTerm_fields [OF accept(2)] by simp
  qed (auto simp: adoptTerm_fields)
  then show ?thesis using r by (auto simp: range_ok_def)
next
  case (ISReq args)
  then obtain reply where "InstallSnapShot rf args = Some (rf', reply, effs)" using hd by auto
  from this wf have "rf' = rf \<or> rstate rf' = FOLLOWER"
    by (cases rule: InstallSnapShot_cases) (auto simp: adoptTerm_fields)
  then show ?thesis using r by (auto simp: range_ok_def)
qed

lemma flat_deliver:
  assumes fl: "flat N c" and st: "lstep N g fl' c g' fl'' c'" and ns: "no_snapshots N c"
    and k: "k < length (rpcs c)" "r = rpcs c ! k" "rpc_resp r = None" "n = rpc_dst r"
    and hd: "handle (peers c n) (rpc_req r) = Some (rf, rsp, effs)"
    and c': "peers c' = (peers c)(n := rf)" "rpcs c' = (rpcs c)[k := r\<lparr>rpc_resp := Some rsp\<rparr>]"
  shows "flat N c'"
proof -
  obtain h where inv: "linv N h g fl' c" using lstepD [OF st] by metis
  have r: "r \<in> set (rpcs c)" using k by simp
  then have "rpc_ok N (peers c) r" using linvD(4) [OF inv] by (simp add: base_inv_def)
  then have n: "n < N" using k(4) by (simp add: rpc_ok_def)
  have wf: "raft_wf (peers c n)" using linvD(6) [OF inv n] by (simp add: peer_ok_def)
  have rc: "rpc_cmt N g c r" using st r by (simp add: lstep_def cinv_def)
  have new: "answers_ok (r\<lparr>rpc_resp := Some rsp\<rparr>)"
    unfolding answers_ok_def
  proof (intro allI impI)
    fix args reply
    assume a: "rpc_req (r\<lparr>rpc_resp := Some rsp\<rparr>) = AEReq args \<and> rpc_resp (r\<lparr>rpc_resp := Some rsp\<rparr>) = Some (AERep reply)"
    then have "AppendEntries (peers c n) args = Some (rf, reply, effs)" using hd by auto
    moreover have "0 \<le> PrevLogIndex args" using rc a by (simp add: rpc_cmt_def ae_cmt_def)
    moreover have "SnapshotIndex (peers c n) = 0" using ns n by (simp add: no_snapshots_def)
    ultimately show "conflict_ok args reply" by (intro AppendEntries_conflict_ok)
  qed
  have "range_ok N (peers c n)" using fl n by (simp add: flat_def)
  then have "range_ok N rf" by (rule handle_range [OF hd wf])
  then show ?thesis
  proof (rule flat_frame [OF fl c'(1)])
    fix r1 assume "r1 \<in> set (rpcs c')"
    then have "r1 \<in> set (rpcs c) \<or> r1 = r\<lparr>rpc_resp := Some rsp\<rparr>"
      unfolding c'(2) using set_update_subset_insert [of "rpcs c" k] by blast
    then show "(\<exists>r0 \<in> set (rpcs c). rpc_req r1 = rpc_req r0 \<and> rpc_resp r1 = rpc_resp r0) \<or> answers_ok r1"
      using new by blast
  qed
qed

lemma append_range:
  assumes s: "sendAppendEntriesAndProcess rf args (int j) ok reply = Some (rf', effs)"
    and N: "length (nextIndex rf) = N" and f: "rep rf f" and r: "range_ok N rf"
    and l: "rstate rf = LEADER \<Longrightarrow> base g (CurrentTerm rf) \<noteq> None \<and> tlog g (CurrentTerm rf) = f"
    and ae: "ae_cmt N g args" "ok \<Longrightarrow> acked g j args reply" "ok \<Longrightarrow> conflict_ok args reply"
  shows "range_ok N rf'"
  using s
proof (cases rule: sendAppendEntriesAndProcess_cases)
  case success
  have "matched g rf j (PrevLogIndex args + len (Entries args))"
    by (rule acked_matched [OF ae(1) ae(2) _ _ f]) (use success l in auto)
  then have i: "PrevLogIndex args + len (Entries args) + 1 \<le> lastIndex rf + 1" by (simp add: matched_def)
  from success(7) show ?thesis
  proof (cases rule: recordMatch_cases)
    case (matched m rf1)
    then show ?thesis using i N recordMatch_fields [OF success(7)] by (intro range_set [OF r]) (auto simp: lastIndex_def)
  qed (use r in simp)
next
  case backup
  have last: "0 \<le> lastIndex rf" using rep_lastIndex [OF f] by simp
  have "ConflictIndex reply \<le> lastIndex rf"
  proof (cases "ConflictIndex reply = 0")
    case False
    then have "aeTerm args = CurrentTerm rf" "ConflictIndex reply \<le> PrevLogIndex args"
      using ae(3) backup by (auto simp: conflict_ok_def)
    then show ?thesis
      using ae_cmt_length [OF ae(1)] l backup(2) rep_lastIndex [OF f] by (simp add: len_def)
  qed (use last in simp)
  then show ?thesis using backup(7) last N by (intro range_set [OF r]) (auto simp: lastIndex_def)
qed (use r in \<open>auto simp: range_ok_def stepDown_fields\<close>)

lemma finish_range:
  assumes fin: "finish rf j req out = Some (rf', effs)" and p: "peer_ok N n rf" and f: "rep rf f"
    and l: "rstate rf = LEADER \<Longrightarrow> base g (CurrentTerm rf) \<noteq> None \<and> tlog g (CurrentTerm rf) = f"
    and ok: "call_ok N g c n j True req out'" "out = None \<or> out = out'" and rf: "rf = peers c n"
    and r: "range_ok N rf" and ns: "SnapshotIndex rf = 0"
    and ans: "\<And>args rsp. req = AEReq args \<Longrightarrow> out' = Some (AERep rsp) \<Longrightarrow> conflict_ok args rsp"
  shows "range_ok N rf'"
proof -
  have wf: "raft_wf rf" and N: "length (nextIndex rf) = N" using p by (auto simp: peer_ok_def raft_wf_def)
  have last: "0 \<le> lastIndex rf" using rep_lastIndex [OF f] by simp
  show ?thesis
  proof (cases req)
    case (RVReq args)
    then obtain ok reply where "sendRequestVoteAndProcess rf ok reply = Some (rf', effs)"
      using fin by (cases "(rf, j, req, out)" rule: finish.cases) auto
    from this wf show ?thesis
      by (cases rule: sendRequestVoteAndProcess_cases)
         (use r p in \<open>auto simp: range_ok_def stepDown_fields lastIndex_def peer_ok_def\<close>)
  next
    case (AEReq args)
    then obtain ok reply where s: "sendAppendEntriesAndProcess rf args (int j) ok reply = Some (rf', effs)"
      "ok \<Longrightarrow> out = Some (AERep reply)"
      using fin by (cases "(rf, j, req, out)" rule: finish.cases) auto
    show ?thesis by (rule append_range [OF s(1) N f r l]) (use ok s(2) AEReq ans in auto)
  next
    case (ISReq args)
    then obtain ok reply where s: "sendSnapShotAndProcess rf args (int j) ok reply = Some (rf', effs)"
      using fin by (cases "(rf, j, req, out)" rule: finish.cases) auto
    have L: "LastIncludedIndex args \<le> 0" using ok ISReq rf ns by simp
    from s show ?thesis
    proof (cases rule: sendSnapShotAndProcess_cases)
      case (installed m)
      then show ?thesis using L last N by (intro range_set [OF r]) (auto simp: lastIndex_def)
    qed (use r in \<open>auto simp: range_ok_def stepDown_fields\<close>)
  qed
qed

lemma flat_returns:
  assumes fl: "flat N c" and st: "lstep N g fl' c g' fl'' c'" and ns: "no_snapshots N c"
    and k: "k < length (rpcs c)" "r = rpcs c ! k" "rpc_live r" "n = rpc_src r" "out = None \<or> out = rpc_resp r"
    and fin: "finish (peers c n) (rpc_dst r) (rpc_req r) out = Some (rf, effs)"
    and c': "peers c' = (peers c)(n := rf)" "rpcs c' = (rpcs c)[k := r\<lparr>rpc_live := False\<rparr>] @ spawn n effs"
  shows "flat N c'"
proof -
  obtain h where inv: "linv N h g fl' c" using lstepD [OF st] by metis
  have r: "r \<in> set (rpcs c)" using k by simp
  then have "rpc_ok N (peers c) r" using linvD(4) [OF inv] by (simp add: base_inv_def)
  then have n: "n < N" using k(4) by (simp add: rpc_ok_def)
  have p: "peer_ok N n (peers c n)" by (rule linvD(6) [OF inv n])
  have rc: "call_ok N g c n (rpc_dst r) True (rpc_req r) (rpc_resp r)"
    using st r k(3,4) by (auto simp: lstep_def cinv_def rpc_cmt_def)
  have "range_ok N (peers c n)" "answers_ok r" "SnapshotIndex (peers c n) = 0"
    using fl n r ns by (auto simp: flat_def no_snapshots_def)
  then have "range_ok N rf"
    by (intro finish_range [OF fin p linvD(5) [OF inv n] linvD(9) [OF inv n] rc k(5) refl]) (auto simp: answers_ok_def)
  then show ?thesis
  proof (rule flat_frame [OF fl c'(1)])
    have rs: "rpcs c' = (rpcs c)[k := r\<lparr>rpc_live := False\<rparr>]" using finish_ok [OF fin p] c'(2) by simp
    fix r1 assume "r1 \<in> set (rpcs c')"
    then have "r1 \<in> set (rpcs c) \<or> r1 = r\<lparr>rpc_live := False\<rparr>"
      unfolding rs using set_update_subset_insert [of "rpcs c" k] by blast
    then have "\<exists>r0 \<in> set (rpcs c). rpc_req r1 = rpc_req r0 \<and> rpc_resp r1 = rpc_resp r0" using r by fastforce
    then show "(\<exists>r0 \<in> set (rpcs c). rpc_req r1 = rpc_req r0 \<and> rpc_resp r1 = rpc_resp r0) \<or> answers_ok r1" ..
  qed
qed

lemma spawn1_unanswered: "r \<in> set (spawn1 n e) \<Longrightarrow> rpc_resp r = None"
  by (cases e) auto

lemma spawn_unanswered: "r \<in> set (spawn n effs) \<Longrightarrow> answers_ok r"
  by (auto simp: spawn_def answers_ok_def dest: spawn1_unanswered)

lemma flat_step:
  assumes fl: "flat N c" and st: "lstep N g fl' c g' fl'' c'" and ns: "no_snapshots N c" and step: "cstep N c c'"
  shows "flat N c'"
proof -
  obtain h where inv: "linv N h g fl' c" using lstepD [OF st] by metis
  have p: "raft_wf (peers c n)" "durable (peers c n)" "length (nextIndex (peers c n)) = N" if "n < N" for n
    using linvD(6) [OF inv that] by (auto simp: peer_ok_def raft_wf_def)
  have r: "range_ok N (peers c n)" if "n < N" for n using fl that by (simp add: flat_def)
  from step show ?thesis
  proof cases
    case (timeout n rf effs)
    have "range_ok N rf"
      using timeout(3) p(1) [OF timeout(2)] r [OF timeout(2)] by (auto elim!: broadCastVote_cases simp: range_ok_def)
    then show ?thesis using spawn_unanswered by (intro flat_frame [OF fl, of c' n rf]) (auto simp: timeout(1))
  next
    case (deliver k r n rf rsp effs)
    then show ?thesis by (intro flat_deliver [OF fl st ns deliver(2-6)]) simp_all
  next
    case (call_returns k r n out rf effs)
    then show ?thesis by (intro flat_returns [OF fl st ns call_returns(2-7)]) simp_all
  next
    case (submit n command rf res effs)
    have "range_ok N rf"
      using submit(3)
    proof (cases rule: Start_cases)
      case leader
      have "nextIndex rf ! to \<le> lastIndex rf + 1" if "to < N" for to
        using r [OF submit(2)] leader p(3) [OF submit(2)] that
        by (cases "to = nat (me (peers c n))") (force simp: range_ok_def lastIndex_def)+
      then show ?thesis by (simp add: range_ok_def)
    qed (use r [OF submit(2)] in simp)
    then show ?thesis using spawn_unanswered by (intro flat_frame [OF fl, of c' n rf]) (auto simp: submit(1))
  next
    case (check n to effs)
    then show ?thesis
      using spawn_unanswered r [OF check(2)] by (intro flat_frame [OF fl, of c' n "peers c n"]) auto
  next
    case (compact n idx snap rf)
    note rp = linvD(5) [OF inv compact(2)]
    have "lastIndex rf = lastIndex (peers c n)"
      using rep_lastIndex [OF rep_Compact [OF compact(4) rp]] rep_lastIndex [OF rp] by simp
    moreover from compact(4) have "rstate rf = rstate (peers c n)" "nextIndex rf = nextIndex (peers c n)"
      by (auto elim!: Compact_cases)
    ultimately have "range_ok N rf" using r [OF compact(2)] by (simp add: range_ok_def)
    then show ?thesis by (intro flat_frame [OF fl, of c' n rf]) (auto simp: compact(1))
  next
    case (apply_round n rf effs)
    then obtain x where "rf = (peers c n)\<lparr>lastApplied := x\<rparr>"
      by (auto simp: applyLogEntryDaemon_def dest: applyLoop_fields)
    then have "range_ok N rf" using r [OF apply_round(2)] by (simp add: range_ok_def lastIndex_def)
    then show ?thesis by (intro flat_frame [OF fl, of c' n rf]) (auto simp: apply_round(1))
  next
    case (flush n m ms)
    then show ?thesis using fl by (simp add: flat_def)
  next
    case (restart n rf effs)
    have "rstate rf = FOLLOWER" using recover_wf [OF p(2) [OF restart(2)], of N n] restart(3) by (auto simp: fst_def split: prod.splits)
    then have "range_ok N rf" by (simp add: range_ok_def)
    moreover have "rpc_req (orphan n r0) = rpc_req r0" "rpc_resp (orphan n r0) = rpc_resp r0" for r0 :: "('a, 'b) rpc"
      by (simp_all add: orphan_def)
    ultimately show ?thesis by (intro flat_frame [OF fl, of c' n rf]) (auto simp: restart(1))
  next
    case (kill n)
    then show ?thesis by (intro flat_frame [OF fl, of c' n "Kill (peers c n)"]) (auto simp: Kill_def range_ok_def)
  qed
qed

section \<open>Executions without snapshots\<close>

inductive plain :: "nat \<Rightarrow> ('c, 's) cluster \<Rightarrow> ('c, 's) cluster \<Rightarrow> bool" for N where
  start: "plain N c c"
| step: "plain N c c' \<Longrightarrow> no_snapshots N c' \<Longrightarrow> cstep N c' c'' \<Longrightarrow> plain N c c''"

lemma plain_inv:
  assumes "plain N c c'" and "linv N h g fl c" and "cinv N g fl c" and "flat N c"
  shows "kept N c c' \<and> flat N c' \<and> (\<exists>h' g' fl'. linv N h' g' fl' c' \<and> cinv N g' fl' c')"
  using assms
proof (induction rule: plain.induct)
  case (start c)
  then show ?case using kept.start by blast
next
  case (step c c' c'')
  then obtain h' g' fl' where i: "kept N c c'" "flat N c'" "linv N h' g' fl' c'" "cinv N g' fl' c'" by blast
  obtain g'' fl'' where s: "lstep N g' fl' c' g'' fl'' c''" using lstep_exists [OF i(3,4) step(3)] by blast
  have "cinv N g'' fl'' c''" by (rule cinv_step [OF s step(3) flat_in_range [OF i(2)]])
  moreover have "flat N c''" by (rule flat_step [OF i(2) s step(2,3)])
  moreover have "kept N c c''" by (rule kept.step [OF i(1) flat_in_range [OF i(2)] step(3)])
  ultimately show ?case using s unfolding lstep_def by blast
qed

lemma flat_init: "flat N (init_cluster N)"
  by (simp add: flat_def range_ok_def init_cluster_def Make_def Let_def dePersistState_def decodeState_def
      persister_defs)

lemma plain_kept: "plain N (init_cluster N) c \<Longrightarrow> kept N (init_cluster N) c \<and> flat N c \<and>
    (\<exists>h g fl. linv N h g fl c \<and> cinv N g fl c)"
  using plain_inv linv_init cinv_init flat_init by blast

lemma plain_later: "plain N (init_cluster N) c \<Longrightarrow> plain N c c' \<Longrightarrow> kept N c c'"
  using plain_inv plain_kept by blast

end
