(* ===== verification/Raft_Runs.thy ===== *)
theory Raft_Runs
  imports Raft_Plain
begin

text \<open>
  State machine safety without snapshots, the absence of panics, and concrete executions: those on
  which the properties are applied, and two with one compaction in which a leader panics and in which
  two services disagree.
\<close>

section \<open>Without snapshots\<close>

text \<open>
  Property C5.  State machine safety without snapshots: as long as no peer has taken or installed a
  snapshot, two services that are handed a command at the same index, at whatever times and on
  whatever peers, restarts included, are handed the same command.
\<close>

theorem state_machine_safety_without_snapshots:
  assumes "plain N (init_cluster N) c" and "plain N c c'"
    and "m \<in> set (delivered c n)" and "m' \<in> set (delivered c' n')"
    and "CommandValid m" and "CommandValid m'" and "amCommandIndex m = amCommandIndex m'"
  shows "amCommand m = amCommand m'"
  using plain_kept [OF assms(1)] plain_later [OF assms(1,2)] by (intro kept_agree [OF _ _ assms(3-7)]) simp_all

text \<open>An answer in flight is one to its request.\<close>

fun resp_fits :: "('c, 's) request \<Rightarrow> response option \<Rightarrow> bool" where
  "resp_fits (RVReq _) (Some (RVRep _)) = True"
| "resp_fits (AEReq _) (Some (AERep _)) = True"
| "resp_fits (ISReq _) (Some (ISRep _)) = True"
| "resp_fits _ (Some _) = False"
| "resp_fits _ None = True"

lemma resp_fits_None [simp]: "resp_fits req None"
  by (cases req) auto

lemma handle_fits: "handle rf req = Some (rf', rsp, effs) \<Longrightarrow> resp_fits req (Some rsp)"
  by (cases req) auto

lemma spawn_fits: "r \<in> set (spawn n effs) \<Longrightarrow> resp_fits (rpc_req r) (rpc_resp r)"
  by (auto simp: spawn_def dest: spawn1_unanswered)

lemma reachable_fits: "reachable N c \<Longrightarrow> r \<in> set (rpcs c) \<Longrightarrow> resp_fits (rpc_req r) (rpc_resp r)"
proof (induction arbitrary: r rule: reachable.induct)
  case init
  then show ?case by (simp add: init_cluster_def)
next
  case (step c c')
  from step(2,4) show ?case
  proof cases
    case (deliver k r1 n rf rsp effs)
    have "r \<in> insert (r1\<lparr>rpc_resp := Some rsp\<rparr>) (set (rpcs c))"
      using step(4) set_update_subset_insert [of "rpcs c" k] by (auto simp: deliver(1))
    then show ?thesis using step(3) handle_fits [OF deliver(6)] by auto
  next
    case (call_returns k r1 n out rf effs)
    have "r1 \<in> set (rpcs c)" using call_returns(2,3) by simp
    moreover have "r \<in> insert (r1\<lparr>rpc_live := False\<rparr>) (set (rpcs c)) \<or> r \<in> set (spawn n effs)"
      using step(4) set_update_subset_insert [of "rpcs c" k] by (auto simp: call_returns(1))
    ultimately show ?thesis using step(3) spawn_fits by auto
  next
    case (restart n rf effs)
    then show ?thesis using step(3,4) by (auto simp: orphan_def)
  qed (use step(3,4) spawn_fits in auto)
qed

lemma kept_reachable: "kept N c c' \<Longrightarrow> reachable N c \<Longrightarrow> reachable N c'"
  by (induction rule: kept.induct) (auto intro: reachable.step)

lemma recordMatch_total:
  assumes "raft_wf rf" "npeers rf = N" "j < N" "SnapshotIndex rf \<le> i" "i \<le> lastIndex rf"
  shows "recordMatch rf (int j) i \<noteq> None"
proof -
  have "slice_get (Logs rf) (i - SnapshotIndex rf) \<noteq> None"
    using assms(4,5) by (simp add: slice_get_def lastIndex_def)
  then show ?thesis
    using assms(1-3)
    by (auto simp: recordMatch_def matchCount_def slice_get_def slice_set_def raft_wf_def len_def Let_def
        logIdxGlobal2Local_def split: if_splits)
qed

lemma finish_total:
  assumes p: "peer_ok N n rf" and j: "j < N" and f: "rep rf f" and ns: "SnapshotIndex rf = 0"
    and l: "rstate rf = LEADER \<Longrightarrow> base g (CurrentTerm rf) \<noteq> None \<and> tlog g (CurrentTerm rf) = f"
    and ok: "call_ok N g c n j True req out" and fits: "resp_fits req out"
  shows "finish rf j req out \<noteq> None"
proof -
  have wf: "raft_wf rf" "length (nextIndex rf) = N" "length (matchIndex rf) = N" "npeers rf = N"
    using p by (auto simp: peer_ok_def raft_wf_def)
  have v: "sendRequestVoteAndProcess rf a reply \<noteq> None" for a reply
    using becomeLeader_eq [of "rf\<lparr>voteCount := voteCount rf + 1\<rparr>"] wf(1)
    by (auto simp: sendRequestVoteAndProcess_def Let_def raft_wf_def)
  have s: "sendSnapShotAndProcess rf args (int j) a reply \<noteq> None" for args a reply
    using wf j by (auto simp: sendSnapShotAndProcess_def slice_get_def slice_set_def len_def)
  have a: "sendAppendEntriesAndProcess rf args (int j) a reply \<noteq> None"
    if "ae_cmt N g args" "a \<Longrightarrow> acked g j args reply" for args a reply
  proof -
    have "recordMatch rf (int j) (PrevLogIndex args + len (Entries args)) \<noteq> None"
      if "a" "rstate rf = LEADER" "aerTerm reply = CurrentTerm rf" "Success reply"
    proof (rule recordMatch_total [OF wf(1,4) j])
      have "matched g rf j (PrevLogIndex args + len (Entries args))"
        by (rule acked_matched [OF _ _ _ _ f]) (use that l \<open>ae_cmt N g args\<close> \<open>a \<Longrightarrow> acked g j args reply\<close> in auto)
      then show "PrevLogIndex args + len (Entries args) \<le> lastIndex rf" by (simp add: matched_def)
      show "SnapshotIndex rf \<le> PrevLogIndex args + len (Entries args)"
        using ns \<open>ae_cmt N g args\<close> by (simp add: ae_cmt_def len_def)
    qed
    then show ?thesis
      using wf j by (auto simp: sendAppendEntriesAndProcess_def slice_get_def slice_set_def len_def)
  qed
  show ?thesis
    by (cases "(rf, j, req, out)" rule: finish.cases) (use v s a ok fits in auto)
qed

text \<open>
  Property C19.  No panic without snapshots: in every state of an execution in which no peer has a
  snapshot, every critical section of every peer runs without an index out of range: a call that
  returns with its answer or fails is processed, committed entries are applied, and a leader's check
  of a follower sends.
\<close>

theorem no_panic_without_snapshots:
  assumes "plain N (init_cluster N) c" and "no_snapshots N c" and "n < N"
  shows "applyLogEntryDaemon (peers c n) \<noteq> None \<and>
    (\<forall>to < N. checkConsistency (peers c n) (int to) \<noteq> None) \<and>
    (\<forall>r \<in> set (rpcs c). rpc_src r = n \<and> rpc_live r \<longrightarrow>
       finish (peers c n) (rpc_dst r) (rpc_req r) (rpc_resp r) \<noteq> None)"
proof -
  obtain h g fl where k: "kept N (init_cluster N) c" and inv: "linv N h g fl c" "cinv N g fl c"
    using plain_kept [OF assms(1)] by blast
  let ?rf = "peers c n"
  note p = linvD(6) [OF inv(1) assms(3)] and r = linvD(5) [OF inv(1) assms(3)] and l = linvD(9) [OF inv(1) assms(3)]
  have wf: "raft_wf ?rf" "npeers ?rf = N" using p by (auto simp: peer_ok_def)
  have ns: "SnapshotIndex ?rf = 0" using assms(2,3) by (simp add: no_snapshots_def)
  have "cmt N g (CurrentTerm ?rf) (nat (commitIndex ?rf)) (fl n)"
    using inv(2) assms(3) by (auto simp: cinv_def pinv_def counters_def)
  then have "commitIndex ?rf \<le> lastIndex ?rf" using cmt_length rep_lastIndex [OF r] by fastforce
  then have "applyLogEntryDaemon ?rf \<noteq> None" by (simp add: applyLogEntryDaemon_def applyLoop_spec)
  moreover have "checkConsistency ?rf (int to) \<noteq> None" if "to < N" for to
    using that wf by (auto simp: checkConsistency_def Let_def slice_get_def slice_from_def raft_wf_def len_def
        logIdxGlobal2Local_def)
  moreover have "finish ?rf (rpc_dst r) (rpc_req r) (rpc_resp r) \<noteq> None"
    if "r \<in> set (rpcs c)" "rpc_src r = n" "rpc_live r" for r
  proof (rule finish_total [OF p _ linvD(5) [OF inv(1) assms(3)] ns l])
    show "call_ok N g c n (rpc_dst r) True (rpc_req r) (rpc_resp r)"
      using inv(2) that by (auto simp: cinv_def rpc_cmt_def)
    show "rpc_dst r < N" using linvD(4) [OF inv(1)] that(1) by (auto simp: base_inv_def rpc_ok_def)
    show "resp_fits (rpc_req r) (rpc_resp r)"
      by (rule reachable_fits [OF kept_reachable [OF k reachable.init] that(1)])
  qed
  ultimately show ?thesis by blast
qed

section \<open>Executions that stay in range\<close>

lemma in_range_code [code]: "in_range N c \<longleftrightarrow> list_all (\<lambda>n. rstate (peers c n) = LEADER \<longrightarrow>
     list_all (\<lambda>to. nextIndex (peers c n) ! to \<le> lastIndex (peers c n) + 1) [0..<N]) [0..<N]"
  by (auto simp: in_range_def list_all_iff)

lemma no_snapshots_code [code]: "no_snapshots N c \<longleftrightarrow> list_all (\<lambda>n. SnapshotIndex (peers c n) = 0) [0..<N]"
  by (auto simp: no_snapshots_def list_all_iff)

fun run_kept :: "nat \<Rightarrow> ('c, 's) cluster \<Rightarrow> ('c, 's) event list \<Rightarrow> bool" where
  "run_kept N c [] = True"
| "run_kept N c (ev # evs) = (in_range N c \<and>
     (case exec N c ev of None \<Rightarrow> False | Some c' \<Rightarrow> run_kept N c' evs))"

fun run_plain :: "nat \<Rightarrow> ('c, 's) cluster \<Rightarrow> ('c, 's) event list \<Rightarrow> bool" where
  "run_plain N c [] = True"
| "run_plain N c (ev # evs) = (no_snapshots N c \<and>
     (case exec N c ev of None \<Rightarrow> False | Some c' \<Rightarrow> run_plain N c' evs))"

lemma run_kept_kept: "kept N a c \<Longrightarrow> run_kept N c evs \<Longrightarrow> kept N a (the (run N c evs))"
  by (induction evs arbitrary: c) (auto split: option.splits intro: kept.step dest: exec_sound)

lemma run_plain_plain: "plain N a c \<Longrightarrow> run_plain N c evs \<Longrightarrow> plain N a (the (run N c evs))"
  by (induction evs arbitrary: c) (auto split: option.splits intro: plain.step dest: exec_sound)

lemma trace_kept: "run_kept N (init_cluster N) evs \<Longrightarrow> kept N (init_cluster N) (trace N evs)"
  unfolding trace_def by (rule run_kept_kept [OF kept.start])

lemma trace_plain: "run_plain N (init_cluster N) evs \<Longrightarrow> plain N (init_cluster N) (trace N evs)"
  unfolding trace_def by (rule run_plain_plain [OF plain.start])

text \<open>
  Peer 0 is elected, replicates two commands to peer 1, both apply the first; then peer 0 compacts
  its log, and peer 2 receives the snapshot.
\<close>

definition replicate_both :: "(string, int) event list" where
  "replicate_both = [Timeout 0, Deliver 0, CallReturns 0 False, Submit 0 (Some ''x''), CheckPeer 0 1, Deliver 2,
     CallReturns 2 False, ApplyRound 0, Submit 0 (Some ''y''), CheckPeer 0 1, Deliver 3, ApplyRound 1]"

definition then_compact :: "(string, int) event list" where
  "then_compact = [CompactPeer 0 1 [7], CallReturns 3 False, ApplyRound 0, Restart 1, CheckPeer 0 1, Deliver 4, ApplyRound 1]"

definition applied_at :: "('c, 's) cluster \<Rightarrow> nat \<Rightarrow> (int \<times> 'c option) list" where
  "applied_at c n = map (\<lambda>m. (amCommandIndex m, amCommand m)) (filter CommandValid (delivered c n))"

theorem state_machine_safety_witness:
  "let c = trace 3 replicate_both; c' = the (run 3 c then_compact)
   in delivered c 0 \<noteq> [] \<and> delivered c' 1 \<noteq> [] \<and> amCommand (delivered c 0 ! 0) = amCommand (delivered c' 1 ! 0)"
proof -
  let ?c = "trace 3 replicate_both"
  let ?c' = "the (run 3 ?c then_compact)"
  have d: "0 < length (delivered ?c 0)" "0 < length (delivered ?c' 1)" by code_simp+
  have "amCommand (delivered ?c 0 ! 0) = amCommand (delivered ?c' 1 ! 0)"
  proof (rule state_machine_safety [of 3 ?c ?c' _ 0 _ 1, OF _ _ nth_mem [OF d(1)] nth_mem [OF d(2)]])
    show "kept 3 (init_cluster 3) ?c" by (rule trace_kept) code_simp
    show "kept 3 ?c ?c'" by (rule run_kept_kept [OF kept.start]) code_simp
  qed code_simp+
  then show ?thesis using d by (simp add: Let_def)
qed

definition then_restart :: "(string, int) event list" where
  "then_restart = [CallReturns 3 False, ApplyRound 0, Restart 1, CheckPeer 0 1, Deliver 4, ApplyRound 1]"

theorem state_machine_safety_without_snapshots_witness:
  "let c = trace 3 replicate_both; c' = the (run 3 c then_restart)
   in delivered c 0 \<noteq> [] \<and> delivered c' 1 \<noteq> [] \<and> amCommand (delivered c 0 ! 0) = amCommand (delivered c' 1 ! 0)"
proof -
  let ?c = "trace 3 replicate_both"
  let ?c' = "the (run 3 ?c then_restart)"
  have d: "0 < length (delivered ?c 0)" "0 < length (delivered ?c' 1)" by code_simp+
  have "amCommand (delivered ?c 0 ! 0) = amCommand (delivered ?c' 1 ! 0)"
  proof (rule state_machine_safety_without_snapshots [of 3 ?c ?c' _ 0 _ 1, OF _ _ nth_mem [OF d(1)] nth_mem [OF d(2)]])
    show "plain 3 (init_cluster 3) ?c" by (rule trace_plain) code_simp
    show "plain 3 ?c ?c'" by (rule run_plain_plain [OF plain.start]) code_simp
  qed code_simp+
  then show ?thesis using d by (simp add: Let_def)
qed

theorem no_panic_without_snapshots_witness:
  "applyLogEntryDaemon (peers (trace 3 replicate_both) 0) \<noteq> None \<and>
   finish (peers (trace 3 replicate_both) 0) 1 (rpc_req (rpcs (trace 3 replicate_both) ! 3))
     (rpc_resp (rpcs (trace 3 replicate_both) ! 3)) \<noteq> None"
proof -
  let ?c = "trace 3 replicate_both"
  have pl: "plain 3 (init_cluster 3) ?c" by (rule trace_plain) code_simp
  have ns: "no_snapshots 3 ?c" by code_simp
  have k: "3 < length (rpcs ?c)" by code_simp
  have r: "rpc_src (rpcs ?c ! 3) = 0 \<and> rpc_live (rpcs ?c ! 3)" "rpc_dst (rpcs ?c ! 3) = 1" by code_simp+
  have n: "(0::nat) < 3" by simp
  note np = no_panic_without_snapshots [OF pl ns n]
  then have "finish (peers ?c 0) (rpc_dst (rpcs ?c ! 3)) (rpc_req (rpcs ?c ! 3)) (rpc_resp (rpcs ?c ! 3)) \<noteq> None"
    using nth_mem [OF k] r(1) by blast
  then show ?thesis using np unfolding r(2) by blast
qed

section \<open>What a snapshot can break\<close>

text \<open>
  A follower whose snapshot covers the index it is asked about answers with the index after its own
  last entry (\<^verbatim>\<open>appendentries_rpc.go\<close>), which may be beyond the log of the leader.  The leader then
  sends a request that names that index but the term of its own last entry.  A follower that has an
  entry of that term there accepts it, and the leader counts entries as replicated that the follower
  does not have.  In the execution below, peer 1 (leader of term 2) replicates A to peer 0, applies and
  compacts it, and appends B; peer 0 becomes leader of term 3 with A alone, a delayed request of its
  first term resets its \<open>nextIndex\<close> for peer 1, and peer 1 answers the next request from behind its
  snapshot.
\<close>

definition divergence :: "(string, int) event list" where
  "divergence = [
     Timeout 0, Deliver 1, CallReturns 1 False, CheckPeer 0 1,
     Timeout 1, Timeout 1, Deliver 6, CallReturns 6 False,
     Submit 1 (Some ''A''), CheckPeer 1 0, Deliver 7, CallReturns 7 False, ApplyRound 1, CompactPeer 1 1 [7],
     Submit 1 (Some ''B''),
     Timeout 0, Deliver 9, CallReturns 9 False, Deliver 8,
     Deliver 2, CallReturns 2 False,
     CheckPeer 0 1, Deliver 10, CallReturns 10 False,
     CheckPeer 0 1, Deliver 11, Submit 0 (Some ''C''), CallReturns 11 False, ApplyRound 0,
     Timeout 1, Deliver 13, CallReturns 13 False, Submit 1 (Some ''D''),
     CheckPeer 1 2, Deliver 14, CallReturns 14 False, CheckPeer 1 2, Deliver 15, CallReturns 15 False,
     CheckPeer 1 2, Deliver 16, CallReturns 16 False, ApplyRound 1]"

text \<open>
  Property C10.  With snapshots the services of two peers can be handed different commands at the same
  index: there is a reachable state of three peers, after one compaction, in which peer 0 has applied C
  at index 2 and peer 1 has applied B there.
\<close>

theorem snapshots_break_safety:
  "reachable 3 (trace 3 divergence) \<and> (2, Some ''C'') \<in> set (applied_at (trace 3 divergence) 0) \<and>
   (2, Some ''B'') \<in> set (applied_at (trace 3 divergence) 1)"
proof (intro conjI)
  show "reachable 3 (trace 3 divergence)" by (rule trace_reachable) code_simp
qed code_simp+

text \<open>
  With snapshots a leader can panic: in the same execution, before C is submitted, the
  accepted answer to the request beyond the leader's log makes it index its log out of range.
\<close>

theorem snapshots_make_leader_panic:
  "reachable 3 (trace 3 (take 26 divergence)) \<and>
   (let c = trace 3 (take 26 divergence); r = rpcs c ! 11; n = rpc_src r
    in rpc_live r \<and> rpc_resp r \<noteq> None \<and> rstate (peers c n) = LEADER \<and>
       finish (peers c n) (rpc_dst r) (rpc_req r) (rpc_resp r) = None)"
proof (intro conjI)
  show "reachable 3 (trace 3 (take 26 divergence))" by (rule trace_reachable) code_simp
qed code_simp

end
