(* ===== verification/Raft_Types.thy ===== *)
theory Raft_Types
  imports Raft_Runs
begin

text \<open>
  The shape of the state of a cluster: the sizes of the slices, the numbering of the log and the form of the
  calls and replies on the network, in every reachable state.
\<close>

text \<open>
  Property C9.  The state of a cluster is well formed in every reachable state, through elections, replication,
  snapshots, lost calls and restarts.  A peer has a log that is never empty and whose entry at position \<open>i\<close> is the
  one of index \<^term>\<open>SnapshotIndex rf + int i\<close>, a \<^verbatim>\<open>nextIndex\<close> and a \<^verbatim>\<open>matchIndex\<close> for every peer, and on its persister
  exactly its term, vote, snapshot index and log.  A call goes from one peer to another one under the sender's
  name, never with a term the sender has not reached, its entries are numbered on from \<^verbatim>\<open>PrevLogIndex\<close>, and a
  reply is of the type of its request.
\<close>

theorem reachable_well_formed:
  assumes "reachable N c"
  shows "(n < N \<longrightarrow> (let rf = peers c n in
      Logs rf \<noteq> [] \<and> (i < length (Logs rf) \<longrightarrow> GlobalIndex (Logs rf ! i) = SnapshotIndex rf + int i) \<and>
      0 \<le> SnapshotIndex rf \<and> npeers rf = N \<and> me rf = int n \<and>
      length (nextIndex rf) = N \<and> length (matchIndex rf) = N \<and>
      recover (persister rf) = (CurrentTerm rf, VotedFor rf, SnapshotIndex rf, Logs rf))) \<and>
    (r \<in> set (rpcs c) \<longrightarrow>
      rpc_src r < N \<and> rpc_dst r < N \<and> rpc_dst r \<noteq> rpc_src r \<and> resp_fits (rpc_req r) (rpc_resp r) \<and>
      req_term (rpc_req r) \<le> CurrentTerm (peers c (rpc_src r)) \<and>
      (case rpc_req r of
         RVReq args \<Rightarrow> CandidateID args = int (rpc_src r)
       | ISReq args \<Rightarrow> isLeaderID args = int (rpc_src r)
       | AEReq args \<Rightarrow> aeLeaderID args = int (rpc_src r) \<and>
           (\<forall>j < length (Entries args). GlobalIndex (Entries args ! j) = PrevLogIndex args + 1 + int j)))"
proof -
  have b: "base_inv N c" by (rule reachable_base_inv [OF assms])
  have "peer_ok N n (peers c n)" if "n < N" using b that by (simp add: base_inv_def)
  moreover have "rpc_ok N (peers c) r \<and> resp_fits (rpc_req r) (rpc_resp r)" if "r \<in> set (rpcs c)"
    using b that reachable_fits [OF assms that] by (simp add: base_inv_def)
  ultimately show ?thesis
    by (auto simp: peer_ok_def raft_wf_def durable_def rpc_ok_def indexed_from_def args_indexed_def Let_def
        split: request.splits)
qed

theorem reachable_well_formed_witness:
  "let c = trace 3 [Timeout 0, Deliver 0, CallReturns 0 False, Submit 0 (Some 7), CheckPeer 0 2] :: (int, int) cluster in
   reachable 3 c \<and> map GlobalIndex (Logs (peers c 0)) = [0, 1] \<and> length (nextIndex (peers c 0)) = 3 \<and>
   rpc_dst (rpcs c ! 2) \<noteq> rpc_src (rpcs c ! 2)"
proof -
  let ?c = "trace 3 [Timeout 0, Deliver 0, CallReturns 0 False, Submit 0 (Some 7), CheckPeer 0 2] :: (int, int) cluster"
  have r: "reachable 3 ?c" by (rule trace_reachable) code_simp
  have "2 < length (rpcs ?c)" by code_simp
  then have "rpcs ?c ! 2 \<in> set (rpcs ?c)" by simp
  with reachable_well_formed [OF r, of 0 0 "rpcs ?c ! 2"]
  have w: "length (nextIndex (peers ?c 0)) = 3" "rpc_dst (rpcs ?c ! 2) \<noteq> rpc_src (rpcs ?c ! 2)"
    by (auto simp: Let_def)
  have "map GlobalIndex (Logs (peers ?c 0)) = [0, 1]" by code_simp
  with r w show ?thesis by (simp add: Let_def)
qed

end
