(* ===== verification/Raft_Examples.thy ===== *)
theory Raft_Examples
  imports Raft_Snapshot
begin

text \<open>
  Concrete peers and requests on which the properties of the handlers and of the log
  operations are applied.
\<close>

definition demoEntry :: "int \<Rightarrow> int \<Rightarrow> int LogEntry" where
  "demoEntry i t = \<lparr>GlobalIndex = i, Term = t, Command = Some (10 * i)\<rparr>"

definition demoPeer :: "(int, int) Raft" where
  "demoPeer = \<lparr>npeers = 3, persister = MakePersister, me = 1, CurrentTerm = 2, VotedFor = -1,
     Logs = [\<lparr>GlobalIndex = 0, Term = 0, Command = None\<rparr>, demoEntry 1 1, demoEntry 2 2, demoEntry 3 2],
     SnapshotIndex = 0, commitIndex = 1, lastApplied = 0, nextIndex = [4, 4, 4],
     matchIndex = [0, 3, 0], rstate = FOLLOWER, voteCount = 0\<rparr>"

lemma demoPeer_wf: "raft_wf demoPeer"
  by (simp add: raft_wf_def demoPeer_def demoEntry_def indexed_from_def nth_Cons split: nat.splits)

definition demoAppend :: "int \<Rightarrow> int \<Rightarrow> int LogEntry list \<Rightarrow> int AppendEntriesArgs" where
  "demoAppend i t es = \<lparr>aeTerm = 3, aeLeaderID = 0, PrevLogIndex = i, PrevLogTerm = t,
     Entries = es, LeaderCommit = 1\<rparr>"

section \<open>AppendEntries\<close>

theorem append_entries_agreement_witness:
  "\<exists>rf' reply effs. AppendEntries demoPeer (demoAppend 1 1 [demoEntry 2 3]) = Some (rf', reply, effs) \<and>
     Success reply \<and> termAt rf' 1 = Some 1 \<and> entryAt rf' 1 = entryAt demoPeer 1 \<and> termAt rf' 2 = Some 3"
proof -
  let ?a = "demoAppend 1 1 [demoEntry 2 3]"
  have "case AppendEntries demoPeer ?a of Some (rf', reply, effs) \<Rightarrow> Success reply | None \<Rightarrow> False"
    by code_simp
  then obtain rf' reply effs where
    r: "AppendEntries demoPeer ?a = Some (rf', reply, effs)" "Success reply"
    by (auto split: option.splits)
  from append_entries_agreement [OF r] r show ?thesis
    by (intro exI [of _ rf'] exI [of _ reply] exI [of _ effs])
       (auto simp: demoAppend_def demoEntry_def)
qed

theorem append_entries_truncates_only_on_conflict_witness:
  "\<exists>rf' reply effs. AppendEntries demoPeer (demoAppend 1 1 [demoEntry 2 3]) = Some (rf', reply, effs) \<and>
     entryAt demoPeer 3 = Some (demoEntry 3 2) \<and> entryAt rf' 3 = None \<and>
     Success reply \<and> lastIndex rf' = 2"
proof -
  let ?a = "demoAppend 1 1 [demoEntry 2 3]"
  have "case AppendEntries demoPeer ?a of Some (rf', reply, effs) \<Rightarrow> entryAt rf' 3 = None | None \<Rightarrow> False"
    by code_simp
  then obtain rf' reply effs where
    r: "AppendEntries demoPeer ?a = Some (rf', reply, effs)" "entryAt rf' 3 = None"
    by (auto split: option.splits)
  have e: "entryAt demoPeer 3 = Some (demoEntry 3 2)" by code_simp
  from append_entries_truncates_only_on_conflict [OF r(1) e] r e show ?thesis
    by (intro exI [of _ rf'] exI [of _ reply] exI [of _ effs])
       (auto simp: demoAppend_def len_def)
qed

theorem append_entries_conflict_index_witness:
  "\<exists>rf' reply effs. AppendEntries demoPeer (demoAppend 3 1 []) = Some (rf', reply, effs) \<and>
     \<not> Success reply \<and> entryAt rf' 3 = Some (demoEntry 3 2) \<and> ConflictIndex reply \<le> 3 \<and>
     termAt demoPeer (ConflictIndex reply) = Some 2 \<and> termAt demoPeer (ConflictIndex reply - 1) \<noteq> Some 2"
proof -
  let ?a = "demoAppend 3 1 []"
  have "case AppendEntries demoPeer ?a of Some (rf', reply, effs) \<Rightarrow> \<not> Success reply | None \<Rightarrow> False"
    by code_simp
  then obtain rf' reply effs where
    r: "AppendEntries demoPeer ?a = Some (rf', reply, effs)" "\<not> Success reply"
    by (auto split: option.splits)
  have t: "CurrentTerm demoPeer \<le> aeTerm ?a" by (simp add: demoPeer_def demoAppend_def)
  have e: "entryAt demoPeer 3 = Some (demoEntry 3 2)" "termAt demoPeer 3 = Some 2" "termAt demoPeer 0 = Some 0"
    by code_simp+
  have s: "SnapshotIndex demoPeer = 0" "PrevLogIndex ?a = 3" by (simp_all add: demoPeer_def demoAppend_def)
  note c = append_entries_conflict_index [OF r t]
  have "termAt demoPeer (ConflictIndex reply) = Some 2" "ConflictIndex reply \<le> 3" "0 \<le> ConflictIndex reply"
    using c e s by auto
  moreover from this e(3) have "ConflictIndex reply \<noteq> 0" by auto
  ultimately show ?thesis using c e s r by (intro exI [of _ rf'] exI [of _ reply] exI [of _ effs]) auto
qed

section \<open>Committing\<close>

theorem leader_commit_rule_witness:
  "let rf = demoPeer\<lparr>rstate := LEADER\<rparr>;
       reply = \<lparr>aerTerm = 2, Success = True, ConflictIndex = 0\<rparr> in
   \<exists>rf' effs. sendAppendEntriesAndProcess rf (demoAppend 2 2 [demoEntry 3 2]) 2 True reply = Some (rf', effs) \<and>
     commitIndex rf' = 3 \<and> termAt rf' (commitIndex rf') = Some (CurrentTerm rf') \<and> effs = [CommitSignal]"
proof -
  let ?rf = "demoPeer\<lparr>rstate := LEADER\<rparr>"
  let ?reply = "\<lparr>aerTerm = 2, Success = True, ConflictIndex = 0\<rparr>"
  let ?a = "demoAppend 2 2 [demoEntry 3 2]"
  have "case sendAppendEntriesAndProcess ?rf ?a 2 True ?reply of
      Some (rf', effs) \<Rightarrow> commitIndex rf' = 3 | None \<Rightarrow> False"
    by code_simp
  then obtain rf' effs where r: "sendAppendEntriesAndProcess ?rf ?a 2 True ?reply = Some (rf', effs)"
    and c: "commitIndex rf' = 3"
    by (auto split: option.splits)
  have "commitIndex rf' \<noteq> commitIndex ?rf" "length (matchIndex ?rf) = npeers ?rf"
    using c by (simp_all add: demoPeer_def)
  from leader_commit_rule [OF r this] r c show ?thesis unfolding Let_def by blast
qed

section \<open>Snapshots\<close>

theorem compact_keeps_suffix_witness:
  "\<exists>rf'. Compact demoPeer 2 [5] = Some rf' \<and> SnapshotIndex rf' = 2 \<and> termAt rf' 2 = Some 2 \<and>
     entryAt rf' 3 = Some (demoEntry 3 2) \<and> snapshot (persister rf') = [5]"
proof -
  have "Compact demoPeer 2 [5] \<noteq> None" by code_simp
  then obtain rf' where r: "Compact demoPeer 2 [5] = Some rf'" by blast
  have "SnapshotIndex demoPeer < 2" "2 \<le> lastIndex demoPeer" by code_simp+
  note c = compact_keeps_suffix [OF demoPeer_wf r this]
  have "termAt demoPeer 2 = Some 2" "entryAt demoPeer 3 = Some (demoEntry 3 2)" by code_simp+
  with c r show ?thesis by (intro exI [of _ rf']) auto
qed

theorem install_snapshot_effect_witness:
  "let args = \<lparr>isTerm = 3, isLeaderID = 0, LastIncludedIndex = 2, LastIncludedTerm = 2, isSnapshot = [5]\<rparr> in
   \<exists>rf' reply effs. InstallSnapShot demoPeer args = Some (rf', reply, effs) \<and> SnapshotIndex rf' = 2 \<and>
     entryAt rf' 3 = Some (demoEntry 3 2) \<and> snapshot (persister rf') = [5] \<and>
     effs = ResetTimer # notifyAppUseNewSnapShot [5]"
proof -
  let ?a = "\<lparr>isTerm = 3, isLeaderID = 0, LastIncludedIndex = 2, LastIncludedTerm = 2, isSnapshot = [5]\<rparr>"
  have "InstallSnapShot demoPeer ?a \<noteq> None" by code_simp
  then obtain rf' reply effs where r: "InstallSnapShot demoPeer ?a = Some (rf', reply, effs)" by auto
  have "CurrentTerm demoPeer \<le> isTerm ?a" "SnapshotIndex demoPeer < LastIncludedIndex ?a"
    "commitIndex demoPeer < LastIncludedIndex ?a"
    by (simp_all add: demoPeer_def)
  note c = install_snapshot_effect [OF demoPeer_wf r this]
  have "termAt demoPeer 2 = Some 2" "entryAt demoPeer 3 = Some (demoEntry 3 2)" by code_simp+
  with c r show ?thesis
    unfolding Let_def by (intro exI [of _ rf'] exI [of _ reply] exI [of _ effs]) auto
qed

theorem apply_daemon_in_order_witness:
  "let rf = demoPeer\<lparr>commitIndex := 3, lastApplied := 1\<rparr> in
   applyLogEntryDaemon rf = Some (rf\<lparr>lastApplied := 3\<rparr>, [applied rf 2, applied rf 3])"
proof -
  let ?rf = "demoPeer\<lparr>commitIndex := 3, lastApplied := 1\<rparr>"
  have "commitIndex ?rf \<le> lastIndex ?rf" by code_simp
  moreover have "[2..3 :: int] = [2, 3]" by (simp add: upto.simps)
  ultimately show ?thesis
    unfolding Let_def using apply_daemon_in_order [of ?rf] by (simp add: demoPeer_def)
qed

end
