(* ===== verification/KV_Server.thy ===== *)
theory KV_Server
  imports Raft_State "HOL-Library.Word"
begin

text \<open>
  The key/value server (\<^verbatim>\<open>kvraft/server.go\<close>, \<^verbatim>\<open>kvraft/common.go\<close>): the replicated state
  machine that applies what Raft delivers, and the RPC handlers that submit operations to Raft
  and wait for them.  The channels in \<^verbatim>\<open>applyStub\<close> are references that a waiting handler keeps
  after the map entry is gone, so they live in a store and the map holds their addresses.
\<close>

section \<open>Data\<close>

definition OK :: string where "OK = ''OK''"
definition ErrNoKey :: string where "ErrNoKey = ''ErrNoKey''"
definition ErrFail :: string where "ErrFail = ''ErrFail''"

definition GET :: string where "GET = ''Get''"
definition PUT :: string where "PUT = ''Put''"
definition APPEND :: string where "APPEND = ''Append''"

type_synonym uint64 = "64 word"

record Op =
  CmdType :: string
  Key :: string
  Val :: string
  ClientID :: uint64
  CmdID :: uint64

record DoneMsg =
  dmClientID :: uint64
  dmCmdID :: uint64

record PutAppendArgs =
  paKey :: string
  paValue :: string
  paOp :: string
  paClientID :: uint64
  paCmdID :: uint64

record PutAppendReply =
  parWrongLeader :: bool
  parErr :: string

record GetArgs =
  gaKey :: string
  gaClientID :: uint64
  gaCmdID :: uint64

record GetReply =
  grWrongLeader :: bool
  grErr :: string
  grValue :: string

type_synonym dupmap = "uint64 \<rightharpoonup> uint64"
type_synonym kvdb = "string \<rightharpoonup> string"

text \<open>A channel of capacity one.\<close>

record chan =
  chBuf :: "DoneMsg option"
  chClosed :: bool

record KVServer =
  kvMe :: int
  maxraftstate :: int
  DupMap :: dupmap
  applyStub :: "int \<rightharpoonup> nat"
  Kvdb :: kvdb
  chans :: "chan list"

section \<open>Snapshots\<close>

datatype snapval = SnapKvdb kvdb | SnapDup dupmap

definition enc_kvdb :: "kvdb \<Rightarrow> snapval list" where
  "enc_kvdb m = [SnapKvdb m]"

fun dec_kvdb :: "snapval list \<Rightarrow> (kvdb \<times> snapval list) option" where
  "dec_kvdb (SnapKvdb m # ts) = Some (m, ts)"
| "dec_kvdb _ = None"

definition enc_dup :: "dupmap \<Rightarrow> snapval list" where
  "enc_dup m = [SnapDup m]"

fun dec_dup :: "snapval list \<Rightarrow> (dupmap \<times> snapval list) option" where
  "dec_dup (SnapDup m # ts) = Some (m, ts)"
| "dec_dup _ = None"

interpretation snap_codec: codec_pair enc_kvdb dec_kvdb enc_dup dec_dup
  by unfold_locales (simp_all add: enc_kvdb_def enc_dup_def)

definition encodeSnapshot :: "KVServer \<Rightarrow> snapval list" where
  "encodeSnapshot kv = enc_kvdb (Kvdb kv) @ enc_dup (DupMap kv)"

text \<open>
  Both maps are made empty first and the errors of the decoder are ignored, so that a map that
  cannot be read stays empty.
\<close>

definition installSnapshot :: "KVServer \<Rightarrow> snapval list \<Rightarrow> KVServer" where
  "installSnapshot kv snap =
     (let kv = kv\<lparr>Kvdb := Map.empty, DupMap := Map.empty\<rparr>;
          (kv, rest) = (case dec_kvdb snap of
             None \<Rightarrow> (kv, snap) | Some (m, rest) \<Rightarrow> (kv\<lparr>Kvdb := m\<rparr>, rest))
      in case dec_dup rest of None \<Rightarrow> kv | Some (m, _) \<Rightarrow> kv\<lparr>DupMap := m\<rparr>)"

section \<open>Channels\<close>

definition zeroMsg :: DoneMsg where
  "zeroMsg = \<lparr>dmClientID = 0, dmCmdID = 0\<rparr>"

definition chanSend :: "chan \<Rightarrow> DoneMsg \<Rightarrow> chan outcome" where
  "chanSend ch m =
     (if chClosed ch then Panics
      else if chBuf ch \<noteq> None then Blocks
      else Done (ch\<lparr>chBuf := Some m\<rparr>))"

definition chanRecv :: "chan \<Rightarrow> (chan \<times> DoneMsg) outcome" where
  "chanRecv ch =
     (case chBuf ch of
        Some m \<Rightarrow> Done (ch\<lparr>chBuf := None\<rparr>, m)
      | None \<Rightarrow> if chClosed ch then Done (ch, zeroMsg) else Blocks)"

definition chanClose :: "chan \<Rightarrow> chan outcome" where
  "chanClose ch = (if chClosed ch then Panics else Done (ch\<lparr>chClosed := True\<rparr>))"

text \<open>The channel at an index of the log, made when there is none.\<close>

definition stubFor :: "KVServer \<Rightarrow> int \<Rightarrow> KVServer \<times> nat" where
  "stubFor kv idx =
     (case applyStub kv idx of
        Some a \<Rightarrow> (kv, a)
      | None \<Rightarrow> (kv\<lparr>chans := chans kv @ [\<lparr>chBuf = None, chClosed = False\<rparr>],
                    applyStub := (applyStub kv)(idx \<mapsto> length (chans kv))\<rparr>,
                 length (chans kv)))"

section \<open>The state machine\<close>

definition seenCmd :: "KVServer \<Rightarrow> uint64 \<Rightarrow> uint64 \<Rightarrow> bool" where
  "seenCmd kv clientID cmdID =
     (case DupMap kv clientID of None \<Rightarrow> False | Some lastCmd \<Rightarrow> cmdID \<le> lastCmd)"

definition lookupDefault :: "kvdb \<Rightarrow> string \<Rightarrow> string" where
  "lookupDefault m k = (case m k of None \<Rightarrow> '''' | Some v \<Rightarrow> v)"

definition enactOp :: "KVServer \<Rightarrow> Op \<Rightarrow> KVServer" where
  "enactOp kv operation =
     (if (case DupMap kv (ClientID operation) of
            None \<Rightarrow> True | Some recordedCmdID \<Rightarrow> recordedCmdID < CmdID operation)
      then let kv = (if CmdType operation = PUT
                     then kv\<lparr>Kvdb := (Kvdb kv)(Key operation \<mapsto> Val operation)\<rparr>
                     else if CmdType operation = APPEND
                     then kv\<lparr>Kvdb := (Kvdb kv)(Key operation \<mapsto>
                              lookupDefault (Kvdb kv) (Key operation) @ Val operation)\<rparr>
                     else kv)
           in kv\<lparr>DupMap := (DupMap kv)(ClientID operation \<mapsto> CmdID operation)\<rparr>
      else kv)"

datatype kveffect = GoCompact int "snapval list"

text \<open>
  \<open>stateSize\<close> is what \<^verbatim>\<open>kv.rf.GetStateSize()\<close> returns, a number of bytes.
\<close>

definition dealWithApplyMsg ::
    "KVServer \<Rightarrow> int \<Rightarrow> (Op, snapval) ApplyMsg \<Rightarrow> (KVServer \<times> kveffect list) outcome" where
  "dealWithApplyMsg kv stateSize appliedMsg =
     (if CommandValid appliedMsg then
        (case amCommand appliedMsg of
           None \<Rightarrow> Panics
         | Some operation \<Rightarrow>
             let kv = enactOp kv operation;
                 (kv, a) = stubFor kv (amCommandIndex appliedMsg);
                 ch = chans kv ! a;
                 ch = (case chanRecv ch of Done (ch', _) \<Rightarrow> ch' | _ \<Rightarrow> ch)
             in case chanSend ch \<lparr>dmClientID = ClientID operation, dmCmdID = CmdID operation\<rparr> of
                  Blocks \<Rightarrow> Blocks
                | Panics \<Rightarrow> Panics
                | Done ch \<Rightarrow>
                    let kv = kv\<lparr>chans := (chans kv)[a := ch]\<rparr>
                    in Done (kv, if maxraftstate kv \<noteq> -1 \<and> stateSize \<ge> maxraftstate kv
                                 then [GoCompact (amCommandIndex appliedMsg) (encodeSnapshot kv)]
                                 else []))
      else Done (installSnapshot kv (SnapShot appliedMsg), []))"

section \<open>Waiting for an operation\<close>

text \<open>
  \<^verbatim>\<open>enterOperation\<close> in its pieces: after \<^verbatim>\<open>Start\<close> returned an index, it takes the channel of
  that index under the mutex; it receives from the channel, or times out; and after a
  matching message it closes the channel and, under the mutex again, deletes the entry.
\<close>

definition enterRegister :: "KVServer \<Rightarrow> int \<Rightarrow> KVServer \<times> nat" where
  "enterRegister kv raftIdx = stubFor kv raftIdx"

definition enterReceive :: "KVServer \<Rightarrow> nat \<Rightarrow> Op \<Rightarrow> (KVServer \<times> bool) outcome" where
  "enterReceive kv a operation =
     (case chanRecv (chans kv ! a) of
        Blocks \<Rightarrow> Blocks
      | Panics \<Rightarrow> Panics
      | Done (ch, doneMsg) \<Rightarrow>
          if dmClientID doneMsg = ClientID operation \<and> dmCmdID doneMsg = CmdID operation then
            (case chanClose ch of
               Done ch \<Rightarrow> Done (kv\<lparr>chans := (chans kv)[a := ch]\<rparr>, True)
             | Panics \<Rightarrow> Panics
             | Blocks \<Rightarrow> Blocks)
          else
            (case chanSend ch doneMsg of
               Done ch \<Rightarrow> Done (kv\<lparr>chans := (chans kv)[a := ch]\<rparr>, False)
             | Panics \<Rightarrow> Panics
             | Blocks \<Rightarrow> Blocks))"

definition enterDelete :: "KVServer \<Rightarrow> int \<Rightarrow> KVServer" where
  "enterDelete kv raftIdx = kv\<lparr>applyStub := (applyStub kv)(raftIdx := None)\<rparr>"

section \<open>The RPC handlers\<close>

text \<open>
  \<^verbatim>\<open>Get\<close> and \<^verbatim>\<open>PutAppend\<close> before and after the wait: the first part asks Raft and the
  duplicate table and either has its answer or has an operation to enter; the last part
  builds the reply.
\<close>

datatype prologue = Answer bool | Enter Op

definition prologueOf :: "KVServer \<Rightarrow> bool \<Rightarrow> Op \<Rightarrow> prologue" where
  "prologueOf kv isLeader operation =
     (let opDone = seenCmd kv (ClientID operation) (CmdID operation)
      in if \<not> opDone \<and> isLeader then Enter operation else Answer opDone)"

definition getOp :: "GetArgs \<Rightarrow> Op" where
  "getOp args = \<lparr>CmdType = GET, Key = gaKey args, Val = '''',
                 ClientID = gaClientID args, CmdID = gaCmdID args\<rparr>"

definition putAppendOp :: "PutAppendArgs \<Rightarrow> Op" where
  "putAppendOp args = \<lparr>CmdType = (if paOp args = PUT then PUT else APPEND), Key = paKey args,
                       Val = paValue args, ClientID = paClientID args, CmdID = paCmdID args\<rparr>"

definition Get_begin :: "KVServer \<Rightarrow> bool \<Rightarrow> GetArgs \<Rightarrow> prologue" where
  "Get_begin kv isLeader args = prologueOf kv isLeader (getOp args)"

definition Get_end :: "KVServer \<Rightarrow> bool \<Rightarrow> bool \<Rightarrow> GetArgs \<Rightarrow> GetReply" where
  "Get_end kv isLeader opDone args =
     (if opDone then
        (case Kvdb kv (gaKey args) of
           Some val \<Rightarrow> \<lparr>grWrongLeader = \<not> isLeader, grErr = OK, grValue = val\<rparr>
         | None \<Rightarrow> \<lparr>grWrongLeader = \<not> isLeader, grErr = ErrNoKey, grValue = ''''\<rparr>)
      else \<lparr>grWrongLeader = \<not> isLeader, grErr = ErrFail, grValue = ''''\<rparr>)"

definition PutAppend_begin :: "KVServer \<Rightarrow> bool \<Rightarrow> PutAppendArgs \<Rightarrow> prologue" where
  "PutAppend_begin kv isLeader args = prologueOf kv isLeader (putAppendOp args)"

definition PutAppend_end :: "bool \<Rightarrow> bool \<Rightarrow> PutAppendReply" where
  "PutAppend_end isLeader opDone =
     \<lparr>parWrongLeader = \<not> isLeader, parErr = (if opDone then OK else ErrFail)\<rparr>"

text \<open>A server is started with empty maps; Raft then delivers the snapshot, if there is one.\<close>

definition StartKVServer :: "int \<Rightarrow> int \<Rightarrow> KVServer" where
  "StartKVServer i maxsize =
     \<lparr>kvMe = i, maxraftstate = maxsize, DupMap = Map.empty, applyStub = Map.empty,
      Kvdb = Map.empty, chans = []\<rparr>"

end
