(* ===== verification/KV_Machine.thy ===== *)
theory KV_Machine
  imports KV_Server
begin

text \<open>
  What the key/value state machine computes: an abstract store that takes every operation of a
  client once, and the lemmas that the server's duplicate table, its snapshots and its message
  loop implement it.
\<close>

section \<open>The abstract store\<close>

text \<open>What an operation writes, whoever sent it and however often.\<close>

definition kvWrite :: "Op \<Rightarrow> kvdb \<Rightarrow> kvdb" where
  "kvWrite p m =
     (if CmdType p = PUT then m(Key p \<mapsto> Val p)
      else if CmdType p = APPEND then m(Key p \<mapsto> lookupDefault m (Key p) @ Val p)
      else m)"

text \<open>An operation is new when its client has sent nothing with this number or a later one.\<close>

definition fresh :: "Op list \<Rightarrow> Op \<Rightarrow> bool" where
  "fresh past p \<longleftrightarrow> (\<forall>q \<in> set past. ClientID q = ClientID p \<longrightarrow> CmdID q < CmdID p)"

fun accepted :: "Op list \<Rightarrow> Op list \<Rightarrow> Op list" where
  "accepted past [] = []"
| "accepted past (p # ps) =
     (if fresh past p then p # accepted (past @ [p]) ps else accepted (past @ [p]) ps)"

definition kvAbs :: "KVServer \<Rightarrow> kvdb \<times> dupmap" where
  "kvAbs kv = (Kvdb kv, DupMap kv)"

text \<open>The duplicate table holds the largest number of every client.\<close>

definition dup_of :: "Op list \<Rightarrow> dupmap \<Rightarrow> bool" where
  "dup_of past d \<longleftrightarrow>
     (\<forall>c i. d c = Some i \<longrightarrow> (\<exists>q \<in> set past. ClientID q = c \<and> CmdID q = i)) \<and>
     (\<forall>q \<in> set past. \<exists>i. d (ClientID q) = Some i \<and> CmdID q \<le> i)"

lemma enactOp_abs:
  "kvAbs (enactOp kv p) =
     (if seenCmd kv (ClientID p) (CmdID p) then kvAbs kv
      else (kvWrite p (Kvdb kv), (DupMap kv)(ClientID p \<mapsto> CmdID p)))"
  by (auto simp: kvAbs_def enactOp_def seenCmd_def kvWrite_def Let_def split: option.splits)

lemma enactOp_frame [simp]:
  "applyStub (enactOp kv p) = applyStub kv" "chans (enactOp kv p) = chans kv"
  "maxraftstate (enactOp kv p) = maxraftstate kv" "kvMe (enactOp kv p) = kvMe kv"
  by (auto simp: enactOp_def Let_def split: option.splits)

lemma dup_of_fresh:
  assumes "dup_of past (DupMap kv)"
  shows "seenCmd kv (ClientID p) (CmdID p) \<longleftrightarrow> \<not> fresh past p"
proof (cases "DupMap kv (ClientID p)")
  case None
  with assms show ?thesis by (force simp: dup_of_def fresh_def seenCmd_def)
next
  case (Some i)
  with assms obtain q where q: "q \<in> set past" "ClientID q = ClientID p" "CmdID q = i"
    by (auto simp: dup_of_def)
  have le: "CmdID r \<le> i" if "r \<in> set past" "ClientID r = ClientID p" for r
    using assms that Some by (force simp: dup_of_def)
  have "fresh past p" if "i < CmdID p"
    unfolding fresh_def using le that by (meson le_less_trans)
  moreover have "\<not> fresh past p" if "CmdID p \<le> i"
    unfolding fresh_def using q that by (meson leD)
  ultimately show ?thesis using Some by (simp add: seenCmd_def) (metis linorder_not_less)
qed

lemma dup_of_seen:
  assumes "dup_of past d" "\<not> fresh past p"
  shows "dup_of (past @ [p]) d"
proof -
  from assms(2) obtain q where q: "q \<in> set past" "ClientID q = ClientID p" "CmdID p \<le> CmdID q"
    by (auto simp: fresh_def not_less)
  with assms(1) obtain i where "d (ClientID p) = Some i" "CmdID p \<le> i"
    unfolding dup_of_def by (metis order_trans)
  with assms(1) show ?thesis by (auto simp: dup_of_def)
qed

lemma dup_of_new:
  assumes "dup_of past d" "fresh past p"
  shows "dup_of (past @ [p]) (d(ClientID p \<mapsto> CmdID p))"
  using assms by (auto simp: dup_of_def fresh_def less_imp_le)

lemma enact_refines:
  assumes "dup_of past (DupMap kv)"
  shows "Kvdb (fold (\<lambda>p kv. enactOp kv p) ps kv) = fold kvWrite (accepted past ps) (Kvdb kv) \<and>
    dup_of (past @ ps) (DupMap (fold (\<lambda>p kv. enactOp kv p) ps kv))"
  using assms
proof (induction ps arbitrary: past kv)
  case (Cons p ps)
  let ?kv = "enactOp kv p"
  have abs: "Kvdb ?kv = (if fresh past p then kvWrite p (Kvdb kv) else Kvdb kv)"
    "DupMap ?kv = (if fresh past p then (DupMap kv)(ClientID p \<mapsto> CmdID p) else DupMap kv)"
    using enactOp_abs [of kv p] dup_of_fresh [OF Cons.prems, of p]
    by (auto simp: kvAbs_def split: if_splits)
  have "dup_of (past @ [p]) (DupMap ?kv)"
    using abs(2) dup_of_seen [OF Cons.prems] dup_of_new [OF Cons.prems] by simp
  from Cons.IH [OF this] abs(1) show ?case by simp
qed simp

text \<open>
  Property C28. Exactly once: after any sequence of operations, with any repetitions and
  reorderings, the database is what the operations write that were new when they arrived, each
  taken once and in their order; a repetition changes nothing.
\<close>

theorem kv_applies_new_operations:
  "Kvdb (fold (\<lambda>p kv. enactOp kv p) ps (StartKVServer i maxsize)) =
     fold kvWrite (accepted [] ps) Map.empty"
  using enact_refines [of "[]" "StartKVServer i maxsize" ps]
  by (simp add: dup_of_def StartKVServer_def)

section \<open>Clients that number their operations in order\<close>

text \<open>
  A clerk that is used by one thread gives every operation the next number and resends it
  until it is confirmed, so that an operation with a smaller number than one that was logged
  before it is a repetition.
\<close>

definition sameCmd :: "Op \<Rightarrow> Op \<Rightarrow> bool" where
  "sameCmd p q \<longleftrightarrow> ClientID p = ClientID q \<and> CmdID p = CmdID q"

fun sequential :: "Op list \<Rightarrow> Op list \<Rightarrow> bool" where
  "sequential past [] = True"
| "sequential past (p # ps) =
     ((fresh past p \<or> (\<exists>q \<in> set past. sameCmd q p)) \<and> sequential (past @ [p]) ps)"

fun firsts :: "Op list \<Rightarrow> Op list \<Rightarrow> Op list" where
  "firsts past [] = []"
| "firsts past (p # ps) =
     (if \<exists>q \<in> set past. sameCmd q p then firsts (past @ [p]) ps else p # firsts (past @ [p]) ps)"

lemma fresh_not_repeated: "fresh past p \<Longrightarrow> \<not> (\<exists>q \<in> set past. sameCmd q p)"
  by (auto simp: fresh_def sameCmd_def)

lemma accepted_firsts: "sequential past ps \<Longrightarrow> accepted past ps = firsts past ps"
  by (induction ps arbitrary: past) (auto dest: fresh_not_repeated)

lemma firsts_past:
  "p \<in> set (firsts past ps) \<Longrightarrow> q \<in> set past \<Longrightarrow> \<not> sameCmd q p"
proof (induction ps arbitrary: past)
  case (Cons r ps)
  then show ?case using Cons.IH [of "past @ [r]"] by (cases "p = r") (auto split: if_splits)
qed simp

lemma firsts_once: "i < j \<Longrightarrow> j < length (firsts past ps) \<Longrightarrow>
   \<not> sameCmd (firsts past ps ! i) (firsts past ps ! j)"
proof (induction ps arbitrary: past i j)
  case (Cons p ps)
  show ?case
  proof (cases "\<exists>q \<in> set past. sameCmd q p")
    case True
    with Cons show ?thesis by simp
  next
    case False
    show ?thesis
    proof (cases i)
      case 0
      then have "firsts past (p # ps) ! j \<in> set (firsts (past @ [p]) ps)"
        using Cons.prems False by (cases j) auto
      from firsts_past [OF this, of p] show ?thesis using 0 False by simp
    next
      case (Suc i')
      with Cons.prems False Cons.IH [of i' "j - 1" "past @ [p]"] show ?thesis
        by (cases j) auto
    qed
  qed
qed simp

lemma firsts_cover:
  "p \<in> set ps \<Longrightarrow> \<exists>q \<in> set past \<union> set (firsts past ps). sameCmd q p"
proof (induction ps arbitrary: past)
  case (Cons r ps)
  then show ?case
  proof (cases "p = r")
    case True
    then show ?thesis by (auto simp: sameCmd_def)
  next
    case False
    with Cons obtain q where q: "q \<in> set (past @ [r]) \<union> set (firsts (past @ [r]) ps)" "sameCmd q p"
      by (metis set_ConsD)
    then show ?thesis by (cases "q = r") (auto simp: sameCmd_def)
  qed
qed simp

text \<open>
  Property C13. No operation of a sequential client is lost or doubled: when every client's new
  operations enter the log in the order of their numbers, the database is what a list of
  operations writes that has every logged command exactly once.
\<close>

theorem kv_exactly_once:
  assumes "sequential [] ps"
  shows "\<exists>qs. Kvdb (fold (\<lambda>p kv. enactOp kv p) ps (StartKVServer i maxsize)) = fold kvWrite qs Map.empty \<and>
    set qs \<subseteq> set ps \<and> (\<forall>p \<in> set ps. \<exists>q \<in> set qs. sameCmd q p) \<and>
    (\<forall>k < length qs. \<forall>j < k. \<not> sameCmd (qs ! j) (qs ! k))"
proof (intro exI conjI)
  show "Kvdb (fold (\<lambda>p kv. enactOp kv p) ps (StartKVServer i maxsize)) =
      fold kvWrite (firsts [] ps) Map.empty"
    using enact_refines [of "[]" "StartKVServer i maxsize" ps] accepted_firsts [OF assms]
    by (simp add: dup_of_def StartKVServer_def)
  have "set (firsts past ps) \<subseteq> set ps" for past
    by (induction ps arbitrary: past) (auto simp: subset_iff)
  then show "set (firsts [] ps) \<subseteq> set ps" .
  show "\<forall>p \<in> set ps. \<exists>q \<in> set (firsts [] ps). sameCmd q p" using firsts_cover [of _ ps "[]"] by simp
  show "\<forall>k < length (firsts [] ps). \<forall>j < k. \<not> sameCmd (firsts [] ps ! j) (firsts [] ps ! k)"
    using firsts_once [of _ _ "[]" ps] by blast
qed

text \<open>Two appends, the first one logged twice: it is applied once.\<close>

theorem kv_exactly_once_witness:
  "let a = \<lparr>CmdType = APPEND, Key = ''k'', Val = ''x'', ClientID = 7, CmdID = 0\<rparr>;
       b = \<lparr>CmdType = APPEND, Key = ''k'', Val = ''y'', ClientID = 7, CmdID = 1\<rparr> in
   \<exists>qs. Kvdb (fold (\<lambda>p kv. enactOp kv p) [a, b, a] (StartKVServer 0 (-1))) = fold kvWrite qs Map.empty \<and>
     set qs \<subseteq> {a, b} \<and> (\<exists>q \<in> set qs. sameCmd q a) \<and> (\<exists>q \<in> set qs. sameCmd q b)"
proof -
  let ?a = "\<lparr>CmdType = APPEND, Key = ''k'', Val = ''x'', ClientID = 7, CmdID = 0\<rparr>"
  let ?b = "\<lparr>CmdType = APPEND, Key = ''k'', Val = ''y'', ClientID = 7, CmdID = 1\<rparr>"
  have "sequential [] [?a, ?b, ?a]" by (simp add: fresh_def sameCmd_def)
  from kv_exactly_once [OF this, of 0 "-1"] obtain qs where
    q: "Kvdb (fold (\<lambda>p kv. enactOp kv p) [?a, ?b, ?a] (StartKVServer 0 (-1))) = fold kvWrite qs Map.empty"
    "set qs \<subseteq> set [?a, ?b, ?a]" "\<forall>p \<in> set [?a, ?b, ?a]. \<exists>q \<in> set qs. sameCmd q p"
    by blast
  from q(2) have "set qs \<subseteq> {?a, ?b}" by auto
  moreover have "\<exists>q \<in> set qs. sameCmd q ?a" "\<exists>q \<in> set qs. sameCmd q ?b" using q(3) by simp_all
  ultimately show ?thesis unfolding Let_def using q(1) by blast
qed

section \<open>Messages and snapshots\<close>

lemma installSnapshot_encode:
  "kvAbs (installSnapshot kv (encodeSnapshot kv')) = kvAbs kv'"
proof -
  have "dec_dup (enc_dup (DupMap kv')) = Some (DupMap kv', [])"
    by (rule snap_codec.snd_codec.dec_enc_exact)
  then show ?thesis
    by (simp add: installSnapshot_def encodeSnapshot_def snap_codec.fst_codec.dec_enc kvAbs_def)
qed

lemma installSnapshot_frame [simp]:
  "applyStub (installSnapshot kv s) = applyStub kv" "chans (installSnapshot kv s) = chans kv"
  "maxraftstate (installSnapshot kv s) = maxraftstate kv"
  by (auto simp: installSnapshot_def Let_def split: option.splits prod.splits)

text \<open>The abstract effect of a message on the database and the duplicate table.\<close>

definition smStep :: "(Op, snapval) ApplyMsg \<Rightarrow> kvdb \<times> dupmap \<Rightarrow> kvdb \<times> dupmap" where
  "smStep m st =
     (let kv = (StartKVServer 0 (-1))\<lparr>Kvdb := fst st, DupMap := snd st\<rparr> in
      if CommandValid m
      then (case amCommand m of None \<Rightarrow> st | Some p \<Rightarrow>
              if seenCmd kv (ClientID p) (CmdID p) then st
              else (kvWrite p (fst st), (snd st)(ClientID p \<mapsto> CmdID p)))
      else kvAbs (installSnapshot kv (SnapShot m)))"

lemma stubFor_abs [simp]: "stubFor kv i = (kv', a) \<Longrightarrow> kvAbs kv' = kvAbs kv \<and> maxraftstate kv' = maxraftstate kv"
  by (auto simp: stubFor_def kvAbs_def split: option.splits)

lemma stubFor_addr:
  assumes "stubFor kv i = (kv', a)" "\<And>j b. applyStub kv j = Some b \<Longrightarrow> b < length (chans kv)"
  shows "a < length (chans kv') \<and> applyStub kv' i = Some a"
  using assms by (auto simp: stubFor_def split: option.splits)

text \<open>A send after the channel was emptied succeeds unless the channel is closed.\<close>

lemma drained_send:
  "chanSend (case chanRecv ch of Done (ch', _) \<Rightarrow> ch' | _ \<Rightarrow> ch) m =
     (if chClosed ch then Panics else Done (ch\<lparr>chBuf := Some m\<rparr>))"
  by (auto simp: chanRecv_def chanSend_def split: option.splits)

lemma dealWithApplyMsg_cases [consumes 1, case_names command snap]:
  assumes "dealWithApplyMsg kv sz m = Done (kv', effs)"
  obtains p kv1 a where "CommandValid m" "amCommand m = Some p"
      "stubFor (enactOp kv p) (amCommandIndex m) = (kv1, a)" "\<not> chClosed (chans kv1 ! a)"
      "kv' = kv1\<lparr>chans := (chans kv1)[a := (chans kv1 ! a)\<lparr>chBuf :=
               Some \<lparr>dmClientID = ClientID p, dmCmdID = CmdID p\<rparr>\<rparr>]\<rparr>"
      "effs = (if maxraftstate kv \<noteq> -1 \<and> sz \<ge> maxraftstate kv
               then [GoCompact (amCommandIndex m) (encodeSnapshot kv')] else [])"
  | "\<not> CommandValid m" "kv' = installSnapshot kv (SnapShot m)" "effs = []"
proof (cases "CommandValid m")
  case True
  with assms obtain p where p: "amCommand m = Some p"
    by (cases "amCommand m") (auto simp: dealWithApplyMsg_def)
  obtain kv1 a where s: "stubFor (enactOp kv p) (amCommandIndex m) = (kv1, a)" by fastforce
  from stubFor_abs [OF s] have "maxraftstate kv1 = maxraftstate kv" by simp
  with assms True p s show ?thesis
    by (intro that(1) [of p kv1 a])
       (auto simp: dealWithApplyMsg_def Let_def drained_send split: if_splits)
next
  case False
  with assms show ?thesis by (intro that(2)) (auto simp: dealWithApplyMsg_def)
qed

lemma dealWithApplyMsg_abs:
  assumes "dealWithApplyMsg kv sz m = Done (kv', effs)"
  shows "kvAbs kv' = smStep m (kvAbs kv)"
  using assms
proof (cases rule: dealWithApplyMsg_cases)
  case (command p kv1 a)
  then have "kvAbs kv' = kvAbs (enactOp kv p)"
    using stubFor_abs [OF command(3)] by (simp add: kvAbs_def)
  with command(1,2) show ?thesis
    unfolding enactOp_abs by (simp add: smStep_def kvAbs_def seenCmd_def)
next
  case snap
  then show ?thesis
    by (auto simp: smStep_def kvAbs_def installSnapshot_def Let_def split: option.splits prod.splits)
qed

text \<open>A server that takes messages one after the other, with the state sizes it sees.\<close>

fun serve :: "KVServer \<Rightarrow> (int \<times> (Op, snapval) ApplyMsg) list \<Rightarrow> (KVServer \<times> kveffect list) outcome" where
  "serve kv [] = Done (kv, [])"
| "serve kv ((sz, m) # ms) =
     (case dealWithApplyMsg kv sz m of
        Done (kv', effs) \<Rightarrow>
          (case serve kv' ms of Done (kv'', effs') \<Rightarrow> Done (kv'', effs @ effs') | Panics \<Rightarrow> Panics | Blocks \<Rightarrow> Blocks)
      | Panics \<Rightarrow> Panics
      | Blocks \<Rightarrow> Blocks)"

lemma serve_abs: "serve kv ms = Done (kv', es) \<Longrightarrow> kvAbs kv' = fold smStep (map snd ms) (kvAbs kv)"
proof (induction ms arbitrary: kv es)
  case (Cons m ms)
  obtain sz msg where m: "m = (sz, msg)" by fastforce
  from Cons.prems m obtain kv1 effs effs' where "dealWithApplyMsg kv sz msg = Done (kv1, effs)"
    "serve kv1 ms = Done (kv', effs')" by (auto split: outcome.splits)
  with Cons.IH m show ?case by (simp add: dealWithApplyMsg_abs)
qed simp

lemma smStep_snapshot:
  "\<not> CommandValid m \<Longrightarrow> smStep m st = kvAbs (installSnapshot ((StartKVServer 0 (-1))\<lparr>Kvdb := fst st, DupMap := snd st\<rparr>) (SnapShot m))"
  by (simp add: smStep_def Let_def)

text \<open>
  Property C14. A snapshot stands for the log it replaces: when a server hands Raft a snapshot
  while it applies message \<open>m\<close>, then another server, in any state, that is given this snapshot
  and the messages that follow \<open>m\<close> ends with the same database and the same duplicate table as
  the server that goes on without it, and the snapshot is taken at the index of \<open>m\<close>.
\<close>

theorem snapshot_replaces_log:
  assumes "dealWithApplyMsg kv sz m = Done (kv1, [GoCompact i s])" "serve kv1 ms = Done (kv2, es)"
    "serve other ((sz', \<lparr>amCommandIndex = 0, amCommand = None, CommandValid = False, SnapShot = s\<rparr>) # ms')
       = Done (other', es')"
    "map snd ms' = map snd ms"
  shows "i = amCommandIndex m \<and> kvAbs other' = kvAbs kv2"
proof -
  from assms(1) have "i = amCommandIndex m" "s = encodeSnapshot kv1"
    by (auto elim!: dealWithApplyMsg_cases split: if_splits)
  with serve_abs [OF assms(2)] serve_abs [OF assms(3)] assms(4) show ?thesis
    by (simp add: smStep_snapshot installSnapshot_encode)
qed

theorem snapshot_replaces_log_witness:
  "let p = \<lparr>CmdType = PUT, Key = ''k'', Val = ''x'', ClientID = 7, CmdID = 0\<rparr>;
       q = \<lparr>CmdType = APPEND, Key = ''k'', Val = ''y'', ClientID = 7, CmdID = 1\<rparr>;
       m1 = \<lparr>amCommandIndex = 1, amCommand = Some p, CommandValid = True, SnapShot = []\<rparr>;
       m2 = \<lparr>amCommandIndex = 2, amCommand = Some q, CommandValid = True, SnapShot = []\<rparr>;
       s = [SnapKvdb [''k'' \<mapsto> ''x''], SnapDup [7 \<mapsto> 0]];
       m0 = \<lparr>amCommandIndex = 0, amCommand = None, CommandValid = False, SnapShot = s\<rparr>
   in \<exists>kv1 kv2 other es es'.
        dealWithApplyMsg (StartKVServer 0 100) 150 m1 = Done (kv1, [GoCompact 1 s]) \<and>
        serve kv1 [(50, m2)] = Done (kv2, es) \<and>
        serve (StartKVServer 1 (-1)) [(0, m0), (60, m2)] = Done (other, es') \<and>
        Kvdb kv2 ''k'' = Some ''xy'' \<and> kvAbs other = kvAbs kv2"
proof -
  let ?p = "\<lparr>CmdType = PUT, Key = ''k'', Val = ''x'', ClientID = 7, CmdID = 0\<rparr>"
  let ?q = "\<lparr>CmdType = APPEND, Key = ''k'', Val = ''y'', ClientID = 7, CmdID = 1\<rparr>"
  let ?m1 = "\<lparr>amCommandIndex = 1, amCommand = Some ?p, CommandValid = True, SnapShot = []\<rparr>"
  let ?m2 = "\<lparr>amCommandIndex = 2, amCommand = Some ?q, CommandValid = True, SnapShot = []\<rparr>"
  let ?s = "[SnapKvdb [''k'' \<mapsto> ''x''], SnapDup [7 \<mapsto> 0]]"
  let ?m0 = "\<lparr>amCommandIndex = 0, amCommand = None, CommandValid = False, SnapShot = ?s\<rparr>"
  note [simp] = dealWithApplyMsg_def Let_def enactOp_def stubFor_def chanRecv_def chanSend_def
    StartKVServer_def encodeSnapshot_def enc_kvdb_def enc_dup_def PUT_def APPEND_def
    lookupDefault_def installSnapshot_def
  obtain kv1 where a: "dealWithApplyMsg (StartKVServer 0 100) 150 ?m1 = Done (kv1, [GoCompact 1 ?s])"
    and kv1: "kv1 = fst (case dealWithApplyMsg (StartKVServer 0 100) 150 ?m1 of Done x \<Rightarrow> x)"
    by simp
  obtain kv2 es where b: "serve kv1 [(50, ?m2)] = Done (kv2, es)" "Kvdb kv2 ''k'' = Some ''xy''"
    by (simp add: kv1)
  obtain other es' where c: "serve (StartKVServer 1 (-1)) [(0, ?m0), (60, ?m2)] = Done (other, es')"
    by simp
  have "kvAbs other = kvAbs kv2"
    using snapshot_replaces_log [OF a b(1) c] by simp
  with a b c show ?thesis unfolding Let_def by blast
qed

end
