(* ===== verification/KV_Handlers.thy ===== *)
theory KV_Handlers
  imports KV_Machine
begin

text \<open>
  The goroutines of one key/value server: the RPC handlers \<^verbatim>\<open>Get\<close> and \<^verbatim>\<open>PutAppend\<close> from the arrival of a request to the
  reply, and the daemon that takes messages from Raft, interleaved at their critical sections.  A handler
  that receives from its channel also closes it or sends the message back in the same step: no
  other goroutine sends on that channel in between, since Raft delivers an index once.
\<close>

section \<open>Requests and replies\<close>

datatype kvRequest = GetCall GetArgs | PutAppendCall PutAppendArgs

datatype kvReply = GetAnswer GetReply | PutAppendAnswer PutAppendReply

fun reqOp :: "kvRequest \<Rightarrow> Op" where
  "reqOp (GetCall args) = getOp args"
| "reqOp (PutAppendCall args) = putAppendOp args"

fun beginCall :: "KVServer \<Rightarrow> bool \<Rightarrow> kvRequest \<Rightarrow> prologue" where
  "beginCall kv isLeader (GetCall args) = Get_begin kv isLeader args"
| "beginCall kv isLeader (PutAppendCall args) = PutAppend_begin kv isLeader args"

fun endCall :: "KVServer \<Rightarrow> bool \<Rightarrow> bool \<Rightarrow> kvRequest \<Rightarrow> kvReply" where
  "endCall kv isLeader opDone (GetCall args) = GetAnswer (Get_end kv isLeader opDone args)"
| "endCall kv isLeader opDone (PutAppendCall args) = PutAppendAnswer (PutAppend_end isLeader opDone)"


section \<open>Steps\<close>

text \<open>
  A call that is about to call \<^verbatim>\<open>enterOperation\<close>, one that is inside it, with the number of its part in \<open>handlers\<close>, one that knows
  whether its operation is done, and one that has replied; the flag is what \<^verbatim>\<open>GetState\<close> told the handler.
\<close>

datatype callState =
    Entering kvRequest bool
  | InOperation kvRequest bool nat
  | Over kvRequest bool bool
  | Answered kvRequest kvReply

text \<open>Inside \<^verbatim>\<open>enterOperation\<close>, from the registration for an index.\<close>

datatype hstate =
    Waiting Op int nat
  | Matched Op int
  | Finished Op int bool

record kvsys =
  server :: KVServer
  handlers :: "hstate list"
  history :: "(Op, snapval) ApplyMsg list"
  calls :: "callState list"

inductive kvstep :: "kvsys \<Rightarrow> kvsys \<Rightarrow> bool" where
  arrive:
    "beginCall (server s) isLeader r = Enter p \<Longrightarrow>
     kvstep s (s\<lparr>calls := calls s @ [Entering r isLeader]\<rparr>)"
| known:
    "beginCall (server s) isLeader r = Answer opDone \<Longrightarrow>
     kvstep s (s\<lparr>calls := calls s @ [Over r isLeader opDone]\<rparr>)"
| refuse:
    "\<lbrakk> c < length (calls s); calls s ! c = Entering r isLeader \<rbrakk> \<Longrightarrow>
     kvstep s (s\<lparr>calls := (calls s)[c := Over r isLeader False]\<rparr>)"
| enter:
    "\<lbrakk> c < length (calls s); calls s ! c = Entering r isLeader;
       enterRegister (server s) idx = (kv, a) \<rbrakk> \<Longrightarrow>
     kvstep s (s\<lparr>server := kv, handlers := handlers s @ [Waiting (reqOp r) idx a],
       calls := (calls s)[c := InOperation r isLeader (length (handlers s))]\<rparr>)"
| receive:
    "\<lbrakk> k < length (handlers s); handlers s ! k = Waiting p idx a;
       enterReceive (server s) a p = Done (kv, matched) \<rbrakk> \<Longrightarrow>
     kvstep s (s\<lparr>server := kv, handlers := (handlers s)[k :=
       (if matched then Matched p idx else Finished p idx False)]\<rparr>)"
| expire:
    "\<lbrakk> k < length (handlers s); handlers s ! k = Waiting p idx a \<rbrakk> \<Longrightarrow>
     kvstep s (s\<lparr>handlers := (handlers s)[k := Finished p idx False]\<rparr>)"
| leave:
    "\<lbrakk> k < length (handlers s); handlers s ! k = Matched p idx \<rbrakk> \<Longrightarrow>
     kvstep s (s\<lparr>server := enterDelete (server s) idx,
                 handlers := (handlers s)[k := Finished p idx True]\<rparr>)"
| back_to_call:
    "\<lbrakk> c < length (calls s); calls s ! c = InOperation r isLeader k; handlers s ! k = Finished p idx b \<rbrakk> \<Longrightarrow>
     kvstep s (s\<lparr>calls := (calls s)[c := Over r isLeader b]\<rparr>)"
| reply:
    "\<lbrakk> c < length (calls s); calls s ! c = Over r isLeader opDone \<rbrakk> \<Longrightarrow>
     kvstep s (s\<lparr>calls := (calls s)[c := Answered r (endCall (server s) isLeader opDone r)]\<rparr>)"
| take:
    "dealWithApplyMsg (server s) sz m = Done (kv, effs) \<Longrightarrow>
     kvstep s (s\<lparr>server := kv, history := history s @ [m]\<rparr>)"

definition kvstart :: "int \<Rightarrow> int \<Rightarrow> kvsys" where
  "kvstart i maxsize = \<lparr>server = StartKVServer i maxsize, handlers = [], history = [], calls = []\<rparr>"

inductive kvreach :: "int \<Rightarrow> int \<Rightarrow> kvsys \<Rightarrow> bool" for i maxsize where
  start: "kvreach i maxsize (kvstart i maxsize)"
| more: "kvreach i maxsize s \<Longrightarrow> kvstep s s' \<Longrightarrow> kvreach i maxsize s'"

text \<open>A scheduler for concrete executions.\<close>

datatype kvevent =
    KArrive bool kvRequest
  | KRefuse nat
  | KEnter nat int
  | KReceive nat
  | KExpire nat
  | KLeave nat
  | KBack nat
  | KReply nat
  | KTake int "(Op, snapval) ApplyMsg"

fun kvexec :: "kvsys \<Rightarrow> kvevent \<Rightarrow> kvsys outcome" where
  "kvexec s (KArrive isLeader r) =
     Done (s\<lparr>calls := calls s @ [case beginCall (server s) isLeader r of
       Enter p \<Rightarrow> Entering r isLeader | Answer opDone \<Rightarrow> Over r isLeader opDone]\<rparr>)"
| "kvexec s (KRefuse c) =
     (if c < length (calls s) then
        (case calls s ! c of
           Entering r isLeader \<Rightarrow> Done (s\<lparr>calls := (calls s)[c := Over r isLeader False]\<rparr>)
         | _ \<Rightarrow> Blocks)
      else Blocks)"
| "kvexec s (KEnter c idx) =
     (if c < length (calls s) then
        (case calls s ! c of
           Entering r isLeader \<Rightarrow>
             (let (kv, a) = enterRegister (server s) idx
              in Done (s\<lparr>server := kv, handlers := handlers s @ [Waiting (reqOp r) idx a],
                   calls := (calls s)[c := InOperation r isLeader (length (handlers s))]\<rparr>))
         | _ \<Rightarrow> Blocks)
      else Blocks)"
| "kvexec s (KReceive k) =
     (if k < length (handlers s) then
        (case handlers s ! k of
           Waiting p idx a \<Rightarrow>
             (case enterReceive (server s) a p of
                Done (kv, matched) \<Rightarrow> Done (s\<lparr>server := kv, handlers := (handlers s)[k :=
                  (if matched then Matched p idx else Finished p idx False)]\<rparr>)
              | Panics \<Rightarrow> Panics
              | Blocks \<Rightarrow> Blocks)
         | _ \<Rightarrow> Blocks)
      else Blocks)"
| "kvexec s (KExpire k) =
     (if k < length (handlers s) then
        (case handlers s ! k of
           Waiting p idx a \<Rightarrow> Done (s\<lparr>handlers := (handlers s)[k := Finished p idx False]\<rparr>)
         | _ \<Rightarrow> Blocks)
      else Blocks)"
| "kvexec s (KLeave k) =
     (if k < length (handlers s) then
        (case handlers s ! k of
           Matched p idx \<Rightarrow> Done (s\<lparr>server := enterDelete (server s) idx,
                                    handlers := (handlers s)[k := Finished p idx True]\<rparr>)
         | _ \<Rightarrow> Blocks)
      else Blocks)"
| "kvexec s (KBack c) =
     (if c < length (calls s) then
        (case calls s ! c of
           InOperation r isLeader k \<Rightarrow>
             (case handlers s ! k of
                Finished p idx b \<Rightarrow> Done (s\<lparr>calls := (calls s)[c := Over r isLeader b]\<rparr>)
              | _ \<Rightarrow> Blocks)
         | _ \<Rightarrow> Blocks)
      else Blocks)"
| "kvexec s (KReply c) =
     (if c < length (calls s) then
        (case calls s ! c of
           Over r isLeader opDone \<Rightarrow>
             Done (s\<lparr>calls := (calls s)[c := Answered r (endCall (server s) isLeader opDone r)]\<rparr>)
         | _ \<Rightarrow> Blocks)
      else Blocks)"
| "kvexec s (KTake sz m) =
     (case dealWithApplyMsg (server s) sz m of
        Done (kv, effs) \<Rightarrow> Done (s\<lparr>server := kv, history := history s @ [m]\<rparr>)
      | Panics \<Rightarrow> Panics
      | Blocks \<Rightarrow> Blocks)"

fun kvrun :: "kvsys \<Rightarrow> kvevent list \<Rightarrow> kvsys outcome" where
  "kvrun s [] = Done s"
| "kvrun s (e # es) =
     (case kvexec s e of Done s' \<Rightarrow> kvrun s' es | Panics \<Rightarrow> Panics | Blocks \<Rightarrow> Blocks)"

lemma kvexec_sound: "kvexec s e = Done s' \<Longrightarrow> kvstep s s'"
  by (cases e)
     (auto split: if_splits hstate.splits callState.splits outcome.splits prod.splits prologue.splits
       intro: kvstep.intros(1-4,6-) kvstep.receive [where matched = True, simplified]
         kvstep.receive [where matched = False, simplified])

lemma kvrun_reach: "kvreach i maxsize s \<Longrightarrow> kvrun s es = Done s' \<Longrightarrow> kvreach i maxsize s'"
  by (induction es arbitrary: s)
     (auto split: outcome.splits dest: kvexec_sound intro: kvreach.more)

lemma kvstart_reach: "kvrun (kvstart i maxsize) es = Done s \<Longrightarrow> kvreach i maxsize s"
  by (rule kvrun_reach [OF kvreach.start])

section \<open>Invariant\<close>

definition logged :: "(Op, snapval) ApplyMsg list \<Rightarrow> int \<Rightarrow> uint64 \<Rightarrow> uint64 \<Rightarrow> bool" where
  "logged ms idx cid cmd \<longleftrightarrow> (\<exists>m \<in> set ms. \<exists>q. CommandValid m \<and> amCommandIndex m = idx \<and>
     amCommand m = Some q \<and> ClientID q = cid \<and> CmdID q = cmd)"

lemma logged_append: "logged ms i c d \<Longrightarrow> logged (ms @ [m]) i c d"
  by (auto simp: logged_def)

text \<open>
  Every channel belongs to one index of the log: the map holds it under that index only, the
  handlers that wait on it wait for that index, and the message in it was logged there.
\<close>

definition chans_ok :: "(nat \<Rightarrow> int) \<Rightarrow> KVServer \<Rightarrow> (Op, snapval) ApplyMsg list \<Rightarrow> bool" where
  "chans_ok home kv ms \<longleftrightarrow>
     (\<forall>idx a. applyStub kv idx = Some a \<longrightarrow> a < length (chans kv) \<and> home a = idx) \<and>
     (\<forall>a < length (chans kv). \<forall>m. chBuf (chans kv ! a) = Some m \<longrightarrow>
        logged ms (home a) (dmClientID m) (dmCmdID m))"

fun handler_ok :: "(nat \<Rightarrow> int) \<Rightarrow> nat \<Rightarrow> (Op, snapval) ApplyMsg list \<Rightarrow> hstate \<Rightarrow> bool" where
  "handler_ok home n ms (Waiting p idx a) \<longleftrightarrow> a < n \<and> home a = idx"
| "handler_ok home n ms (Matched p idx) \<longleftrightarrow> logged ms idx (ClientID p) (CmdID p)"
| "handler_ok home n ms (Finished p idx b) \<longleftrightarrow> (b \<longrightarrow> logged ms idx (ClientID p) (CmdID p))"

definition sys_ok :: "(nat \<Rightarrow> int) \<Rightarrow> kvsys \<Rightarrow> bool" where
  "sys_ok home s \<longleftrightarrow> chans_ok home (server s) (history s) \<and>
     (\<forall>h \<in> set (handlers s). handler_ok home (length (chans (server s))) (history s) h) \<and>
     kvAbs (server s) = fold smStep (history s) (Map.empty, Map.empty)"

lemma handler_ok_grow:
  "handler_ok home n ms h \<Longrightarrow> n \<le> n' \<Longrightarrow> (\<And>a. a < n \<Longrightarrow> home' a = home a) \<Longrightarrow> handler_ok home' n' ms h"
  by (cases h) auto

lemma handler_ok_history: "handler_ok home n ms h \<Longrightarrow> handler_ok home n (ms @ [m]) h"
  by (cases h) (auto intro: logged_append)

lemma stubFor_ok:
  assumes "stubFor kv idx = (kv', a)" "chans_ok home kv ms"
  obtains home' where "chans_ok home' kv' ms" "length (chans kv) \<le> length (chans kv')"
    "\<And>b. b < length (chans kv) \<Longrightarrow> home' b = home b" "a < length (chans kv')" "home' a = idx"
proof (cases "applyStub kv idx")
  case None
  with assms(1) have kv': "kv' = kv\<lparr>chans := chans kv @ [\<lparr>chBuf = None, chClosed = False\<rparr>],
      applyStub := (applyStub kv)(idx \<mapsto> length (chans kv))\<rparr>" and a: "a = length (chans kv)"
    by (auto simp: stubFor_def)
  have "b < length (chans kv)" if "applyStub kv j = Some b" for j b
    using assms(2) that by (auto simp: chans_ok_def)
  with assms(2) a have "chans_ok (home(a := idx)) kv' ms"
    unfolding kv' by (auto simp: chans_ok_def nth_append less_Suc_eq)
  with a that [of "home(a := idx)"] show ?thesis by (simp add: kv')
next
  case (Some b)
  with assms that [of home] show ?thesis by (auto simp: stubFor_def chans_ok_def)
qed

lemma enterReceive_cases [consumes 1, case_names match mismatch]:
  assumes "enterReceive kv a p = Done (kv', b)"
  obtains m where "b" "chBuf (chans kv ! a) = Some m" "dmClientID m = ClientID p" "dmCmdID m = CmdID p"
      "kv' = kv\<lparr>chans := (chans kv)[a := (chans kv ! a)\<lparr>chBuf := None, chClosed := True\<rparr>]\<rparr>"
  | m where "\<not> b" "chBuf (chans kv ! a) = Some m" "kv' = kv"
proof (cases "chBuf (chans kv ! a)")
  case None
  with assms show ?thesis
    by (auto simp: enterReceive_def chanRecv_def chanClose_def chanSend_def split: if_splits)
next
  case (Some m)
  show ?thesis
  proof (cases "dmClientID m = ClientID p \<and> dmCmdID m = CmdID p")
    case True
    with assms Some show ?thesis
      by (intro that(1) [of m])
         (auto simp: enterReceive_def chanRecv_def chanClose_def split: if_splits)
  next
    case False
    from Some have "(chans kv ! a)\<lparr>chBuf := Some m\<rparr> = chans kv ! a"
      by (cases "chans kv ! a") simp
    then have "kv\<lparr>chans := (chans kv)[a := (chans kv ! a)\<lparr>chBuf := Some m\<rparr>]\<rparr> = kv"
      by (simp only: list_update_id) simp
    with assms Some False have "kv' = kv" "\<not> b"
      by (auto simp: enterReceive_def chanRecv_def chanSend_def simp del: KVServer.update_convs
          split: if_splits)
    with Some show ?thesis by (intro that(2)) auto
  qed
qed

lemma chans_ok_update:
  assumes "chans_ok home kv ms" "\<And>m. chBuf ch = Some m \<Longrightarrow> logged ms (home a) (dmClientID m) (dmCmdID m)"
  shows "chans_ok home (kv\<lparr>chans := (chans kv)[a := ch]\<rparr>) ms"
proof (cases "a < length (chans kv)")
  case True
  with assms show ?thesis by (auto simp: chans_ok_def nth_list_update)
qed (use assms(1) in \<open>simp add: list_update_beyond\<close>)

lemma sys_ok_take:
  assumes "dealWithApplyMsg (server s) sz m = Done (kv, effs)" "sys_ok home s"
  shows "\<exists>home'. sys_ok home' (s\<lparr>server := kv, history := history s @ [m]\<rparr>)"
proof -
  let ?ms = "history s @ [m]"
  have ok: "chans_ok home (server s) ?ms"
    using assms(2) by (auto simp: sys_ok_def chans_ok_def intro: logged_append)
  have abs: "kvAbs kv = fold smStep ?ms (Map.empty, Map.empty)"
    using dealWithApplyMsg_abs [OF assms(1)] assms(2) by (simp add: sys_ok_def)
  from assms(1) obtain home' where h: "chans_ok home' kv ?ms"
    "length (chans (server s)) \<le> length (chans kv)"
    "\<And>b. b < length (chans (server s)) \<Longrightarrow> home' b = home b"
  proof (cases rule: dealWithApplyMsg_cases)
    case (command p kv1 a)
    have "chans_ok home (enactOp (server s) p) ?ms" using ok by (simp add: chans_ok_def)
    from stubFor_ok [OF command(3) this] obtain home' where h: "chans_ok home' kv1 ?ms"
      "length (chans (server s)) \<le> length (chans kv1)"
      "\<And>b. b < length (chans (server s)) \<Longrightarrow> home' b = home b" "home' a = amCommandIndex m"
      by auto
    have "logged ?ms (home' a) (ClientID p) (CmdID p)"
      using command(1,2) h(4) by (auto simp: logged_def)
    with h(1) have "chans_ok home' kv ?ms" unfolding command(5) by (intro chans_ok_update) auto
    moreover have "length (chans kv) = length (chans kv1)" by (simp add: command(5))
    ultimately show ?thesis using h that by simp
  next
    case snap
    with ok that [of home] show ?thesis by (simp add: chans_ok_def)
  qed
  have "handler_ok home' (length (chans kv)) ?ms x" if "x \<in> set (handlers s)" for x
    using that assms(2) h(2,3)
    by (intro handler_ok_history) (auto simp: sys_ok_def intro: handler_ok_grow)
  with h(1) abs show ?thesis by (auto simp: sys_ok_def)
qed

lemma sys_ok_update:
  assumes "sys_ok home s" "chans_ok home kv (history s)" "length (chans kv) = length (chans (server s))"
    "kvAbs kv = kvAbs (server s)" "handler_ok home (length (chans (server s))) (history s) x"
  shows "sys_ok home (s\<lparr>server := kv, handlers := (handlers s)[k := x]\<rparr>)"
  using assms set_update_subset_insert [of "handlers s" k x] by (auto simp: sys_ok_def)

lemma kvstep_ok:
  assumes "kvstep s s'" "sys_ok home s"
  shows "\<exists>home'. sys_ok home' s'"
  using assms(1)
proof cases
  case (enter c r isLeader idx kv a)
  from enter(4) have r: "stubFor (server s) idx = (kv, a)" by (simp add: enterRegister_def)
  have "chans_ok home (server s) (history s)" using assms(2) by (simp add: sys_ok_def)
  from stubFor_ok [OF r this] obtain home' where h: "chans_ok home' kv (history s)"
    "length (chans (server s)) \<le> length (chans kv)"
    "\<And>b. b < length (chans (server s)) \<Longrightarrow> home' b = home b" "a < length (chans kv)" "home' a = idx"
    by blast
  with enter(1) stubFor_abs [OF r] assms(2) have "sys_ok home' s'"
    by (auto simp: sys_ok_def intro: handler_ok_grow)
  then show ?thesis by blast
next
  case (receive k p idx a kv matched)
  have w: "handler_ok home (length (chans (server s))) (history s) (Waiting p idx a)"
    using receive(2,3) assms(2) unfolding sys_ok_def by (metis nth_mem)
  from receive(4) have "sys_ok home s'"
  proof (cases rule: enterReceive_cases)
    case (match m)
    have "logged (history s) idx (ClientID p) (CmdID p)"
      using w match assms(2) by (auto simp: sys_ok_def chans_ok_def)
    moreover have "chans_ok home kv (history s)"
      unfolding match(5) using assms(2) by (intro chans_ok_update) (auto simp: sys_ok_def)
    ultimately show ?thesis
      unfolding receive(1) using match(1,5) assms(2)
      by (intro sys_ok_update) (simp_all add: kvAbs_def)
  next
    case (mismatch m)
    with assms(2) show ?thesis
      unfolding receive(1) by (intro sys_ok_update) (simp_all add: sys_ok_def)
  qed
  then show ?thesis by blast
next
  case (expire k p idx a)
  have "sys_ok home (s\<lparr>server := server s, handlers := (handlers s)[k := Finished p idx False]\<rparr>)"
    using assms(2) by (intro sys_ok_update) (simp_all add: sys_ok_def)
  then have "sys_ok home s'" unfolding expire(1) by simp
  then show ?thesis by blast
next
  case (leave k p idx)
  have "handler_ok home (length (chans (server s))) (history s) (Matched p idx)"
    using leave(2,3) assms(2) unfolding sys_ok_def by (metis nth_mem)
  with assms(2) have "sys_ok home s'"
    unfolding leave(1)
    by (intro sys_ok_update) (auto simp: sys_ok_def enterDelete_def chans_ok_def kvAbs_def)
  then show ?thesis by blast
next
  case (take sz m kv effs)
  with assms(2) show ?thesis using sys_ok_take by blast
qed (use assms(2) in \<open>auto simp: sys_ok_def\<close>)

lemma kvreach_ok: "kvreach i maxsize s \<Longrightarrow> \<exists>home. sys_ok home s"
proof (induction rule: kvreach.induct)
  case start
  show ?case
    by (auto simp: sys_ok_def chans_ok_def kvstart_def StartKVServer_def kvAbs_def)
next
  case (more s s')
  then show ?case using kvstep_ok by blast
qed

text \<open>
  A server's database and duplicate table are always what the messages it has taken
  from Raft give, in their order: handlers that come, wait, time out and go do not touch them.
\<close>

theorem server_state_is_history:
  assumes "kvreach i maxsize s"
  shows "kvAbs (server s) = fold smStep (history s) (Map.empty, Map.empty)"
  using kvreach_ok [OF assms] by (auto simp: sys_ok_def)

section \<open>Confirmed operations\<close>





fun handlerOp :: "hstate \<Rightarrow> Op" where
  "handlerOp (Waiting p idx a) = p"
| "handlerOp (Matched p idx) = p"
| "handlerOp (Finished p idx b) = p"



text \<open>Handlers keep their operation, and what they have reported.\<close>

definition grows :: "hstate list \<Rightarrow> hstate list \<Rightarrow> bool" where
  "grows hs hs' \<longleftrightarrow> length hs \<le> length hs' \<and> (\<forall>k < length hs. handlerOp (hs' ! k) = handlerOp (hs ! k) \<and>
     (\<forall>p idx b. hs ! k = Finished p idx b \<longrightarrow> hs' ! k = hs ! k))"

lemma grows_refl [simp]: "grows hs hs"
  by (simp add: grows_def)

lemma grows_append [simp]: "grows hs (hs @ [h])"
  by (simp add: grows_def nth_append)
























section \<open>Executions\<close>

definition demoOp :: "uint64 \<Rightarrow> string \<Rightarrow> Op" where
  "demoOp c v = \<lparr>CmdType = PUT, Key = ''k'', Val = v, ClientID = c, CmdID = 0\<rparr>"

definition demoMsg :: "int \<Rightarrow> Op \<Rightarrow> (Op, snapval) ApplyMsg" where
  "demoMsg i p = \<lparr>amCommandIndex = i, amCommand = Some p, CommandValid = True, SnapShot = []\<rparr>"

definition demoPut :: "uint64 \<Rightarrow> uint64 \<Rightarrow> string \<Rightarrow> kvRequest" where
  "demoPut c n v = PutAppendCall \<lparr>paKey = ''k'', paValue = v, paOp = PUT, paClientID = c, paCmdID = n\<rparr>"

definition demoGet :: "uint64 \<Rightarrow> uint64 \<Rightarrow> kvRequest" where
  "demoGet c n = GetCall \<lparr>gaKey = ''k'', gaClientID = c, gaCmdID = n\<rparr>"

text \<open>A Put that is confirmed at its index, a Get that is, and the Put again, answered from the duplicate table.\<close>

definition demoEvents :: "kvevent list" where
  "demoEvents = [KArrive True (demoPut 7 0 ''x''), KEnter 0 1, KTake 0 (demoMsg 1 (demoOp 7 ''x'')),
     KReceive 0, KLeave 0, KBack 0, KReply 0,
     KArrive True (demoGet 7 1), KEnter 1 2, KTake 0 (demoMsg 2 (reqOp (demoGet 7 1))), KReceive 1, KLeave 1, KBack 1, KReply 1,
     KArrive False (demoPut 7 0 ''x''), KReply 2]"

definition demoRun :: kvsys where
  "demoRun = result (kvrun (kvstart 0 (-1)) demoEvents)"

lemma demoRun_reach: "kvreach 0 (-1) demoRun"
proof (rule kvstart_reach)
  have "isDone (kvrun (kvstart 0 (-1)) demoEvents)" by code_simp
  then show "kvrun (kvstart 0 (-1)) demoEvents = Done demoRun"
    unfolding demoRun_def by (rule isDone_result)
qed

theorem server_state_is_history_witness:
  "kvreach 0 (-1) demoRun \<and> map amCommandIndex (history demoRun) = [1, 2] \<and>
   Kvdb (server demoRun) ''k'' = Some ''x'' \<and>
   kvAbs (server demoRun) = fold smStep (history demoRun) (Map.empty, Map.empty)"
proof -
  have "map amCommandIndex (history demoRun) = [1, 2]" "Kvdb (server demoRun) ''k'' = Some ''x''"
    by code_simp+
  then show ?thesis
    using demoRun_reach server_state_is_history [OF demoRun_reach] by blast
qed


text \<open>
  The numbers have to come without gaps: when an operation of a client with a larger number was logged, one with
  a smaller number is confirmed that no message ever carried.  A clerk that several goroutines share sends its
  operations like this.
\<close>

definition overtakenRun :: kvsys where
  "overtakenRun = result (kvrun (kvstart 0 (-1)) [KTake 0 (demoMsg 1 (reqOp (demoPut 7 1 ''y''))),
     KArrive True (demoPut 7 0 ''x''), KReply 0])"

theorem overtaken_operation_confirmed:
  "calls overtakenRun = [Answered (demoPut 7 0 ''x'') (PutAppendAnswer \<lparr>parWrongLeader = False, parErr = OK\<rparr>)] \<and>
   map amCommand (history overtakenRun) = [Some (reqOp (demoPut 7 1 ''y''))] \<and> Kvdb (server overtakenRun) ''k'' = Some ''y''"
  by code_simp

text \<open>
  Property C29. Two handlers that wait on the same index share its channel, and when one of them is
  confirmed the other one panics: it receives the zero message of the channel that the first one
  has closed, and then closes it again or sends on it.  Two handlers wait on one index when the
  first operation was displaced from the log by another leader and a later operation got its
  index within the second that the first handler waits.
\<close>

theorem shared_index_panics:
  assumes "handlers s ! k = Waiting p idx a" "handlers s ! j = Waiting q idx a" "k \<noteq> j"
    "a < length (chans (server s))" "kvexec s (KReceive j) = Done s'" "handlers s' ! j = Matched q idx"
    "k < length (handlers s)"
  shows "kvexec s' (KReceive k) = Panics"
proof -
  from assms(2,5) obtain kv b where e: "j < length (handlers s)" "enterReceive (server s) a q = Done (kv, b)"
    "s' = s\<lparr>server := kv, handlers := (handlers s)[j := (if b then Matched q idx else Finished q idx False)]\<rparr>"
    by (auto split: if_splits outcome.splits)
  with assms(6) have "b" by (auto split: if_splits)
  with e(2) have "chans kv ! a = (chans (server s) ! a)\<lparr>chBuf := None, chClosed := True\<rparr>"
    using assms(4) by (cases rule: enterReceive_cases) auto
  then have "enterReceive kv a p = Panics"
    by (simp add: enterReceive_def chanRecv_def chanClose_def chanSend_def)
  with e(1,3) assms(1,3,7) show ?thesis by simp
qed

definition sharedIndexRun :: kvsys where
  "sharedIndexRun = result (kvrun (kvstart 0 (-1)) [KArrive True (demoPut 7 0 ''x''), KArrive True (demoPut 8 0 ''y''),
     KEnter 0 2, KEnter 1 2, KTake 0 (demoMsg 1 (demoOp 9 ''z'')), KTake 0 (demoMsg 2 (demoOp 8 ''y''))])"

theorem shared_index_panics_witness:
  "map amCommandIndex (history sharedIndexRun) = [1, 2] \<and>
   (\<exists>s. kvexec sharedIndexRun (KReceive 1) = Done s \<and> kvexec s (KReceive 0) = Panics)"
proof -
  have h: "map amCommandIndex (history sharedIndexRun) = [1, 2]" by code_simp
  have w: "handlers sharedIndexRun ! 0 = Waiting (demoOp 7 ''x'') 2 0"
    "handlers sharedIndexRun ! 1 = Waiting (demoOp 8 ''y'') 2 0"
    "0 < length (chans (server sharedIndexRun))" "0 < length (handlers sharedIndexRun)"
    by code_simp+
  have d: "isDone (kvexec sharedIndexRun (KReceive 1))" by code_simp
  have m: "handlers (result (kvexec sharedIndexRun (KReceive 1))) ! 1 = Matched (demoOp 8 ''y'') 2"
    by code_simp
  have "kvexec (result (kvexec sharedIndexRun (KReceive 1))) (KReceive 0) = Panics"
    by (rule shared_index_panics [OF w(1,2) _ w(3) isDone_result [OF d] m w(4)]) simp
  with h isDone_result [OF d] show ?thesis by blast
qed

end
