(* ===== verification/KV_Client.thy ===== *)
theory KV_Client
  imports KV_Server
begin

text \<open>
  The clerk of the key/value service (\<^verbatim>\<open>kvraft/client.go\<close>).  What the network and the servers
  answer is a parameter: the outcome of a call may depend on the number of the attempt, on the
  server and on the arguments.  The retry loops may run forever; that is the result \<open>None\<close>.
\<close>

section \<open>Clerks\<close>

record Clerk =
  nservers :: int
  leadId :: int
  clientID :: uint64
  nextSeq :: uint64

text \<open>\<open>rnd\<close> is the random number below $2^{62}$ that \<^verbatim>\<open>nrand\<close> draws.\<close>

definition nrand :: "int \<Rightarrow> int" where
  "nrand rnd = rnd mod 2 ^ 62"

definition MakeClerk :: "int \<Rightarrow> int \<Rightarrow> Clerk" where
  "MakeClerk n rnd = \<lparr>nservers = n, leadId = 0, clientID = word_of_int (nrand rnd), nextSeq = 0\<rparr>"

type_synonym 'r call = "bool \<times> 'r"

partial_function (option) getLoop ::
    "(nat \<Rightarrow> int \<Rightarrow> GetArgs \<Rightarrow> GetReply call) \<Rightarrow> int \<Rightarrow> GetArgs \<Rightarrow> nat \<Rightarrow> int \<Rightarrow>
     (string \<times> int \<times> nat) option" where
  [code]: "getLoop net n args t lead =
     (case net t lead args of (ok, reply) \<Rightarrow>
        if ok \<and> grErr reply = OK then Some (grValue reply, lead, t)
        else if ok \<and> grErr reply = ErrNoKey then Some ('''', lead, t)
        else getLoop net n args (Suc t)
               (if \<not> ok \<or> grWrongLeader reply then (lead + 1) mod n else lead))"

partial_function (option) putAppendLoop ::
    "(nat \<Rightarrow> int \<Rightarrow> PutAppendArgs \<Rightarrow> PutAppendReply call) \<Rightarrow> int \<Rightarrow> PutAppendArgs \<Rightarrow> nat \<Rightarrow> int \<Rightarrow>
     (unit \<times> int \<times> nat) option" where
  [code]: "putAppendLoop net n args t lead =
     (case net t lead args of (ok, reply) \<Rightarrow>
        if ok \<and> parErr reply = OK then Some ((), lead, t)
        else putAppendLoop net n args (Suc t)
               (if \<not> ok \<or> parWrongLeader reply then (lead + 1) mod n else lead))"

text \<open>
  The calls of a clerk that no other thread uses: the number is drawn first, and every attempt
  carries the same number.
\<close>

definition getArgs :: "Clerk \<Rightarrow> string \<Rightarrow> GetArgs" where
  "getArgs ck key = \<lparr>gaKey = key, gaClientID = clientID ck, gaCmdID = nextSeq ck\<rparr>"

definition putAppendArgs :: "Clerk \<Rightarrow> string \<Rightarrow> string \<Rightarrow> string \<Rightarrow> PutAppendArgs" where
  "putAppendArgs ck key val op =
     \<lparr>paKey = key, paValue = val, paOp = op, paClientID = clientID ck, paCmdID = nextSeq ck\<rparr>"

definition clerkGet ::
    "(nat \<Rightarrow> int \<Rightarrow> GetArgs \<Rightarrow> GetReply call) \<Rightarrow> Clerk \<Rightarrow> string \<Rightarrow> (Clerk \<times> string) option" where
  "clerkGet net ck key =
     (case getLoop net (nservers ck) (getArgs ck key) 0 (leadId ck) of
        None \<Rightarrow> None
      | Some (v, lead, _) \<Rightarrow> Some (ck\<lparr>nextSeq := nextSeq ck + 1, leadId := lead\<rparr>, v))"

definition clerkPutAppend ::
    "(nat \<Rightarrow> int \<Rightarrow> PutAppendArgs \<Rightarrow> PutAppendReply call) \<Rightarrow> Clerk \<Rightarrow> string \<Rightarrow> string \<Rightarrow> string \<Rightarrow>
     Clerk option" where
  "clerkPutAppend net ck key val op =
     (case putAppendLoop net (nservers ck) (putAppendArgs ck key val op) 0 (leadId ck) of
        None \<Rightarrow> None
      | Some (_, lead, _) \<Rightarrow> Some (ck\<lparr>nextSeq := nextSeq ck + 1, leadId := lead\<rparr>))"

definition clerkPut where
  "clerkPut net ck key val = clerkPutAppend net ck key val ''Put''"

definition clerkAppend where
  "clerkAppend net ck key val = clerkPutAppend net ck key val ''Append''"

section \<open>Retry loops\<close>

text \<open>
  The contract the two loops share.  An attempt gives a result, or says whether to turn to
  the next server.
\<close>

type_synonym 'r attempt = "nat \<Rightarrow> int \<Rightarrow> 'r option \<times> bool"

fun retry :: "int \<Rightarrow> 'r attempt \<Rightarrow> nat \<Rightarrow> nat \<Rightarrow> int \<Rightarrow> ('r \<times> int \<times> nat) option" where
  "retry n att 0 t l = None"
| "retry n att (Suc k) t l =
     (case att t l of
        (Some r, _) \<Rightarrow> Some (r, l, t)
      | (None, turn) \<Rightarrow> retry n att k (Suc t) (if turn then (l + 1) mod n else l))"

locale retry_loop =
  fixes n :: int and att :: "'r attempt" and loop :: "nat \<Rightarrow> int \<Rightarrow> ('r \<times> int \<times> nat) option"
  assumes loop_unfold: "loop t l =
      (case att t l of
         (Some r, _) \<Rightarrow> Some (r, l, t)
       | (None, turn) \<Rightarrow> loop (Suc t) (if turn then (l + 1) mod n else l))"
    and loop_least: "loop t l = Some x \<Longrightarrow> \<exists>k. retry n att k t l = Some x"
begin

lemma retry_loop_Some: "retry n att k t l = Some x \<Longrightarrow> loop t l = Some x"
proof (induction k arbitrary: t l)
  case (Suc k)
  then show ?case by (auto simp: loop_unfold [of t l] split: prod.splits option.splits)
qed simp

lemma returns_iff: "loop t l = Some x \<longleftrightarrow> (\<exists>k. retry n att k t l = Some x)"
  using loop_least retry_loop_Some by blast

lemma retry_sound:
  "retry n att k t l = Some (r, l', t') \<Longrightarrow> 0 \<le> l \<Longrightarrow> l < n \<Longrightarrow>
   t \<le> t' \<and> 0 \<le> l' \<and> l' < n \<and> fst (att t' l') = Some r"
proof (induction k arbitrary: t l)
  case (Suc k)
  have "0 \<le> (l + 1) mod n" "(l + 1) mod n < n" using Suc.prems by auto
  with Suc show ?case by (fastforce split: prod.splits option.splits if_splits)
qed simp

lemma sound:
  "loop t l = Some (r, l', t') \<Longrightarrow> 0 \<le> l \<Longrightarrow> l < n \<Longrightarrow>
   t \<le> t' \<and> 0 \<le> l' \<and> l' < n \<and> fst (att t' l') = Some r"
  using returns_iff retry_sound by blast

text \<open>
  A server that answers is found within one turn, if the other servers send the clerk on.
\<close>

lemma live_aux:
  assumes "0 \<le> L" "L < n" "\<And>t. \<exists>r. fst (att t L) = Some r"
    "\<And>t l. l \<noteq> L \<Longrightarrow> 0 \<le> l \<Longrightarrow> l < n \<Longrightarrow> att t l = (None, True)"
  shows "0 \<le> l \<Longrightarrow> l < n \<Longrightarrow> d = nat ((L - l) mod n) \<Longrightarrow>
    \<exists>r. loop t l = Some (r, L, t + d) \<and> fst (att (t + d) L) = Some r"
proof (induction d arbitrary: t l)
  case 0
  then have "(L - l) mod n = 0" using assms(1,2) by (simp add: nat_eq_iff)
  then have "l = L" using 0 assms(1,2) by (metis mod_pos_pos_trivial mod_eq_dvd_iff dvd_eq_mod_eq_0)
  with assms(3) [of t] show ?case by (auto simp: loop_unfold [of t] split: prod.splits)
next
  case (Suc d)
  have "l \<noteq> L" using Suc.prems(3) by auto
  then have "loop t l = loop (Suc t) ((l + 1) mod n)"
    using assms(4) Suc.prems by (simp add: loop_unfold [of t])
  moreover have "d = nat ((L - (l + 1) mod n) mod n)"
  proof -
    have "(L - (l + 1) mod n) mod n = ((L - l) mod n - 1) mod n"
      by (simp add: mod_diff_eq mod_simps algebra_simps)
    also have "\<dots> = (L - l) mod n - 1"
      using Suc.prems(3) pos_mod_bound [of n "L - l"] assms(1,2)
      by (intro mod_pos_pos_trivial) linarith+
    finally show ?thesis using Suc.prems(3) by simp
  qed
  moreover have "0 \<le> (l + 1) mod n" "(l + 1) mod n < n" using Suc.prems by auto
  ultimately show ?case using Suc.IH [of "(l + 1) mod n" "Suc t"] by simp
qed

lemma live:
  assumes "0 \<le> L" "L < n" "\<And>t. \<exists>r. fst (att t L) = Some r"
    "\<And>t l. l \<noteq> L \<Longrightarrow> 0 \<le> l \<Longrightarrow> l < n \<Longrightarrow> att t l = (None, True)" "0 \<le> l" "l < n"
  shows "\<exists>r t'. loop t l = Some (r, L, t') \<and> fst (att t' L) = Some r \<and> t' < t + nat n"
proof -
  have "nat ((L - l) mod n) < nat n" using assms(1,2) by (simp add: nat_less_eq_zless)
  with live_aux [OF assms(1-4) assms(5,6) refl, of t] show ?thesis by fastforce
qed

end

section \<open>The two loops of the clerk\<close>

definition getAttempt :: "(nat \<Rightarrow> int \<Rightarrow> GetArgs \<Rightarrow> GetReply call) \<Rightarrow> GetArgs \<Rightarrow> string attempt" where
  "getAttempt net args t l =
     (case net t l args of (ok, reply) \<Rightarrow>
        (if ok \<and> grErr reply = OK then Some (grValue reply)
         else if ok \<and> grErr reply = ErrNoKey then Some '''' else None,
         \<not> ok \<or> grWrongLeader reply))"

definition putAppendAttempt ::
    "(nat \<Rightarrow> int \<Rightarrow> PutAppendArgs \<Rightarrow> PutAppendReply call) \<Rightarrow> PutAppendArgs \<Rightarrow> unit attempt" where
  "putAppendAttempt net args t l =
     (case net t l args of (ok, reply) \<Rightarrow>
        (if ok \<and> parErr reply = OK then Some () else None, \<not> ok \<or> parWrongLeader reply))"

interpretation get_loop: retry_loop n "getAttempt net args" "getLoop net n args"
proof
  fix t l
  show "getLoop net n args t l = (case getAttempt net args t l of
      (Some r, _) \<Rightarrow> Some (r, l, t)
    | (None, turn) \<Rightarrow> getLoop net n args (Suc t) (if turn then (l + 1) mod n else l))"
    by (subst getLoop.simps) (cases "net t l args", auto simp: getAttempt_def)
next
  fix t l x
  assume "getLoop net n args t l = Some x"
  then show "\<exists>k. retry n (getAttempt net args) k t l = Some x"
  proof (rule getLoop.raw_induct [rotated])
    fix loop net n args t l y
    assume 1: "\<And>net n args t l y. loop net n args t l = Some y \<Longrightarrow>
        \<exists>k. retry n (getAttempt net args) k t l = Some y"
      "(case net t l args of (ok, reply) \<Rightarrow>
        if ok \<and> grErr reply = OK then Some (grValue reply, l, t)
        else if ok \<and> grErr reply = ErrNoKey then Some ('''', l, t)
        else loop net n args (Suc t)
               (if \<not> ok \<or> grWrongLeader reply then (l + 1) mod n else l)) = Some y"
    show "\<exists>k. retry n (getAttempt net args) k t l = Some y"
    proof (cases "fst (getAttempt net args t l)")
      case None
      with 1(2) have "loop net n args (Suc t) (if snd (getAttempt net args t l) then (l + 1) mod n else l) = Some y"
        by (auto simp: getAttempt_def split: prod.splits if_splits)
      from 1(1) [OF this] obtain k where "retry n (getAttempt net args) k (Suc t)
          (if snd (getAttempt net args t l) then (l + 1) mod n else l) = Some y" by blast
      with None show ?thesis by (intro exI [of _ "Suc k"]) (auto split: prod.splits)
    next
      case (Some r)
      with 1(2) have "y = (r, l, t)" by (auto simp: getAttempt_def split: prod.splits if_splits)
      with Some show ?thesis by (intro exI [of _ "Suc 0"]) (auto split: prod.splits)
    qed
  qed
qed

interpretation put_append_loop: retry_loop n "putAppendAttempt net args" "putAppendLoop net n args"
proof
  fix t l
  show "putAppendLoop net n args t l = (case putAppendAttempt net args t l of
      (Some r, _) \<Rightarrow> Some (r, l, t)
    | (None, turn) \<Rightarrow> putAppendLoop net n args (Suc t) (if turn then (l + 1) mod n else l))"
    by (subst putAppendLoop.simps) (cases "net t l args", auto simp: putAppendAttempt_def)
next
  fix t l x
  assume "putAppendLoop net n args t l = Some x"
  then show "\<exists>k. retry n (putAppendAttempt net args) k t l = Some x"
  proof (rule putAppendLoop.raw_induct [rotated])
    fix loop net n args t l y
    assume 1: "\<And>net n args t l y. loop net n args t l = Some y \<Longrightarrow>
        \<exists>k. retry n (putAppendAttempt net args) k t l = Some y"
      "(case net t l args of (ok, reply) \<Rightarrow>
        if ok \<and> parErr reply = OK then Some ((), l, t)
        else loop net n args (Suc t)
               (if \<not> ok \<or> parWrongLeader reply then (l + 1) mod n else l)) = Some y"
    show "\<exists>k. retry n (putAppendAttempt net args) k t l = Some y"
    proof (cases "fst (putAppendAttempt net args t l)")
      case None
      with 1(2) have "loop net n args (Suc t) (if snd (putAppendAttempt net args t l) then (l + 1) mod n else l) = Some y"
        by (auto simp: putAppendAttempt_def split: prod.splits if_splits)
      from 1(1) [OF this] obtain k where "retry n (putAppendAttempt net args) k (Suc t)
          (if snd (putAppendAttempt net args t l) then (l + 1) mod n else l) = Some y" by blast
      with None show ?thesis by (intro exI [of _ "Suc k"]) (auto split: prod.splits)
    next
      case (Some r)
      with 1(2) have "y = (r, l, t)" by (auto simp: putAppendAttempt_def split: prod.splits if_splits)
      with Some show ?thesis by (intro exI [of _ "Suc 0"]) (auto split: prod.splits)
    qed
  qed
qed

text \<open>
  A Get that returns has an answer: some server in range answered the clerk's request,
  with the value that is returned or with the error that the key is missing (then the empty
  string is returned); the clerk keeps that server as its leader and uses the next number for
  its next request.
\<close>

theorem clerk_get_sound:
  assumes "clerkGet net ck key = Some (ck', v)" "0 \<le> leadId ck" "leadId ck < nservers ck"
  shows "\<exists>t reply. net t (leadId ck') (getArgs ck key) = (True, reply) \<and>
     (grErr reply = OK \<and> v = grValue reply \<or> grErr reply = ErrNoKey \<and> v = '''') \<and>
     0 \<le> leadId ck' \<and> leadId ck' < nservers ck' \<and> nextSeq ck' = nextSeq ck + 1"
proof -
  from assms(1) obtain lead t where
    "getLoop net (nservers ck) (getArgs ck key) 0 (leadId ck) = Some (v, lead, t)"
    "ck' = ck\<lparr>nextSeq := nextSeq ck + 1, leadId := lead\<rparr>"
    by (auto simp: clerkGet_def split: option.splits)
  with get_loop.sound [OF this(1)] assms(2,3) show ?thesis
    by (auto simp: getAttempt_def split: prod.splits if_splits)
qed

definition demoGetNet :: "nat \<Rightarrow> int \<Rightarrow> GetArgs \<Rightarrow> GetReply call" where
  "demoGetNet t l args =
     (if l = 1 then (True, \<lparr>grWrongLeader = False, grErr = OK, grValue = ''v''\<rparr>)
      else (l \<noteq> 0, \<lparr>grWrongLeader = True, grErr = ErrFail, grValue = []\<rparr>))"

theorem clerk_get_sound_witness:
  "let ck = MakeClerk 3 5 in
   \<exists>ck' reply t. clerkGet demoGetNet ck ''k'' = Some (ck', ''v'') \<and> leadId ck' = 1 \<and>
     demoGetNet t 1 (getArgs ck ''k'') = (True, reply) \<and> grErr reply = OK"
proof -
  let ?ck = "MakeClerk 3 5"
  have "clerkGet demoGetNet ?ck ''k'' =
      Some (\<lparr>nservers = 3, leadId = 1, clientID = clientID ?ck, nextSeq = 1\<rparr>, ''v'')"
    by code_simp
  moreover have "0 \<le> leadId ?ck" "leadId ?ck < nservers ?ck" by (simp_all add: MakeClerk_def)
  ultimately show ?thesis
    unfolding Let_def using clerk_get_sound [of demoGetNet ?ck "''k''"] by fastforce
qed

text \<open>
  Property C31. A clerk finds the leader within one turn around the servers: when one server answers
  every request and every other server is unreachable or says that it is not the leader, a Put or
  an Append returns, after at most as many calls as there are servers, and the clerk has that
  server as its leader.
\<close>

theorem clerk_put_append_live:
  assumes "0 \<le> L" "L < nservers ck" "0 \<le> leadId ck" "leadId ck < nservers ck"
    "\<And>t args. \<exists>reply. net t L args = (True, reply) \<and> parErr reply = OK"
    "\<And>t l args. l \<noteq> L \<Longrightarrow> \<not> fst (net t l args) \<or> parWrongLeader (snd (net t l args)) \<and> parErr (snd (net t l args)) = ErrFail"
  shows "\<exists>t. t < nat (nservers ck) \<and>
     putAppendLoop net (nservers ck) (putAppendArgs ck key val op) 0 (leadId ck) = Some ((), L, t) \<and>
     clerkPutAppend net ck key val op = Some (ck\<lparr>nextSeq := nextSeq ck + 1, leadId := L\<rparr>)"
proof -
  let ?args = "putAppendArgs ck key val op"
  have "\<exists>r. fst (putAppendAttempt net ?args t L) = Some r" for t
    using assms(5) [of t ?args] by (auto simp: putAppendAttempt_def)
  moreover have "putAppendAttempt net ?args t l = (None, True)" if "l \<noteq> L" for t l
    using assms(6) [OF that, of t ?args]
    by (auto simp: putAppendAttempt_def ErrFail_def OK_def split: prod.splits)
  ultimately obtain r t where "putAppendLoop net (nservers ck) ?args 0 (leadId ck) = Some (r, L, t)"
    "t < 0 + nat (nservers ck)"
    using put_append_loop.live [of L "nservers ck" net ?args "leadId ck" 0] assms(1-4) by blast
  then show ?thesis by (auto simp: clerkPutAppend_def)
qed

definition demoPutNet :: "nat \<Rightarrow> int \<Rightarrow> PutAppendArgs \<Rightarrow> PutAppendReply call" where
  "demoPutNet t l args =
     (if l = 1 then (True, \<lparr>parWrongLeader = False, parErr = OK\<rparr>)
      else (l \<noteq> 0, \<lparr>parWrongLeader = True, parErr = ErrFail\<rparr>))"

theorem clerk_put_append_live_witness:
  "let ck = (MakeClerk 3 5)\<lparr>leadId := 2\<rparr> in
   clerkPutAppend demoPutNet ck ''k'' ''v'' PUT = Some (ck\<lparr>nextSeq := nextSeq ck + 1, leadId := 1\<rparr>)"
proof -
  let ?ck = "(MakeClerk 3 5)\<lparr>leadId := 2\<rparr>"
  have "\<exists>t. t < nat (nservers ?ck) \<and>
     putAppendLoop demoPutNet (nservers ?ck) (putAppendArgs ?ck ''k'' ''v'' PUT) 0 (leadId ?ck) = Some ((), 1, t) \<and>
     clerkPutAppend demoPutNet ?ck ''k'' ''v'' PUT = Some (?ck\<lparr>nextSeq := nextSeq ?ck + 1, leadId := 1\<rparr>)"
    by (rule clerk_put_append_live) (auto simp: MakeClerk_def demoPutNet_def)
  then show ?thesis unfolding Let_def by blast
qed

end
