(* ===== verification/Lin_Bitset.thy ===== *)
theory Lin_Bitset
  imports Go_Prelude "HOL-Library.Word"
begin

text \<open>
  The bit sets of the linearizability checker (\<^verbatim>\<open>linearizability/bitset.go\<close>): slices of 64-bit
  words.  \<open>None\<close> is the panic of an index out of range.
\<close>

unbundle bit_operations_syntax

section \<open>Operations\<close>

type_synonym bitset = "64 word list"

definition newBitset :: "nat \<Rightarrow> bitset" where
  "newBitset bits =
     (let extra = (if bits mod 64 \<noteq> 0 then 1 else 0);
          chunks = bits div 64 + extra
      in replicate chunks 0)"

definition bitset_clone :: "bitset \<Rightarrow> bitset" where
  "bitset_clone b = map (\<lambda>v. v) b"

definition bitsetIndex :: "nat \<Rightarrow> nat \<times> nat" where
  "bitsetIndex pos = (pos div 64, pos mod 64)"

definition bitset_set :: "bitset \<Rightarrow> nat \<Rightarrow> bitset option" where
  "bitset_set b pos =
     (let (major, minor) = bitsetIndex pos
      in if major < length b then Some (b[major := (b ! major) OR push_bit minor 1]) else None)"

definition bitset_clear :: "bitset \<Rightarrow> nat \<Rightarrow> bitset option" where
  "bitset_clear b pos =
     (let (major, minor) = bitsetIndex pos
      in if major < length b then Some (b[major := (b ! major) AND NOT (push_bit minor 1)]) else None)"

definition bitset_get :: "bitset \<Rightarrow> nat \<Rightarrow> bool option" where
  "bitset_get b pos =
     (let (major, minor) = bitsetIndex pos
      in if major < length b then Some ((b ! major) AND push_bit minor 1 \<noteq> 0) else None)"

definition popcntWord :: "64 word \<Rightarrow> 64 word" where
  "popcntWord v =
     (let v = (v AND 0x5555555555555555) + drop_bit 1 (v AND 0xAAAAAAAAAAAAAAAA);
          v = (v AND 0x3333333333333333) + drop_bit 2 (v AND 0xCCCCCCCCCCCCCCCC);
          v = (v AND 0x0F0F0F0F0F0F0F0F) + drop_bit 4 (v AND 0xF0F0F0F0F0F0F0F0);
          v = v * 0x0101010101010101
      in drop_bit 56 v AND 0xFF)"

definition bitset_popcnt :: "bitset \<Rightarrow> 64 word" where
  "bitset_popcnt b = foldl (\<lambda>total v. total + popcntWord v) 0 b"

definition bitset_hash :: "bitset \<Rightarrow> 64 word" where
  "bitset_hash b = foldl (\<lambda>hash v. hash XOR v) (bitset_popcnt b) b"

definition bitset_equals :: "bitset \<Rightarrow> bitset \<Rightarrow> bool" where
  "bitset_equals b b2 \<longleftrightarrow> length b = length b2 \<and> list_all (\<lambda>i. b ! i = b2 ! i) [0..<length b]"

section \<open>Bit sets as sets\<close>

definition elems :: "bitset \<Rightarrow> nat set" where
  "elems b = {p. p div 64 < length b \<and> bit (b ! (p div 64)) (p mod 64)}"

lemma bitset_equals_eq [simp]: "bitset_equals b b2 \<longleftrightarrow> b = b2"
  by (auto simp: bitset_equals_def list_all_iff intro: nth_equalityI)

lemma bitset_clone_id [simp]: "bitset_clone b = b"
  by (simp add: bitset_clone_def)

lemma newBitset_room: "p < n \<Longrightarrow> p div 64 < length (newBitset n)"
  by (auto simp: newBitset_def Let_def)

lemma elems_newBitset [simp]: "elems (newBitset n) = {}"
  by (auto simp: elems_def newBitset_def Let_def)

lemma bit_single: "bit ((2 :: 64 word) ^ m) k \<longleftrightarrow> k = m \<and> m < 64"
  by (auto simp: bit_exp_iff)

lemma single_zero: "m < 64 \<Longrightarrow> (w :: 64 word) AND 2 ^ m \<noteq> 0 \<longleftrightarrow> bit w m"
  by (subst bit_eq_iff) (auto simp: bit_and_iff bit_single)

lemma same_position: "p div 64 = q div 64 \<Longrightarrow> p mod 64 = q mod 64 \<Longrightarrow> p = (q :: nat)"
  by (metis div_mult_mod_eq)

lemma bitset_set_elems:
  assumes "p div 64 < length b"
  shows "\<exists>b'. bitset_set b p = Some b' \<and> length b' = length b \<and> elems b' = insert p (elems b)"
  using assms
  by (auto simp: bitset_set_def bitsetIndex_def elems_def nth_list_update bit_or_iff bit_single
      dest: same_position)

lemma bitset_clear_elems:
  assumes "p div 64 < length b"
  shows "\<exists>b'. bitset_clear b p = Some b' \<and> length b' = length b \<and> elems b' = elems b - {p}"
  using assms
  by (auto simp: bitset_clear_def bitsetIndex_def elems_def nth_list_update bit_and_iff bit_not_iff
      bit_single dest: same_position)

lemma bitset_get_elems:
  "p div 64 < length b \<Longrightarrow> bitset_get b p = Some (p \<in> elems b)"
  by (simp add: bitset_get_def bitsetIndex_def elems_def single_zero)

lemma elems_inject:
  assumes "length b = length c" "elems b = elems c"
  shows "b = c"
proof (rule nth_equalityI [OF assms(1)])
  fix i assume i: "i < length b"
  have "bit (b ! i) k = bit (c ! i) k" if "k < 64" for k
  proof -
    have "(64 * i + k) div 64 = i" "(64 * i + k) mod 64 = k" using that by auto
    then have "(64 * i + k \<in> elems b) = bit (b ! i) k" "(64 * i + k \<in> elems c) = bit (c ! i) k"
      unfolding elems_def using assms(1) i by simp_all
    then show ?thesis unfolding assms(2) by simp
  qed
  then show "b ! i = c ! i" by (intro bit_word_eqI) auto
qed

section \<open>Counting bits\<close>

text \<open>The number with the digits \<open>c 0\<close>, \<open>c 1\<close>, ... in base $2^w$.\<close>

fun digits :: "nat \<Rightarrow> nat \<Rightarrow> (nat \<Rightarrow> nat) \<Rightarrow> nat" where
  "digits w 0 c = 0"
| "digits w (Suc n) c = c 0 + 2 ^ w * digits w n (\<lambda>i. c (Suc i))"

lemma digits_add: "digits w n c + digits w n d = digits w n (\<lambda>i. c i + d i)"
proof (induction n arbitrary: c d)
  case (Suc n)
  show ?case by (simp add: Suc.IH [symmetric] algebra_simps)
qed simp

lemma digits_mult: "k * digits w n c = digits w n (\<lambda>i. k * c i)"
  by (induction n arbitrary: c) (auto simp: algebra_simps)

lemma digits_bound:
  "(\<And>i. i < n \<Longrightarrow> c i < 2 ^ w) \<Longrightarrow> digits w n c < 2 ^ (w * n)"
proof (induction n arbitrary: c)
  case (Suc n)
  then have "digits w n (\<lambda>i. c (Suc i)) + 1 \<le> 2 ^ (w * n)" "c 0 < 2 ^ w" by (simp_all add: Suc_leI)
  then have "2 ^ w * (digits w n (\<lambda>i. c (Suc i)) + 1) \<le> 2 ^ w * 2 ^ (w * n)"
    by (intro mult_le_mono2)
  with \<open>c 0 < 2 ^ w\<close> show ?case by (simp add: power_add algebra_simps)
qed simp

lemma digits_regroup: "digits w (2 * n) c = digits (2 * w) n (\<lambda>i. c (2 * i) + 2 ^ w * c (2 * i + 1))"
proof (induction n arbitrary: c)
  case (Suc n)
  have "2 * Suc n = Suc (Suc (2 * n))" "(2 :: nat) ^ (w * 2) = 2 ^ w * 2 ^ w"
    by (simp_all add: power_add mult_2_right)
  then show ?case
    using Suc [of "\<lambda>i. c (Suc (Suc i))"] by (simp add: algebra_simps)
qed simp

lemma digits_bits: "n < 2 ^ m \<Longrightarrow> n = digits 1 m (\<lambda>i. of_bool (bit n i))"
proof (induction m arbitrary: n)
  case (Suc m)
  have "n div 2 = digits 1 m (\<lambda>i. of_bool (bit (n div 2) i))"
    using Suc.prems by (intro Suc.IH) auto
  moreover have "bit (n div 2) i = bit n (Suc i)" for i by (simp add: bit_Suc)
  ultimately have "n div 2 = digits 1 m (\<lambda>i. of_bool (bit n (Suc i)))" by simp
  moreover have "n = of_bool (bit n 0) + 2 * (n div 2)"
    by (simp add: bit_0 mod2_eq_if flip: odd_iff_mod_2_eq_one)
  ultimately show ?case by simp
qed simp

lemma and_split:
  assumes "a < 2 ^ k" "c < (2 :: nat) ^ k"
  shows "(a + 2 ^ k * b) AND (c + 2 ^ k * d) = (a AND c) + 2 ^ k * (b AND d)"
proof -
  let ?x = "a + 2 ^ k * b" and ?y = "c + 2 ^ k * d"
  have t: "take_bit k ?x = a" "take_bit k ?y = c" "drop_bit k ?x = b" "drop_bit k ?y = d"
    using assms by (simp_all add: take_bit_eq_mod drop_bit_eq_div)
  have "?x AND ?y = push_bit k (drop_bit k (?x AND ?y)) + take_bit k (?x AND ?y)"
    by (rule bits_ident [symmetric])
  also have "\<dots> = (b AND d) * 2 ^ k + (a AND c)"
    by (simp only: drop_bit_and take_bit_and t push_bit_eq_mult)
  finally show ?thesis by (simp add: mult.commute)
qed

lemma digits_and:
  "(\<And>i. i < n \<Longrightarrow> c i < 2 ^ w) \<Longrightarrow> (\<And>i. i < n \<Longrightarrow> d i < 2 ^ w) \<Longrightarrow>
   digits w n c AND digits w n d = digits w n (\<lambda>i. c i AND d i)"
  by (induction n arbitrary: c d) (simp_all add: and_split)

text \<open>One round: neighbouring digits are added into digits of twice the width.\<close>

definition evens :: "nat \<Rightarrow> nat \<Rightarrow> nat" where
  "evens w n = digits (2 * w) n (\<lambda>_. 2 ^ w - 1)"

lemma fold_round:
  assumes "\<And>i. c i < 2 ^ w"
  shows "(digits w (2 * n) c AND evens w n) +
     (digits w (2 * n) c AND (2 ^ w * evens w n)) div 2 ^ w = digits (2 * w) n (\<lambda>i. c (2 * i) + c (2 * i + 1))"
proof -
  let ?p = "\<lambda>i. c (2 * i) + 2 ^ w * c (2 * i + 1)"
  have dbl: "(2 :: nat) ^ (2 * w) = 2 ^ w * 2 ^ w" by (simp add: power_add mult_2)
  have pb: "?p i < 2 ^ (2 * w)" for i
  proof -
    have "2 ^ w * (c (2 * i + 1) + 1) \<le> 2 ^ w * 2 ^ w"
      using assms [of "2 * i + 1"] by (intro mult_le_mono2) simp
    with assms [of "2 * i"] show ?thesis unfolding dbl by (simp add: algebra_simps)
  qed
  have mb: "(2 :: nat) ^ w - 1 < 2 ^ (2 * w)" "2 ^ w * (2 ^ w - 1) < (2 :: nat) ^ (2 * w)"
    unfolding dbl by (auto simp: less_le_trans [of _ "2 ^ w"])
  have m: "x AND (2 ^ w - 1) = x mod 2 ^ w" for x :: nat
    unfolding mask_eq_exp_minus_1 [symmetric] take_bit_eq_mask [symmetric] take_bit_eq_mod ..
  have lo: "?p i AND (2 ^ w - 1) = c (2 * i)" for i
    unfolding m using assms by simp
  have hi: "?p i AND (2 ^ w * (2 ^ w - 1)) = 2 ^ w * c (2 * i + 1)" for i
    using and_split [of "c (2 * i)" w 0 "c (2 * i + 1)" "2 ^ w - 1"] assms [of "2 * i"]
      assms [of "2 * i + 1"] m [of "c (2 * i + 1)"]
    by simp
  have "digits (2 * w) n ?p AND digits (2 * w) n (\<lambda>_. 2 ^ w - 1) =
      digits (2 * w) n (\<lambda>i. ?p i AND (2 ^ w - 1))"
    by (rule digits_and) (use pb mb(1) in auto)
  then have "digits w (2 * n) c AND evens w n = digits (2 * w) n (\<lambda>i. c (2 * i))"
    unfolding evens_def digits_regroup lo .
  moreover have "digits (2 * w) n ?p AND digits (2 * w) n (\<lambda>_. 2 ^ w * (2 ^ w - 1)) =
      digits (2 * w) n (\<lambda>i. ?p i AND (2 ^ w * (2 ^ w - 1)))"
    by (rule digits_and) (use pb mb(2) in auto)
  then have "digits w (2 * n) c AND (2 ^ w * evens w n) = 2 ^ w * digits (2 * w) n (\<lambda>i. c (2 * i + 1))"
    unfolding evens_def digits_regroup digits_mult hi .
  ultimately show ?thesis by (simp add: digits_add)
qed

lemma sum_pairs: "(\<Sum>i < 2 * n. c i) = (\<Sum>i < n. c (2 * i) + c (2 * i + 1))" for c :: "nat \<Rightarrow> nat"
  by (induction n) simp_all

text \<open>Multiplying by 0x0101... adds the digits of base 256 up in the top digit.\<close>

lemma digits_8: "digits w 8 c = c 0 + 2 ^ w * (c 1 + 2 ^ w * (c 2 + 2 ^ w * (c 3 + 2 ^ w * (c 4 +
    2 ^ w * (c 5 + 2 ^ w * (c 6 + 2 ^ w * c 7))))))"
  by (simp add: numeral_eq_Suc)

lemma sum_8: "(\<Sum>i < 8. c i) = c 0 + c 1 + c 2 + c 3 + c 4 + c 5 + c 6 + c 7" for c :: "nat \<Rightarrow> nat"
  by (simp add: numeral_eq_Suc)

lemma byte_sum_aux:
  fixes c0 c1 c2 c3 c4 c5 c6 c7 :: nat
  assumes "c0 \<le> 8" "c1 \<le> 8" "c2 \<le> 8" "c3 \<le> 8" "c4 \<le> 8" "c5 \<le> 8" "c6 \<le> 8" "c7 \<le> 8"
  shows "((c0 + 256 * (c1 + 256 * (c2 + 256 * (c3 + 256 * (c4 + 256 * (c5 + 256 * (c6 + 256 * c7))))))) *
     0x0101010101010101) mod 0x10000000000000000 div 0x100000000000000 = c0 + c1 + c2 + c3 + c4 + c5 + c6 + c7"
proof -
  define R where "R = c0 + 256 * (c0 + c1) + 65536 * (c0 + c1 + c2) + 0x1000000 * (c0 + c1 + c2 + c3) +
    0x100000000 * (c0 + c1 + c2 + c3 + c4) + 0x10000000000 * (c0 + c1 + c2 + c3 + c4 + c5) +
    0x1000000000000 * (c0 + c1 + c2 + c3 + c4 + c5 + c6)"
  define Q where "Q = (c1 + c2 + c3 + c4 + c5 + c6 + c7) + 256 * (c2 + c3 + c4 + c5 + c6 + c7) +
    65536 * (c3 + c4 + c5 + c6 + c7) + 0x1000000 * (c4 + c5 + c6 + c7) +
    0x100000000 * (c5 + c6 + c7) + 0x10000000000 * (c6 + c7) + 0x1000000000000 * c7"
  define S where "S = c0 + c1 + c2 + c3 + c4 + c5 + c6 + c7"
  have "(c0 + 256 * (c1 + 256 * (c2 + 256 * (c3 + 256 * (c4 + 256 * (c5 + 256 * (c6 + 256 * c7))))))) *
     0x0101010101010101 = (R + 0x100000000000000 * S) + 0x10000000000000000 * Q"
    unfolding R_def Q_def S_def by (simp add: algebra_simps)
  moreover have r: "R < 0x100000000000000" unfolding R_def using assms by simp
  moreover have "R + 0x100000000000000 * S < 0x10000000000000000"
    using r assms unfolding S_def by simp
  ultimately show ?thesis unfolding S_def [symmetric] by simp
qed

lemma byte_sum:
  assumes "\<And>i. c i \<le> 8"
  shows "(digits 8 8 c * 0x0101010101010101) mod 2 ^ 64 div 2 ^ 56 = (\<Sum>i < 8. c i)"
  using byte_sum_aux [OF assms assms assms assms assms assms assms assms, of 0 1 2 3 4 5 6 7]
  by (simp add: digits_8 sum_8)

lemma unat_round:
  fixes v :: "64 word"
  assumes "unat v = digits w (2 * n) c" "\<And>i. c i < 2 ^ w" "\<And>i. c (2 * i) + c (2 * i + 1) < 2 ^ (2 * w)"
    "2 * w * n \<le> 64" "evens w n = m" "m < 2 ^ 64" "2 ^ w * m < 2 ^ 64"
  shows "unat ((v AND of_nat m) + drop_bit w (v AND of_nat (2 ^ w * m))) =
     digits (2 * w) n (\<lambda>i. c (2 * i) + c (2 * i + 1))"
proof -
  have u: "unat (of_nat x :: 64 word) = x" if "x < 2 ^ 64" for x
    using that by (simp add: unat_of_nat)
  have "unat (v AND of_nat m) = digits w (2 * n) c AND m"
    unfolding unsigned_and_eq u [OF assms(6)] assms(1) ..
  moreover have "unat (drop_bit w (v AND of_nat (2 ^ w * m))) = (digits w (2 * n) c AND (2 ^ w * m)) div 2 ^ w"
    unfolding unat_drop_bit_eq unsigned_and_eq u [OF assms(7)] assms(1) by (rule drop_bit_eq_div)
  moreover have "digits (2 * w) n (\<lambda>i. c (2 * i) + c (2 * i + 1)) < 2 ^ (2 * w * n)"
    using assms(3) by (intro digits_bound)
  then have "digits (2 * w) n (\<lambda>i. c (2 * i) + c (2 * i + 1)) < 2 ^ 64"
    using assms(4) power_increasing [of "2 * w * n" 64 "2 :: nat"] by (simp add: less_le_trans)
  ultimately show ?thesis
    using fold_round [OF assms(2), of n] assms(5) by (simp add: unat_word_ariths)
qed

lemma evens_double: "evens w (2 * n) = evens w n + 2 ^ (2 * w * n) * evens w n"
proof -
  have "digits w' (m + n) (\<lambda>_. d) = digits w' m (\<lambda>_. d) + 2 ^ (w' * m) * digits w' n (\<lambda>_. d)" for w' m d
    by (induction m) (simp_all add: algebra_simps power_add)
  then show ?thesis by (simp add: evens_def mult_2)
qed

lemma evens_1: "evens w 1 = 2 ^ w - 1"
  by (simp add: evens_def)

lemma evens_values:
  "evens 1 32 = 0x5555555555555555" "evens 2 16 = 0x3333333333333333" "evens 4 8 = 0x0F0F0F0F0F0F0F0F"
  using evens_double [of 1 1] evens_double [of 1 2] evens_double [of 1 4] evens_double [of 1 8]
    evens_double [of 1 16] evens_1 [of 1] evens_double [of 2 1] evens_double [of 2 2]
    evens_double [of 2 4] evens_double [of 2 8] evens_1 [of 2] evens_double [of 4 1]
    evens_double [of 4 2] evens_double [of 4 4] evens_1 [of 4]
  by simp_all

lemma popcntWord_digits:
  fixes v :: "64 word"
  shows "\<exists>c. (\<forall>i. c i \<le> 8) \<and> (\<Sum>i < 8. c i) = (\<Sum>i < 64. of_bool (bit v i)) \<and>
    unat (popcntWord v) = (digits 8 8 c * 0x0101010101010101) mod 2 ^ 64 div 2 ^ 56 mod 2 ^ 8"
proof -
  define b where "b = (\<lambda>i. of_bool (bit (unat v) i) :: nat)"
  define c2 where "c2 = (\<lambda>i. b (2 * i) + b (2 * i + 1))"
  define c4 where "c4 = (\<lambda>i. c2 (2 * i) + c2 (2 * i + 1))"
  define c8 where "c8 = (\<lambda>i. c4 (2 * i) + c4 (2 * i + 1))"
  define v1 where "v1 = (v AND 0x5555555555555555) + drop_bit 1 (v AND 0xAAAAAAAAAAAAAAAA)"
  define v2 where "v2 = (v1 AND 0x3333333333333333) + drop_bit 2 (v1 AND 0xCCCCCCCCCCCCCCCC)"
  define v3 where "v3 = (v2 AND 0x0F0F0F0F0F0F0F0F) + drop_bit 4 (v2 AND 0xF0F0F0F0F0F0F0F0)"
  have b1: "b i \<le> 1" for i by (simp add: b_def)
  have b2: "c2 i \<le> 2" for i using b1 [of "2 * i"] b1 [of "2 * i + 1"] unfolding c2_def by linarith
  have b4: "c4 i \<le> 4" for i using b2 [of "2 * i"] b2 [of "2 * i + 1"] unfolding c4_def by linarith
  have b8: "c8 i \<le> 8" for i using b4 [of "2 * i"] b4 [of "2 * i + 1"] unfolding c8_def by linarith
  have lt: "b i < 2 ^ 1" "c2 i < 2 ^ 2" "c4 i < 2 ^ 4" "c2 i < 2 ^ (2 * 1)" "c4 i < 2 ^ (2 * 2)"
    "c8 i < 2 ^ (2 * 4)" for i
    using b1 [of i] b2 [of i] b4 [of i] b8 [of i] by simp_all
  have "unat v = digits 1 (2 * 32) b"
    using digits_bits [of "unat v" "2 * 32"] unsigned_less [of v, where 'a = nat] by (simp add: b_def)
  from unat_round [OF this lt(1) lt(4) [unfolded c2_def] _ evens_values(1)]
  have "unat v1 = digits (2 * 1) 32 c2" unfolding v1_def c2_def by simp
  then have "unat v1 = digits 2 (2 * 16) c2" by simp
  from unat_round [OF this lt(2) lt(5) [unfolded c4_def] _ evens_values(2)]
  have "unat v2 = digits (2 * 2) 16 c4" unfolding v2_def c4_def by simp
  then have "unat v2 = digits 4 (2 * 8) c4" by simp
  from unat_round [OF this lt(3) lt(6) [unfolded c8_def] _ evens_values(3)]
  have v3: "unat v3 = digits 8 8 c8" unfolding v3_def c8_def by simp
  have "popcntWord v = drop_bit 56 (v3 * 0x0101010101010101) AND 0xFF"
    by (simp only: popcntWord_def Let_def v1_def v2_def v3_def)
  also have "unat \<dots> = (digits 8 8 c8 * 0x0101010101010101) mod 2 ^ 64 div 2 ^ 56 mod 2 ^ 8"
  proof -
    have "unat (x AND 0xFF) = unat x mod 2 ^ 8" for x :: "64 word"
      using take_bit_eq_mask [of 8 "unat x"] by (simp add: unsigned_and_eq take_bit_eq_mod mask_eq_exp_minus_1)
    then show ?thesis
      using v3 by (simp add: unat_drop_bit_eq drop_bit_eq_div unat_word_ariths)
  qed
  finally have "unat (popcntWord v) = (digits 8 8 c8 * 0x0101010101010101) mod 2 ^ 64 div 2 ^ 56 mod 2 ^ 8" .
  moreover have "(\<Sum>i < 8. c8 i) = (\<Sum>i < 64. b i)"
    using sum_pairs [of c4 8] sum_pairs [of c2 16] sum_pairs [of b 32]
    by (simp add: c8_def c4_def c2_def)
  moreover have "(\<Sum>i < 64. b i) = (\<Sum>i < 64. of_bool (bit v i))"
    unfolding b_def by (intro sum.cong) (auto simp: bit_unsigned_iff)
  ultimately show ?thesis using b8 by metis
qed

text \<open>
  Property C23. The bit-parallel population count is exact: for every word, \<^verbatim>\<open>popcnt\<close>'s masks,
  shifts and its multiplication give the number of bits that are set.
\<close>

theorem popcntWord_counts:
  "unat (popcntWord v) = card {i. i < 64 \<and> bit v i}"
proof -
  from popcntWord_digits [of v] obtain c where c: "\<And>i. c i \<le> 8"
    "(\<Sum>i < 8. c i) = (\<Sum>i < 64. of_bool (bit v i))"
    "unat (popcntWord v) = (digits 8 8 c * 0x0101010101010101) mod 2 ^ 64 div 2 ^ 56 mod 2 ^ 8"
    by blast
  have "(\<Sum>i < 64. of_bool (bit v i)) = card {i. i < 64 \<and> bit v i}"
    by (simp add: of_bool_def sum.If_cases Int_def lessThan_def)
  moreover have "(\<Sum>i < 8. c i) \<le> (\<Sum>i < 8 :: nat. 8)" using c(1) by (intro sum_mono)
  then have "(\<Sum>i < 8. c i) < 2 ^ 8" by simp
  then have "unat (popcntWord v) = (\<Sum>i < 8. c i)"
    unfolding c(3) byte_sum [OF c(1)] by (rule mod_less)
  ultimately show ?thesis using c(2) by metis
qed

end
