(* ===== verification/Lin_Check.thy ===== *)
theory Lin_Check
  imports Lin_Bitset
begin

text \<open>
  The linearizability checker (\<^verbatim>\<open>linearizability/linearizability.go\<close>, \<^verbatim>\<open>model.go\<close>,
  \<^verbatim>\<open>models.go\<close>).  The doubly linked list of calls and returns is mutated in place, so its
  nodes live in a heap, a list of nodes that is indexed by addresses; \<open>None\<close> is the nil
  pointer.  A value of type \<^verbatim>\<open>interface{}\<close> is an option, with \<open>None\<close> for nil.
\<close>

section \<open>Data\<close>

type_synonym 'v iface = "'v option"

record 'v Operation =
  opInput :: "'v iface"
  opCall :: int
  opOutput :: "'v iface"
  opReturn :: int

datatype EventKind = CallEvent | ReturnEvent

record 'v Event =
  evKind :: EventKind
  evValue :: "'v iface"
  evId :: nat

text \<open>
  The functions of a model may panic (on a type assertion); then they give \<open>None\<close>.  A function
  field that is nil is \<open>None\<close> as well.
\<close>

record ('s, 'v) Model =
  mPartition :: "('v Operation list \<Rightarrow> 'v Operation list list option) option"
  mPartitionEvent :: "('v Event list \<Rightarrow> 'v Event list list option) option"
  mInit :: 's
  mStep :: "'s \<Rightarrow> 'v iface \<Rightarrow> 'v iface \<Rightarrow> (bool \<times> 's) option"
  mEqual :: "('s \<Rightarrow> 's \<Rightarrow> bool) option"

definition NoPartition :: "'v Operation list \<Rightarrow> 'v Operation list list option" where
  "NoPartition history = Some [history]"

definition NoPartitionEvent :: "'v Event list \<Rightarrow> 'v Event list list option" where
  "NoPartitionEvent history = Some [history]"

definition ShallowEqual :: "'s \<Rightarrow> 's \<Rightarrow> bool" where
  "ShallowEqual state1 state2 \<longleftrightarrow> state1 = state2"

datatype entryKind = callEntry | returnEntry

record 'v entry =
  ekind :: entryKind
  evalue :: "'v iface"
  eid :: nat
  etime :: int

record 'v node =
  nvalue :: "'v iface"
  nmatch :: "nat option"
  nid :: nat
  nnext :: "nat option"
  nprev :: "nat option"

type_synonym 'v heap = "'v node list"

section \<open>Entries\<close>

fun operationEntries :: "nat \<Rightarrow> 'v Operation list \<Rightarrow> 'v entry list" where
  "operationEntries i [] = []"
| "operationEntries i (e # es) =
     \<lparr>ekind = callEntry, evalue = opInput e, eid = i, etime = opCall e\<rparr> #
     \<lparr>ekind = returnEntry, evalue = opOutput e, eid = i, etime = opReturn e\<rparr> #
     operationEntries (Suc i) es"

text \<open>
  \<^verbatim>\<open>sort.Sort\<close> is not stable: \<open>srt\<close> may order entries with the same time in any way.
\<close>

definition makeEntries :: "('v entry list \<Rightarrow> 'v entry list) \<Rightarrow> 'v Operation list \<Rightarrow> 'v entry list" where
  "makeEntries srt history = srt (operationEntries 0 history)"

fun renumberFrom :: "(nat \<rightharpoonup> nat) \<Rightarrow> nat \<Rightarrow> 'v Event list \<Rightarrow> 'v Event list" where
  "renumberFrom m i [] = []"
| "renumberFrom m i (v # vs) =
     (case m (evId v) of
        Some r \<Rightarrow> v\<lparr>evId := r\<rparr> # renumberFrom m i vs
      | None \<Rightarrow> v\<lparr>evId := i\<rparr> # renumberFrom (m(evId v \<mapsto> i)) (Suc i) vs)"

definition renumber :: "'v Event list \<Rightarrow> 'v Event list" where
  "renumber events = renumberFrom Map.empty 0 events"

definition convertEntries :: "'v Event list \<Rightarrow> 'v entry list" where
  "convertEntries events =
     map (\<lambda>v. \<lparr>ekind = (if evKind v = ReturnEvent then returnEntry else callEntry),
               evalue = evValue v, eid = evId v, etime = -1\<rparr>) events"

section \<open>The linked list\<close>

definition insertBefore :: "'v heap \<Rightarrow> nat \<Rightarrow> nat option \<Rightarrow> 'v heap" where
  "insertBefore h n mark =
     (case mark of
        None \<Rightarrow> h
      | Some m \<Rightarrow>
          let beforeMark = nprev (h ! m);
              h = h[m := (h ! m)\<lparr>nprev := Some n\<rparr>];
              h = h[n := (h ! n)\<lparr>nnext := Some m\<rparr>]
          in case beforeMark of
               None \<Rightarrow> h
             | Some b \<Rightarrow>
                 let h = h[n := (h ! n)\<lparr>nprev := Some b\<rparr>]
                 in h[b := (h ! b)\<lparr>nnext := Some n\<rparr>])"

partial_function (option) nodeLength :: "'v heap \<Rightarrow> nat option \<Rightarrow> nat \<Rightarrow> nat option" where
  [code]: "nodeLength h n l = (case n of None \<Rightarrow> Some l | Some a \<Rightarrow> nodeLength h (nnext (h ! a)) (Suc l))"

text \<open>The loop runs from the last entry to the first one.\<close>

fun linkEntries ::
    "'v entry list \<Rightarrow> 'v heap \<times> nat option \<times> (nat \<rightharpoonup> nat) \<Rightarrow> 'v heap \<times> nat option \<times> (nat \<rightharpoonup> nat)" where
  "linkEntries [] st = st"
| "linkEntries (elem # es) st =
     (let (h, root, match) = linkEntries es st;
          a = length h
      in if ekind elem = returnEntry
         then (insertBefore (h @ [\<lparr>nvalue = evalue elem, nmatch = None, nid = eid elem,
                                   nnext = None, nprev = None\<rparr>]) a root,
               Some a, match(eid elem \<mapsto> a))
         else (insertBefore (h @ [\<lparr>nvalue = evalue elem, nmatch = match (eid elem), nid = eid elem,
                                   nnext = None, nprev = None\<rparr>]) a root,
               Some a, match))"

definition makeLinkedEntries :: "'v entry list \<Rightarrow> 'v heap \<times> nat option" where
  "makeLinkedEntries entries =
     (let (h, root, match) = linkEntries entries ([], None, Map.empty) in (h, root))"

text \<open>\<open>None\<close> is a nil pointer dereference.\<close>

definition setNext :: "'v heap \<Rightarrow> nat option \<Rightarrow> nat option \<Rightarrow> 'v heap option" where
  "setNext h p v = (case p of None \<Rightarrow> None | Some a \<Rightarrow> Some (h[a := (h ! a)\<lparr>nnext := v\<rparr>]))"

definition setPrev :: "'v heap \<Rightarrow> nat option \<Rightarrow> nat option \<Rightarrow> 'v heap option" where
  "setPrev h p v = (case p of None \<Rightarrow> None | Some a \<Rightarrow> Some (h[a := (h ! a)\<lparr>nprev := v\<rparr>]))"

definition lift :: "'v heap \<Rightarrow> nat \<Rightarrow> 'v heap option" where
  "lift h e = do {
     h \<leftarrow> setNext h (nprev (h ! e)) (nnext (h ! e));
     h \<leftarrow> setPrev h (nnext (h ! e)) (nprev (h ! e));
     m \<leftarrow> nmatch (h ! e);
     h \<leftarrow> setNext h (nprev (h ! m)) (nnext (h ! m));
     if nnext (h ! m) \<noteq> None then setPrev h (nnext (h ! m)) (nprev (h ! m)) else Some h
   }"

definition unlift :: "'v heap \<Rightarrow> nat \<Rightarrow> 'v heap option" where
  "unlift h e = do {
     m \<leftarrow> nmatch (h ! e);
     h \<leftarrow> setNext h (nprev (h ! m)) (Some m);
     h \<leftarrow> (if nnext (h ! m) \<noteq> None then setPrev h (nnext (h ! m)) (Some m) else Some h);
     h \<leftarrow> setNext h (nprev (h ! e)) (Some e);
     setPrev h (nnext (h ! e)) (Some e)
   }"

section \<open>The search\<close>

type_synonym 's cacheEntry = "bitset \<times> 's"
type_synonym 's cache = "64 word \<Rightarrow> 's cacheEntry list"

definition cacheContains :: "('s \<Rightarrow> 's \<Rightarrow> bool) \<Rightarrow> 's cache \<Rightarrow> 's cacheEntry \<Rightarrow> bool" where
  "cacheContains equal cache entry \<longleftrightarrow>
     list_ex (\<lambda>elem. bitset_equals (fst entry) (fst elem) \<and> equal (snd entry) (snd elem))
       (cache (bitset_hash (fst entry)))"

record ('s, 'v) search =
  sHeap :: "'v heap"
  sHead :: nat
  sEntry :: "nat option"
  sState :: 's
  sLin :: bitset
  sCache :: "'s cache"
  sCalls :: "(nat \<times> 's) list"

text \<open>One iteration of the loop after its tests; \<open>Inl\<close> ends the loop.\<close>

definition checkStep ::
    "('s, 'v) Model \<Rightarrow> ('s, 'v) search \<Rightarrow> bool outcome + ('s, 'v) search" where
  "checkStep m cs =
     (case sEntry cs of
        None \<Rightarrow> Inl Panics
      | Some e \<Rightarrow>
        (let h = sHeap cs; entry = h ! e in
         case nmatch entry of
           Some mt \<Rightarrow>
             (let matching = h ! mt in
              case mStep m (sState cs) (nvalue entry) (nvalue matching) of
                None \<Rightarrow> Inl Panics
              | Some (ok, newState) \<Rightarrow>
                  if ok then
                    (case bitset_set (bitset_clone (sLin cs)) (nid entry) of
                       None \<Rightarrow> Inl Panics
                     | Some newLinearized \<Rightarrow>
                         if \<not> cacheContains (the (mEqual m)) (sCache cs) (newLinearized, newState) then
                           (let hash = bitset_hash newLinearized in
                            case lift h e of
                              None \<Rightarrow> Inl Panics
                            | Some h' \<Rightarrow> Inr (cs\<lparr>sCache := (sCache cs)(hash := sCache cs hash @ [(newLinearized, newState)]),
                                                 sCalls := sCalls cs @ [(e, sState cs)],
                                                 sState := newState,
                                                 sLin := newLinearized,
                                                 sHeap := h',
                                                 sEntry := nnext (h' ! sHead cs)\<rparr>))
                         else Inr (cs\<lparr>sEntry := nnext entry\<rparr>))
                  else Inr (cs\<lparr>sEntry := nnext entry\<rparr>))
         | None \<Rightarrow>
             (if sCalls cs = [] then Inl (Done False)
              else
                (let (e', st') = last (sCalls cs) in
                 case bitset_clear (sLin cs) (nid (h ! e')) of
                   None \<Rightarrow> Inl Panics
                 | Some lin \<Rightarrow>
                     (case unlift h e' of
                        None \<Rightarrow> Inl Panics
                      | Some h' \<Rightarrow> Inr (cs\<lparr>sState := st', sLin := lin, sCalls := butlast (sCalls cs),
                                          sHeap := h', sEntry := nnext (h' ! e')\<rparr>))))))"

text \<open>
  \<^verbatim>\<open>^uint(0)\<close>, the number of the head node, which is never read.  Executions leave it as it
  is: as a natural number it is too large to be computed with.
\<close>

definition maxUint :: nat where
  "maxUint = 2 ^ 64 - 1"

declare maxUint_def [code del]

text \<open>\<open>kill t\<close> is the flag that iteration \<open>t\<close> reads.\<close>

partial_function (option) checkLoop ::
    "('s, 'v) Model \<Rightarrow> (nat \<Rightarrow> bool) \<Rightarrow> nat \<Rightarrow> ('s, 'v) search \<Rightarrow> bool outcome option" where
  [code]: "checkLoop m kill t cs =
     (if nnext (sHeap cs ! sHead cs) = None then Some (Done True)
      else if kill t then Some (Done False)
      else case checkStep m cs of
             Inl r \<Rightarrow> Some r
           | Inr cs' \<Rightarrow> checkLoop m kill (Suc t) cs')"

definition checkSingle ::
    "('s, 'v) Model \<Rightarrow> 'v heap \<times> nat option \<Rightarrow> (nat \<Rightarrow> bool) \<Rightarrow> bool outcome option" where
  "checkSingle m hl kill = do {
     let (h, subhistory) = hl;
     l \<leftarrow> nodeLength h subhistory 0;
     let n = l div 2;
     let head = length h;
     let h = h @ [\<lparr>nvalue = None, nmatch = None, nid = maxUint, nnext = None, nprev = None\<rparr>];
     checkLoop m kill 0
       \<lparr>sHeap = insertBefore h head subhistory, sHead = head, sEntry = subhistory, sState = mInit m,
        sLin = newBitset n, sCache = (\<lambda>_. []), sCalls = []\<rparr>
   }"

section \<open>Checking a history\<close>

definition fillDefault :: "('s, 'v) Model \<Rightarrow> ('s, 'v) Model" where
  "fillDefault m =
     m\<lparr>mPartition := Some (case mPartition m of None \<Rightarrow> NoPartition | Some f \<Rightarrow> f),
       mPartitionEvent := Some (case mPartitionEvent m of None \<Rightarrow> NoPartitionEvent | Some f \<Rightarrow> f),
       mEqual := Some (case mEqual m of None \<Rightarrow> ShallowEqual | Some f \<Rightarrow> f)\<rparr>"

text \<open>
  What the receiving loop sees: a result of one of the goroutines, or the timer.  When nothing
  more arrives, it blocks.
\<close>

datatype arrival = Result bool | TimedOut

fun collect :: "nat \<Rightarrow> nat \<Rightarrow> bool \<Rightarrow> arrival list \<Rightarrow> bool outcome" where
  "collect partitions count ok [] = Blocks"
| "collect partitions count ok (TimedOut # as) = Done ok"
| "collect partitions count ok (Result r # as) =
     (let ok = (ok \<and> r) in
      if \<not> ok then Done ok
      else if count + 1 \<ge> partitions then Done ok
      else collect partitions (count + 1) ok as)"

text \<open>
  The goroutines finish in the order \<open>order\<close>, a list of positions in the list of partitions; one
  that does not return sends nothing, one that panics ends the program.
\<close>

fun arrivals :: "bool outcome option list \<Rightarrow> nat list \<Rightarrow> arrival list outcome" where
  "arrivals verdicts [] = Done []"
| "arrivals verdicts (i # is) =
     (case arrivals verdicts is of
        Done as \<Rightarrow>
          (case verdicts ! i of
             Some (Done b) \<Rightarrow> Done (Result b # as)
           | Some Panics \<Rightarrow> Panics
           | _ \<Rightarrow> Done as)
      | x \<Rightarrow> x)"

definition gather :: "bool outcome option list \<Rightarrow> nat list \<Rightarrow> bool outcome" where
  "gather verdicts order =
     (case arrivals verdicts order of
        Done as \<Rightarrow> collect (length verdicts) 0 True as
      | _ \<Rightarrow> Panics)"

definition CheckOperations ::
    "('v entry list \<Rightarrow> 'v entry list) \<Rightarrow> nat list \<Rightarrow> ('s, 'v) Model \<Rightarrow> 'v Operation list \<Rightarrow> bool outcome" where
  "CheckOperations srt order model history =
     (let m = fillDefault model in
      case the (mPartition m) history of
        None \<Rightarrow> Panics
      | Some partitions \<Rightarrow>
          gather (map (\<lambda>sub. checkSingle m (makeLinkedEntries (makeEntries srt sub)) (\<lambda>_. False)) partitions)
            order)"

definition CheckEvents :: "nat list \<Rightarrow> ('s, 'v) Model \<Rightarrow> 'v Event list \<Rightarrow> bool outcome" where
  "CheckEvents order model history =
     (let m = fillDefault model in
      case the (mPartitionEvent m) history of
        None \<Rightarrow> Panics
      | Some partitions \<Rightarrow>
          gather (map (\<lambda>sub. checkSingle m (makeLinkedEntries (convertEntries (renumber sub))) (\<lambda>_. False))
              partitions) order)"

section \<open>The key/value model\<close>

record KvInput =
  kvOp :: "8 word"
  kvKey :: string
  kvValue :: string

record KvOutput =
  kvOutValue :: string

datatype kvval = KvIn KvInput | KvOut KvOutput

definition kvStep :: "string \<Rightarrow> kvval iface \<Rightarrow> kvval iface \<Rightarrow> (bool \<times> string) option" where
  "kvStep st inp out =
     (case (inp, out) of
        (Some (KvIn i), Some (KvOut x)) \<Rightarrow>
          Some (if kvOp i = 0 then (kvOutValue x = st, st)
                else if kvOp i = 1 then (True, kvValue i)
                else (True, st @ kvValue i))
      | _ \<Rightarrow> None)"

fun keyOf :: "kvval iface \<Rightarrow> string option" where
  "keyOf (Some (KvIn i)) = Some (kvKey i)"
| "keyOf _ = None"

text \<open>
  The partitions are the values of a Go map, which come in no particular order: \<open>keys\<close> gives
  the order in which the iteration visits the keys of the history.
\<close>

definition kvPartition ::
    "(string list \<Rightarrow> string list) \<Rightarrow> kvval Operation list \<Rightarrow> kvval Operation list list option" where
  "kvPartition keys history =
     (if list_all (\<lambda>v. keyOf (opInput v) \<noteq> None) history
      then Some (map (\<lambda>k. filter (\<lambda>v. keyOf (opInput v) = Some k) history)
                  (keys (remdups (map (the \<circ> keyOf \<circ> opInput) history))))
      else None)"

definition KvModel :: "(string list \<Rightarrow> string list) \<Rightarrow> (string, kvval) Model" where
  "KvModel keys = \<lparr>mPartition = Some (kvPartition keys), mPartitionEvent = None, mInit = '''',
                   mStep = kvStep, mEqual = Some ShallowEqual\<rparr>"

end
