(* ===== verification/Lin_List.thy ===== *)
theory Lin_List
  imports Lin_Check
begin

text \<open>
  The doubly linked list of the checker: what it means that a heap holds a list, that
  \<^verbatim>\<open>lift\<close> takes a call and its return out of it, and that \<^verbatim>\<open>unlift\<close> is the exact inverse.
\<close>

section \<open>Lists in the heap\<close>

definition link :: "'v heap \<Rightarrow> nat \<Rightarrow> nat \<Rightarrow> bool" where
  "link h a b \<longleftrightarrow> nnext (h ! a) = Some b \<and> nprev (h ! b) = Some a"

definition dll :: "'v heap \<Rightarrow> nat list \<Rightarrow> bool" where
  "dll h xs \<longleftrightarrow> xs \<noteq> [] \<and> distinct xs \<and> set xs \<subseteq> {..<length h} \<and> successively (link h) xs \<and>
     nnext (h ! last xs) = None"

definition first :: "nat list \<Rightarrow> nat option" where
  "first xs = (case xs of [] \<Rightarrow> None | x # _ \<Rightarrow> Some x)"

lemma first_simps [simp]: "first [] = None" "first (x # xs) = Some x"
  "first (xs @ ys) = (if xs = [] then first ys else first xs)"
  by (auto simp: first_def split: list.splits)

lemma dll_next: "dll h (A @ a # B) \<Longrightarrow> nnext (h ! a) = first B"
  by (cases B) (auto simp: dll_def successively_append_iff link_def)

lemma dll_prev: "dll h (A @ p # a # B) \<Longrightarrow> nprev (h ! a) = Some p"
  by (auto simp: dll_def successively_append_iff link_def)

lemma dll_prev_first: "dll h (A @ a # B) \<Longrightarrow> first B = Some b \<Longrightarrow> nprev (h ! b) = Some a"
  by (cases B) (auto intro: dll_prev)

lemma dll_bound: "dll h xs \<Longrightarrow> a \<in> set xs \<Longrightarrow> a < length h"
  by (auto simp: dll_def)

section \<open>Taking a node out and putting it back\<close>

definition unhook :: "'v heap \<Rightarrow> nat \<Rightarrow> nat option \<Rightarrow> 'v heap" where
  "unhook h p nx =
     (let h1 = h[p := (h ! p)\<lparr>nnext := nx\<rparr>]
      in case nx of None \<Rightarrow> h1 | Some b \<Rightarrow> h1[b := (h1 ! b)\<lparr>nprev := Some p\<rparr>])"

definition rehook :: "'v heap \<Rightarrow> nat \<Rightarrow> nat \<Rightarrow> nat option \<Rightarrow> 'v heap" where
  "rehook h p a nx =
     (let h1 = h[p := (h ! p)\<lparr>nnext := Some a\<rparr>]
      in case nx of None \<Rightarrow> h1 | Some b \<Rightarrow> h1[b := (h1 ! b)\<lparr>nprev := Some a\<rparr>])"

definition static :: "'v heap \<Rightarrow> ('v iface \<times> nat option \<times> nat) list" where
  "static h = map (\<lambda>n. (nvalue n, nmatch n, nid n)) h"

lemma static_nth: "static h = static g \<Longrightarrow> a < length h \<Longrightarrow>
   nvalue (h ! a) = nvalue (g ! a) \<and> nmatch (h ! a) = nmatch (g ! a) \<and> nid (h ! a) = nid (g ! a)"
  by (auto simp: static_def list_eq_iff_nth_eq)

lemma static_length: "static h = static g \<Longrightarrow> length h = length g"
  by (metis length_map static_def)

lemma static_update [simp]:
  "static (h[a := (h ! a)\<lparr>nnext := x\<rparr>]) = static h" "static (h[a := (h ! a)\<lparr>nprev := x\<rparr>]) = static h"
  by (cases "a < length h"; auto simp: static_def list_eq_iff_nth_eq nth_list_update list_update_beyond)+

lemma hook_static [simp]: "static (unhook h p nx) = static h" "static (rehook h p a nx) = static h"
  by (auto simp: unhook_def rehook_def Let_def split: option.splits)

lemma hook_length [simp]: "length (unhook h p nx) = length h" "length (rehook h p a nx) = length h"
  by (auto simp: unhook_def rehook_def Let_def split: option.splits)

lemma unhook_fields:
  assumes "p < length h" "\<forall>b. nx = Some b \<longrightarrow> b < length h"
  shows "nnext (unhook h p nx ! x) = (if x = p then nx else nnext (h ! x))"
    and "nprev (unhook h p nx ! x) = (if nx = Some x then Some p else nprev (h ! x))"
  using assms by (auto simp: unhook_def Let_def nth_list_update split: option.splits)

lemma rehook_fields:
  assumes "p < length h" "\<forall>b. nx = Some b \<longrightarrow> b < length h"
  shows "nnext (rehook h p a nx ! x) = (if x = p then Some a else nnext (h ! x))"
    and "nprev (rehook h p a nx ! x) = (if nx = Some x then Some a else nprev (h ! x))"
  using assms by (auto simp: rehook_def Let_def nth_list_update split: option.splits)

lemma heap_eqI:
  assumes "static h = static g"
    "\<And>x. x < length h \<Longrightarrow> nnext (h ! x) = nnext (g ! x) \<and> nprev (h ! x) = nprev (g ! x)"
  shows "h = (g :: 'v heap)"
proof (rule nth_equalityI [OF static_length [OF assms(1)]])
  fix x assume "x < length h"
  with static_nth [OF assms(1)] assms(2) show "h ! x = g ! x"
    by (intro node.equality) auto
qed

lemma rehook_unhook:
  assumes "p < length h" "\<And>b. nx = Some b \<Longrightarrow> b < length h \<and> nprev (h ! b) = Some a" "nnext (h ! p) = Some a"
  shows "rehook (unhook h p nx) p a nx = h"
  using assms by (intro heap_eqI) (auto simp: unhook_fields rehook_fields)

lemma unhook_dll:
  assumes "dll h (A @ p # a # B)"
  shows "dll (unhook h p (first B)) (A @ p # B)"
proof -
  let ?h = "unhook h p (first B)"
  have d: "distinct (A @ p # a # B)" "set (A @ p # a # B) \<subseteq> {..<length h}"
    and s: "successively (link h) (A @ [p])" "successively (link h) B"
    and l: "B \<noteq> [] \<Longrightarrow> nnext (h ! last B) = None"
    using assms by (auto simp: dll_def successively_append_iff successively_Cons)
  have b: "p < length h" "\<forall>b. first B = Some b \<longrightarrow> b < length h"
    using d by (auto simp: first_def split: list.splits)
  note f = unhook_fields [OF b]
  have "successively (link ?h) (A @ [p])"
  proof (rule successively_mono [OF s(1)])
    fix x y assume xy: "x \<in> set (A @ [p])" "y \<in> set (A @ [p])" "link h x y"
    have "nnext (h ! p) = Some a" using dll_next [OF assms] by simp
    with xy d have "x \<noteq> p" by (auto simp: link_def)
    moreover have "first B \<noteq> Some y" using xy(2) d by (auto simp: first_def split: list.splits)
    ultimately show "link ?h x y" using xy(3) by (simp add: link_def f)
  qed
  moreover have "successively (link ?h) B"
  proof (rule successively_mono [OF s(2)])
    fix x y assume xy: "x \<in> set B" "y \<in> set B" "link h x y"
    have "nprev (h ! b) = Some a" if "first B = Some b" for b
      using that dll_prev_first [of h "A @ [p]" a B] assms by simp
    with xy d have "first B \<noteq> Some y" by (auto simp: link_def)
    moreover have "x \<noteq> p" using xy(1) d by auto
    ultimately show "link ?h x y" using xy(3) by (simp add: link_def f)
  qed
  moreover have "link ?h p b" if "first B = Some b" for b
    unfolding link_def f using that by simp
  ultimately have "successively (link ?h) (A @ p # B)"
    by (cases B) (auto simp: successively_append_iff)
  moreover have "nnext (?h ! last (A @ p # B)) = None"
  proof (cases "B = []")
    case True
    then show ?thesis unfolding f by simp
  next
    case False
    then have "last B \<noteq> p" using d last_in_set [of B] by auto
    with l False show ?thesis unfolding f by simp
  qed
  ultimately show ?thesis using d by (auto simp: dll_def)
qed

section \<open>Lifting a call\<close>

lemma unhook_code:
  assumes "nprev (h ! a) = Some p" "nnext (h ! a) = nx" "p \<noteq> a"
  shows "do { h \<leftarrow> setNext h (nprev (h ! a)) (nnext (h ! a));
              if nnext (h ! a) \<noteq> None then setPrev h (nnext (h ! a)) (nprev (h ! a)) else Some h }
         = Some (unhook h p nx)"
  using assms by (auto simp: setNext_def setPrev_def unhook_def Let_def split: option.splits)

lemma rehook_code:
  assumes "nprev (h ! a) = Some p" "nnext (h ! a) = nx" "p \<noteq> a"
  shows "do { h \<leftarrow> setNext h (nprev (h ! a)) (Some a);
              if nnext (h ! a) \<noteq> None then setPrev h (nnext (h ! a)) (Some a) else Some h }
         = Some (rehook h p a nx)"
  using assms by (auto simp: setNext_def setPrev_def rehook_def Let_def split: option.splits)

lemma lift_spec:
  assumes "dll h (x # A @ e # B @ m # C)" "nmatch (h ! e) = Some m"
  obtains h' where "lift h e = Some h'" "dll h' (x # A @ B @ C)" "unlift h' e = Some h" "static h' = static h"
proof -
  have d: "distinct (x # A @ e # B @ m # C)" "set (x # A @ e # B @ m # C) \<subseteq> {..<length h}"
    using assms(1) by (auto simp: dll_def)
  obtain A' p where A: "x # A = A' @ [p]" by (metis list.discI rev_exhaust)
  have d1: "dll h (A' @ p # e # B @ m # C)" using assms(1) A by (metis append.assoc append_Cons append_Nil)
  define n1 where "n1 = first (B @ m # C)"
  define h1 where "h1 = unhook h p n1"
  have dl1: "dll h1 (x # A @ B @ m # C)"
    using unhook_dll [OF d1] A unfolding h1_def n1_def by (metis append.assoc append_Cons append_Nil)
  obtain B' q where B: "x # A @ B = B' @ [q]" by (metis list.discI rev_exhaust)
  have d2: "dll h1 (B' @ q # m # C)" using dl1 B by (metis append.assoc append_Cons append_Nil)
  define h2 where "h2 = unhook h1 q (first C)"
  have dl2: "dll h2 (x # A @ B @ C)"
    using unhook_dll [OF d2] B unfolding h2_def by (metis append.assoc append_Cons append_Nil)
  have mem: "p \<in> set (x # A)" "q \<in> set (x # A @ B)" by (simp_all only: A B) simp_all
  have neq: "p \<noteq> e" "q \<noteq> m" "e \<noteq> m" "q \<noteq> e" using d mem by auto
  obtain b where b: "n1 = Some b" "b \<in> set (B @ m # C)" by (cases B) (auto simp: n1_def)
  have e: "nprev (h ! e) = Some p" "nnext (h ! e) = n1"
    using dll_prev [OF d1] dll_next [of h "A' @ [p]" e "B @ m # C"] d1 by (auto simp: n1_def)
  have m: "nprev (h1 ! m) = Some q" "nnext (h1 ! m) = first C"
    using dll_prev [OF d2] dll_next [of h1 "B' @ [q]" m C] d2 by auto
  have st: "static h1 = static h" "static h2 = static h" by (simp_all add: h1_def h2_def)
  have len: "length h1 = length h" "length h2 = length h" by (simp_all add: h1_def h2_def)
  have C: "c \<in> set C" if "first C = Some c" for c using that by (cases C) auto
  have lt: "e < length h" "p < length h" "q < length h" "b < length h" "m < length h"
    "\<And>c. first C = Some c \<Longrightarrow> c < length h"
    using d(2) mem b(2) C by auto
  have mt: "nmatch (h1 ! e) = Some m" "nmatch (h2 ! e) = Some m"
    using static_nth [OF st(1)] static_nth [OF st(2)] lt len assms(2) by auto
  have u1: "do { h \<leftarrow> setNext h (nprev (h ! e)) (nnext (h ! e)); setPrev h (nnext (h ! e)) (nprev (h ! e)) } = Some h1"
    using e neq(1) b(1) by (simp add: setNext_def setPrev_def unhook_def h1_def Let_def)
  have "lift h e = do {
      h \<leftarrow> do { h \<leftarrow> setNext h (nprev (h ! e)) (nnext (h ! e)); setPrev h (nnext (h ! e)) (nprev (h ! e)) };
      m \<leftarrow> nmatch (h ! e);
      do { h \<leftarrow> setNext h (nprev (h ! m)) (nnext (h ! m));
           if nnext (h ! m) \<noteq> None then setPrev h (nnext (h ! m)) (nprev (h ! m)) else Some h } }"
    by (simp add: lift_def Option.bind_assoc)
  then have "lift h e = Some h2"
    unfolding u1 h2_def using unhook_code [OF m neq(2)] mt(1) by simp
  moreover have "unlift h2 e = Some h"
  proof -
    have f1: "nnext (h1 ! y) = (if y = p then n1 else nnext (h ! y))"
      "nprev (h1 ! y) = (if n1 = Some y then Some p else nprev (h ! y))" for y
      unfolding h1_def using lt(2,4) b(1) by (simp_all add: unhook_fields)
    have f2: "nnext (h2 ! y) = (if y = q then first C else nnext (h1 ! y))"
      "nprev (h2 ! y) = (if first C = Some y then Some q else nprev (h1 ! y))" for y
      unfolding h2_def using lt(3,6) len by (simp_all add: unhook_fields)
    have "first C \<noteq> Some m" "n1 \<noteq> Some e" using C d b by auto
    then have m2: "nprev (h2 ! m) = Some q" "nnext (h2 ! m) = first C"
      and e1: "nprev (h1 ! e) = Some p" "nnext (h1 ! e) = n1"
      using m neq e by (auto simp: f1 f2)
    have r2: "rehook h2 q m (first C) = h1"
      unfolding h2_def using lt len dll_prev_first [of h1 "B' @ [q]" m C] dll_next [OF d2] d2
      by (intro rehook_unhook) auto
    have r1: "rehook h1 p e n1 = h"
      unfolding h1_def using lt b dll_prev_first [of h "A' @ [p]" e "B @ m # C"] dll_next [OF d1] d1
      by (intro rehook_unhook) (auto simp: n1_def)
    have u2: "do { h \<leftarrow> setNext h1 (nprev (h1 ! e)) (Some e); setPrev h (nnext (h ! e)) (Some e) } = Some h"
      using rehook_code [OF e1 neq(1)] e1 neq(1) b(1) unfolding r1 by (simp add: setNext_def)
    have "unlift h2 e = do {
        m \<leftarrow> nmatch (h2 ! e);
        h \<leftarrow> do { h \<leftarrow> setNext h2 (nprev (h2 ! m)) (Some m);
                 if nnext (h ! m) \<noteq> None then setPrev h (nnext (h ! m)) (Some m) else Some h };
        do { h \<leftarrow> setNext h (nprev (h ! e)) (Some e); setPrev h (nnext (h ! e)) (Some e) } }"
      by (simp add: unlift_def Option.bind_assoc)
    then show ?thesis
      by (simp only: mt(2) bind.bind_lunit rehook_code [OF m2 neq(2), unfolded r2] u2)
  qed
  ultimately show thesis using that dl2 st(2) by blast
qed

end
