(* ===== verification/Lin_Search.thy ===== *)
theory Lin_Search
  imports Lin_List
begin

text \<open>
  What the search of \<^verbatim>\<open>checkSingle\<close> is about, without heap, bit sets and cache: a configuration
  is the set of the operations that are linearized and the state they lead to.  The next
  operation is one whose call stands before every return of the operations that remain.
\<close>

section \<open>Histories\<close>

abbreviation isCall :: "'v heap \<Rightarrow> nat \<Rightarrow> bool" where
  "isCall h a \<equiv> nmatch (h ! a) \<noteq> None"

text \<open>
  The list \<open>L\<close> of addresses holds, for every operation below \<open>n\<close>, its call and after it its
  return, and nothing else.
\<close>

definition history_ok :: "'v heap \<Rightarrow> nat list \<Rightarrow> nat \<Rightarrow> bool" where
  "history_ok h L n \<longleftrightarrow> distinct L \<and>
     (\<forall>A a B r. L = A @ a # B \<longrightarrow> nmatch (h ! a) = Some r \<longrightarrow>
        r \<in> set B \<and> nmatch (h ! r) = None \<and> nid (h ! r) = nid (h ! a)) \<and>
     (\<forall>r \<in> set L. nmatch (h ! r) = None \<longrightarrow> (\<exists>a \<in> set L. nmatch (h ! a) = Some r)) \<and>
     inj_on (\<lambda>a. nid (h ! a)) {a \<in> set L. isCall h a} \<and>
     (\<lambda>a. nid (h ! a)) ` {a \<in> set L. isCall h a} = {..<n}"

definition rest :: "'v heap \<Rightarrow> nat list \<Rightarrow> nat set \<Rightarrow> nat list" where
  "rest h L S = filter (\<lambda>a. nid (h ! a) \<notin> S) L"

text \<open>The state after the operation of a call, if the model allows it.\<close>

definition nextState :: "('s, 'v) Model \<Rightarrow> 'v heap \<Rightarrow> 's \<Rightarrow> nat \<Rightarrow> 's option" where
  "nextState m h st a = (case nmatch (h ! a) of
     None \<Rightarrow> None
   | Some r \<Rightarrow> (case mStep m st (nvalue (h ! a)) (nvalue (h ! r)) of
       Some (True, st') \<Rightarrow> Some st' | _ \<Rightarrow> None))"

definition cand :: "'v heap \<Rightarrow> nat list \<Rightarrow> nat set \<Rightarrow> nat \<Rightarrow> bool" where
  "cand h L S a \<longleftrightarrow> (\<exists>A B. rest h L S = A @ a # B \<and> isCall h a \<and> (\<forall>x \<in> set A. isCall h x))"

inductive good :: "('s, 'v) Model \<Rightarrow> 'v heap \<Rightarrow> nat list \<Rightarrow> nat set \<Rightarrow> 's \<Rightarrow> bool"
  for m h L where
  finished: "rest h L S = [] \<Longrightarrow> good m h L S st"
| next_op: "cand h L S a \<Longrightarrow> nextState m h st a = Some st' \<Longrightarrow> good m h L (insert (nid (h ! a)) S) st' \<Longrightarrow>
    good m h L S st"

lemma history_call:
  assumes "history_ok h L n" and "a \<in> set L" and "nmatch (h ! a) = Some r"
  shows "r \<in> set L" and "nmatch (h ! r) = None" and "nid (h ! r) = nid (h ! a)" and "nid (h ! a) < n"
proof -
  obtain A B where "L = A @ a # B" using assms(2) by (meson split_list)
  with assms(1,3) have "r \<in> set B \<and> nmatch (h ! r) = None \<and> nid (h ! r) = nid (h ! a)" and "set B \<subseteq> set L"
    unfolding history_ok_def by (blast, auto)
  then show "r \<in> set L" and "nmatch (h ! r) = None" and "nid (h ! r) = nid (h ! a)" by auto
  have "nid (h ! a) \<in> (\<lambda>a. nid (h ! a)) ` {a \<in> set L. isCall h a}" using assms(2,3) by auto
  then show "nid (h ! a) < n" using assms(1) unfolding history_ok_def by auto
qed

lemma history_return:
  assumes "history_ok h L n" and "r \<in> set L" and "nmatch (h ! r) = None"
  obtains a where "a \<in> set L" and "nmatch (h ! a) = Some r"
proof -
  have "\<forall>r \<in> set L. nmatch (h ! r) = None \<longrightarrow> (\<exists>a \<in> set L. nmatch (h ! a) = Some r)"
    using assms(1) by (simp add: history_ok_def)
  with assms(2,3) that show ?thesis by blast
qed

lemma history_inj:
  assumes "history_ok h L n" and "a \<in> set L" "isCall h a" and "b \<in> set L" "isCall h b"
    and "nid (h ! a) = nid (h ! b)"
  shows "a = b"
proof -
  have "inj_on (\<lambda>a. nid (h ! a)) {a \<in> set L. isCall h a}"
    using assms(1) by (simp add: history_ok_def)
  from inj_onD [OF this assms(6)] assms(2-5) show ?thesis by simp
qed

text \<open>Only the call and the return of an operation carry its number.\<close>

lemma history_same_id:
  assumes ok: "history_ok h L n" and a: "a \<in> set L" "nmatch (h ! a) = Some r"
    and x: "x \<in> set L" "nid (h ! x) = nid (h ! a)"
  shows "x = a \<or> x = r"
proof (cases "nmatch (h ! x)")
  case None
  then obtain b where b: "b \<in> set L" "nmatch (h ! b) = Some x"
    by (rule history_return [OF ok x(1)])
  then have "nid (h ! b) = nid (h ! a)" using history_call(3) [OF ok b] x(2) by simp
  then have "b = a" using history_inj [OF ok b(1) _ a(1)] a(2) b(2) by simp
  with a b show ?thesis by simp
next
  case (Some y)
  then show ?thesis using history_inj [OF ok x(1) _ a(1)] a(2) x(2) by simp
qed

lemma filter_split:
  "filter P L = A @ a # B \<Longrightarrow> \<exists>A' B'. L = A' @ a # B' \<and> A = filter P A' \<and> B = filter P B'"
proof (induction L arbitrary: A)
  case (Cons x L)
  show ?case
  proof (cases "P x \<and> A = []")
    case True
    with Cons.prems show ?thesis by (intro exI [of _ "[]"] exI [of _ L]) auto
  next
    case False
    then obtain A1 where "filter P L = A1 @ a # B" "A = (if P x then x # A1 else A1)"
      using Cons.prems by (cases A) (auto split: if_splits)
    with Cons.IH [of A1] obtain A' B' where "L = A' @ a # B'" "A1 = filter P A'" "B = filter P B'" by blast
    with \<open>A = _\<close> show ?thesis by (intro exI [of _ "x # A'"] exI [of _ B']) auto
  qed
qed simp

lemma rest_split:
  assumes ok: "history_ok h L n" and r: "rest h L S = A @ a # B" and m: "nmatch (h ! a) = Some r"
  obtains B1 B2 where "B = B1 @ r # B2" and "rest h L (insert (nid (h ! a)) S) = A @ B1 @ B2"
proof -
  have mem: "a \<in> set L" "nid (h ! a) \<notin> S"
    using arg_cong [OF r, of set] by (auto simp: rest_def)
  have "distinct (rest h L S)" using ok by (simp add: rest_def history_ok_def)
  then have dist: "distinct (A @ a # B)" unfolding r .
  obtain A' B' where L: "L = A' @ a # B'" and A: "A = filter (\<lambda>a. nid (h ! a) \<notin> S) A'"
    and B: "B = filter (\<lambda>a. nid (h ! a) \<notin> S) B'"
    using filter_split [OF r [unfolded rest_def]] by blast
  have "r \<in> set B'" using ok L m unfolding history_ok_def by blast
  then have "r \<in> set B" using history_call(3) [OF ok mem(1) m] mem(2) by (simp add: B)
  then obtain B1 B2 where B12: "B = B1 @ r # B2" by (meson split_list)
  have "rest h L (insert (nid (h ! a)) S) = filter (\<lambda>x. nid (h ! x) \<noteq> nid (h ! a)) (rest h L S)"
    by (simp add: rest_def conj_commute)
  also have "\<dots> = filter (\<lambda>x. x \<noteq> a \<and> x \<noteq> r) (rest h L S)"
  proof (rule filter_cong [OF refl])
    fix x assume "x \<in> set (rest h L S)"
    then have "x \<in> set L" by (simp add: rest_def)
    then show "(nid (h ! x) \<noteq> nid (h ! a)) = (x \<noteq> a \<and> x \<noteq> r)"
      using history_same_id [OF ok mem(1) m] history_call(3) [OF ok mem(1) m] by metis
  qed
  also have "\<dots> = A @ B1 @ B2"
  proof -
    have "filter (\<lambda>x. x \<noteq> a \<and> x \<noteq> r) X = X" if "a \<notin> set X" "r \<notin> set X" for X
      using that by (intro filter_True) auto
    with dist show ?thesis unfolding r B12 by simp
  qed
  finally show ?thesis using that B12 by blast
qed

text \<open>What remains ends with a return.\<close>

lemma rest_has_return:
  assumes ok: "history_ok h L n" and "rest h L S = A @ B" and "\<forall>x \<in> set A. isCall h x" and "rest h L S \<noteq> []"
  obtains b B' where "B = b # B'"
proof (cases B)
  case Nil
  then have "A \<noteq> []" using assms(2,4) by simp
  then obtain A' a where A: "A = A' @ [a]" by (metis rev_exhaust)
  then obtain r where "nmatch (h ! a) = Some r" using assms(3) by auto
  moreover have "rest h L S = A' @ a # []" using assms(2) A Nil by simp
  ultimately obtain B1 B2 where "[] = B1 @ r # B2" using rest_split [OF ok] by metis
  then show ?thesis by simp
qed (use that in blast)

section \<open>Equality of states\<close>

text \<open>What \<^verbatim>\<open>Equal\<close> of a model has to satisfy for the cache to be right.\<close>

locale state_equality =
  fixes step :: "'s \<Rightarrow> 'v iface \<Rightarrow> 'v iface \<Rightarrow> (bool \<times> 's) option"
    and equal :: "'s \<Rightarrow> 's \<Rightarrow> bool"
  assumes equal_refl: "equal s s"
    and equal_step: "equal s t \<Longrightarrow> step s i r = Some (True, s') \<Longrightarrow> \<exists>t'. step t i r = Some (True, t') \<and> equal s' t'"
begin

lemma good_equal:
  assumes m: "mStep m = step"
  shows "good m h L S s \<Longrightarrow> equal s t \<Longrightarrow> good m h L S t"
proof (induction arbitrary: t rule: good.induct)
  case (finished S st)
  then show ?case by (blast intro: good.finished)
next
  case (next_op S a st st')
  obtain r where r: "nmatch (h ! a) = Some r" "step st (nvalue (h ! a)) (nvalue (h ! r)) = Some (True, st')"
    using next_op.hyps(2) m by (auto simp: nextState_def split: option.splits bool.splits)
  from equal_step [OF next_op.prems r(2)] obtain t' where
    "step t (nvalue (h ! a)) (nvalue (h ! r)) = Some (True, t')" "equal st' t'" by blast
  then show ?case
    using next_op.IH [of t'] next_op.hyps(1) r(1) m by (intro good.next_op [of h L S a]) (auto simp: nextState_def)
qed

end

lemma equal_good:
  assumes eq: "state_equality (mStep m) equal"
  shows "good m h L S s \<Longrightarrow> equal s t \<Longrightarrow> good m h L S t"
  by (rule state_equality.good_equal [OF eq refl])

text \<open>
  \<^verbatim>\<open>ShallowEqual\<close>, the default of \<^verbatim>\<open>fillDefault\<close> and what the key/value model has, is such an
  equality for every step function.
\<close>

interpretation shallow: state_equality "step :: 's \<Rightarrow> 'v iface \<Rightarrow> 'v iface \<Rightarrow> (bool \<times> 's) option" ShallowEqual for step
  by unfold_locales (auto simp: ShallowEqual_def)

section \<open>The configurations of a search\<close>

inductive_set confs :: "('s, 'v) Model \<Rightarrow> 'v heap \<Rightarrow> nat list \<Rightarrow> (nat set \<times> 's) set"
  for m h L where
  start: "({}, mInit m) \<in> confs m h L"
| move: "(S, st) \<in> confs m h L \<Longrightarrow> a \<in> set L \<Longrightarrow> nid (h ! a) \<notin> S \<Longrightarrow> nextState m h st a = Some st' \<Longrightarrow>
    (insert (nid (h ! a)) S, st') \<in> confs m h L"

fun level :: "('s, 'v) Model \<Rightarrow> 'v heap \<Rightarrow> nat list \<Rightarrow> nat \<Rightarrow> (nat set \<times> 's) set" where
  "level m h L 0 = {({}, mInit m)}"
| "level m h L (Suc k) = (\<Union>(S, st) \<in> level m h L k. \<Union>a \<in> set L.
     (\<lambda>st'. (insert (nid (h ! a)) S, st')) ` set_option (nextState m h st a))"

lemma level_finite: "finite (level m h L k)"
  by (induction k) auto

lemma confs_level:
  "(S, st) \<in> confs m h L \<Longrightarrow>
   (S, st) \<in> level m h L (card S) \<and> S \<subseteq> (\<lambda>a. nid (h ! a)) ` set L \<and> finite S"
proof (induction rule: confs.induct)
  case (move S st a st')
  then have "(insert (nid (h ! a)) S, st') \<in> level m h L (Suc (card S))" by force
  with move show ?case by auto
qed simp

lemma confs_finite: "finite (confs m h L)"
proof (rule finite_subset)
  show "confs m h L \<subseteq> (\<Union>k \<le> length L. level m h L k)"
  proof
    fix c assume "c \<in> confs m h L"
    then obtain S st where c: "c = (S, st)" "(S, st) \<in> confs m h L" by (cases c) auto
    have "card S \<le> card ((\<lambda>a. nid (h ! a)) ` set L)"
      using confs_level [OF c(2)] by (intro card_mono) auto
    also have "\<dots> \<le> length L"
      by (meson List.finite_set card_image_le card_length order_trans)
    finally show "c \<in> (\<Union>k \<le> length L. level m h L k)"
      using confs_level [OF c(2)] c(1) by auto
  qed
qed (simp add: level_finite)

section \<open>The path of a search\<close>

text \<open>
  The operation of call \<open>x\<close> need not be tried at a configuration: the model does not allow it,
  or where it leads to is in the set \<open>C\<close> of configurations already seen.
\<close>

definition tried :: "('s, 'v) Model \<Rightarrow> 'v heap \<Rightarrow> (nat set \<times> 's) set \<Rightarrow> nat set \<Rightarrow> 's \<Rightarrow> nat \<Rightarrow> bool" where
  "tried m h C S st x \<longleftrightarrow> (\<forall>st'. nextState m h st x = Some st' \<longrightarrow>
     (\<exists>t. (insert (nid (h ! x)) S, t) \<in> C \<and> the (mEqual m) st' t))"

text \<open>
  The calls on the stack were lifted one after the other, each the first one not tried in what
  remained; \<open>P\<close> holds the configurations they led to.
\<close>

inductive lifted :: "('s, 'v) Model \<Rightarrow> 'v heap \<Rightarrow> nat \<Rightarrow> nat list \<Rightarrow> (nat set \<times> 's) set \<Rightarrow>
    (nat \<times> 's) list \<Rightarrow> 'v heap \<Rightarrow> nat set \<Rightarrow> 's \<Rightarrow> (nat set \<times> 's) set \<Rightarrow> bool"
  for m h0 hp L C where
  start: "lifted m h0 hp L C [] h0 {} (mInit m) {}"
| push: "lifted m h0 hp L C calls h S st P \<Longrightarrow> rest h0 L S = A @ e # B \<Longrightarrow> isCall h0 e \<Longrightarrow>
    \<forall>x \<in> set A. isCall h0 x \<and> tried m h0 C S st x \<Longrightarrow> nextState m h0 st e = Some st' \<Longrightarrow>
    unlift h' e = Some h \<Longrightarrow> dll h' (hp # rest h0 L (insert (nid (h0 ! e)) S)) \<Longrightarrow> static h' = static h0 \<Longrightarrow>
    (insert (nid (h0 ! e)) S, st') \<in> C \<Longrightarrow>
    lifted m h0 hp L C (calls @ [(e, st)]) h' (insert (nid (h0 ! e)) S) st'
      (insert (insert (nid (h0 ! e)) S, st') P)"

lemma lifted_heap:
  assumes "lifted m h0 hp L C calls h S st P" and "dll h0 (hp # L)"
  shows "dll h (hp # rest h0 L S)" and "static h = static h0"
  using assms by (induction rule: lifted.induct) (simp_all add: rest_def)

lemma rest_mem:
  assumes "rest h L S = A @ e # B"
  shows "e \<in> set L" and "nid (h ! e) \<notin> S"
  using arg_cong [OF assms, of set] by (auto simp: rest_def)

lemma lifted_confs: "lifted m h0 hp L C calls h S st P \<Longrightarrow> (S, st) \<in> confs m h0 L"
proof (induction rule: lifted.induct)
  case start
  show ?case by (rule confs.start)
next
  case (push calls h S st P A e B st' h')
  show ?case by (rule confs.move [OF push.IH rest_mem [OF push.hyps(2)] push.hyps(5)])
qed

lemma lifted_path: "lifted m h0 hp L C calls h S st P \<Longrightarrow> (S', t) \<in> P \<Longrightarrow> S' \<subseteq> S"
  by (induction rule: lifted.induct) auto

lemma lifted_mono:
  assumes "lifted m h0 hp L C calls h S st P" and "C \<subseteq> C'"
  shows "lifted m h0 hp L C' calls h S st P"
  using assms(1)
proof induction
  case start
  show ?case by (rule lifted.start)
next
  case (push calls h S st P A e B st' h')
  have "\<forall>x \<in> set A. isCall h0 x \<and> tried m h0 C' S st x"
    using push.hyps(4) assms(2) unfolding tried_def by blast
  then show ?case
    using push.hyps(9) assms(2) by (intro lifted.push [OF push.IH push.hyps(2,3) _ push.hyps(5-8)]) auto
qed

lemma lifted_good:
  "lifted m h0 hp L C calls h S st P \<Longrightarrow> good m h0 L S st \<Longrightarrow> good m h0 L {} (mInit m)"
proof (induction rule: lifted.induct)
  case (push calls h S st P A e B st' h')
  have "cand h0 L S e" using push.hyps(2-4) unfolding cand_def by blast
  then show ?case using push.IH good.next_op [OF _ push.hyps(5) push.prems] by blast
qed

lemma lifted_top:
  assumes "lifted m h0 hp L C calls h S st P" and "calls \<noteq> []"
  obtains calls0 h1 S1 st1 P1 A e B where "calls = calls0 @ [(e, st1)]"
    and "lifted m h0 hp L C calls0 h1 S1 st1 P1" and "rest h0 L S1 = A @ e # B" and "isCall h0 e"
    and "\<forall>x \<in> set A. isCall h0 x \<and> tried m h0 C S1 st1 x" and "nextState m h0 st1 e = Some st"
    and "unlift h e = Some h1" and "S = insert (nid (h0 ! e)) S1" and "(S, st) \<in> C" and "P = insert (S, st) P1"
  using assms by (cases rule: lifted.cases) blast+

lemma before_first:
  "A' @ a # B' = A @ b # B \<Longrightarrow> \<not> P b \<Longrightarrow> P a \<Longrightarrow> \<forall>x \<in> set A'. P x \<Longrightarrow> a \<in> set A"
proof (induction A' arbitrary: A)
  case Nil
  then show ?case by (cases A) auto
next
  case (Cons x A')
  then show ?case by (cases A) auto
qed

text \<open>A configuration all of whose candidates are tried leads nowhere.\<close>

lemma tried_dead:
  assumes eq: "state_equality (mStep m) (the (mEqual m))"
    and r: "rest h L S = A @ b # B" "nmatch (h ! b) = None"
    and A: "\<forall>x \<in> set A. isCall h x \<and> tried m h C S st x"
    and C: "\<forall>S' t. (S', t) \<in> C \<longrightarrow> S' \<subseteq> S \<or> \<not> good m h L S' t"
  shows "\<not> good m h L S st"
proof
  assume "good m h L S st"
  then show False
  proof cases
    case finished
    with r(1) show False by simp
  next
    case (next_op a st')
    obtain A' B' where a: "rest h L S = A' @ a # B'" "isCall h a" "\<forall>x \<in> set A'. isCall h x"
      using next_op(1) by (auto simp: cand_def)
    have "a \<in> set A"
      by (rule before_first [where P = "isCall h", OF trans [OF a(1) [symmetric] r(1)]]) (use r(2) a in auto)
    then obtain t where t: "(insert (nid (h ! a)) S, t) \<in> C" "the (mEqual m) st' t"
      using A next_op(2) unfolding tried_def by blast
    have "good m h L (insert (nid (h ! a)) S) t" by (rule equal_good [OF eq next_op(3) t(2)])
    moreover have "\<not> insert (nid (h ! a)) S \<subseteq> S" using rest_mem(2) [OF a(1)] by simp
    ultimately show False using C t(1) by blast
  qed
qed

end
