(* ===== verification/Lin_Run.thy ===== *)
theory Lin_Run
  imports Lin_Search
begin

text \<open>
  The search of \<^verbatim>\<open>checkSingle\<close> on the heap: its invariant, that every iteration keeps it and
  brings the search closer to its end, and that it therefore returns with the right verdict.
\<close>

section \<open>The cache\<close>

definition cache_holds :: "nat \<Rightarrow> 's cache \<Rightarrow> (nat set \<times> 's) set \<Rightarrow> bool" where
  "cache_holds chunks cache C \<longleftrightarrow>
     (\<forall>k b s. (b, s) \<in> set (cache k) \<longrightarrow> length b = chunks \<and> (elems b, s) \<in> C) \<and>
     (\<forall>S s. (S, s) \<in> C \<longrightarrow> (\<exists>b. elems b = S \<and> length b = chunks \<and> (b, s) \<in> set (cache (bitset_hash b))))"

lemma cache_holds_empty: "cache_holds chunks (\<lambda>_. []) {}"
  by (simp add: cache_holds_def)

lemma cache_holds_add:
  assumes "cache_holds chunks cache C" and "length b = chunks"
  shows "cache_holds chunks (cache(bitset_hash b := cache (bitset_hash b) @ [(b, s)])) (insert (elems b, s) C)"
  using assms unfolding cache_holds_def by (auto split: if_splits) (metis (full_types) Un_iff set_append)+

lemma cacheContains_iff:
  assumes "cache_holds chunks cache C" and "length b = chunks"
  shows "cacheContains equal cache (b, s) \<longleftrightarrow> (\<exists>t. (elems b, t) \<in> C \<and> equal s t)"
proof
  assume "cacheContains equal cache (b, s)"
  then obtain t where "(b, t) \<in> set (cache (bitset_hash b))" "equal s t"
    by (auto simp: cacheContains_def list_ex_iff)
  with assms show "\<exists>t. (elems b, t) \<in> C \<and> equal s t" unfolding cache_holds_def by blast
next
  assume "\<exists>t. (elems b, t) \<in> C \<and> equal s t"
  then obtain t where t: "(elems b, t) \<in> C" "equal s t" by blast
  then obtain b' where b': "elems b' = elems b" "length b' = chunks" "(b', t) \<in> set (cache (bitset_hash b'))"
    using assms(1) unfolding cache_holds_def by blast
  have "b' = b" using elems_inject [of b' b] b' assms(2) by simp
  with b'(3) t(2) show "cacheContains equal cache (b, s)"
    by (force simp: cacheContains_def list_ex_iff)
qed

section \<open>The invariant\<close>

definition search_inv :: "('s, 'v) Model \<Rightarrow> 'v heap \<Rightarrow> nat \<Rightarrow> nat list \<Rightarrow> nat \<Rightarrow> ('s, 'v) search \<Rightarrow>
    (nat set \<times> 's) set \<Rightarrow> (nat set \<times> 's) set \<Rightarrow> nat set \<Rightarrow> nat list \<Rightarrow> nat list \<Rightarrow> bool" where
  "search_inv m h0 hp L n cs C P S A B \<longleftrightarrow>
     lifted m h0 hp L C (sCalls cs) (sHeap cs) S (sState cs) P \<and> sHead cs = hp \<and>
     rest h0 L S = A @ B \<and> sEntry cs = first B \<and>
     (\<forall>x \<in> set A. isCall h0 x \<and> tried m h0 C S (sState cs) x) \<and>
     elems (sLin cs) = S \<and> length (sLin cs) = length (newBitset n) \<and>
     cache_holds (length (newBitset n)) (sCache cs) C \<and> C \<subseteq> confs m h0 L \<and>
     (\<forall>S' t. (S', t) \<in> C \<longrightarrow> (S', t) \<in> P \<or> \<not> good m h0 L S' t)"

text \<open>The history of the search and the functions of the model that it calls.\<close>

definition problem_ok :: "('s, 'v) Model \<Rightarrow> 'v heap \<Rightarrow> nat \<Rightarrow> nat list \<Rightarrow> nat \<Rightarrow> bool" where
  "problem_ok m h0 hp L n \<longleftrightarrow> history_ok h0 L n \<and> dll h0 (hp # L) \<and>
     state_equality (mStep m) (the (mEqual m)) \<and>
     (\<forall>st a r. a \<in> set L \<longrightarrow> nmatch (h0 ! a) = Some r \<longrightarrow> mStep m st (nvalue (h0 ! a)) (nvalue (h0 ! r)) \<noteq> None)"

text \<open>What is left to do: configurations not seen, calls on the stack, entries to try.\<close>

definition todo :: "('s, 'v) Model \<Rightarrow> 'v heap \<Rightarrow> nat list \<Rightarrow> (nat set \<times> 's) set \<Rightarrow> nat \<Rightarrow> nat list \<Rightarrow> nat \<times> nat \<times> nat" where
  "todo m h L C k B = (card (confs m h L - C), k, length B)"

abbreviation lessTodo :: "((nat \<times> nat \<times> nat) \<times> (nat \<times> nat \<times> nat)) set" where
  "lessTodo \<equiv> less_than <*lex*> less_than <*lex*> less_than"

text \<open>The entry of an iteration and what the heap of the history says of it.\<close>

lemma search_entry:
  assumes p: "problem_ok m h0 hp L n" and inv: "search_inv m h0 hp L n cs C P S A B"
    and ne: "nnext (sHeap cs ! sHead cs) \<noteq> None"
  obtains e B' where "B = e # B'" and "sEntry cs = Some e" and "e \<in> set L" and "nid (h0 ! e) \<notin> S"
    and "nmatch (sHeap cs ! e) = nmatch (h0 ! e)" and "nvalue (sHeap cs ! e) = nvalue (h0 ! e)"
    and "nid (sHeap cs ! e) = nid (h0 ! e)" and "nnext (sHeap cs ! e) = first B'"
proof -
  have lif: "lifted m h0 hp L C (sCalls cs) (sHeap cs) S (sState cs) P" and hd: "sHead cs = hp"
    and r: "rest h0 L S = A @ B" and en: "sEntry cs = first B" and A: "\<forall>x \<in> set A. isCall h0 x"
    using inv by (simp_all add: search_inv_def)
  have ok: "history_ok h0 L n" and dl: "dll h0 (hp # L)" using p by (simp_all add: problem_ok_def)
  note h = lifted_heap [OF lif dl]
  have "nnext (sHeap cs ! hp) = first (rest h0 L S)" using dll_next [of _ "[]"] h(1) by simp
  then have "rest h0 L S \<noteq> []" using ne hd by auto
  then obtain e B' where B: "B = e # B'" using rest_has_return [OF ok r A] by blast
  note mem = rest_mem [OF r [unfolded B]]
  have "e < length h0" using dll_bound [OF dl] mem(1) by simp
  then have "e < length (sHeap cs)" using static_length [OF h(2)] by simp
  note st = static_nth [OF h(2) this]
  have "nnext (sHeap cs ! e) = first B'"
    using dll_next [of "sHeap cs" "hp # A" e B'] h(1) unfolding r B by simp
  then show ?thesis using that B en mem st by simp
qed

lemma search_skip:
  assumes "search_inv m h0 hp L n cs C P S A (e # B)" and "isCall h0 e" and "tried m h0 C S (sState cs) e"
  shows "search_inv m h0 hp L n (cs\<lparr>sEntry := first B\<rparr>) C P S (A @ [e]) B"
  using assms by (auto simp: search_inv_def)


lemma nid_room:
  assumes "problem_ok m h0 hp L n" and "e \<in> set L" and "isCall h0 e"
  shows "nid (h0 ! e) div 64 < length (newBitset n)"
proof -
  obtain r where "nmatch (h0 ! e) = Some r" using assms(3) by blast
  then have "nid (h0 ! e) < n"
    using history_call(4) assms(1,2) unfolding problem_ok_def by blast
  then show ?thesis by (rule newBitset_room)
qed

lemma search_push:
  assumes p: "problem_ok m h0 hp L n" and inv: "search_inv m h0 hp L n cs C P S A (e # B)"
    and r: "nmatch (h0 ! e) = Some r" and tr: "nextState m h0 (sState cs) e = Some st'"
    and new: "\<not> (\<exists>t. (insert (nid (h0 ! e)) S, t) \<in> C \<and> the (mEqual m) st' t)"
  obtains h' lin' where "lift (sHeap cs) e = Some h'" and "bitset_set (sLin cs) (nid (h0 ! e)) = Some lin'"
    and "search_inv m h0 hp L n
      (cs\<lparr>sCache := (sCache cs)(bitset_hash lin' := sCache cs (bitset_hash lin') @ [(lin', st')]),
          sCalls := sCalls cs @ [(e, sState cs)], sState := st', sLin := lin', sHeap := h',
          sEntry := nnext (h' ! sHead cs)\<rparr>)
      (insert (insert (nid (h0 ! e)) S, st') C) (insert (insert (nid (h0 ! e)) S, st') P)
      (insert (nid (h0 ! e)) S) [] (rest h0 L (insert (nid (h0 ! e)) S))"
    and "card (confs m h0 L - insert (insert (nid (h0 ! e)) S, st') C) < card (confs m h0 L - C)"
    and "length lin' = length (newBitset n)" and "elems lin' = insert (nid (h0 ! e)) S"
proof -
  let ?S = "insert (nid (h0 ! e)) S" and ?C = "insert (insert (nid (h0 ! e)) S, st') C"
  have lif: "lifted m h0 hp L C (sCalls cs) (sHeap cs) S (sState cs) P" and hd: "sHead cs = hp"
    and re: "rest h0 L S = A @ e # B" and A: "\<forall>x \<in> set A. isCall h0 x \<and> tried m h0 C S (sState cs) x"
    and lin: "elems (sLin cs) = S" "length (sLin cs) = length (newBitset n)"
    and cache: "cache_holds (length (newBitset n)) (sCache cs) C" and sub: "C \<subseteq> confs m h0 L"
    and dead: "\<forall>S' t. (S', t) \<in> C \<longrightarrow> (S', t) \<in> P \<or> \<not> good m h0 L S' t"
    using inv by (simp_all add: search_inv_def)
  have ok: "history_ok h0 L n" and dl: "dll h0 (hp # L)" and eq: "state_equality (mStep m) (the (mEqual m))"
    using p by (simp_all add: problem_ok_def)
  note h = lifted_heap [OF lif dl] and mem = rest_mem [OF re]
  obtain B1 B2 where B: "B = B1 @ r # B2" and re': "rest h0 L ?S = A @ B1 @ B2"
    by (rule rest_split [OF ok re r])
  have lt: "e < length (sHeap cs)"
    using dll_bound [OF dl] mem(1) static_length [OF h(2)] by simp
  have "nmatch (sHeap cs ! e) = Some r" using static_nth [OF h(2) lt] r by simp
  moreover have "dll (sHeap cs) (hp # A @ e # B1 @ r # B2)" using h(1) unfolding re B by simp
  ultimately obtain h' where h': "lift (sHeap cs) e = Some h'" "dll h' (hp # A @ B1 @ B2)"
    "unlift h' e = Some (sHeap cs)" "static h' = static (sHeap cs)"
    using lift_spec by blast
  obtain lin' where lin': "bitset_set (sLin cs) (nid (h0 ! e)) = Some lin'"
    "length lin' = length (newBitset n)" "elems lin' = ?S"
    using bitset_set_elems [of "nid (h0 ! e)" "sLin cs"] nid_room [OF p mem(1)] lin r by auto
  have call: "isCall h0 e" using r by simp
  have A': "\<forall>x \<in> set A. isCall h0 x \<and> tried m h0 ?C S (sState cs) x"
    using A unfolding tried_def by blast
  have "lifted m h0 hp L ?C (sCalls cs @ [(e, sState cs)]) h' ?S st' (insert (?S, st') P)"
    using lifted.push [OF lifted_mono [OF lif, of ?C] re call A' tr h'(3)] h'(2,4) h(2) re' by auto
  moreover have "nnext (h' ! hp) = first (rest h0 L ?S)"
    using dll_next [of h' "[]" hp "A @ B1 @ B2"] h'(2) re' by simp
  moreover have "(?S, st') \<in> confs m h0 L"
    by (rule confs.move [OF lifted_confs [OF lif] mem tr])
  moreover have notin: "(?S, st') \<notin> C"
    using new state_equality.equal_refl [OF eq] by blast
  moreover have "cache_holds (length (newBitset n))
      ((sCache cs)(bitset_hash lin' := sCache cs (bitset_hash lin') @ [(lin', st')])) ?C"
    using cache_holds_add [OF cache lin'(2)] lin'(3) by simp
  moreover have "card (confs m h0 L - ?C) < card (confs m h0 L - C)"
  proof (rule psubset_card_mono)
    show "confs m h0 L - ?C \<subset> confs m h0 L - C" using \<open>(?S, st') \<in> confs m h0 L\<close> notin by blast
  qed (simp add: confs_finite)
  moreover have "\<forall>S' t. (S', t) \<in> ?C \<longrightarrow> (S', t) \<in> insert (?S, st') P \<or> \<not> good m h0 L S' t"
    using dead by blast
  ultimately show ?thesis
    using that [OF h'(1) lin'(1) _ _ lin'(2,3)] hd lin' sub by (simp add: search_inv_def)
qed

lemma search_dead:
  assumes p: "problem_ok m h0 hp L n" and inv: "search_inv m h0 hp L n cs C P S A (b # B)"
    and b: "nmatch (h0 ! b) = None"
  shows "\<not> good m h0 L S (sState cs)"
proof -
  have lif: "lifted m h0 hp L C (sCalls cs) (sHeap cs) S (sState cs) P"
    and re: "rest h0 L S = A @ b # B" and A: "\<forall>x \<in> set A. isCall h0 x \<and> tried m h0 C S (sState cs) x"
    and dead: "\<forall>S' t. (S', t) \<in> C \<longrightarrow> (S', t) \<in> P \<or> \<not> good m h0 L S' t"
    using inv by (simp_all add: search_inv_def)
  have "\<forall>S' t. (S', t) \<in> C \<longrightarrow> S' \<subseteq> S \<or> \<not> good m h0 L S' t"
    using dead lifted_path [OF lif] by blast
  then show ?thesis
    using p tried_dead [OF _ re b A] by (simp add: problem_ok_def)
qed

lemma search_back:
  assumes p: "problem_ok m h0 hp L n" and inv: "search_inv m h0 hp L n cs C P S A (b # B)"
    and b: "nmatch (h0 ! b) = None" and ne: "sCalls cs \<noteq> []"
  obtains e st1 h1 lin1 P1 S1 A1 B1 where "last (sCalls cs) = (e, st1)" and "unlift (sHeap cs) e = Some h1"
    and "nid (sHeap cs ! e) = nid (h0 ! e)"
    and "bitset_clear (sLin cs) (nid (h0 ! e)) = Some lin1"
    and "search_inv m h0 hp L n (cs\<lparr>sState := st1, sLin := lin1, sCalls := butlast (sCalls cs),
        sHeap := h1, sEntry := nnext (h1 ! e)\<rparr>) C P1 S1 (A1 @ [e]) B1"
proof -
  have lif: "lifted m h0 hp L C (sCalls cs) (sHeap cs) S (sState cs) P" and hd: "sHead cs = hp"
    and lin: "elems (sLin cs) = S" "length (sLin cs) = length (newBitset n)"
    and cache: "cache_holds (length (newBitset n)) (sCache cs) C" and sub: "C \<subseteq> confs m h0 L"
    and dead: "\<forall>S' t. (S', t) \<in> C \<longrightarrow> (S', t) \<in> P \<or> \<not> good m h0 L S' t"
    using inv by (simp_all add: search_inv_def)
  have dl: "dll h0 (hp # L)" and eq: "state_equality (mStep m) (the (mEqual m))"
    using p by (simp_all add: problem_ok_def)
  obtain calls0 h1 S1 st1 P1 A1 e B1 where calls: "sCalls cs = calls0 @ [(e, st1)]"
    and lif1: "lifted m h0 hp L C calls0 h1 S1 st1 P1" and re1: "rest h0 L S1 = A1 @ e # B1" and call: "isCall h0 e"
    and A1: "\<forall>x \<in> set A1. isCall h0 x \<and> tried m h0 C S1 st1 x" and tr: "nextState m h0 st1 e = Some (sState cs)"
    and un: "unlift (sHeap cs) e = Some h1" and S: "S = insert (nid (h0 ! e)) S1" and mem: "(S, sState cs) \<in> C"
    and P: "P = insert (S, sState cs) P1"
    by (rule lifted_top [OF lif ne])
  note e = rest_mem [OF re1] and h1 = lifted_heap [OF lif1 dl]
  have lt: "e < length (sHeap cs)"
    using dll_bound [OF dl] e(1) static_length [OF lifted_heap(2) [OF lif dl]] by simp
  have id: "nid (sHeap cs ! e) = nid (h0 ! e)"
    using static_nth [OF lifted_heap(2) [OF lif dl] lt] by simp
  obtain lin1 where lin1: "bitset_clear (sLin cs) (nid (h0 ! e)) = Some lin1"
    "length lin1 = length (newBitset n)" "elems lin1 = S1"
    using bitset_clear_elems [of "nid (h0 ! e)" "sLin cs"] nid_room [OF p e(1) call] lin e(2) S by auto
  have "nnext (h1 ! e) = first B1"
    using dll_next [of h1 "hp # A1" e B1] h1(1) unfolding re1 by simp
  moreover have "tried m h0 C S1 st1 e"
    using tr mem S state_equality.equal_refl [OF eq] unfolding tried_def by auto
  moreover have "\<forall>S' t. (S', t) \<in> C \<longrightarrow> (S', t) \<in> P1 \<or> \<not> good m h0 L S' t"
    using dead P search_dead [OF p inv b] by blast
  ultimately have "search_inv m h0 hp L n (cs\<lparr>sState := st1, sLin := lin1, sCalls := butlast (sCalls cs),
      sHeap := h1, sEntry := nnext (h1 ! e)\<rparr>) C P1 S1 (A1 @ [e]) B1"
    using calls lif1 hd re1 A1 call lin1 cache sub by (simp add: search_inv_def)
  then show ?thesis
    using that [OF _ un id lin1(1)] calls by simp
qed


section \<open>One iteration\<close>

definition advances :: "('s, 'v) Model \<Rightarrow> 'v heap \<Rightarrow> nat \<Rightarrow> nat list \<Rightarrow> nat \<Rightarrow> ('s, 'v) search \<Rightarrow> nat \<times> nat \<times> nat \<Rightarrow> bool" where
  "advances m h0 hp L n cs before \<longleftrightarrow> (\<exists>C P S A B. search_inv m h0 hp L n cs C P S A B \<and>
     (todo m h0 L C (length (sCalls cs)) B, before) \<in> lessTodo)"

lemma advancesI:
  "search_inv m h0 hp L n cs C P S A B \<Longrightarrow> (todo m h0 L C (length (sCalls cs)) B, before) \<in> lessTodo \<Longrightarrow>
   advances m h0 hp L n cs before"
  unfolding advances_def by blast

lemma wf_lessTodo: "wf lessTodo"
  by (intro wf_lex_prod wf_less_than)

lemma check_call:
  assumes p: "problem_ok m h0 hp L n" and inv: "search_inv m h0 hp L n cs C P S A (e # B)"
    and en: "sEntry cs = Some e" "e \<in> set L" "nmatch (sHeap cs ! e) = nmatch (h0 ! e)"
      "nvalue (sHeap cs ! e) = nvalue (h0 ! e)" "nid (sHeap cs ! e) = nid (h0 ! e)" "nnext (sHeap cs ! e) = first B"
    and r: "nmatch (h0 ! e) = Some r"
  shows "\<exists>cs'. checkStep m cs = Inr cs' \<and> advances m h0 hp L n cs' (todo m h0 L C (length (sCalls cs)) (e # B))"
proof -
  have lif: "lifted m h0 hp L C (sCalls cs) (sHeap cs) S (sState cs) P"
    and lin: "elems (sLin cs) = S" "length (sLin cs) = length (newBitset n)"
    and cache: "cache_holds (length (newBitset n)) (sCache cs) C"
    using inv by (simp_all add: search_inv_def)
  have ok: "history_ok h0 L n" and dl: "dll h0 (hp # L)" using p by (simp_all add: problem_ok_def)
  note h = lifted_heap [OF lif dl]
  have "r < length (sHeap cs)"
    using dll_bound [OF dl] history_call(1) [OF ok en(2) r] static_length [OF h(2)] by simp
  then have rv: "nvalue (sHeap cs ! r) = nvalue (h0 ! r)" using static_nth [OF h(2)] by simp
  obtain okb st' where step: "mStep m (sState cs) (nvalue (h0 ! e)) (nvalue (h0 ! r)) = Some (okb, st')"
    using p en(2) r unfolding problem_ok_def by fastforce
  let ?skip = "cs\<lparr>sEntry := first B\<rparr>"
  have skip: "advances m h0 hp L n ?skip (todo m h0 L C (length (sCalls cs)) (e # B))"
    if "tried m h0 C S (sState cs) e"
  proof -
    have "search_inv m h0 hp L n ?skip C P S (A @ [e]) B"
      using search_skip [OF inv _ that] r by simp
    then show ?thesis by (rule advancesI) (simp add: todo_def)
  qed
  show ?thesis
  proof (cases okb)
    case False
    then have "tried m h0 C S (sState cs) e" using step r by (simp add: tried_def nextState_def)
    with skip have "advances m h0 hp L n ?skip (todo m h0 L C (length (sCalls cs)) (e # B))" by blast
    moreover have "checkStep m cs = Inr ?skip" using False en r rv step by (simp add: checkStep_def Let_def)
    ultimately show ?thesis by blast
  next
    case True
    have tr: "nextState m h0 (sState cs) e = Some st'" using True step r by (simp add: nextState_def)
    let ?S = "insert (nid (h0 ! e)) S"
    obtain lin' where lin': "bitset_set (sLin cs) (nid (h0 ! e)) = Some lin'"
      "length lin' = length (newBitset n)" "elems lin' = ?S"
      using bitset_set_elems [of "nid (h0 ! e)" "sLin cs"] nid_room [OF p en(2)] lin r by auto
    have known: "cacheContains (the (mEqual m)) (sCache cs) (lin', st') \<longleftrightarrow>
        (\<exists>t. (?S, t) \<in> C \<and> the (mEqual m) st' t)"
      using cacheContains_iff [OF cache lin'(2)] lin'(3) by simp
    show ?thesis
    proof (cases "cacheContains (the (mEqual m)) (sCache cs) (lin', st')")
      case True
      then have "tried m h0 C S (sState cs) e" using known tr by (simp add: tried_def)
      with skip have "advances m h0 hp L n ?skip (todo m h0 L C (length (sCalls cs)) (e # B))" by blast
      moreover have "checkStep m cs = Inr ?skip"
        using True \<open>okb\<close> en r rv step lin'(1) by (simp add: checkStep_def Let_def)
      ultimately show ?thesis by blast
    next
      case False
      then have new: "\<not> (\<exists>t. (?S, t) \<in> C \<and> the (mEqual m) st' t)" using known by simp
      obtain h' where h': "lift (sHeap cs) e = Some h'"
        "search_inv m h0 hp L n
          (cs\<lparr>sCache := (sCache cs)(bitset_hash lin' := sCache cs (bitset_hash lin') @ [(lin', st')]),
              sCalls := sCalls cs @ [(e, sState cs)], sState := st', sLin := lin', sHeap := h',
              sEntry := nnext (h' ! sHead cs)\<rparr>)
          (insert (?S, st') C) (insert (?S, st') P) ?S [] (rest h0 L ?S)"
        "card (confs m h0 L - insert (?S, st') C) < card (confs m h0 L - C)"
        using search_push [OF p inv r tr new] lin'(1) by (metis option.inject)
      have "checkStep m cs = Inr (cs\<lparr>sCache := (sCache cs)(bitset_hash lin' := sCache cs (bitset_hash lin') @ [(lin', st')]),
              sCalls := sCalls cs @ [(e, sState cs)], sState := st', sLin := lin', sHeap := h',
              sEntry := nnext (h' ! sHead cs)\<rparr>)"
        using False \<open>okb\<close> en r rv step lin'(1) h'(1) by (simp add: checkStep_def Let_def)
      moreover note advancesI [OF h'(2), of "todo m h0 L C (length (sCalls cs)) (e # B)"]
      ultimately show ?thesis using h'(3) by (simp add: todo_def)
    qed
  qed
qed

lemma check_return:
  assumes p: "problem_ok m h0 hp L n" and inv: "search_inv m h0 hp L n cs C P S A (e # B)"
    and en: "sEntry cs = Some e" "nmatch (sHeap cs ! e) = nmatch (h0 ! e)" and r: "nmatch (h0 ! e) = None"
  shows "(sCalls cs = [] \<and> checkStep m cs = Inl (Done False) \<and> \<not> good m h0 L {} (mInit m)) \<or>
    (\<exists>cs'. checkStep m cs = Inr cs' \<and> advances m h0 hp L n cs' (todo m h0 L C (length (sCalls cs)) (e # B)))"
proof (cases "sCalls cs = []")
  case True
  have "lifted m h0 hp L C (sCalls cs) (sHeap cs) S (sState cs) P"
    using inv by (simp add: search_inv_def)
  then have "S = {}" "sState cs = mInit m"
    using True by (auto elim: lifted.cases)
  then have "\<not> good m h0 L {} (mInit m)" using search_dead [OF p inv r] by simp
  with True en r show ?thesis by (simp add: checkStep_def Let_def)
next
  case False
  obtain e' st1 h1 lin1 P1 S1 A1 B1 where top: "last (sCalls cs) = (e', st1)" "unlift (sHeap cs) e' = Some h1"
    "nid (sHeap cs ! e') = nid (h0 ! e')" "bitset_clear (sLin cs) (nid (h0 ! e')) = Some lin1"
    and inv1: "search_inv m h0 hp L n (cs\<lparr>sState := st1, sLin := lin1, sCalls := butlast (sCalls cs),
        sHeap := h1, sEntry := nnext (h1 ! e')\<rparr>) C P1 S1 (A1 @ [e']) B1"
    by (rule search_back [OF p inv r False])
  have "checkStep m cs = Inr (cs\<lparr>sState := st1, sLin := lin1, sCalls := butlast (sCalls cs),
        sHeap := h1, sEntry := nnext (h1 ! e')\<rparr>)"
    using False en r top by (simp add: checkStep_def Let_def)
  moreover have "length (butlast (sCalls cs)) < length (sCalls cs)" using False by simp
  moreover note advancesI [OF inv1, of "todo m h0 L C (length (sCalls cs)) (e # B)"]
  ultimately show ?thesis by (simp add: todo_def)
qed

lemma check_step:
  assumes p: "problem_ok m h0 hp L n" and inv: "search_inv m h0 hp L n cs C P S A B"
    and ne: "nnext (sHeap cs ! sHead cs) \<noteq> None"
  shows "(checkStep m cs = Inl (Done False) \<and> \<not> good m h0 L {} (mInit m)) \<or>
    (\<exists>cs'. checkStep m cs = Inr cs' \<and> advances m h0 hp L n cs' (todo m h0 L C (length (sCalls cs)) B))"
proof -
  obtain e B' where B: "B = e # B'" and en: "sEntry cs = Some e" "e \<in> set L"
    "nmatch (sHeap cs ! e) = nmatch (h0 ! e)" "nvalue (sHeap cs ! e) = nvalue (h0 ! e)"
    "nid (sHeap cs ! e) = nid (h0 ! e)" "nnext (sHeap cs ! e) = first B'"
    by (rule search_entry [OF p inv ne])
  show ?thesis
  proof (cases "nmatch (h0 ! e)")
    case None
    from check_return [OF p inv [unfolded B] en(1,3) this] show ?thesis unfolding B by blast
  next
    case (Some r)
    from check_call [OF p inv [unfolded B] en this] show ?thesis unfolding B by blast
  qed
qed

section \<open>The loop\<close>

lemma check_loop:
  assumes p: "problem_ok m h0 hp L n"
  shows "search_inv m h0 hp L n cs C P S A B \<Longrightarrow>
    checkLoop m (\<lambda>_. False) t cs = Some (Done (good m h0 L {} (mInit m)))"
proof (induction "todo m h0 L C (length (sCalls cs)) B" arbitrary: cs C P S A B t rule: wf_induct_rule [OF wf_lessTodo])
  case (1 cs C B P S A t)
  have lif: "lifted m h0 hp L C (sCalls cs) (sHeap cs) S (sState cs) P" and hd: "sHead cs = hp"
    using 1(2) by (simp_all add: search_inv_def)
  have dl: "dll h0 (hp # L)" using p by (simp add: problem_ok_def)
  show ?case
  proof (cases "nnext (sHeap cs ! sHead cs)")
    case None
    have "nnext (sHeap cs ! hp) = first (rest h0 L S)"
      using dll_next [of _ "[]"] lifted_heap(1) [OF lif dl] by simp
    then have "rest h0 L S = []" using None hd by (cases "rest h0 L S") auto
    then have "good m h0 L {} (mInit m)" using lifted_good [OF lif] by (blast intro: good.finished)
    with None show ?thesis by (subst checkLoop.simps) simp
  next
    case (Some x)
    then have ne: "nnext (sHeap cs ! sHead cs) \<noteq> None" by simp
    from check_step [OF p 1(2) ne] show ?thesis
    proof
      assume "checkStep m cs = Inl (Done False) \<and> \<not> good m h0 L {} (mInit m)"
      with ne show ?thesis by (subst checkLoop.simps) simp
    next
      assume "\<exists>cs'. checkStep m cs = Inr cs' \<and> advances m h0 hp L n cs' (todo m h0 L C (length (sCalls cs)) B)"
      then obtain cs' C' P' S' A' B' where step: "checkStep m cs = Inr cs'"
        and inv': "search_inv m h0 hp L n cs' C' P' S' A' B'"
        and less: "(todo m h0 L C' (length (sCalls cs')) B', todo m h0 L C (length (sCalls cs)) B) \<in> lessTodo"
        unfolding advances_def by blast
      from 1(1) [OF less inv'] have "checkLoop m (\<lambda>_. False) (Suc t) cs' = Some (Done (good m h0 L {} (mInit m)))" .
      with Some step show ?thesis by (subst checkLoop.simps) simp
    qed
  qed
qed

end
