(* ===== verification/Lin_Link.thy ===== *)
theory Lin_Link
  imports Lin_Run
begin

text \<open>
  From a list of entries to the search: \<^verbatim>\<open>makeLinkedEntries\<close> builds the doubly linked list of the
  entries with each call pointing to its return, and \<^verbatim>\<open>checkSingle\<close> decides whether the
  operations can be put in an order that the model accepts.
\<close>

section \<open>Entries with calls and returns\<close>

definition callAt :: "'v entry list \<Rightarrow> nat \<Rightarrow> nat \<Rightarrow> bool" where
  "callAt es p i \<longleftrightarrow> p < length es \<and> ekind (es ! p) = callEntry \<and> eid (es ! p) = i"

definition returnAt :: "'v entry list \<Rightarrow> nat \<Rightarrow> nat \<Rightarrow> bool" where
  "returnAt es q i \<longleftrightarrow> q < length es \<and> ekind (es ! q) = returnEntry \<and> eid (es ! q) = i"

text \<open>The operations below \<open>n\<close> have one call and one return each, the call first.\<close>

definition entries_ok :: "nat \<Rightarrow> 'v entry list \<Rightarrow> bool" where
  "entries_ok n es \<longleftrightarrow> distinct (map (\<lambda>e. (eid e, ekind e)) es) \<and> (\<forall>e \<in> set es. eid e < n) \<and>
     (\<forall>i < n. \<exists>p q. p < q \<and> callAt es p i \<and> returnAt es q i)"

lemma entries_unique:
  assumes "entries_ok n es"
  shows "callAt es p i \<Longrightarrow> callAt es p' i \<Longrightarrow> p = p'"
    and "returnAt es q i \<Longrightarrow> returnAt es q' i \<Longrightarrow> q = q'"
proof -
  have *: "distinct (map (\<lambda>e. (eid e, ekind e)) es)" using assms by (simp add: entries_ok_def)
  show "p = p'" if "callAt es p i" "callAt es p' i"
    using nth_eq_iff_index_eq [OF *, of p p'] that by (simp add: callAt_def)
  show "q = q'" if "returnAt es q i" "returnAt es q' i"
    using nth_eq_iff_index_eq [OF *, of q q'] that by (simp add: returnAt_def)
qed

section \<open>The linked list of a list of entries\<close>

text \<open>The entry at position \<open>i\<close> has the address \<open>length es - 1 - i\<close>.\<close>

definition firstReturn :: "'v entry list \<Rightarrow> nat \<Rightarrow> nat option" where
  "firstReturn es i = (case dropWhile (\<lambda>e. \<not> (ekind e = returnEntry \<and> eid e = i)) es of
     [] \<Rightarrow> None | x # xs \<Rightarrow> Some (length xs))"

lemma firstReturn_Cons:
  "firstReturn (e # es) i = (if ekind e = returnEntry \<and> eid e = i then Some (length es) else firstReturn es i)"
  by (simp add: firstReturn_def)

lemma firstReturn_bound: "firstReturn es i = Some r \<Longrightarrow> r < length es"
  by (induction es) (auto simp: firstReturn_Cons firstReturn_def split: if_splits)

fun linkedNode :: "'v entry list \<Rightarrow> 'v node \<Rightarrow> bool" where
  "linkedNode [] nd = False"
| "linkedNode (e # es) nd = (nvalue nd = evalue e \<and> nid nd = eid e \<and>
     nmatch nd = (if ekind e = returnEntry then None else firstReturn es (eid e)))"

text \<open>A new node is put in front of a list.\<close>

lemma insertBefore_front:
  assumes xs: "xs \<noteq> [] \<longrightarrow> dll h1 xs \<and> nprev (h1 ! hd xs) = None"
    and nd: "nnext nd = None" "nprev nd = None"
    and h: "h = insertBefore (h1 @ [nd]) (length h1) (first xs)"
  shows "length h = Suc (length h1)" and "static h = static (h1 @ [nd])"
    and "dll h (length h1 # xs)" and "nprev (h ! length h1) = None"
proof -
  let ?n = "length h1"
  have "length h = Suc ?n \<and> static h = static (h1 @ [nd]) \<and> dll h (?n # xs) \<and> nprev (h ! ?n) = None"
  proof (cases xs)
    case Nil
    then show ?thesis using h nd by (auto simp: insertBefore_def dll_def)
  next
    case (Cons m ys)
    have d: "dll h1 (m # ys)" and pm: "nprev (h1 ! m) = None" using xs Cons by auto
    have m: "m < ?n" using dll_bound [OF d] by simp
    have hh: "h = (h1 @ [nd])[m := (h1 ! m)\<lparr>nprev := Some ?n\<rparr>, ?n := nd\<lparr>nnext := Some m\<rparr>]"
      using m pm unfolding h Cons by (simp add: insertBefore_def nth_append Let_def)
    have at_n: "h ! ?n = nd\<lparr>nnext := Some m\<rparr>" and at_m: "h ! m = (h1 ! m)\<lparr>nprev := Some ?n\<rparr>"
      and at: "\<And>x. x < ?n \<Longrightarrow> x \<noteq> m \<Longrightarrow> h ! x = h1 ! x"
      using m unfolding hh by (auto simp: nth_append nth_list_update)
    have st: "static h = static (h1 @ [nd])"
      by (rule nth_equalityI) (use m in \<open>auto simp: static_def hh nth_append nth_list_update\<close>)
    have dd: "distinct (m # ys)" "set (m # ys) \<subseteq> {..<?n}" "successively (link h1) (m # ys)"
      "nnext (h1 ! last (m # ys)) = None"
      using d by (auto simp: dll_def)
    have "successively (link h) (m # ys)"
    proof (rule successively_mono [OF dd(3)])
      fix x y assume xy: "x \<in> set (m # ys)" "y \<in> set (m # ys)" "link h1 x y"
      then have "y \<noteq> m" using pm by (auto simp: link_def)
      have "x < ?n" "y < ?n" using xy(1,2) dd(2) by auto
      have "nnext (h ! x) = nnext (h1 ! x)" using at [OF \<open>x < ?n\<close>] at_m by (cases "x = m") auto
      moreover have "h ! y = h1 ! y" using at [OF \<open>y < ?n\<close> \<open>y \<noteq> m\<close>] .
      ultimately show "link h x y" using xy(3) by (simp add: link_def)
    qed
    moreover have "link h ?n m" by (simp add: link_def at_n at_m)
    moreover have "nnext (h ! last (m # ys)) = None"
    proof -
      have "last (m # ys) < ?n" using dd(2) last_in_set [of "m # ys"] by blast
      then show ?thesis using dd(4) at at_m by (cases "last (m # ys) = m") auto
    qed
    ultimately have "dll h (?n # xs)"
      using dd(1,2) unfolding dll_def Cons hh by auto
    then show ?thesis using st at_n nd(2) by (simp add: hh)
  qed
  then show "length h = Suc ?n" "static h = static (h1 @ [nd])" "dll h (?n # xs)" "nprev (h ! ?n) = None"
    by simp_all
qed

lemma linkedNode_static:
  assumes "static h = static g" and "a < length h"
  shows "linkedNode es (h ! a) = linkedNode es (g ! a)"
  using static_nth [OF assms] by (cases es) auto

lemma upt_rev_Cons: "rev [0..<Suc k] = k # rev [0..<k]"
  by simp

lemma linkEntries_spec:
  assumes "linkEntries es ([], None, Map.empty) = (h, root, match)"
  shows "length h = length es \<and> root = first (rev [0..<length es]) \<and> match = firstReturn es \<and>
    (es \<noteq> [] \<longrightarrow> dll h (rev [0..<length es]) \<and> nprev (h ! (length es - 1)) = None) \<and>
    (\<forall>i < length es. linkedNode (drop i es) (h ! (length es - 1 - i)))"
  using assms
proof (induction es arbitrary: h root match)
  case Nil
  then show ?case by (auto simp: firstReturn_def)
next
  case (Cons e es)
  obtain h1 root1 match1 where r: "linkEntries es ([], None, Map.empty) = (h1, root1, match1)"
    by (cases "linkEntries es ([], None, Map.empty)")
  note IH = Cons.IH [OF r]
  let ?nd = "\<lparr>nvalue = evalue e, nmatch = (if ekind e = returnEntry then None else match1 (eid e)),
    nid = eid e, nnext = None, nprev = None\<rparr>"
  have h: "h = insertBefore (h1 @ [?nd]) (length h1) root1" and root: "root = Some (length h1)"
    and match: "match = (if ekind e = returnEntry then match1(eid e \<mapsto> length h1) else match1)"
    using Cons.prems r by (auto simp: Let_def split: if_splits)
  have len: "length h1 = length es" and root1: "root1 = first (rev [0..<length es])"
    and match1: "match1 = firstReturn es"
    and nodes: "\<forall>i < length es. linkedNode (drop i es) (h1 ! (length es - 1 - i))"
    and list: "rev [0..<length es] \<noteq> [] \<longrightarrow> dll h1 (rev [0..<length es]) \<and> nprev (h1 ! hd (rev [0..<length es])) = None"
    using IH by (auto simp: hd_rev last_upt)
  note fr = insertBefore_front [OF list _ _ h [unfolded root1]]
  have st: "static h = static (h1 @ [?nd])" and lh: "length h = Suc (length h1)"
    using fr by simp_all
  have "linkedNode (drop i (e # es)) (h ! (length (e # es) - 1 - i))" if "i < length (e # es)" for i
  proof -
    have "length (e # es) - 1 - i < length h" using that lh len by auto
    note same = linkedNode_static [OF st this]
    show ?thesis
    proof (cases i)
      case 0
      then show ?thesis unfolding same using len match1 by (simp add: nth_append)
    next
      case (Suc j)
      then have "j < length es" using that by simp
      with nodes have "linkedNode (drop j es) (h1 ! (length es - 1 - j))" by blast
      with Suc that show ?thesis unfolding same using len by (simp add: nth_append)
    qed
  qed
  moreover have "match = firstReturn (e # es)"
    using match match1 len by (auto simp: firstReturn_Cons fun_eq_iff)
  moreover have "dll h (rev [0..<length (e # es)])" "nprev (h ! (length (e # es) - 1)) = None"
    using fr len by simp_all
  ultimately show ?case using lh len root by simp
qed

end
