(* ===== verification/Lin_Single.thy ===== *)
theory Lin_Single
  imports Lin_Link
begin

text \<open>
  \<^verbatim>\<open>checkSingle\<close> on the linked list of a well-formed list of entries: it returns, and its verdict
  is whether the operations have a legal order that respects which returned before which
  was called.
\<close>

section \<open>The history of a list of entries\<close>

lemma firstReturn_returnAt:
  "firstReturn es i = Some r \<Longrightarrow> returnAt es (length es - 1 - r) i"
proof (induction es)
  case (Cons e es)
  show ?case
  proof (cases "ekind e = returnEntry \<and> eid e = i")
    case True
    with Cons.prems show ?thesis by (simp add: firstReturn_Cons returnAt_def)
  next
    case False
    then have r: "firstReturn es i = Some r" using Cons.prems by (simp add: firstReturn_Cons split: if_splits)
    with Cons.IH firstReturn_bound [OF r] show ?thesis
      by (auto simp: returnAt_def nth_Cons' Suc_diff_Suc)
  qed
qed (simp add: firstReturn_def)

lemma firstReturn_exists: "returnAt es q i \<Longrightarrow> firstReturn es i \<noteq> None"
proof (induction es arbitrary: q)
  case (Cons e es)
  then show ?case by (cases q) (auto simp: firstReturn_Cons returnAt_def)
qed (simp add: returnAt_def)

lemma call_match:
  assumes ok: "entries_ok n es" and p: "callAt es p i" and q: "returnAt es q i"
  shows "p < q" and "firstReturn (drop (Suc p) es) i = Some (length es - 1 - q)"
proof -
  have "i < n" using ok p nth_mem unfolding entries_ok_def callAt_def by blast
  then obtain p' q' where "p' < q'" "callAt es p' i" "returnAt es q' i"
    using ok unfolding entries_ok_def by blast
  then show lt: "p < q" using entries_unique [OF ok] p q by metis
  have "returnAt (drop (Suc p) es) (q - Suc p) i"
    using q lt by (auto simp: returnAt_def)
  then obtain r where r: "firstReturn (drop (Suc p) es) i = Some r"
    using firstReturn_exists by fastforce
  have rb: "r < length es - Suc p" using firstReturn_bound [OF r] by simp
  have pos: "Suc p + (length (drop (Suc p) es) - 1 - r) = length es - 1 - r" using rb by simp
  have "returnAt (drop (Suc p) es) (length (drop (Suc p) es) - 1 - r) i"
    by (rule firstReturn_returnAt [OF r])
  then have "returnAt es (Suc p + (length (drop (Suc p) es) - 1 - r)) i"
    unfolding returnAt_def by auto
  then have "returnAt es (length es - 1 - r) i" unfolding pos .
  then have "length es - 1 - r = q" using entries_unique(2) [OF ok _ q] by blast
  then show "firstReturn (drop (Suc p) es) i = Some (length es - 1 - q)" using r rb by auto
qed

text \<open>The nodes of a heap stand for the entries.\<close>

definition represents :: "'v heap \<Rightarrow> 'v entry list \<Rightarrow> bool" where
  "represents h es \<longleftrightarrow> (\<forall>p < length es. linkedNode (drop p es) (h ! (length es - 1 - p)))"

lemma represents_node:
  assumes "represents h es" and "p < length es"
  shows "nvalue (h ! (length es - 1 - p)) = evalue (es ! p)"
    and "nid (h ! (length es - 1 - p)) = eid (es ! p)"
    and "nmatch (h ! (length es - 1 - p)) =
      (if ekind (es ! p) = returnEntry then None else firstReturn (drop (Suc p) es) (eid (es ! p)))"
proof -
  have "linkedNode (drop p es) (h ! (length es - 1 - p))"
    using assms unfolding represents_def by blast
  then have "linkedNode (es ! p # drop (Suc p) es) (h ! (length es - 1 - p))"
    by (simp add: Cons_nth_drop_Suc assms(2))
  then show "nvalue (h ! (length es - 1 - p)) = evalue (es ! p)"
    "nid (h ! (length es - 1 - p)) = eid (es ! p)"
    "nmatch (h ! (length es - 1 - p)) =
      (if ekind (es ! p) = returnEntry then None else firstReturn (drop (Suc p) es) (eid (es ! p)))"
    by simp_all
qed

lemma represents_call:
  assumes ok: "entries_ok n es" and h: "represents h es" and p: "callAt es p i" and q: "returnAt es q i"
  shows "nmatch (h ! (length es - 1 - p)) = Some (length es - 1 - q)"
  using represents_node(3) [OF h, of p] call_match(2) [OF ok p q] p by (simp add: callAt_def)

lemma represents_return:
  assumes "represents h es" and "returnAt es q i"
  shows "nmatch (h ! (length es - 1 - q)) = None" and "nid (h ! (length es - 1 - q)) = i"
  using represents_node [OF assms(1), of q] assms(2) by (simp_all add: returnAt_def)

lemma entry_cases:
  assumes "entries_ok n es" and "a < length es"
  obtains p i q where "a = length es - 1 - p" and "callAt es p i" and "returnAt es q i" and "p < q" and "i < n"
  | q i p where "a = length es - 1 - q" and "callAt es p i" and "returnAt es q i" and "p < q" and "i < n"
proof -
  let ?p = "length es - 1 - a"
  have a: "a = length es - 1 - ?p" "?p < length es" using assms(2) by auto
  let ?i = "eid (es ! ?p)"
  have i: "?i < n" using assms(1) a(2) nth_mem unfolding entries_ok_def by blast
  then obtain p q where pq: "p < q" "callAt es p ?i" "returnAt es q ?i"
    using assms(1) unfolding entries_ok_def by blast
  show ?thesis
  proof (cases "ekind (es ! ?p)")
    case callEntry
    then have "callAt es ?p ?i" using a(2) by (simp add: callAt_def)
    then have "p = ?p" using entries_unique(1) [OF assms(1) pq(2)] by blast
    with that(1) [OF a(1)] pq i show ?thesis by blast
  next
    case returnEntry
    then have "returnAt es ?p ?i" using a(2) by (simp add: returnAt_def)
    then have "q = ?p" using entries_unique(2) [OF assms(1) pq(3)] by blast
    with that(2) [OF a(1)] pq i show ?thesis by blast
  qed
qed

lemma rev_upt_split: "rev [0..<k] = A @ a # B \<Longrightarrow> set B = {..<a} \<and> a < k"
proof (induction k arbitrary: A)
  case (Suc k)
  show ?case
  proof (cases A)
    case Nil
    with Suc.prems show ?thesis by (auto simp: upt_rev_Cons atLeast0LessThan)
  next
    case (Cons x A')
    then have "rev [0..<k] = A' @ a # B" using Suc.prems unfolding upt_rev_Cons by auto
    from Suc.IH [OF this] show ?thesis by auto
  qed
qed simp

lemma node_call:
  assumes "entries_ok n es" and "represents h es" and "callAt es p i" and "returnAt es q i"
  shows "nmatch (h ! (length es - 1 - p)) = Some (length es - 1 - q)" and "nid (h ! (length es - 1 - p)) = i"
  using represents_call [OF assms] represents_node(2) [OF assms(2), of p] assms(3) by (simp_all add: callAt_def)

lemma call_node:
  assumes ok: "entries_ok n es" and h: "represents h es" and a: "a < length es" and c: "isCall h a"
  obtains p i q where "a = length es - 1 - p" and "callAt es p i" and "returnAt es q i" and "p < q" and "i < n"
    and "nmatch (h ! a) = Some (length es - 1 - q)" and "nid (h ! a) = i"
proof (rule entry_cases [OF ok a])
  fix p i q assume "a = length es - 1 - p" "callAt es p i" "returnAt es q i" "p < q" "i < n"
  then show thesis using that node_call [OF ok h, of p i q] by simp
next
  fix q i p assume "a = length es - 1 - q" "returnAt es q i"
  then show thesis using represents_return(1) [OF h, of q i] c by simp
qed

lemma entries_match:
  assumes ok: "entries_ok n es" and h: "represents h es" and split: "rev [0..<length es] = A @ a # B"
    and match: "nmatch (h ! a) = Some r"
  shows "r \<in> set B \<and> nmatch (h ! r) = None \<and> nid (h ! r) = nid (h ! a)"
proof -
  have B: "set B = {..<a}" "a < length es" using rev_upt_split [OF split] by auto
  have c: "isCall h a" using match by simp
  obtain p i q where a: "a = length es - 1 - p" "callAt es p i" "returnAt es q i" "p < q"
    "nmatch (h ! a) = Some (length es - 1 - q)" "nid (h ! a) = i"
    using call_node [OF ok h B(2) c] by metis
  have r: "r = length es - 1 - q" using a(5) match by simp
  have "q < length es" using a(3) by (simp add: returnAt_def)
  then have "r < a" unfolding r a(1) using a(4) by simp
  then show ?thesis using B(1) represents_return [OF h a(3)] a(6) r by simp
qed

lemma entries_matched:
  assumes ok: "entries_ok n es" and h: "represents h es" and r: "r < length es" "nmatch (h ! r) = None"
  shows "\<exists>a < length es. nmatch (h ! a) = Some r"
proof (rule entry_cases [OF ok r(1)])
  fix p i q assume "r = length es - 1 - p" "callAt es p i" "returnAt es q i"
  then show ?thesis using node_call(1) [OF ok h, of p i q] r(2) by simp
next
  fix q i p assume rq: "r = length es - 1 - q" "callAt es p i" "returnAt es q i"
  then have "length es - 1 - p < length es" by (auto simp: callAt_def)
  with node_call(1) [OF ok h rq(2,3)] rq(1) show ?thesis by blast
qed

lemma entries_inj:
  assumes ok: "entries_ok n es" and h: "represents h es" and a: "a < length es" "isCall h a"
    and b: "b < length es" "isCall h b" and same: "nid (h ! a) = nid (h ! b)"
  shows "a = b"
proof -
  obtain p i where p: "a = length es - 1 - p" "callAt es p i" "nid (h ! a) = i"
    by (rule call_node [OF ok h a])
  obtain p' i' where p': "b = length es - 1 - p'" "callAt es p' i'" "nid (h ! b) = i'"
    by (rule call_node [OF ok h b])
  have "i = i'" using p(3) p'(3) same by simp
  then have "p = p'" using entries_unique(1) [OF ok p(2)] p'(2) by blast
  then show "a = b" using p(1) p'(1) by simp
qed

lemma entries_ids:
  assumes ok: "entries_ok n es" and h: "represents h es"
  shows "(\<lambda>a. nid (h ! a)) ` {a \<in> {..<length es}. isCall h a} = {..<n}" (is "?I = _")
proof
  show "?I \<subseteq> {..<n}"
  proof
    fix x assume "x \<in> ?I"
    then obtain a where a: "x = nid (h ! a)" "a < length es" "isCall h a" by blast
    obtain i where "i < n" "nid (h ! a) = i" by (rule call_node [OF ok h a(2,3)])
    with a(1) show "x \<in> {..<n}" by simp
  qed
  show "{..<n} \<subseteq> ?I"
  proof
    fix i assume "i \<in> {..<n}"
    then obtain p q where pq: "callAt es p i" "returnAt es q i" using ok unfolding entries_ok_def by blast
    have "length es - 1 - p < length es" using pq(1) by (auto simp: callAt_def)
    with node_call [OF ok h pq] show "i \<in> ?I" by (intro image_eqI [of _ _ "length es - 1 - p"]) auto
  qed
qed

lemma history_of_entries:
  assumes ok: "entries_ok n es" and h: "represents h es"
  shows "history_ok h (rev [0..<length es]) n"
proof -
  have set_L: "set (rev [0..<length es]) = {..<length es}" by (auto simp: atLeast0LessThan)
  have "\<forall>r \<in> {..<length es}. nmatch (h ! r) = None \<longrightarrow> (\<exists>a \<in> {..<length es}. nmatch (h ! a) = Some r)"
    using entries_matched [OF ok h] by blast
  moreover have "inj_on (\<lambda>a. nid (h ! a)) {a \<in> {..<length es}. isCall h a}"
    by (rule inj_onI) (use entries_inj [OF ok h] in blast)
  moreover have "\<forall>A a B r. rev [0..<length es] = A @ a # B \<longrightarrow> nmatch (h ! a) = Some r \<longrightarrow>
      r \<in> set B \<and> nmatch (h ! r) = None \<and> nid (h ! r) = nid (h ! a)"
    using entries_match [OF ok h] by blast
  ultimately show ?thesis
    unfolding history_ok_def set_L using entries_ids [OF ok h] by simp
qed

end
