(* ===== verification/Lin_Verdict.thy ===== *)
theory Lin_Verdict
  imports Lin_Single
begin

text \<open>
  Linearizability of a list of entries, stated without any search, and that the verdict of
  \<^verbatim>\<open>checkSingle\<close> is exactly that.
\<close>

section \<open>Linearizable\<close>

definition isEntry :: "entryKind \<Rightarrow> nat \<Rightarrow> 'v entry \<Rightarrow> bool" where
  "isEntry k i e \<longleftrightarrow> ekind e = k \<and> eid e = i"

definition posOf :: "'v entry list \<Rightarrow> entryKind \<Rightarrow> nat \<Rightarrow> nat" where
  "posOf es k i = length (takeWhile (\<lambda>e. \<not> isEntry k i e) es)"

definition valueOf :: "'v entry list \<Rightarrow> entryKind \<Rightarrow> nat \<Rightarrow> 'v iface" where
  "valueOf es k i = evalue (es ! posOf es k i)"

text \<open>Operation \<open>i\<close> returns before operation \<open>j\<close> is called.\<close>

definition precedes :: "'v entry list \<Rightarrow> nat \<Rightarrow> nat \<Rightarrow> bool" where
  "precedes es i j \<longleftrightarrow> posOf es returnEntry i < posOf es callEntry j"

fun legal :: "('s, 'v) Model \<Rightarrow> 'v entry list \<Rightarrow> 's \<Rightarrow> nat list \<Rightarrow> bool" where
  "legal m es st [] = True"
| "legal m es st (i # ord) =
     (case mStep m st (valueOf es callEntry i) (valueOf es returnEntry i) of
        Some (True, st') \<Rightarrow> legal m es st' ord
      | _ \<Rightarrow> False)"

definition linearizable_from :: "('s, 'v) Model \<Rightarrow> 'v entry list \<Rightarrow> nat set \<Rightarrow> 's \<Rightarrow> bool" where
  "linearizable_from m es I st \<longleftrightarrow> (\<exists>ord. distinct ord \<and> set ord = I \<and>
     sorted_wrt (\<lambda>i j. \<not> precedes es j i) ord \<and> legal m es st ord)"

text \<open>
  All operations can be put in an order in which none comes after one that was called after it
  had returned, and that the model accepts from its initial state.
\<close>

definition linearizable :: "('s, 'v) Model \<Rightarrow> nat \<Rightarrow> 'v entry list \<Rightarrow> bool" where
  "linearizable m n es \<longleftrightarrow> linearizable_from m es {..<n} (mInit m)"

section \<open>Positions and addresses\<close>

lemma takeWhile_stops: "x \<in> set xs \<Longrightarrow> \<not> P x \<Longrightarrow> length (takeWhile P xs) < length xs"
  by (induction xs) auto

lemma posOf_eq:
  assumes "entries_ok n es"
  shows "callAt es p i \<Longrightarrow> posOf es callEntry i = p" and "returnAt es q i \<Longrightarrow> posOf es returnEntry i = q"
proof -
  have first: "posOf es k i = p" if "p < length es" "isEntry k i (es ! p)"
    "\<And>p'. p' < length es \<Longrightarrow> isEntry k i (es ! p') \<Longrightarrow> p' = p" for k p
  proof -
    have lt: "length (takeWhile (\<lambda>e. \<not> isEntry k i e) es) < length es"
      using that(1,2) by (intro takeWhile_stops [of "es ! p"]) auto
    then show ?thesis using nth_length_takeWhile [OF lt] that(3) by (simp add: posOf_def)
  qed
  show "posOf es callEntry i = p" if "callAt es p i"
  proof (rule first)
    show "p < length es" "isEntry callEntry i (es ! p)" using that by (auto simp: callAt_def isEntry_def)
    fix p' assume "p' < length es" "isEntry callEntry i (es ! p')"
    then have "callAt es p' i" by (simp add: callAt_def isEntry_def)
    then show "p' = p" using entries_unique(1) [OF assms that] by simp
  qed
  show "posOf es returnEntry i = q" if "returnAt es q i"
  proof (rule first)
    show "q < length es" "isEntry returnEntry i (es ! q)" using that by (auto simp: returnAt_def isEntry_def)
    fix p' assume "p' < length es" "isEntry returnEntry i (es ! p')"
    then have "returnAt es p' i" by (simp add: returnAt_def isEntry_def)
    then show "p' = q" using entries_unique(2) [OF assms that] by simp
  qed
qed

lemma node_values:
  assumes "entries_ok n es" and "represents h es" and "callAt es p i" and "returnAt es q i"
  shows "nextState m h st (length es - 1 - p) =
    (case mStep m st (valueOf es callEntry i) (valueOf es returnEntry i) of
       Some (True, st') \<Rightarrow> Some st' | _ \<Rightarrow> None)"
proof -
  have "p < length es" "q < length es" using assms(3,4) by (auto simp: callAt_def returnAt_def)
  then have "nvalue (h ! (length es - 1 - p)) = valueOf es callEntry i"
    "nvalue (h ! (length es - 1 - q)) = valueOf es returnEntry i"
    using represents_node(1) [OF assms(2)] posOf_eq(1) [OF assms(1,3)] posOf_eq(2) [OF assms(1,4)]
    by (simp_all add: valueOf_def)
  then show ?thesis
    using node_call(1) [OF assms] by (simp add: nextState_def)
qed

lemma rest_decreasing: "sorted_wrt (>) (rest h (rev [0..<k]) S)"
  unfolding rest_def by (intro sorted_wrt_filter) (simp add: sorted_wrt_rev)

section \<open>Legal orders and the search\<close>

lemma rest_finished:
  assumes ok: "entries_ok n es" and h: "represents h es"
  shows "rest h (rev [0..<length es]) S = [] \<longleftrightarrow> {..<n} \<subseteq> S"
proof -
  have ids: "(\<lambda>a. nid (h ! a)) ` {..<length es} = {..<n}"
  proof
    show "(\<lambda>a. nid (h ! a)) ` {..<length es} \<subseteq> {..<n}"
    proof
      fix x assume "x \<in> (\<lambda>a. nid (h ! a)) ` {..<length es}"
      then obtain a where a: "a < length es" "x = nid (h ! a)" by blast
      show "x \<in> {..<n}"
      proof (rule entry_cases [OF ok a(1)])
        fix p i q assume "a = length es - 1 - p" "callAt es p i" "returnAt es q i" "i < n"
        then show ?thesis using node_call(2) [OF ok h] a(2) by simp
      next
        fix q i p assume "a = length es - 1 - q" "returnAt es q i" "i < n"
        then show ?thesis using represents_return(2) [OF h] a(2) by simp
      qed
    qed
    show "{..<n} \<subseteq> (\<lambda>a. nid (h ! a)) ` {..<length es}"
      using entries_ids [OF ok h] by blast
  qed
  have "rest h (rev [0..<length es]) S = [] \<longleftrightarrow> (\<lambda>a. nid (h ! a)) ` {..<length es} \<subseteq> S"
    by (auto simp: rest_def filter_empty_conv)
  then show ?thesis unfolding ids .
qed

lemma before_precedes:
  assumes ok: "entries_ok n es" and h: "represents h es"
    and r: "rest h (rev [0..<length es]) S = A @ (length es - 1 - p) # B" and p: "callAt es p i"
    and q: "returnAt es q j" and j: "j \<notin> S"
  shows "precedes es j i \<longleftrightarrow> length es - 1 - q \<in> set A"
proof -
  let ?a = "length es - 1 - p" and ?x = "length es - 1 - q"
  have lt: "p < length es" "q < length es" using p q by (auto simp: callAt_def returnAt_def)
  have "?x \<in> set (rest h (rev [0..<length es]) S)"
    using lt represents_return(2) [OF h q] j by (auto simp: rest_def)
  then have mem: "?x \<in> set A \<or> ?x = ?a \<or> ?x \<in> set B" unfolding r by auto
  have "p \<noteq> q" using p q by (auto simp: callAt_def returnAt_def)
  then have "?x \<noteq> ?a" using lt by auto
  moreover have "\<forall>y \<in> set A. y > ?a" "\<forall>y \<in> set B. ?a > y"
    using rest_decreasing [of h "length es" S] unfolding r by (auto simp: sorted_wrt_append)
  ultimately have "?x \<in> set A \<longleftrightarrow> ?a < ?x" using mem by fastforce
  also have "\<dots> \<longleftrightarrow> q < p" using lt by auto
  finally show ?thesis
    using posOf_eq(1) [OF ok p] posOf_eq(2) [OF ok q] by (simp add: precedes_def)
qed

lemma good_linearizable:
  assumes ok: "entries_ok n es" and h: "represents h es"
  shows "good m h (rev [0..<length es]) S st \<Longrightarrow> linearizable_from m es ({..<n} - S) st"
proof (induction rule: good.induct)
  case (finished S st)
  then have "{..<n} - S = {}" using rest_finished [OF ok h] by blast
  then show ?case unfolding linearizable_from_def by (intro exI [of _ "[]"]) simp
next
  case (next_op S a st st')
  obtain A B where r: "rest h (rev [0..<length es]) S = A @ a # B" and c: "isCall h a"
    and A: "\<forall>x \<in> set A. isCall h x"
    using next_op.hyps(1) by (auto simp: cand_def)
  have "a < length es" using rest_mem(1) [OF r] by simp
  then obtain p i q where p: "a = length es - 1 - p" "callAt es p i" "returnAt es q i" "i < n" "nid (h ! a) = i"
    using call_node [OF ok h _ c] by metis
  have i: "i \<notin> S" using rest_mem(2) [OF r] p(5) by simp
  obtain ord where ord: "distinct ord" "set ord = {..<n} - insert i S"
    "sorted_wrt (\<lambda>i j. \<not> precedes es j i) ord" "legal m es st' ord"
    using next_op.IH p(5) unfolding linearizable_from_def by blast
  have "\<not> precedes es j i" if "j \<in> set ord" for j
  proof -
    have "j < n" "j \<notin> S" using that ord(2) by auto
    then obtain p' q' where pq': "callAt es p' j" "returnAt es q' j" using ok unfolding entries_ok_def by blast
    have "length es - 1 - q' \<notin> set A" using A represents_return(1) [OF h pq'(2)] by auto
    then show ?thesis using before_precedes [OF ok h r [unfolded p(1)] p(2) pq'(2) \<open>j \<notin> S\<close>] by blast
  qed
  moreover have "legal m es st (i # ord)"
    using next_op.hyps(2) ord(4) unfolding p(1) node_values [OF ok h p(2,3)]
    by (auto split: option.splits bool.splits)
  moreover have "distinct (i # ord)" "set (i # ord) = {..<n} - S" using ord(1,2) i p(4) by auto
  ultimately show ?case using ord(3) unfolding linearizable_from_def by (intro exI [of _ "i # ord"]) simp
qed

lemma linearizable_good:
  assumes ok: "entries_ok n es" and h: "represents h es"
  shows "distinct ord \<Longrightarrow> set ord = {..<n} - S \<Longrightarrow> sorted_wrt (\<lambda>i j. \<not> precedes es j i) ord \<Longrightarrow>
    legal m es st ord \<Longrightarrow> good m h (rev [0..<length es]) S st"
proof (induction ord arbitrary: S st)
  case Nil
  then have "{..<n} \<subseteq> S" by auto
  then show ?case using rest_finished [OF ok h] by (blast intro: good.finished)
next
  case (Cons i ord)
  have i: "i < n" "i \<notin> S" using Cons.prems(2) by auto
  obtain p q where pq: "p < q" "callAt es p i" "returnAt es q i" using ok i(1) unfolding entries_ok_def by blast
  let ?a = "length es - 1 - p" and ?L = "rev [0..<length es]"
  note node = node_call [OF ok h pq(2,3)]
  have "?a \<in> set (rest h ?L S)" using pq(2) i(2) node(2) by (auto simp: rest_def callAt_def)
  then obtain A B where r: "rest h ?L S = A @ ?a # B" by (meson split_list)
  have "isCall h x" if x: "x \<in> set A" for x
  proof (rule ccontr)
    assume no: "\<not> isCall h x"
    have "x \<in> set (rest h ?L S)" using x r by simp
    then have xl: "x < length es" and xs: "nid (h ! x) \<notin> S" by (auto simp: rest_def)
    obtain q' j where j: "x = length es - 1 - q'" "returnAt es q' j" "j < n"
    proof (rule entry_cases [OF ok xl])
      fix p' j q' assume "x = length es - 1 - p'" "callAt es p' j" "returnAt es q' j"
      then show thesis using node_call(1) [OF ok h, of p' j q'] no by simp
    next
      fix q' j assume "x = length es - 1 - q'" "returnAt es q' j" "j < n"
      then show thesis by (rule that)
    qed
    have "j \<notin> S" using represents_return(2) [OF h j(2)] xs j(1) by simp
    then have "precedes es j i" using before_precedes [OF ok h r pq(2) j(2)] x j(1) by blast
    moreover have "j \<noteq> i"
      using calculation posOf_eq(1) [OF ok pq(2)] posOf_eq(2) [OF ok pq(3)] pq(1) by (auto simp: precedes_def)
    moreover have "j \<in> set (i # ord)" using Cons.prems(2) j(3) \<open>j \<notin> S\<close> by blast
    ultimately show False using Cons.prems(3) by auto
  qed
  then have "cand h ?L S ?a" using r node(1) unfolding cand_def by auto
  moreover obtain st' where "nextState m h st ?a = Some st'" "legal m es st' ord"
    using Cons.prems(4) unfolding node_values [OF ok h pq(2,3)] by (auto split: option.splits bool.splits)
  moreover have "good m h ?L (insert (nid (h ! ?a)) S) st'"
    using Cons.prems calculation(3) node(2) by (intro Cons.IH) auto
  ultimately show ?case by (blast intro: good.next_op)
qed

section \<open>checkSingle\<close>

lemma nodeLength_dll: "dll h (A @ B) \<Longrightarrow> nodeLength h (first B) l = Some (l + length B)"
proof (induction B arbitrary: A l)
  case Nil
  show ?case by (subst nodeLength.simps) simp
next
  case (Cons b B)
  have "nnext (h ! b) = first B" by (rule dll_next [OF Cons.prems])
  moreover have "nodeLength h (first B) (Suc l) = Some (Suc l + length B)"
    using Cons.IH [of "A @ [b]" "Suc l"] Cons.prems by simp
  ultimately show ?case by (subst nodeLength.simps) simp
qed

lemma entries_length:
  assumes ok: "entries_ok n es"
  shows "length es = 2 * n"
proof -
  let ?f = "\<lambda>e. (eid e, ekind e)"
  have "set (map ?f es) = {..<n} \<times> {callEntry, returnEntry}"
  proof
    show "set (map ?f es) \<subseteq> {..<n} \<times> {callEntry, returnEntry}"
      using ok by (auto simp: entries_ok_def) (metis entryKind.exhaust)
    show "{..<n} \<times> {callEntry, returnEntry} \<subseteq> set (map ?f es)"
    proof
      fix x assume x: "x \<in> {..<n} \<times> {callEntry, returnEntry}"
      then obtain p q where "callAt es p (fst x)" "returnAt es q (fst x)"
        using ok unfolding entries_ok_def by fastforce
      with x have "x = ?f (es ! p) \<and> p < length es \<or> x = ?f (es ! q) \<and> q < length es"
        by (cases x) (auto simp: callAt_def returnAt_def)
      then show "x \<in> set (map ?f es)" by auto
    qed
  qed
  then have "card (set (map ?f es)) = n * card {callEntry, returnEntry}"
    by (simp add: card_cartesian_product)
  moreover have "card (set (map ?f es)) = length es"
    using ok distinct_card [of "map ?f es"] by (simp add: entries_ok_def)
  ultimately show ?thesis by simp
qed

text \<open>The functions of a model on the operations of a list of entries do not panic.\<close>

definition steps_ok :: "('s, 'v) Model \<Rightarrow> nat \<Rightarrow> 'v entry list \<Rightarrow> bool" where
  "steps_ok m n es \<longleftrightarrow>
     (\<forall>st. \<forall>i < n. mStep m st (valueOf es callEntry i) (valueOf es returnEntry i) \<noteq> None)"

lemma search_start:
  assumes h0: "dll h0 (hp # L)" and L: "nnext (h0 ! hp) = first L"
  shows "search_inv m h0 hp L n \<lparr>sHeap = h0, sHead = hp, sEntry = first L, sState = mInit m,
    sLin = newBitset n, sCache = (\<lambda>_. []), sCalls = []\<rparr> {} {} {} [] L"
  by (simp add: search_inv_def lifted.start rest_def cache_holds_empty)

lemma problem_of_entries:
  assumes ok: "entries_ok n es" and h: "represents h0 es" and dl: "dll h0 (hp # rev [0..<length es])"
    and eq: "state_equality (mStep m) (the (mEqual m))" and steps: "steps_ok m n es"
  shows "problem_ok m h0 hp (rev [0..<length es]) n"
proof -
  have "mStep m st (nvalue (h0 ! a)) (nvalue (h0 ! r)) \<noteq> None"
    if a: "a < length es" and r: "nmatch (h0 ! a) = Some r" for st a r
  proof -
    have c: "isCall h0 a" using r by simp
    obtain p i q where p: "a = length es - 1 - p" "callAt es p i" "returnAt es q i" "i < n"
      "nmatch (h0 ! a) = Some (length es - 1 - q)"
      using call_node [OF ok h a c] by metis
    have lt: "p < length es" "q < length es" using p(2,3) by (auto simp: callAt_def returnAt_def)
    have "r = length es - 1 - q" using p(5) r by simp
    then have "nvalue (h0 ! a) = valueOf es callEntry i" "nvalue (h0 ! r) = valueOf es returnEntry i"
      using represents_node(1) [OF h lt(1)] represents_node(1) [OF h lt(2)] p(1)
        posOf_eq(1) [OF ok p(2)] posOf_eq(2) [OF ok p(3)]
      by (simp_all add: valueOf_def)
    then show ?thesis using steps p(4) by (simp add: steps_ok_def)
  qed
  then show ?thesis
    using history_of_entries [OF ok h] dl eq by (simp add: problem_ok_def)
qed

text \<open>The heap of the entries with the head node in front of them.\<close>

lemma head_heap:
  assumes lk: "linkEntries es ([], None, Map.empty) = (h, root, match)"
    and nd: "nnext nd = None" "nprev nd = None" and h0: "h0 = insertBefore (h @ [nd]) (length h) root"
  shows "dll h0 (length es # rev [0..<length es])" and "represents h0 es"
    and "nodeLength h root 0 = Some (length es)" and "root = first (rev [0..<length es])" and "length h = length es"
proof -
  let ?L = "rev [0..<length es]"
  note sp = linkEntries_spec [OF lk]
  show len: "length h = length es" and root: "root = first ?L" using sp by simp_all
  have ne: "?L \<noteq> [] \<longrightarrow> dll h ?L \<and> nprev (h ! hd ?L) = None"
    using sp by (auto simp: hd_rev last_upt)
  note fr = insertBefore_front [OF ne nd h0 [unfolded root]]
  show "dll h0 (length es # ?L)" using fr(3) len by simp
  show "represents h0 es"
    unfolding represents_def
  proof (intro allI impI)
    fix p assume p: "p < length es"
    have "linkedNode (drop p es) (h ! (length es - 1 - p))" using sp p by blast
    moreover have "linkedNode (drop p es) (h0 ! (length es - 1 - p)) =
        linkedNode (drop p es) ((h @ [nd]) ! (length es - 1 - p))"
      by (rule linkedNode_static [OF fr(2)]) (use fr(1) len in simp)
    ultimately show "linkedNode (drop p es) (h0 ! (length es - 1 - p))"
      using p len by (simp add: nth_append)
  qed
  show "nodeLength h root 0 = Some (length es)"
  proof (cases "?L = []")
    case True
    then show ?thesis unfolding root by (subst nodeLength.simps) simp
  next
    case False
    then show ?thesis using nodeLength_dll [of h "[]" ?L 0] ne root by simp
  qed
qed

lemma check_single_verdict:
  assumes ok: "entries_ok n es" and eq: "state_equality (mStep m) (the (mEqual m))" and steps: "steps_ok m n es"
  shows "checkSingle m (makeLinkedEntries es) (\<lambda>_. False) = Some (Done (linearizable m n es))"
proof -
  let ?L = "rev [0..<length es]" and ?hp = "length es"
  obtain h root match where lk: "linkEntries es ([], None, Map.empty) = (h, root, match)"
    by (cases "linkEntries es ([], None, Map.empty)")
  define h0 where "h0 = insertBefore
    (h @ [\<lparr>nvalue = None, nmatch = None, nid = maxUint, nnext = None, nprev = None\<rparr>]) (length h) root"
  have dl: "dll h0 (?hp # ?L)" and rep: "represents h0 es" and nl: "nodeLength h root 0 = Some ?hp"
    and root: "root = first ?L" and len: "length h = ?hp"
    using head_heap [OF lk _ _ h0_def] by simp_all
  have n: "?hp div 2 = n" using entries_length [OF ok] by simp
  note inv = search_start [OF dl dll_next [of h0 "[]" ?hp ?L], of m n]
  have "checkSingle m (makeLinkedEntries es) (\<lambda>_. False) =
      checkLoop m (\<lambda>_. False) 0 \<lparr>sHeap = h0, sHead = ?hp, sEntry = root, sState = mInit m,
        sLin = newBitset n, sCache = (\<lambda>_. []), sCalls = []\<rparr>"
    using nl n len by (simp add: checkSingle_def makeLinkedEntries_def lk h0_def Let_def)
  also have "\<dots> = Some (Done (good m h0 ?L {} (mInit m)))"
    unfolding root using check_loop [OF problem_of_entries [OF ok rep dl eq steps] inv] dl by simp
  also have "good m h0 ?L {} (mInit m) = linearizable m n es"
    using good_linearizable [OF ok rep, of m "{}"] linearizable_good [OF ok rep, of _ "{}" m "mInit m"]
    unfolding linearizable_def linearizable_from_def by auto
  finally show ?thesis .
qed

end
