(* ===== verification/Lin_Operations.thy ===== *)
theory Lin_Operations
  imports Lin_Verdict "HOL-Library.Multiset"
begin

text \<open>
  From operations with times to entries: what \<^verbatim>\<open>makeEntries\<close> gives is well formed, which operation
  precedes which is what their times say, and the verdicts of the partitions are put
  together in whatever order they arrive.
\<close>

section \<open>Linearizable operations\<close>

fun legalOps :: "('s, 'v) Model \<Rightarrow> 'v Operation list \<Rightarrow> 's \<Rightarrow> nat list \<Rightarrow> bool" where
  "legalOps m ops st [] = True"
| "legalOps m ops st (i # ord) =
     (case mStep m st (opInput (ops ! i)) (opOutput (ops ! i)) of
        Some (True, st') \<Rightarrow> legalOps m ops st' ord
      | _ \<Rightarrow> False)"

text \<open>An order of operations respects real time: none comes after one that was called after its return.\<close>

definition realTime :: "'v Operation list \<Rightarrow> nat list \<Rightarrow> bool" where
  "realTime ops ord = sorted_wrt (\<lambda>i j. \<not> opReturn (ops ! j) < opCall (ops ! i)) ord"

definition linearizableOps :: "('s, 'v) Model \<Rightarrow> 'v Operation list \<Rightarrow> bool" where
  "linearizableOps m ops \<longleftrightarrow> (\<exists>ord. distinct ord \<and> set ord = {..<length ops} \<and>
     realTime ops ord \<and> legalOps m ops (mInit m) ord)"

text \<open>
  Every operation returns after its call, and no operation is called at the very time at which
  another one returns: the order of such two entries is up to \<^verbatim>\<open>sort.Sort\<close>.
\<close>

definition times_ok :: "'v Operation list \<Rightarrow> bool" where
  "times_ok ops \<longleftrightarrow> (\<forall>x \<in> set ops. opCall x < opReturn x) \<and>
     (\<forall>x \<in> set ops. \<forall>y \<in> set ops. opReturn x \<noteq> opCall y)"

text \<open>What \<^verbatim>\<open>sort.Sort\<close> promises: a permutation of the entries, by time.\<close>

definition sorts_by_time :: "('v entry list \<Rightarrow> 'v entry list) \<Rightarrow> bool" where
  "sorts_by_time srt \<longleftrightarrow> (\<forall>es. mset (srt es) = mset es \<and> sorted (map etime (srt es)))"

section \<open>The entries of operations\<close>

definition callOf :: "'v Operation \<Rightarrow> nat \<Rightarrow> 'v entry" where
  "callOf x i = \<lparr>ekind = callEntry, evalue = opInput x, eid = i, etime = opCall x\<rparr>"

definition returnOf :: "'v Operation \<Rightarrow> nat \<Rightarrow> 'v entry" where
  "returnOf x i = \<lparr>ekind = returnEntry, evalue = opOutput x, eid = i, etime = opReturn x\<rparr>"

lemma operationEntries_set:
  "set (operationEntries k ops) = (\<Union>i < length ops. {callOf (ops ! i) (k + i), returnOf (ops ! i) (k + i)})"
proof (induction ops arbitrary: k)
  case (Cons x ops)
  have "{..<length (x # ops)} = insert 0 (Suc ` {..<length ops})"
    by (auto simp: lessThan_Suc_eq_insert_0)
  then show ?case by (simp add: Cons.IH callOf_def returnOf_def)
qed simp

lemma operationEntries_ids: "e \<in> set (operationEntries k ops) \<Longrightarrow> k \<le> eid e"
  by (auto simp: operationEntries_set callOf_def returnOf_def)

lemma operationEntries_distinct:
  "distinct (map (\<lambda>e. (eid e, ekind e)) (operationEntries k ops))"
  by (induction ops arbitrary: k) (force dest: operationEntries_ids)+

lemma makeEntries_facts:
  assumes srt: "sorts_by_time srt" and es_def: "es = makeEntries srt ops"
  shows "set es = set (operationEntries 0 ops)" and "distinct (map (\<lambda>e. (eid e, ekind e)) es)"
    and "sorted (map etime es)"
proof -
  have m: "mset es = mset (operationEntries 0 ops)" and s: "sorted (map etime es)"
    using srt by (simp_all add: es_def makeEntries_def sorts_by_time_def)
  show "set es = set (operationEntries 0 ops)" using m by (metis set_mset_mset)
  have "mset (map (\<lambda>e. (eid e, ekind e)) es) = mset (map (\<lambda>e. (eid e, ekind e)) (operationEntries 0 ops))"
    using m by simp
  then show "distinct (map (\<lambda>e. (eid e, ekind e)) es)"
    using operationEntries_distinct mset_eq_imp_distinct_iff by blast
  show "sorted (map etime es)" by (rule s)
qed


lemma entry_of_operation:
  assumes srt: "sorts_by_time srt" and es: "es = makeEntries srt ops"
  shows "callAt es p i \<Longrightarrow> i < length ops \<and> es ! p = callOf (ops ! i) i"
    and "returnAt es q i \<Longrightarrow> i < length ops \<and> es ! q = returnOf (ops ! i) i"
proof -
  have mem: "\<exists>j < length ops. e = callOf (ops ! j) j \<or> e = returnOf (ops ! j) j" if "e \<in> set es" for e
    using that unfolding makeEntries_facts(1) [OF srt es] by (auto simp: operationEntries_set)
  show "i < length ops \<and> es ! p = callOf (ops ! i) i" if "callAt es p i"
    using that mem [of "es ! p"] by (auto simp: callAt_def callOf_def returnOf_def)
  show "i < length ops \<and> es ! q = returnOf (ops ! i) i" if "returnAt es q i"
    using that mem [of "es ! q"] by (auto simp: returnAt_def callOf_def returnOf_def)
qed

lemma operation_has_entries:
  assumes srt: "sorts_by_time srt" and es: "es = makeEntries srt ops" and i: "i < length ops"
  obtains p q where "callAt es p i" and "returnAt es q i"
proof -
  have "callOf (ops ! i) i \<in> set es" "returnOf (ops ! i) i \<in> set es"
    unfolding makeEntries_facts(1) [OF srt es] using i by (auto simp: operationEntries_set)
  then obtain p q where "p < length es" "es ! p = callOf (ops ! i) i" "q < length es" "es ! q = returnOf (ops ! i) i"
    by (metis in_set_conv_nth)
  then show ?thesis using that [of p q] by (simp add: callAt_def returnAt_def callOf_def returnOf_def)
qed

lemma sorted_positions:
  assumes "sorted (map etime es)" and "p < length es" and "q < length es" and "etime (es ! q) < etime (es ! p)"
  shows "q < p"
proof (rule ccontr)
  assume "\<not> q < p"
  then have "etime (es ! p) \<le> etime (es ! q)"
    using sorted_nth_mono [OF assms(1), of p q] assms(2,3) by simp
  with assms(4) show False by simp
qed

lemma makeEntries_ok:
  assumes srt: "sorts_by_time srt" and times: "times_ok ops" and es: "es = makeEntries srt ops"
  shows "entries_ok (length ops) es"
proof -
  note facts = makeEntries_facts [OF srt es]
  have "\<forall>e \<in> set es. eid e < length ops"
    unfolding facts(1) by (auto simp: operationEntries_set callOf_def returnOf_def)
  moreover have "\<exists>p q. p < q \<and> callAt es p i \<and> returnAt es q i" if i: "i < length ops" for i
  proof -
    obtain p q where pq: "callAt es p i" "returnAt es q i" by (rule operation_has_entries [OF srt es i])
    have "opCall (ops ! i) < opReturn (ops ! i)" using times i by (simp add: times_ok_def)
    then have "etime (es ! p) < etime (es ! q)"
      using entry_of_operation [OF srt es] pq by (simp add: callOf_def returnOf_def)
    then have "p < q" using sorted_positions [OF facts(3)] pq by (simp add: callAt_def returnAt_def)
    with pq show ?thesis by blast
  qed
  ultimately show ?thesis using facts(2) by (simp add: entries_ok_def)
qed

lemma makeEntries_order:
  assumes srt: "sorts_by_time srt" and times: "times_ok ops" and es: "es = makeEntries srt ops"
    and i: "i < length ops" and j: "j < length ops"
  shows "precedes es i j \<longleftrightarrow> opReturn (ops ! i) < opCall (ops ! j)"
    and "valueOf es callEntry i = opInput (ops ! i)" and "valueOf es returnEntry i = opOutput (ops ! i)"
proof -
  note ok = makeEntries_ok [OF srt times es] and facts = makeEntries_facts [OF srt es]
  obtain p q where pq: "callAt es p i" "returnAt es q i" by (rule operation_has_entries [OF srt es i])
  obtain p' q' where pq': "callAt es p' j" "returnAt es q' j" by (rule operation_has_entries [OF srt es j])
  note e = entry_of_operation(1) [OF srt es pq(1)] entry_of_operation(2) [OF srt es pq(2)]
    entry_of_operation(1) [OF srt es pq'(1)]
  have lt: "q < length es" "p' < length es" using pq(2) pq'(1) by (auto simp: callAt_def returnAt_def)
  have time: "etime (es ! q) = opReturn (ops ! i)" "etime (es ! p') = opCall (ops ! j)"
    using e by (simp_all add: callOf_def returnOf_def)
  have "opReturn (ops ! i) \<noteq> opCall (ops ! j)" using times i j by (simp add: times_ok_def)
  then have "q < p' \<longleftrightarrow> opReturn (ops ! i) < opCall (ops ! j)"
    using sorted_positions [OF facts(3) lt(2,1)] sorted_positions [OF facts(3) lt] time by fastforce
  then show "precedes es i j \<longleftrightarrow> opReturn (ops ! i) < opCall (ops ! j)"
    using posOf_eq(2) [OF ok pq(2)] posOf_eq(1) [OF ok pq'(1)] by (simp add: precedes_def)
  show "valueOf es callEntry i = opInput (ops ! i)" "valueOf es returnEntry i = opOutput (ops ! i)"
    using posOf_eq(1) [OF ok pq(1)] posOf_eq(2) [OF ok pq(2)] e by (simp_all add: valueOf_def callOf_def returnOf_def)
qed

lemma legal_legalOps:
  assumes srt: "sorts_by_time srt" and times: "times_ok ops" and es: "es = makeEntries srt ops"
  shows "set ord \<subseteq> {..<length ops} \<Longrightarrow> legal m es st ord = legalOps m ops st ord"
proof (induction ord arbitrary: st)
  case (Cons i ord)
  then have i: "i < length ops" by simp
  have "legal m es st' ord = legalOps m ops st' ord" for st' using Cons by simp
  then show ?case
    using makeEntries_order(2,3) [OF srt times es i i] by (auto split: option.splits bool.splits)
qed simp

lemma sorted_wrt_same:
  "\<forall>x \<in> set xs. \<forall>y \<in> set xs. P x y = Q x y \<Longrightarrow> sorted_wrt P xs = sorted_wrt Q xs"
  by (induction xs) auto

lemma linearizable_operations:
  assumes srt: "sorts_by_time srt" and times: "times_ok ops"
  shows "linearizable m (length ops) (makeEntries srt ops) = linearizableOps m ops"
proof -
  have "(distinct ord \<and> set ord = {..<length ops} \<and>
      sorted_wrt (\<lambda>i j. \<not> precedes (makeEntries srt ops) j i) ord \<and> legal m (makeEntries srt ops) (mInit m) ord) =
    (distinct ord \<and> set ord = {..<length ops} \<and> realTime ops ord \<and> legalOps m ops (mInit m) ord)" for ord
  proof (cases "set ord = {..<length ops}")
    case True
    have "sorted_wrt (\<lambda>i j. \<not> precedes (makeEntries srt ops) j i) ord = realTime ops ord"
      unfolding realTime_def
    proof (rule sorted_wrt_same, intro ballI)
      fix x y assume "x \<in> set ord" "y \<in> set ord"
      then have "x < length ops" "y < length ops" using True by auto
      then show "(\<not> precedes (makeEntries srt ops) y x) = (\<not> opReturn (ops ! y) < opCall (ops ! x))"
        using makeEntries_order(1) [OF srt times refl, of y x] by simp
    qed
    with True legal_legalOps [OF srt times refl, of ord m "mInit m"] show ?thesis by simp
  qed simp
  then show ?thesis by (simp add: linearizable_def linearizable_from_def linearizableOps_def)
qed

section \<open>Putting verdicts together\<close>

lemma arrivals_results:
  "set order \<subseteq> {..<length bs} \<Longrightarrow>
   arrivals (map (\<lambda>b. Some (Done b)) bs) order = Done (map (\<lambda>i. Result (bs ! i)) order)"
  by (induction order) auto

lemma collect_results:
  "order \<noteq> [] \<Longrightarrow> k + length order = p \<Longrightarrow> 
   collect p k True (map (\<lambda>i. Result (bs ! i)) order) = Done (list_all (\<lambda>i. bs ! i) order)"
proof (induction order arbitrary: k)
  case (Cons i order)
  show ?case
  proof (cases "order = []")
    case False
    then have "k + 1 < p" using Cons.prems by (cases order) auto
    with False Cons.IH [of "k + 1"] Cons.prems show ?thesis by (auto simp: Let_def)
  qed (use Cons.prems in \<open>auto simp: Let_def\<close>)
qed simp

text \<open>The order in which the goroutines finish.\<close>

definition finishes :: "nat list \<Rightarrow> nat \<Rightarrow> bool" where
  "finishes order k \<longleftrightarrow> distinct order \<and> set order = {..<k}"

lemma gather_results:
  assumes "finishes order (length bs)" and "bs \<noteq> []"
  shows "gather (map (\<lambda>b. Some (Done b)) bs) order = Done (list_all (\<lambda>b. b) bs)"
proof -
  have len: "length order = length bs" and set: "set order = {..<length bs}"
    using assms(1) distinct_card [of order] by (auto simp: finishes_def)
  have "order \<noteq> []" using len assms(2) by (cases order) auto
  then have "gather (map (\<lambda>b. Some (Done b)) bs) order = Done (list_all (\<lambda>i. bs ! i) order)"
    using arrivals_results [of order bs] collect_results [of order 0 "length bs" bs] len set
    by (simp add: gather_def)
  moreover have "list_all (\<lambda>i. bs ! i) order = list_all (\<lambda>b. b) bs"
    unfolding list_all_iff set all_set_conv_all_nth by blast
  ultimately show ?thesis by simp
qed

lemma gather_nothing: "gather [] [] = Blocks"
  by (simp add: gather_def)

section \<open>Checking operations\<close>

text \<open>The model's functions do not panic on the operations.\<close>

definition stepsOps_ok :: "('s, 'v) Model \<Rightarrow> 'v Operation list \<Rightarrow> bool" where
  "stepsOps_ok m ops \<longleftrightarrow> (\<forall>st. \<forall>x \<in> set ops. mStep m st (opInput x) (opOutput x) \<noteq> None)"

lemma check_single_operations:
  assumes srt: "sorts_by_time srt" and times: "times_ok ops" and steps: "stepsOps_ok m ops"
    and eq: "state_equality (mStep m) (the (mEqual m))"
  shows "checkSingle m (makeLinkedEntries (makeEntries srt ops)) (\<lambda>_. False) = Some (Done (linearizableOps m ops))"
proof -
  have "steps_ok m (length ops) (makeEntries srt ops)"
    unfolding steps_ok_def
  proof (intro allI impI)
    fix st i assume i: "i < length ops"
    then have "mStep m st (opInput (ops ! i)) (opOutput (ops ! i)) \<noteq> None"
      using steps nth_mem unfolding stepsOps_ok_def by blast
    then show "mStep m st (valueOf (makeEntries srt ops) callEntry i) (valueOf (makeEntries srt ops) returnEntry i) \<noteq> None"
      using makeEntries_order(2,3) [OF srt times refl i i] by simp
  qed
  from check_single_verdict [OF makeEntries_ok [OF srt times refl] eq this]
  show ?thesis using linearizable_operations [OF srt times] by simp
qed

lemma fillDefault_same: "mStep (fillDefault m) = mStep m" "mInit (fillDefault m) = mInit m"
  by (simp_all add: fillDefault_def)

lemma legalOps_cong: "mStep m = mStep m' \<Longrightarrow> legalOps m ops st ord = legalOps m' ops st ord"
  by (induction ord arbitrary: st) (auto split: option.splits bool.splits)

lemma linearizableOps_cong:
  "mStep m = mStep m' \<Longrightarrow> mInit m = mInit m' \<Longrightarrow> linearizableOps m ops = linearizableOps m' ops"
  using legalOps_cong [of m m'] by (simp add: linearizableOps_def)

text \<open>
  The verdict on a history whose partitions are not empty: every partition is linearizable.
\<close>

lemma check_operations_partitions:
  assumes srt: "sorts_by_time srt" and part: "the (mPartition (fillDefault m)) ops = Some parts" and ne: "parts \<noteq> []"
    and fin: "finishes order (length parts)"
    and eq: "state_equality (mStep m) (the (mEqual (fillDefault m)))"
    and subs: "\<forall>sub \<in> set parts. times_ok sub \<and> stepsOps_ok m sub"
  shows "CheckOperations srt order m ops = Done (list_all (linearizableOps m) parts)"
proof -
  let ?m = "fillDefault m"
  have verdicts: "map (\<lambda>sub. checkSingle ?m (makeLinkedEntries (makeEntries srt sub)) (\<lambda>_. False)) parts =
      map (\<lambda>b. Some (Done b)) (map (linearizableOps m) parts)"
    unfolding map_map comp_def
  proof (rule map_cong [OF refl])
    fix sub assume "sub \<in> set parts"
    then have "times_ok sub" "stepsOps_ok ?m sub" using subs by (auto simp: stepsOps_ok_def fillDefault_same)
    from check_single_operations [OF srt this] eq
    show "checkSingle ?m (makeLinkedEntries (makeEntries srt sub)) (\<lambda>_. False) = Some (Done (linearizableOps m sub))"
      using linearizableOps_cong [OF fillDefault_same] by (simp add: fillDefault_same)
  qed
  have "gather (map (\<lambda>b. Some (Done b)) (map (linearizableOps m) parts)) order =
      Done (list_all (linearizableOps m) parts)"
    using gather_results [of order "map (linearizableOps m) parts"] fin ne by (simp add: list_all_iff)
  then show ?thesis
    unfolding CheckOperations_def Let_def part option.case verdicts .
qed

end
