(* ===== verification/Lin_Locality.thy ===== *)
theory Lin_Locality
  imports Lin_Operations
begin

text \<open>
  The key/value model of \<^verbatim>\<open>models.go\<close> splits a history by key and checks every key on its own.
  Here is what that is worth: the keys are linearizable one by one exactly when the whole
  history is linearizable as a history of one store.
\<close>

section \<open>One store\<close>

definition kvMapStep :: "(string \<Rightarrow> string) \<Rightarrow> kvval iface \<Rightarrow> kvval iface \<Rightarrow> (bool \<times> (string \<Rightarrow> string)) option" where
  "kvMapStep st inp out = (case keyOf inp of
     None \<Rightarrow> None
   | Some k \<Rightarrow> (case kvStep (st k) inp out of
       None \<Rightarrow> None
     | Some (ok, s) \<Rightarrow> Some (ok, st(k := s))))"

definition KvMapModel :: "(string \<Rightarrow> string, kvval) Model" where
  "KvMapModel = \<lparr>mPartition = None, mPartitionEvent = None, mInit = (\<lambda>_. ''''), mStep = kvMapStep, mEqual = None\<rparr>"

abbreviation opKey :: "kvval Operation list \<Rightarrow> nat \<Rightarrow> string option" where
  "opKey ops i \<equiv> keyOf (opInput (ops ! i))"

definition ofKey :: "kvval Operation list \<Rightarrow> string \<Rightarrow> nat list \<Rightarrow> nat list" where
  "ofKey ops k ord = filter (\<lambda>i. opKey ops i = Some k) ord"

lemma KvModel_step: "mStep (KvModel keys) = kvStep" "mInit (KvModel keys) = []"
  by (simp_all add: KvModel_def)

lemma KvMapModel_step: "mStep KvMapModel = kvMapStep" "mInit KvMapModel = (\<lambda>_. [])"
  by (simp_all add: KvMapModel_def)

lemma legal_by_key:
  "\<forall>i \<in> set ord. opKey ops i \<noteq> None \<Longrightarrow>
   legalOps KvMapModel ops st ord = (\<forall>k. legalOps (KvModel keys) ops (st k) (ofKey ops k ord))"
proof (induction ord arbitrary: st)
  case (Cons i ord)
  obtain k0 where k0: "opKey ops i = Some k0" using Cons.prems by auto
  have IH: "legalOps KvMapModel ops st' ord = (\<forall>k. legalOps (KvModel keys) ops (st' k) (ofKey ops k ord))" for st'
    by (rule Cons.IH) (use Cons.prems in simp)
  have at: "legalOps (KvModel keys) ops (st k0) (ofKey ops k0 (i # ord)) =
      (case kvStep (st k0) (opInput (ops ! i)) (opOutput (ops ! i)) of
         Some (True, s) \<Rightarrow> legalOps (KvModel keys) ops s (ofKey ops k0 ord) | _ \<Rightarrow> False)"
    using k0 unfolding ofKey_def by (simp add: KvModel_step)
  have other: "ofKey ops k (i # ord) = ofKey ops k ord" if "k \<noteq> k0" for k
    using k0 that by (simp add: ofKey_def)
  show ?case
  proof (cases "\<exists>s. kvStep (st k0) (opInput (ops ! i)) (opOutput (ops ! i)) = Some (True, s)")
    case True
    then obtain s where s: "kvStep (st k0) (opInput (ops ! i)) (opOutput (ops ! i)) = Some (True, s)" by blast
    have "legalOps KvMapModel ops st (i # ord) = legalOps KvMapModel ops (st(k0 := s)) ord"
      using s k0 by (simp add: KvMapModel_step kvMapStep_def)
    also have "\<dots> = (\<forall>k. legalOps (KvModel keys) ops ((st(k0 := s)) k) (ofKey ops k ord))" by (rule IH)
    also have "\<dots> = (\<forall>k. legalOps (KvModel keys) ops (st k) (ofKey ops k (i # ord)))"
    proof (rule all_cong1)
      fix k
      show "legalOps (KvModel keys) ops ((st(k0 := s)) k) (ofKey ops k ord) =
          legalOps (KvModel keys) ops (st k) (ofKey ops k (i # ord))"
        using at s other by (cases "k = k0") simp_all
    qed
    finally show ?thesis .
  next
    case False
    then have no: "\<not> legalOps (KvModel keys) ops (st k0) (ofKey ops k0 (i # ord))"
      unfolding at by (auto split: option.splits bool.splits)
    have "\<not> legalOps KvMapModel ops st (i # ord)"
      using False k0 by (auto simp: KvMapModel_step kvMapStep_def split: option.splits bool.splits)
    with no show ?thesis by blast
  qed
qed (simp add: ofKey_def)

section \<open>Orders of a part of the operations\<close>

definition partOrder :: "('s, 'v) Model \<Rightarrow> 'v Operation list \<Rightarrow> nat set \<Rightarrow> nat list \<Rightarrow> bool" where
  "partOrder m ops I ord \<longleftrightarrow> distinct ord \<and> set ord = I \<and> realTime ops ord \<and> legalOps m ops (mInit m) ord"

lemma linearizableOps_part: "linearizableOps m ops = (\<exists>ord. partOrder m ops {..<length ops} ord)"
  by (simp add: linearizableOps_def partOrder_def)

lemma legalOps_reindex:
  "set ord \<subseteq> {..<length idxs} \<Longrightarrow> legalOps m (map ((!) ops) idxs) st ord = legalOps m ops st (map ((!) idxs) ord)"
  by (induction ord arbitrary: st) (auto split: option.splits bool.splits)

lemma realTime_reindex:
  assumes "set ord \<subseteq> {..<length idxs}"
  shows "realTime (map ((!) ops) idxs) ord = realTime ops (map ((!) idxs) ord)"
  unfolding realTime_def sorted_wrt_map
proof (rule sorted_wrt_same, intro ballI)
  fix x y assume "x \<in> set ord" "y \<in> set ord"
  then have "x < length idxs" "y < length idxs" using assms by auto
  then show "(\<not> opReturn (map ((!) ops) idxs ! y) < opCall (map ((!) ops) idxs ! x)) =
      (\<not> opReturn (ops ! (idxs ! y)) < opCall (ops ! (idxs ! x)))" by simp
qed

lemma reindex:
  assumes dist: "distinct idxs"
  shows "linearizableOps m (map ((!) ops) idxs) = (\<exists>ord. partOrder m ops (set idxs) ord)"
proof
  assume "linearizableOps m (map ((!) ops) idxs)"
  then obtain ord where ord: "distinct ord" "set ord = {..<length idxs}"
    "realTime (map ((!) ops) idxs) ord" "legalOps m (map ((!) ops) idxs) (mInit m) ord"
    by (auto simp: linearizableOps_def)
  have "distinct (map ((!) idxs) ord)"
    using ord(1,2) dist by (auto simp: distinct_map intro: inj_on_nth)
  moreover have "set (map ((!) idxs) ord) = set idxs"
    unfolding set_map ord(2) by (simp add: nth_image lessThan_atLeast0)
  ultimately have "partOrder m ops (set idxs) (map ((!) idxs) ord)"
    using ord realTime_reindex [of ord idxs ops] legalOps_reindex [of ord idxs m ops "mInit m"]
    by (simp add: partOrder_def)
  then show "\<exists>ord. partOrder m ops (set idxs) ord" by blast
next
  assume "\<exists>ord. partOrder m ops (set idxs) ord"
  then obtain ord where ord: "distinct ord" "set ord = set idxs" "realTime ops ord" "legalOps m ops (mInit m) ord"
    by (auto simp: partOrder_def)
  have "\<forall>x \<in> set ord. \<exists>j < length idxs. idxs ! j = x" unfolding ord(2) by (metis in_set_conv_nth)
  then obtain f where f: "\<And>x. x \<in> set ord \<Longrightarrow> f x < length idxs \<and> idxs ! f x = x" by metis
  let ?ord = "map f ord"
  have inv_f: "map ((!) idxs) ?ord = ord" using f by (simp add: map_idI)
  have sub: "set ?ord \<subseteq> {..<length idxs}" using f by auto
  have d: "distinct ?ord" using inv_f ord(1) by (metis distinct_map)
  have "card (set ?ord) = length idxs"
    using d ord(1,2) dist distinct_card [of ?ord] distinct_card [of ord] distinct_card [of idxs] by simp
  then have "set ?ord = {..<length idxs}" using sub by (intro card_subset_eq) auto
  moreover have "realTime (map ((!) ops) idxs) ?ord" "legalOps m (map ((!) ops) idxs) (mInit m) ?ord"
    using realTime_reindex [OF sub, of ops] legalOps_reindex [OF sub, of m ops "mInit m"] ord(3,4) unfolding inv_f by simp_all
  ultimately show "linearizableOps m (map ((!) ops) idxs)"
    using d unfolding linearizableOps_def by (intro exI [of _ ?ord]) simp
qed


section \<open>Merging the orders of the keys\<close>

text \<open>
  The point of an operation in an order: the latest call among it and those before it.  It lies
  between its call and its return, and points go up along the order; so all operations of
  all keys can be ordered by their points.
\<close>

definition pointAt :: "'v Operation list \<Rightarrow> nat list \<Rightarrow> nat \<Rightarrow> int" where
  "pointAt ops ord y = Max ((\<lambda>x. opCall (ops ! x)) ` set (take (Suc y) ord))"

definition point :: "'v Operation list \<Rightarrow> nat list \<Rightarrow> nat \<Rightarrow> int" where
  "point ops ord i = pointAt ops ord (length (takeWhile (\<lambda>x. x \<noteq> i) ord))"

lemma point_nth:
  assumes "distinct ord" and "y < length ord"
  shows "point ops ord (ord ! y) = pointAt ops ord y"
proof -
  have "length (takeWhile (\<lambda>x. x \<noteq> ord ! y) ord) < length ord"
    using assms(2) by (intro takeWhile_stops [of "ord ! y"]) auto
  moreover from nth_length_takeWhile [OF this]
  have "ord ! length (takeWhile (\<lambda>x. x \<noteq> ord ! y) ord) = ord ! y" by simp
  ultimately have "length (takeWhile (\<lambda>x. x \<noteq> ord ! y) ord) = y"
    using nth_eq_iff_index_eq [OF assms(1)] assms(2) by blast
  then show ?thesis by (simp add: point_def)
qed

lemma point_bounds:
  assumes dist: "distinct ord" and rt: "realTime ops ord" and i: "i \<in> set ord"
    and times: "opCall (ops ! i) \<le> opReturn (ops ! i)"
  shows "opCall (ops ! i) \<le> point ops ord i" and "point ops ord i \<le> opReturn (ops ! i)"
proof -
  obtain y where y: "y < length ord" "i = ord ! y" using i by (metis in_set_conv_nth)
  have p: "point ops ord i = Max ((\<lambda>x. opCall (ops ! x)) ` set (take (Suc y) ord))"
    using point_nth [OF dist y(1)] y(2) by (simp add: pointAt_def)
  have mem: "i \<in> set (take (Suc y) ord)" using y by (simp add: take_Suc_conv_app_nth)
  then show "opCall (ops ! i) \<le> point ops ord i" unfolding p by (intro Max_ge) auto
  have "opCall (ops ! x) \<le> opReturn (ops ! i)" if "x \<in> set (take (Suc y) ord)" for x
  proof -
    have "x \<in> set (take y ord) \<or> x = i" using that y by (auto simp: take_Suc_conv_app_nth)
    then show ?thesis
    proof
      assume "x \<in> set (take y ord)"
      then obtain z where z: "z < y" "x = ord ! z" by (metis in_set_conv_nth length_take min.absorb4 nth_take y(1) min_less_iff_conj)
      then have "\<not> opReturn (ops ! (ord ! y)) < opCall (ops ! (ord ! z))"
        using rt y(1) unfolding realTime_def sorted_wrt_iff_nth_less by blast
      with z y show ?thesis by simp
    qed (use times in simp)
  qed
  then show "point ops ord i \<le> opReturn (ops ! i)"
    unfolding p using mem by (subst Max_le_iff) auto
qed

lemma points_sorted:
  assumes dist: "distinct ord"
  shows "sorted (map (point ops ord) ord)"
proof (rule sorted_iff_nth_mono_less [THEN iffD2], intro allI impI)
  fix x y assume xy: "x < y" "y < length (map (point ops ord) ord)"
  then have "pointAt ops ord x \<le> pointAt ops ord y"
    unfolding pointAt_def by (intro Max_mono image_mono set_take_subset_set_take) auto
  then show "map (point ops ord) ord ! x \<le> map (point ops ord) ord ! y"
    using xy point_nth [OF dist, of x ops] point_nth [OF dist, of y ops] by simp
qed


lemma ofKey_concat:
  assumes "distinct ks" and "k \<in> set ks" and "\<forall>k \<in> set ks. \<forall>i \<in> set (ord k). opKey ops i = Some k"
  shows "ofKey ops k (concat (map ord ks)) = ord k"
  using assms
proof (induction ks)
  case (Cons k' ks)
  have here: "filter (\<lambda>i. opKey ops i = Some k) (ord k') = (if k = k' then ord k' else [])"
    using Cons.prems(3) by (auto simp: filter_empty_conv intro!: filter_True)
  have "filter (\<lambda>i. opKey ops i = Some k) (concat (map ord ks)) = (if k \<in> set ks then ord k else [])"
  proof (cases "k \<in> set ks")
    case True
    then show ?thesis using Cons.IH Cons.prems by (simp add: ofKey_def)
  next
    case False
    then show ?thesis using Cons.prems(3) by (auto simp: filter_empty_conv)
  qed
  then show ?case using here Cons.prems(1,2) by (auto simp: ofKey_def)
qed simp

lemma concat_distinct:
  "distinct ks \<Longrightarrow> \<forall>k \<in> set ks. distinct (ord k) \<Longrightarrow> \<forall>k \<in> set ks. \<forall>i \<in> set (ord k). opKey ops i = Some k \<Longrightarrow>
   distinct (concat (map ord ks))"
proof (induction ks)
  case (Cons k ks)
  have "set (ord k) \<inter> (\<Union>k' \<in> set ks. set (ord k')) = {}"
  proof (rule ccontr)
    assume "\<not> ?thesis"
    then obtain i k' where "i \<in> set (ord k)" "k' \<in> set ks" "i \<in> set (ord k')" by blast
    then have "k = k'" using Cons.prems(3) by fastforce
    with Cons.prems(1) \<open>k' \<in> set ks\<close> show False by simp
  qed
  with Cons show ?case by simp
qed simp

lemma merge_orders:
  fixes ops :: "kvval Operation list"
  assumes ks: "distinct ks" and dist: "\<forall>k \<in> set ks. distinct (ord k) \<and> realTime ops (ord k)"
    and key: "\<forall>k \<in> set ks. \<forall>i \<in> set (ord k). opKey ops i = Some k"
    and times: "\<forall>k \<in> set ks. \<forall>i \<in> set (ord k). opCall (ops ! i) \<le> opReturn (ops ! i)"
  obtains all where "distinct all" and "set all = (\<Union>k \<in> set ks. set (ord k))" and "realTime ops all"
    and "\<forall>k \<in> set ks. ofKey ops k all = ord k"
proof -
  define f where "f = (\<lambda>i. point ops (ord (the (opKey ops i))) i)"
  define all where "all = sort_key f (concat (map ord ks))"
  have f: "f i = point ops (ord k) i" if "k \<in> set ks" "i \<in> set (ord k)" for k i
    using that key by (simp add: f_def)
  have set_all: "set all = (\<Union>k \<in> set ks. set (ord k))" by (simp add: all_def)
  have "distinct all" using concat_distinct [OF ks _ key] dist by (simp add: all_def)
  moreover have "ofKey ops k all = ord k" if k: "k \<in> set ks" for k
  proof -
    have "ofKey ops k all = sort_key f (ofKey ops k (concat (map ord ks)))"
      by (simp add: all_def ofKey_def filter_sort)
    also have "\<dots> = sort_key f (ord k)" using ofKey_concat [OF ks k key] by simp
    also have "\<dots> = ord k"
    proof (rule sort_key_id_if_sorted)
      have "map f (ord k) = map (point ops (ord k)) (ord k)" using f [OF k] by simp
      then show "sorted (map f (ord k))" using points_sorted [of "ord k" ops] dist k by metis
    qed
    finally show ?thesis .
  qed
  moreover have "realTime ops all"
    unfolding realTime_def
  proof (rule sorted_wrt_mono_rel [of _ "\<lambda>i j. f i \<le> f j"])
    show "sorted_wrt (\<lambda>i j. f i \<le> f j) all"
      using sorted_sort_key [of f "concat (map ord ks)"] by (simp add: all_def sorted_map)
    fix i j assume ij: "i \<in> set all" "j \<in> set all" "f i \<le> f j"
    obtain k l where k: "k \<in> set ks" "i \<in> set (ord k)" and l: "l \<in> set ks" "j \<in> set (ord l)"
      using ij(1,2) unfolding set_all by blast
    have "opCall (ops ! i) \<le> f i" "f j \<le> opReturn (ops ! j)"
      using point_bounds [of "ord k" ops i] point_bounds [of "ord l" ops j] dist times k l f by auto
    then show "\<not> opReturn (ops ! j) < opCall (ops ! i)" using ij(3) by linarith
  qed
  ultimately show ?thesis using that set_all by blast
qed


section \<open>Locality\<close>

definition opKeys :: "kvval Operation list \<Rightarrow> string list" where
  "opKeys ops = remdups (map (the \<circ> keyOf \<circ> opInput) ops)"

definition keyPart :: "kvval Operation list \<Rightarrow> string \<Rightarrow> nat set" where
  "keyPart ops k = {i. i < length ops \<and> opKey ops i = Some k}"

lemma opKeys_mem:
  assumes "\<forall>i < length ops. opKey ops i \<noteq> None" and "i < length ops" and "opKey ops i = Some k"
  shows "k \<in> set (opKeys ops)"
proof -
  have "k = (the \<circ> keyOf \<circ> opInput) (ops ! i)" using assms(3) by simp
  then show ?thesis using assms(2) unfolding opKeys_def by auto
qed

lemma keyPart_linearizable:
  assumes keyed: "\<forall>i < length ops. opKey ops i \<noteq> None" and lin: "linearizableOps KvMapModel ops"
  shows "\<exists>ord. partOrder (KvModel keys) ops (keyPart ops k) ord"
proof -
  obtain ord where ord: "distinct ord" "set ord = {..<length ops}" "realTime ops ord"
    "legalOps KvMapModel ops (\<lambda>_. []) ord"
    using lin by (auto simp: linearizableOps_def KvMapModel_step)
  have "partOrder (KvModel keys) ops (keyPart ops k) (ofKey ops k ord)"
  proof -
    have "\<forall>i \<in> set ord. opKey ops i \<noteq> None" using keyed ord(2) by auto
    then have "legalOps (KvModel keys) ops [] (ofKey ops k ord)"
      using legal_by_key [of ord ops "\<lambda>_. []" keys] ord(4) by blast
    moreover have "realTime ops (ofKey ops k ord)"
      using ord(3) unfolding realTime_def ofKey_def by (rule sorted_wrt_filter)
    ultimately show ?thesis
      using ord(1,2) unfolding partOrder_def KvModel_step by (auto simp: ofKey_def keyPart_def)
  qed
  then show ?thesis by blast
qed

lemma keyParts_join:
  assumes keyed: "\<forall>i < length ops. opKey ops i \<noteq> None" and times: "\<forall>x \<in> set ops. opCall x \<le> opReturn x"
    and keys: "\<forall>k \<in> set (opKeys ops). \<exists>ord. partOrder (KvModel keys) ops (keyPart ops k) ord"
  shows "linearizableOps KvMapModel ops"
proof -
  obtain ord where ord: "\<And>k. k \<in> set (opKeys ops) \<Longrightarrow> partOrder (KvModel keys) ops (keyPart ops k) (ord k)"
    using keys by metis
  have set_ord: "set (ord k) = keyPart ops k" if "k \<in> set (opKeys ops)" for k
    using ord [OF that] by (simp add: partOrder_def)
  obtain all where all: "distinct all" "set all = (\<Union>k \<in> set (opKeys ops). set (ord k))" "realTime ops all"
    "\<forall>k \<in> set (opKeys ops). ofKey ops k all = ord k"
  proof (rule merge_orders [of "opKeys ops" ord ops])
    show "\<forall>k \<in> set (opKeys ops). distinct (ord k) \<and> realTime ops (ord k)"
      using ord by (auto simp: partOrder_def)
    show "distinct (opKeys ops)" by (simp add: opKeys_def)
    show "\<forall>k \<in> set (opKeys ops). \<forall>i \<in> set (ord k). opKey ops i = Some k" using set_ord by (simp add: keyPart_def)
    show "\<forall>k \<in> set (opKeys ops). \<forall>i \<in> set (ord k). opCall (ops ! i) \<le> opReturn (ops ! i)"
      using set_ord times by (simp add: keyPart_def)
  qed
  have keyed': "\<forall>i \<in> set all. opKey ops i \<noteq> None"
    unfolding all(2) using set_ord by (auto simp: keyPart_def)
  have "legalOps (KvModel keys) ops [] (ofKey ops k all)" for k
  proof (cases "k \<in> set (opKeys ops)")
    case True
    then show ?thesis using all(4) ord [OF True] by (simp add: partOrder_def KvModel_step)
  next
    case False
    have "ofKey ops k all = []"
      unfolding ofKey_def filter_empty_conv all(2) using set_ord False by (auto simp: keyPart_def)
    then show ?thesis by simp
  qed
  then have "legalOps KvMapModel ops (\<lambda>_. []) all" using legal_by_key [OF keyed'] by blast
  moreover have "set all = {..<length ops}"
  proof
    show "set all \<subseteq> {..<length ops}" unfolding all(2) using set_ord by (auto simp: keyPart_def)
    show "{..<length ops} \<subseteq> set all"
    proof
      fix i assume "i \<in> {..<length ops}"
      then obtain k where k: "i < length ops" "opKey ops i = Some k" using keyed by auto
      then have "k \<in> set (opKeys ops)" by (rule opKeys_mem [OF keyed])
      then show "i \<in> set all" unfolding all(2) using set_ord k by (auto simp: keyPart_def)
    qed
  qed
  ultimately show ?thesis
    using all(1,3) by (auto simp: linearizableOps_def KvMapModel_step)
qed

lemma kv_locality:
  assumes "\<forall>i < length ops. opKey ops i \<noteq> None" and "\<forall>x \<in> set ops. opCall x \<le> opReturn x"
  shows "linearizableOps KvMapModel ops = (\<forall>k \<in> set (opKeys ops). \<exists>ord. partOrder (KvModel keys) ops (keyPart ops k) ord)"
  using keyPart_linearizable [OF assms(1)] keyParts_join [OF assms] by blast

text \<open>The operations of a key, as \<^verbatim>\<open>Partition\<close> collects them.\<close>

lemma filter_linearizable:
  "linearizableOps m (filter (\<lambda>v. keyOf (opInput v) = Some k) ops) = (\<exists>ord. partOrder m ops (keyPart ops k) ord)"
proof -
  have "filter (\<lambda>v. keyOf (opInput v) = Some k) ops = map ((!) ops) (ofKey ops k [0..<length ops])"
    using filter_map [of "\<lambda>v. keyOf (opInput v) = Some k" "(!) ops" "[0..<length ops]"]
    by (simp add: ofKey_def comp_def map_nth)
  moreover have "set (ofKey ops k [0..<length ops]) = keyPart ops k"
    by (auto simp: ofKey_def keyPart_def)
  ultimately show ?thesis using reindex [of "ofKey ops k [0..<length ops]" m ops] by (simp add: ofKey_def)
qed

section \<open>The verdicts of \<^verbatim>\<open>CheckOperations\<close>\<close>

text \<open>Every operation has an input and an output of the types that the model converts to.\<close>

definition kv_typed :: "kvval Operation list \<Rightarrow> bool" where
  "kv_typed ops \<longleftrightarrow> list_all (\<lambda>x. case (opInput x, opOutput x) of
     (Some (KvIn _), Some (KvOut _)) \<Rightarrow> True | _ \<Rightarrow> False) ops"

lemma kv_typed_mem:
  assumes "kv_typed ops" and "x \<in> set ops"
  obtains i r where "opInput x = Some (KvIn i)" and "opOutput x = Some (KvOut r)"
proof -
  have "case (opInput x, opOutput x) of (Some (KvIn _), Some (KvOut _)) \<Rightarrow> True | _ \<Rightarrow> False"
    using assms by (simp add: kv_typed_def list_all_iff)
  then show ?thesis using that by (auto split: option.splits kvval.splits)
qed

lemma kv_typed_steps: "kv_typed ops \<Longrightarrow> stepsOps_ok (KvModel keys) ops"
  unfolding stepsOps_ok_def KvModel_step by (auto simp: kvStep_def elim: kv_typed_mem)

lemma kv_typed_keys: "kv_typed ops \<Longrightarrow> x \<in> set ops \<Longrightarrow> keyOf (opInput x) \<noteq> None"
  by (auto elim: kv_typed_mem)

lemma KvModel_partition:
  assumes "kv_typed ops"
  shows "the (mPartition (fillDefault (KvModel keys))) ops =
    Some (map (\<lambda>k. filter (\<lambda>v. keyOf (opInput v) = Some k) ops) (keys (opKeys ops)))"
  using kv_typed_keys [OF assms] by (simp add: fillDefault_def KvModel_def kvPartition_def opKeys_def list_all_iff)

text \<open>
  Property C3.  \<^verbatim>\<open>CheckOperations\<close> with the key/value model decides linearizability: on a history of
  typed operations it returns true exactly when some order of all the operations respects real
  time and is legal for one store, a map from keys to strings.  The search with its cache, the
  linked list it lifts entries from and the split by key, in whatever order the map is iterated
  and the goroutines finish, give the verdict of the definition.
\<close>
theorem kv_check_decides:
  assumes srt: "sorts_by_time srt" and perm: "\<forall>ks. mset (keys ks) = mset ks"
    and ne: "history \<noteq> []" and times: "times_ok history" and typed: "kv_typed history"
    and fin: "finishes order (length (opKeys history))"
  shows "CheckOperations srt order (KvModel keys) history = Done (linearizableOps KvMapModel history)"
proof -
  let ?part = "\<lambda>k. filter (\<lambda>v. keyOf (opInput v) = Some k) history"
  let ?parts = "map ?part (keys (opKeys history))"
  have keys: "set (keys (opKeys history)) = set (opKeys history)" "length (keys (opKeys history)) = length (opKeys history)"
    using perm by (metis set_mset_mset, metis size_mset)
  have "opKeys history \<noteq> []" using ne by (simp add: opKeys_def)
  then have "?parts \<noteq> []" using keys by auto
  moreover have "times_ok (?part k) \<and> stepsOps_ok (KvModel keys) (?part k)" for k
    using times kv_typed_steps [OF typed, of keys] by (auto simp: times_ok_def stepsOps_ok_def)
  then have "\<forall>sub \<in> set ?parts. times_ok sub \<and> stepsOps_ok (KvModel keys) sub" by auto
  moreover have "the (mEqual (fillDefault (KvModel keys))) = ShallowEqual" by (simp add: fillDefault_def KvModel_def)
  ultimately have "CheckOperations srt order (KvModel keys) history = Done (list_all (linearizableOps (KvModel keys)) ?parts)"
    using check_operations_partitions [OF srt KvModel_partition [OF typed, of keys], of order] fin keys(2) shallow.state_equality_axioms [of "mStep (KvModel keys)"]
    by simp
  also have "list_all (linearizableOps (KvModel keys)) ?parts =
      (\<forall>k \<in> set (opKeys history). \<exists>ord. partOrder (KvModel keys) history (keyPart history k) ord)"
    using keys(1) by (simp add: list_all_iff filter_linearizable)
  also have "\<dots> = linearizableOps KvMapModel history"
    using kv_locality [of history keys] kv_typed_keys [OF typed] times by (simp add: times_ok_def less_imp_le)
  finally show ?thesis .
qed

text \<open>
  Property C22.  \<^verbatim>\<open>CheckOperations\<close> with a model that has no partition function decides
  linearizability of the history for that model, whatever its states, its step function and an
  equality that the steps respect.
\<close>
theorem check_operations_decides:
  assumes srt: "sorts_by_time srt" and whole: "mPartition m = None" and times: "times_ok history"
    and steps: "stepsOps_ok m history" and eq: "state_equality (mStep m) (the (mEqual (fillDefault m)))"
  shows "CheckOperations srt [0] m history = Done (linearizableOps m history)"
proof -
  have "the (mPartition (fillDefault m)) history = Some [history]"
    using whole by (simp add: fillDefault_def NoPartition_def)
  moreover have "finishes [0] (length [history])" by (auto simp: finishes_def)
  ultimately show ?thesis using check_operations_partitions [OF srt _ _ _ eq, of history "[history]" "[0]"] times steps by simp
qed

text \<open>
  Property C30.  On the empty history the key/value model has no partition, no goroutine sends a
  result, and without a timeout \<^verbatim>\<open>CheckOperations\<close> waits for ever; the history is linearizable.
\<close>
theorem kv_check_empty_blocks:
  assumes "keys [] = []"
  shows "CheckOperations srt [] (KvModel keys) [] = Blocks \<and> linearizableOps KvMapModel []"
proof -
  have "the (mPartition (fillDefault (KvModel keys))) [] = Some []"
    using assms by (simp add: fillDefault_def KvModel_def kvPartition_def)
  then show ?thesis by (simp add: CheckOperations_def Let_def gather_nothing linearizableOps_def realTime_def)
qed

section \<open>Examples\<close>

lemma sort_key_sorts: "sorts_by_time (sort_key etime)"
  by (simp add: sorts_by_time_def)

definition kvExample :: "kvval Operation list" where
  "kvExample = [
     \<lparr>opInput = Some (KvIn \<lparr>kvOp = 1, kvKey = ''x'', kvValue = ''1''\<rparr>), opCall = 0, opOutput = Some (KvOut \<lparr>kvOutValue = []\<rparr>), opReturn = 5\<rparr>,
     \<lparr>opInput = Some (KvIn \<lparr>kvOp = 0, kvKey = ''x'', kvValue = []\<rparr>), opCall = 1, opOutput = Some (KvOut \<lparr>kvOutValue = ''1''\<rparr>), opReturn = 3\<rparr>,
     \<lparr>opInput = Some (KvIn \<lparr>kvOp = 0, kvKey = ''y'', kvValue = []\<rparr>), opCall = 2, opOutput = Some (KvOut \<lparr>kvOutValue = []\<rparr>), opReturn = 4\<rparr>]"

lemma kvExample_ok: "kvExample \<noteq> []" "times_ok kvExample" "kv_typed kvExample" "opKeys kvExample = [''x'', ''y'']"
  by (simp_all add: kvExample_def times_ok_def kv_typed_def opKeys_def)

theorem kv_check_decides_witness:
  "CheckOperations (sort_key etime) [1, 0] (KvModel rev) kvExample = Done (linearizableOps KvMapModel kvExample)"
proof (rule kv_check_decides [OF sort_key_sorts _ kvExample_ok(1-3)])
  show "finishes [1, 0] (length (opKeys kvExample))" unfolding kvExample_ok(4) finishes_def by auto
qed simp

theorem check_operations_decides_witness:
  "CheckOperations (sort_key etime) [0] KvMapModel kvExample = Done (linearizableOps KvMapModel kvExample)"
proof (rule check_operations_decides [OF sort_key_sorts _ kvExample_ok(2)])
  show "stepsOps_ok KvMapModel kvExample"
    by (simp add: stepsOps_ok_def KvMapModel_def kvMapStep_def kvStep_def kvExample_def) blast
  show "state_equality (mStep KvMapModel) (the (mEqual (fillDefault KvMapModel)))"
    using shallow.state_equality_axioms [of "mStep KvMapModel"] by (simp add: KvMapModel_def fillDefault_def)
qed (simp add: KvMapModel_def)

theorem kv_check_empty_blocks_witness:
  "CheckOperations (sort_key etime) [] (KvModel id) [] = Blocks \<and> linearizableOps KvMapModel []"
  by (rule kv_check_empty_blocks) simp

end
