(* ===== verification/Lab_Gob.thy ===== *)
theory Lab_Gob
  imports Go_Prelude "HOL-Library.AList"
begin

text \<open>
  The wrapper \<^verbatim>\<open>src/labgob/labgob.go\<close> around \<^verbatim>\<open>encoding/gob\<close>: the check of the types that are
  sent for lower-case field names (\<^verbatim>\<open>checkType\<close>), the check of the variables that are decoded
  into for values that are not default ones (\<^verbatim>\<open>checkDefault\<close>), and encoding and decoding
  themselves.  \<^verbatim>\<open>encoding/gob\<close> belongs to Go's library; what the wrapper and its callers rely
  on is modelled: fields that hold the zero value of their type and fields with lower-case
  names are not sent, a decoded field overwrites the field of the same name, and a field that
  was not sent leaves the destination as it is.

  A \<^verbatim>\<open>reflect.Type\<close> is a number that indexes a table of type descriptions, so types may refer
  to themselves through pointers, slices and maps; the fields of a struct come before the
  struct in the table, since Go refuses a struct that contains itself.  Field names are ASCII.
  An empty slice or map and a nil one are the same value here.  Values of array, float,
  channel and function types do not occur.
\<close>

section \<open>Types and values\<close>

type_synonym tyid = nat

datatype tdesc =
    DBool string | DInt string | DString string
  | DStruct string "(string \<times> tyid) list"
  | DPtr tyid | DSlice tyid | DArray tyid | DMap tyid tyid
  | DIface | DOther

type_synonym types = "tdesc list"

definition desc :: "types \<Rightarrow> tyid \<Rightarrow> tdesc" where
  "desc T t = (if t < length T then T ! t else DOther)"

datatype gval =
    GBool bool | GInt int | GString string
  | GStruct "(string \<times> gval) list"
  | GPtr "gval option"
  | GSlice "gval list"
  | GMap "(gval \<times> gval) list"
  | GIface "(tyid \<times> gval) option"

text \<open>\<^verbatim>\<open>unicode.IsUpper\<close> of the first letter of a name.\<close>

fun exported :: "string \<Rightarrow> bool" where
  "exported [] = False"
| "exported (c # cs) = (65 \<le> (of_char c :: nat) \<and> (of_char c :: nat) \<le> 90)"

fun zero :: "types \<Rightarrow> tyid \<Rightarrow> gval" where
  "zero T t = (case desc T t of
     DBool _ \<Rightarrow> GBool False
   | DInt _ \<Rightarrow> GInt 0
   | DString _ \<Rightarrow> GString []
   | DStruct _ fts \<Rightarrow> GStruct (map (\<lambda>(f, ft). (f, if ft < t then zero T ft else GBool False)) fts)
   | DPtr _ \<Rightarrow> GPtr None
   | DSlice _ \<Rightarrow> GSlice []
   | DArray _ \<Rightarrow> GSlice []
   | DMap _ _ \<Rightarrow> GMap []
   | _ \<Rightarrow> GIface None)"

declare zero.simps [simp del]

text \<open>The tables that come from Go programs.\<close>

definition types_ok :: "types \<Rightarrow> bool" where
  "types_ok T \<longleftrightarrow> (\<forall>t < length T. case T ! t of
     DStruct _ fts \<Rightarrow> distinct (map fst fts) \<and> list_all (\<lambda>(f, ft). ft < t) fts
   | DPtr e \<Rightarrow> e < length T
   | DSlice e \<Rightarrow> e < length T
   | DArray e \<Rightarrow> e < length T
   | DMap e k \<Rightarrow> e < length T \<and> k < length T
   | _ \<Rightarrow> True)"

lemma zip_size_left [termination_simp]:
  "((f, v), y) \<in> set (zip fs ys) \<Longrightarrow> size v < Suc (size_list (\<lambda>x. Suc (size (snd x))) fs)"
  by (auto dest!: set_zip_leftD intro!: le_imp_less_Suc size_list_estimation')

fun has_type :: "types \<Rightarrow> gval \<Rightarrow> tyid \<Rightarrow> bool" where
  "has_type T (GBool b) t = (case desc T t of DBool _ \<Rightarrow> True | _ \<Rightarrow> False)"
| "has_type T (GInt i) t = (case desc T t of DInt _ \<Rightarrow> True | _ \<Rightarrow> False)"
| "has_type T (GString s) t = (case desc T t of DString _ \<Rightarrow> True | _ \<Rightarrow> False)"
| "has_type T (GStruct fs) t = (case desc T t of
     DStruct _ fts \<Rightarrow> map fst fs = map fst fts \<and>
       list_all (\<lambda>((f, v), (f', ft)). has_type T v ft) (zip fs fts)
   | _ \<Rightarrow> False)"
| "has_type T (GPtr None) t = (case desc T t of DPtr _ \<Rightarrow> True | _ \<Rightarrow> False)"
| "has_type T (GPtr (Some v)) t = (case desc T t of DPtr e \<Rightarrow> has_type T v e | _ \<Rightarrow> False)"
| "has_type T (GSlice vs) t =
     (case desc T t of DSlice e \<Rightarrow> list_all (\<lambda>v. has_type T v e) vs | _ \<Rightarrow> False)"
| "has_type T (GMap kvs) t = (case desc T t of
     DMap e k \<Rightarrow> list_all (\<lambda>(a, b). has_type T a k \<and> has_type T b e) kvs
   | _ \<Rightarrow> False)"
| "has_type T (GIface None) t = (case desc T t of DIface \<Rightarrow> True | _ \<Rightarrow> False)"
| "has_type T (GIface (Some (t', v))) t = (case desc T t of DIface \<Rightarrow> has_type T v t' | _ \<Rightarrow> False)"
section \<open>The state of the package\<close>

datatype warning = LowerCaseField string string | NonDefault string

text \<open>
  The package's variables \<^verbatim>\<open>errorCount\<close> and \<^verbatim>\<open>checked\<close>, the types that were registered with
  \<^verbatim>\<open>encoding/gob\<close>, and the lines that were printed, the latest first.
\<close>

record labgob =
  errorCount :: int
  checked :: "tyid list"
  registered :: "tyid list"
  printed :: "warning list"

definition labgob_init :: labgob where
  "labgob_init = \<lparr>errorCount = 0, checked = [], registered = [], printed = []\<rparr>"

section \<open>checkType\<close>

text \<open>The first argument bounds the depth of the recursion; \<^term>\<open>None\<close> when it is used up.\<close>

fun checkType :: "nat \<Rightarrow> types \<Rightarrow> tyid \<Rightarrow> labgob \<Rightarrow> labgob option"
  and checkFields :: "nat \<Rightarrow> types \<Rightarrow> string \<Rightarrow> (string \<times> tyid) list \<Rightarrow> labgob \<Rightarrow> labgob option" where
  "checkType 0 T t g = None"
| "checkType (Suc n) T t g =
     (if t \<in> set (checked g) then Some g
      else let g1 = g\<lparr>checked := t # checked g\<rparr> in
        case desc T t of
          DStruct name fts \<Rightarrow> checkFields n T name fts g1
        | DSlice e \<Rightarrow> checkType n T e g1
        | DArray e \<Rightarrow> checkType n T e g1
        | DPtr e \<Rightarrow> checkType n T e g1
        | DMap e k \<Rightarrow> Option.bind (checkType n T e g1) (checkType n T k)
        | _ \<Rightarrow> Some g1)"
| "checkFields n T name [] g = Some g"
| "checkFields n T name ((f, ft) # fts) g =
     (let g1 = (if exported f then g
                else g\<lparr>errorCount := errorCount g + 1,
                       printed := LowerCaseField f name # printed g\<rparr>)
      in Option.bind (checkType n T ft g1) (checkFields n T name fts))"

text \<open>A depth of one more than the number of types is enough: every call adds a type.\<close>

definition checkValue :: "types \<Rightarrow> tyid \<Rightarrow> labgob \<Rightarrow> labgob option" where
  "checkValue T t = checkType (Suc (length T)) T t"

definition Register :: "types \<Rightarrow> tyid \<Rightarrow> labgob \<Rightarrow> labgob option" where
  "Register T t g = do {
     g1 \<leftarrow> checkValue T t g;
     Some (g1\<lparr>registered := t # registered g1\<rparr>) }"

section \<open>checkDefault\<close>

text \<open>
  \<open>ro\<close> holds when the value was reached through a lower-case field: \<^verbatim>\<open>value.Interface()\<close>
  panics on such a value.
\<close>

definition checkLeaf :: "string \<Rightarrow> bool \<Rightarrow> bool \<Rightarrow> string \<Rightarrow> labgob \<Rightarrow> labgob option" where
  "checkLeaf tname isZero ro name g =
     (if ro then None
      else if isZero then Some g
      else Some (g\<lparr>errorCount := errorCount g + 1,
                   printed := (if errorCount g < 1
                               then NonDefault (if name = [] then tname else name) # printed g
                               else printed g)\<rparr>))"

definition fieldPath :: "string \<Rightarrow> string \<Rightarrow> string" where
  "fieldPath name f = (if name \<noteq> [] then name @ ''.'' @ f else f)"

fun checkDefault1 :: "types \<Rightarrow> bool \<Rightarrow> tyid \<Rightarrow> gval \<Rightarrow> nat \<Rightarrow> string \<Rightarrow> labgob \<Rightarrow> labgob option"
  and checkDefaultFields :: "types \<Rightarrow> bool \<Rightarrow> (string \<times> tyid) list \<Rightarrow> (string \<times> gval) list \<Rightarrow>
        nat \<Rightarrow> string \<Rightarrow> labgob \<Rightarrow> labgob option" where
  "checkDefault1 T ro t (GStruct fs) depth name g =
     (if depth > 3 then Some g
      else case desc T t of
        DStruct _ fts \<Rightarrow> checkDefaultFields T ro fts fs depth name g
      | _ \<Rightarrow> Some g)"
| "checkDefault1 T ro t (GPtr p) depth name g =
     (if depth > 3 then Some g
      else case (desc T t, p) of
        (DPtr e, Some v) \<Rightarrow> checkDefault1 T ro e v (depth + 1) name g
      | _ \<Rightarrow> Some g)"
| "checkDefault1 T ro t (GBool b) depth name g =
     (if depth > 3 then Some g
      else case desc T t of DBool n \<Rightarrow> checkLeaf n (b = False) ro name g | _ \<Rightarrow> Some g)"
| "checkDefault1 T ro t (GInt i) depth name g =
     (if depth > 3 then Some g
      else case desc T t of DInt n \<Rightarrow> checkLeaf n (i = 0) ro name g | _ \<Rightarrow> Some g)"
| "checkDefault1 T ro t (GString s) depth name g =
     (if depth > 3 then Some g
      else case desc T t of DString n \<Rightarrow> checkLeaf n (s = []) ro name g | _ \<Rightarrow> Some g)"
| "checkDefault1 T ro t (GSlice vs) depth name g = Some g"
| "checkDefault1 T ro t (GMap kvs) depth name g = Some g"
| "checkDefault1 T ro t (GIface x) depth name g = Some g"
| "checkDefaultFields T ro ((f', ft) # fts) ((f, v) # fs) depth name g =
     Option.bind (checkDefault1 T (ro \<or> \<not> exported f) ft v (depth + 1) (fieldPath name f) g)
       (checkDefaultFields T ro fts fs depth name)"
| "checkDefaultFields T ro _ _ depth name g = Some g"

text \<open>An \<^verbatim>\<open>interface{}\<close> argument is nil or a type with a value of it.\<close>

definition checkDefault :: "types \<Rightarrow> (tyid \<times> gval) option \<Rightarrow> labgob \<Rightarrow> labgob option" where
  "checkDefault T x g = (case x of
     None \<Rightarrow> Some g
   | Some (t, v) \<Rightarrow> checkDefault1 T False t v 1 [] g)"

section \<open>Encoding and decoding\<close>

datatype gmsg =
    MBool bool | MInt int | MString string
  | MStruct "(string \<times> gmsg) list"
  | MList "gmsg list"
  | MMap "(gmsg \<times> gmsg) list"
  | MIface "(tyid \<times> gmsg) option"

text \<open>A field with such a value is not sent.  Pointers are followed.\<close>

fun omitted :: "gval \<Rightarrow> bool" where
  "omitted (GBool b) = (\<not> b)"
| "omitted (GInt i) = (i = 0)"
| "omitted (GString s) = (s = [])"
| "omitted (GStruct fs) = False"
| "omitted (GPtr None) = True"
| "omitted (GPtr (Some v)) = omitted v"
| "omitted (GSlice vs) = (vs = [])"
| "omitted (GMap kvs) = (kvs = [])"
| "omitted (GIface x) = (x = None)"

text \<open>
  \<^verbatim>\<open>gob.Encode\<close>; \<^term>\<open>None\<close> is an error: a nil pointer that cannot be left out, a struct
  without an upper-case field, or an interface value whose type was not registered.
\<close>

fun gobEncode :: "tyid list \<Rightarrow> gval \<Rightarrow> gmsg option" where
  "gobEncode R (GBool b) = Some (MBool b)"
| "gobEncode R (GInt i) = Some (MInt i)"
| "gobEncode R (GString s) = Some (MString s)"
| "gobEncode R (GStruct fs) =
     (if list_ex (\<lambda>(f, v). exported f) fs
      then map_option MStruct (those (map (\<lambda>(f, v). map_option (Pair f) (gobEncode R v))
             (filter (\<lambda>(f, v). exported f \<and> \<not> omitted v) fs)))
      else None)"
| "gobEncode R (GPtr None) = None"
| "gobEncode R (GPtr (Some v)) = gobEncode R v"
| "gobEncode R (GSlice vs) = map_option MList (those (map (gobEncode R) vs))"
| "gobEncode R (GMap kvs) = map_option MMap (those (map (\<lambda>(a, b).
     do { m \<leftarrow> gobEncode R a; n \<leftarrow> gobEncode R b; Some (m, n) }) kvs))"
| "gobEncode R (GIface None) = Some (MIface None)"
| "gobEncode R (GIface (Some (t, v))) =
     (if t \<in> set R then map_option (\<lambda>m. MIface (Some (t, m))) (gobEncode R v) else None)"

lemma map_of_size:
  "map_of ms f = Some n \<Longrightarrow> size n < Suc (size_list (size_prod (\<lambda>x. 0) size) ms)"
  by (auto dest!: map_of_SomeD intro!: le_imp_less_Suc size_list_estimation')

lemma zip_size_right: "(w, n) \<in> set (zip vs ms) \<Longrightarrow> size n < Suc (size_list size ms)"
  by (auto dest!: set_zip_rightD intro!: le_imp_less_Suc size_list_estimation')

lemma pair_size:
  assumes "(a, b) \<in> set ms"
  shows "size a < Suc (size_list (size_prod size size) ms)"
    and "size b < Suc (size_list (size_prod size size) ms)"
  using assms by (auto intro!: le_imp_less_Suc size_list_estimation' [where x = "(a, b)"])

text \<open>
  \<^verbatim>\<open>gob.Decode\<close> of a message into a variable of type \<open>t\<close> that holds \<open>v\<close>.  A slice that is
  long enough is decoded into in place.  \<open>ind\<close> tells that a pointer may be followed here;
  pointers to pointers do not occur.
\<close>

function gobDecode :: "types \<Rightarrow> tyid list \<Rightarrow> bool \<Rightarrow> tyid \<Rightarrow> gval \<Rightarrow> gmsg \<Rightarrow> gval option" where
  "gobDecode T R ind t v m = (case (desc T t, v, m) of
     (DPtr e, GPtr p, _) \<Rightarrow>
       if ind then map_option (\<lambda>w. GPtr (Some w))
         (gobDecode T R False e (case p of Some w \<Rightarrow> w | None \<Rightarrow> zero T e) m)
       else None
   | (DBool _, _, MBool b) \<Rightarrow> Some (GBool b)
   | (DInt _, _, MInt i) \<Rightarrow> Some (GInt i)
   | (DString _, _, MString s) \<Rightarrow> Some (GString s)
   | (DStruct _ fts, GStruct fs, MStruct ms) \<Rightarrow>
       if list_ex (\<lambda>(f, ft). exported f) fts
       then map_option GStruct (those (map (\<lambda>((f, w), (f', ft)).
              case map_of ms f of
                Some n \<Rightarrow> if exported f then map_option (Pair f) (gobDecode T R True ft w n)
                          else Some (f, w)
              | None \<Rightarrow> Some (f, w)) (zip fs fts)))
       else None
   | (DSlice e, GSlice vs, MList ms) \<Rightarrow>
       map_option GSlice (those (map (\<lambda>(w, n). gobDecode T R True e w n)
         (zip (if length vs < length ms then replicate (length ms) (zero T e) else vs) ms)))
   | (DMap e k, GMap kvs, MMap ms) \<Rightarrow> do {
       ps \<leftarrow> those (map (\<lambda>(a, b). do {
         x \<leftarrow> gobDecode T R True k (zero T k) a;
         y \<leftarrow> gobDecode T R True e (zero T e) b;
         Some (x, y) }) ms);
       Some (GMap (foldl (\<lambda>kvs (x, y). AList.update x y kvs) kvs ps)) }
   | (DIface, _, MIface None) \<Rightarrow> Some (GIface None)
   | (DIface, _, MIface (Some (t', n))) \<Rightarrow>
       if t' \<in> set R
       then map_option (\<lambda>w. GIface (Some (t', w))) (gobDecode T R True t' (zero T t') n)
       else None
   | _ \<Rightarrow> None)"
  by pat_completeness auto

termination
  by (relation "measures [\<lambda>(T, R, ind, t, v, m). size m, \<lambda>(T, R, ind, t, v, m). if ind then 1 else 0]")
    (auto simp: map_of_size zip_size_right pair_size)

declare gobDecode.simps [simp del]

section \<open>LabEncoder and LabDecoder\<close>

text \<open>
  A buffer is the list of the messages written to it.  \<^verbatim>\<open>Encode\<close> is given a type and a value;
  an error of \<^verbatim>\<open>gob\<close> leaves the buffer as it is.
\<close>

definition Encode :: "types \<Rightarrow> tyid \<Rightarrow> gval \<Rightarrow> gmsg list \<Rightarrow> labgob \<Rightarrow>
    (gmsg list \<times> bool \<times> labgob) option" where
  "Encode T t v buf g = do {
     g1 \<leftarrow> checkValue T t g;
     case gobEncode (registered g1) v of
       Some m \<Rightarrow> Some (buf @ [m], True, g1)
     | None \<Rightarrow> Some (buf, False, g1) }"

text \<open>The type of the pointers to a type.\<close>

definition ptrTo :: "types \<Rightarrow> tyid \<Rightarrow> tyid" where
  "ptrTo T t = length (takeWhile (\<lambda>d. d \<noteq> DPtr t) T)"

text \<open>
  \<^verbatim>\<open>Decode\<close> is given a pointer to a variable of type \<open>t\<close> that holds \<open>v\<close>.  It returns the
  rest of the buffer, the variable, whether there was no error, and the state of the
  package; \<^term>\<open>None\<close> is a panic of \<^verbatim>\<open>checkDefault\<close>.
\<close>

definition Decode :: "types \<Rightarrow> tyid \<Rightarrow> gval \<Rightarrow> gmsg list \<Rightarrow> labgob \<Rightarrow>
    (gmsg list \<times> gval \<times> bool \<times> labgob) option" where
  "Decode T t v buf g = do {
     g1 \<leftarrow> checkValue T (ptrTo T t) g;
     g2 \<leftarrow> checkDefault T (Some (ptrTo T t, GPtr (Some v))) g1;
     case buf of
       [] \<Rightarrow> Some ([], v, False, g2)
     | m # rest \<Rightarrow> (case gobDecode T (registered g2) True t v m of
         Some w \<Rightarrow> Some (rest, w, True, g2)
       | None \<Rightarrow> Some (rest, v, False, g2)) }"

section \<open>checkType visits every type once\<close>

definition succs :: "types \<Rightarrow> tyid \<Rightarrow> tyid set" where
  "succs T t = (case desc T t of
     DStruct _ fts \<Rightarrow> snd ` set fts
   | DSlice e \<Rightarrow> {e} | DArray e \<Rightarrow> {e} | DPtr e \<Rightarrow> {e} | DMap e k \<Rightarrow> {e, k}
   | _ \<Rightarrow> {})"

definition mentions :: "types \<Rightarrow> tyid \<Rightarrow> tyid \<Rightarrow> bool" where
  "mentions T = (\<lambda>a b. b \<in> succs T a)\<^sup>*\<^sup>*"

definition lower :: "(string \<times> tyid) list \<Rightarrow> int" where
  "lower fts = int (length (filter (\<lambda>(f, ft). \<not> exported f) fts))"

definition lowerCase :: "types \<Rightarrow> tyid \<Rightarrow> int" where
  "lowerCase T t = (case desc T t of DStruct _ fts \<Rightarrow> lower fts | _ \<Rightarrow> 0)"

text \<open>
  From \<open>g\<close> to \<open>g'\<close> the types \<open>ts\<close> were visited: every type that is new follows from them and
  has its successors visited, and \<open>k\<close> errors were counted besides those of the new types.
\<close>

definition explored :: "types \<Rightarrow> labgob \<Rightarrow> labgob \<Rightarrow> tyid set \<Rightarrow> int \<Rightarrow> bool" where
  "explored T g g' ts k \<longleftrightarrow>
     set (checked g) \<union> ts \<subseteq> set (checked g') \<and> set (checked g') \<subseteq> {..<length T} \<and>
     (\<forall>u \<in> set (checked g') - set (checked g). succs T u \<subseteq> set (checked g') \<and> (\<exists>t \<in> ts. mentions T t u)) \<and>
     errorCount g' = errorCount g + k + (\<Sum>u \<in> set (checked g') - set (checked g). lowerCase T u) \<and>
     registered g' = registered g"

lemma mentions_refl [simp]: "mentions T t t"
  by (simp add: mentions_def)

lemma mentions_step: "u \<in> succs T t \<Longrightarrow> mentions T u w \<Longrightarrow> mentions T t w"
  unfolding mentions_def by (rule converse_rtranclp_into_rtranclp)

lemma explored_refl:
  "ts \<subseteq> set (checked g) \<Longrightarrow> set (checked g) \<subseteq> {..<length T} \<Longrightarrow> explored T g g ts 0"
  by (auto simp: explored_def)

lemma explored_trans:
  assumes a: "explored T g g1 ts k" and b: "explored T g1 g2 us l"
  shows "explored T g g2 (ts \<union> us) (k + l)"
proof -
  let ?C = "set (checked g)" and ?C1 = "set (checked g1)" and ?C2 = "set (checked g2)"
  have split: "?C2 - ?C = (?C1 - ?C) \<union> (?C2 - ?C1)" and disj: "(?C1 - ?C) \<inter> (?C2 - ?C1) = {}"
    using a b by (auto simp: explored_def)
  have "(\<Sum>u \<in> ?C2 - ?C. lowerCase T u) =
      (\<Sum>u \<in> ?C1 - ?C. lowerCase T u) + (\<Sum>u \<in> ?C2 - ?C1. lowerCase T u)"
    unfolding split using disj by (intro sum.union_disjoint) auto
  moreover have "\<forall>u \<in> ?C2 - ?C. succs T u \<subseteq> ?C2 \<and> (\<exists>t \<in> ts \<union> us. mentions T t u)"
  proof
    fix u assume "u \<in> ?C2 - ?C"
    then consider "u \<in> ?C1 - ?C" | "u \<in> ?C2 - ?C1" by blast
    then show "succs T u \<subseteq> ?C2 \<and> (\<exists>t \<in> ts \<union> us. mentions T t u)"
    proof cases
      case 1
      then have "succs T u \<subseteq> ?C1" and "\<exists>t \<in> ts. mentions T t u"
        using a by (simp_all add: explored_def)
      moreover have "?C1 \<subseteq> ?C2" using b by (simp add: explored_def)
      ultimately show ?thesis by blast
    next
      case 2
      then have "succs T u \<subseteq> ?C2" and "\<exists>t \<in> us. mentions T t u"
        using b by (simp_all add: explored_def)
      then show ?thesis by blast
    qed
  qed
  moreover have "?C \<union> (ts \<union> us) \<subseteq> ?C2" "?C2 \<subseteq> {..<length T}" "registered g2 = registered g"
    using a b by (auto simp: explored_def)
  moreover have "errorCount g1 = errorCount g + k + (\<Sum>u \<in> ?C1 - ?C. lowerCase T u)"
    and "errorCount g2 = errorCount g1 + l + (\<Sum>u \<in> ?C2 - ?C1. lowerCase T u)"
    using a b by (simp_all add: explored_def)
  ultimately show ?thesis
    unfolding explored_def by (intro conjI) (assumption | linarith)+
qed

lemma explored_enter:
  assumes new: "t \<notin> set (checked g)" and dom: "t < length T"
    and rest: "explored T (g\<lparr>checked := t # checked g\<rparr>) g' (succs T t) (lowerCase T t)"
  shows "explored T g g' {t} 0"
proof -
  let ?C = "set (checked g)" and ?C' = "set (checked g')"
  have split: "?C' - ?C = insert t (?C' - insert t ?C)"
    using new rest by (auto simp: explored_def)
  have sum: "(\<Sum>u \<in> ?C' - ?C. lowerCase T u) = lowerCase T t + (\<Sum>u \<in> ?C' - insert t ?C. lowerCase T u)"
    unfolding split by (subst sum.insert) auto
  have old: "\<forall>u \<in> ?C' - insert t ?C. succs T u \<subseteq> ?C' \<and> (\<exists>w \<in> succs T t. mentions T w u)"
    using rest by (simp add: explored_def)
  have "\<forall>u \<in> ?C' - ?C. succs T u \<subseteq> ?C' \<and> mentions T t u"
  proof
    fix u assume "u \<in> ?C' - ?C"
    then consider "u = t" | "u \<in> ?C' - insert t ?C" by blast
    then show "succs T u \<subseteq> ?C' \<and> mentions T t u"
    proof cases
      case 1
      with rest show ?thesis by (simp add: explored_def)
    next
      case 2
      then obtain w where "succs T u \<subseteq> ?C'" "w \<in> succs T t" "mentions T w u"
        using old by blast
      then show ?thesis using mentions_step by blast
    qed
  qed
  moreover have "?C \<union> {t} \<subseteq> ?C'" "?C' \<subseteq> {..<length T}" "registered g' = registered g"
    and "errorCount g' = errorCount g + lowerCase T t + (\<Sum>u \<in> ?C' - insert t ?C. lowerCase T u)"
    using rest by (simp_all add: explored_def)
  ultimately show ?thesis
    unfolding explored_def sum by simp
qed

lemma types_ok_succs: "types_ok T \<Longrightarrow> u \<in> succs T t \<Longrightarrow> u < length T"
proof -
  assume ok: "types_ok T" and u: "u \<in> succs T t"
  have t: "t < length T"
    using u by (auto simp: succs_def desc_def split: if_splits)
  have "case T ! t of
     DStruct _ fts \<Rightarrow> distinct (map fst fts) \<and> list_all (\<lambda>(f, ft). ft < t) fts
   | DPtr e \<Rightarrow> e < length T
   | DSlice e \<Rightarrow> e < length T
   | DArray e \<Rightarrow> e < length T
   | DMap e k \<Rightarrow> e < length T \<and> k < length T
   | _ \<Rightarrow> True"
    using ok t unfolding types_ok_def by blast
  with u t show ?thesis
    unfolding succs_def desc_def by (auto split: tdesc.splits simp: list_all_iff)
qed

lemma card_less_step:
  assumes "card ({..<n :: nat} - set C) < Suc m" and "t < n" and "t \<notin> set C"
    and "insert t (set C) \<subseteq> set C'"
  shows "card ({..<n} - set C') < m"
proof -
  have "{..<n} - set C' \<subset> {..<n} - set C"
    using assms(2-4) by auto
  then have "card ({..<n} - set C') < card ({..<n} - set C)"
    by (intro psubset_card_mono) auto
  with assms(1) show ?thesis by linarith
qed

lemma explored_small:
  assumes "explored T g g' ts k" and "card ({..<length T} - set (checked g)) < n"
  shows "set (checked g') \<subseteq> {..<length T}" and "card ({..<length T} - set (checked g')) < n"
proof -
  show "set (checked g') \<subseteq> {..<length T}" using assms(1) by (simp add: explored_def)
  have "card ({..<length T} - set (checked g')) \<le> card ({..<length T} - set (checked g))"
    using assms(1) by (intro card_mono) (auto simp: explored_def)
  then show "card ({..<length T} - set (checked g')) < n" using assms(2) by linarith
qed

lemma checkType_explores:
  "t < length T \<Longrightarrow> set (checked g) \<subseteq> {..<length T} \<Longrightarrow>
   card ({..<length T} - set (checked g)) < n \<Longrightarrow> types_ok T \<Longrightarrow>
   \<exists>g'. checkType n T t g = Some g' \<and> explored T g g' {t} 0"
  "(\<forall>(f, ft) \<in> set fts. ft < length T) \<Longrightarrow> set (checked g) \<subseteq> {..<length T} \<Longrightarrow>
   card ({..<length T} - set (checked g)) < n \<Longrightarrow> types_ok T \<Longrightarrow>
   \<exists>g'. checkFields n T name fts g = Some g' \<and> explored T g g' (snd ` set fts) (lower fts)"
proof (induction n T t g and n T name fts g rule: checkType_checkFields.induct)
  case (1 T t g)
  then show ?case by simp
next
  case (2 n T t g)
  show ?case
  proof (cases "t \<in> set (checked g)")
    case True
    with 2 show ?thesis by (simp add: explored_refl)
  next
    case False
    let ?g1 = "g\<lparr>checked := t # checked g\<rparr>"
    have dom: "set (checked ?g1) \<subseteq> {..<length T}" and small: "card ({..<length T} - set (checked ?g1)) < n"
      using 2 False card_less_step [of "length T" "checked g" n t "checked ?g1"] by auto
    have "\<exists>g'. checkType (Suc n) T t g = Some g' \<and> explored T ?g1 g' (succs T t) (lowerCase T t)"
    proof (cases "desc T t")
      case (DStruct name fts)
      have "\<forall>(f, ft) \<in> set fts. ft < length T"
        using types_ok_succs [OF 2(10), of _ t] by (force simp: succs_def DStruct)
      from 2(1) [OF False refl DStruct this dom small 2(10)] show ?thesis
        by (simp add: False DStruct succs_def lowerCase_def)
    next
      case (DPtr e)
      have "e < length T" using types_ok_succs [OF 2(10), of e t] by (simp add: succs_def DPtr)
      from 2(2) [OF False refl DPtr this dom small 2(10)] show ?thesis
        by (simp add: False DPtr succs_def lowerCase_def)
    next
      case (DSlice e)
      have "e < length T" using types_ok_succs [OF 2(10), of e t] by (simp add: succs_def DSlice)
      from 2(3) [OF False refl DSlice this dom small 2(10)] show ?thesis
        by (simp add: False DSlice succs_def lowerCase_def)
    next
      case (DArray e)
      have "e < length T" using types_ok_succs [OF 2(10), of e t] by (simp add: succs_def DArray)
      from 2(4) [OF False refl DArray this dom small 2(10)] show ?thesis
        by (simp add: False DArray succs_def lowerCase_def)
    next
      case (DMap e k)
      have e: "e < length T" and k: "k < length T"
        using types_ok_succs [OF 2(10), of _ t] by (simp_all add: succs_def DMap)
      from 2(5) [OF False refl DMap e dom small 2(10)] obtain g1 where
        g1: "checkType n T e ?g1 = Some g1" "explored T ?g1 g1 {e} 0" by blast
      from 2(6) [OF False refl DMap g1(1) k explored_small [OF g1(2) small] 2(10)] obtain g2 where
        g2: "checkType n T k g1 = Some g2" "explored T g1 g2 {k} 0" by blast
      from explored_trans [OF g1(2) g2(2)] show ?thesis
        by (simp add: False DMap succs_def lowerCase_def g1(1) g2(1) insert_commute)
    qed (use dom in \<open>simp_all add: False succs_def lowerCase_def explored_refl\<close>)
    then show ?thesis
      using explored_enter [OF False 2(7)] by blast
  qed
next
  case (3 n T name g)
  then show ?case by (simp add: explored_refl lower_def)
next
  case (4 n T name f ft fts g)
  let ?g1 = "if exported f then g
    else g\<lparr>errorCount := errorCount g + 1, printed := LowerCaseField f name # printed g\<rparr>"
  let ?i = "if exported f then 0 else 1 :: int"
  have ft: "ft < length T" and fts: "\<forall>(f, ft) \<in> set fts. ft < length T"
    using 4(3) by auto
  have same: "set (checked ?g1) = set (checked g)" by simp
  from 4(1) [OF refl ft 4(4-6) [folded same]] obtain g2 where
    g2: "checkType n T ft ?g1 = Some g2" "explored T ?g1 g2 {ft} 0" by blast
  from 4(2) [OF refl g2(1) fts explored_small [OF g2(2)] 4(6)] 4(5) obtain g3 where
    g3: "checkFields n T name fts g2 = Some g3" "explored T g2 g3 (snd ` set fts) (lower fts)"
    unfolding same by blast
  have "explored T ?g1 g3 (insert ft (snd ` set fts)) (lower fts)"
    using explored_trans [OF g2(2) g3(2)] by simp
  then have "explored T g g3 (insert ft (snd ` set fts)) (lower ((f, ft) # fts))"
    by (auto simp: explored_def lower_def split: if_splits)
  then show ?case
    using g2(1) g3(1) by (simp add: Let_def)
qed

lemma closed_contains:
  assumes "mentions T t u" and "t \<in> C" and "\<forall>w \<in> C. succs T w \<subseteq> C"
  shows "u \<in> C"
  using assms(1) unfolding mentions_def
proof (induction rule: rtranclp_induct)
  case base
  show ?case by (rule assms(2))
next
  case (step y z)
  with assms(3) show ?case by blast
qed

text \<open>
  Property C40.  \<^verbatim>\<open>checkType\<close> always ends, although types may mention themselves: started with a
  set of checked types that is closed under the types they mention, it adds to it exactly
  the types that the given one mentions, directly or not, and counts one error for each
  lower-case field of a struct that was not checked before.
\<close>

theorem check_type_reports_once:
  assumes "types_ok T" and "t < length T" and "set (checked g) \<subseteq> {..<length T}"
    and "\<forall>u \<in> set (checked g). succs T u \<subseteq> set (checked g)"
  shows "\<exists>g'. checkValue T t g = Some g' \<and>
    set (checked g') = set (checked g) \<union> {u. mentions T t u} \<and>
    errorCount g' = errorCount g + (\<Sum>u \<in> {u. mentions T t u} - set (checked g). lowerCase T u)"
proof -
  have "card ({..<length T} - set (checked g)) < Suc (length T)"
    using card_mono [of "{..<length T}" "{..<length T} - set (checked g)"] by auto
  from checkType_explores(1) [OF assms(2,3) this assms(1)] obtain g' where
    g': "checkValue T t g = Some g'" and ex: "explored T g g' {t} 0"
    unfolding checkValue_def by blast
  let ?C = "set (checked g)" and ?C' = "set (checked g')"
  have sub: "insert t ?C \<subseteq> ?C'" and new: "\<forall>u \<in> ?C' - ?C. succs T u \<subseteq> ?C' \<and> mentions T t u"
    and err: "errorCount g' = errorCount g + (\<Sum>u \<in> ?C' - ?C. lowerCase T u)"
    using ex by (simp_all add: explored_def)
  have "\<forall>w \<in> ?C'. succs T w \<subseteq> ?C'"
    using assms(4) sub new by blast
  then have "{u. mentions T t u} \<subseteq> ?C'"
    using closed_contains [of T t _ ?C'] sub by blast
  then have "?C' = ?C \<union> {u. mentions T t u}" and "?C' - ?C = {u. mentions T t u} - ?C"
    using sub new by blast+
  with g' err show ?thesis by metis
qed

end
