(* ===== verification/Lab_Gob_Carry.thy ===== *)
theory Lab_Gob_Carry
  imports Lab_Gob
begin

text \<open>
  That \<^verbatim>\<open>labgob\<close> carries values: what is decoded is what was encoded, field by field.
\<close>

section \<open>What is decoded is what was sent\<close>

text \<open>Values that gob can carry: every field is sent or has its zero value.\<close>

fun isNilPtr :: "gval \<Rightarrow> bool" where
  "isNilPtr (GPtr None) = True"
| "isNilPtr _ = False"

fun isPtr :: "gval \<Rightarrow> bool" where
  "isPtr (GPtr p) = True"
| "isPtr _ = False"

fun portable :: "tyid list \<Rightarrow> gval \<Rightarrow> bool" where
  "portable R (GStruct fs) = (fs \<noteq> [] \<and> list_all (\<lambda>(f, v). exported f \<and> portable R v) fs)"
| "portable R (GPtr None) = True"
| "portable R (GPtr (Some v)) = (\<not> isPtr v \<and> \<not> omitted v \<and> portable R v)"
| "portable R (GSlice vs) = list_all (\<lambda>v. \<not> isNilPtr v \<and> portable R v) vs"
| "portable R (GMap kvs) = (distinct (map fst kvs) \<and>
     list_all (\<lambda>(a, b). \<not> isNilPtr a \<and> \<not> isNilPtr b \<and> portable R a \<and> portable R b) kvs)"
| "portable R (GIface None) = True"
| "portable R (GIface (Some (t, v))) = (t \<in> set R \<and> \<not> isNilPtr v \<and> portable R v)"
| "portable R _ = True"

lemma those_map_nth:
  "length xs = length ys \<Longrightarrow> (\<And>i. i < length xs \<Longrightarrow> g (xs ! i) = Some (ys ! i)) \<Longrightarrow>
   those (map g xs) = Some ys"
proof (induction xs ys rule: list_induct2)
  case Nil
  then show ?case by simp
next
  case (Cons x xs y ys)
  have "g x = Some y" using Cons.prems [of 0] by simp
  moreover have "those (map g xs) = Some ys"
    using Cons.prems [of "Suc _"] by (intro Cons.IH) auto
  ultimately show ?case by simp
qed

lemma those_map_Some: "(\<And>x. x \<in> set xs \<Longrightarrow> g x = Some (h x)) \<Longrightarrow> those (map g xs) = Some (map h xs)"
  by (rule those_map_nth) auto

lemma map_of_filtered:
  "distinct (map fst fs) \<Longrightarrow> (f, v) \<in> set fs \<Longrightarrow>
   map_of (map (\<lambda>(f, v). (f, e v)) (filter (\<lambda>(f, v). Q f v) fs)) f = (if Q f v then Some (e v) else None)"
proof (induction fs)
  case (Cons p fs)
  have "map_of (map (\<lambda>(f, v). (f, e v)) (filter (\<lambda>(f, v). Q f v) fs)) f = None" if "f \<notin> fst ` set fs"
    using that by (force simp: map_of_eq_None_iff)
  with Cons show ?case by (cases p) force
qed simp

lemma list_ex_fst: "list_ex (\<lambda>(f, v). P f) xs = list_ex P (map fst xs)"
  by (induction xs) auto

lemma zero_struct:
  assumes "types_ok T" and "desc T t = DStruct n fts"
  shows "zero T t = GStruct (map (\<lambda>(f, ft). (f, zero T ft)) fts)"
proof -
  have "t < length T" and d: "T ! t = DStruct n fts"
    using assms(2) by (auto simp: desc_def split: if_splits)
  then have "list_all (\<lambda>(f, ft). ft < t) fts"
    using assms(1) by (auto simp: types_ok_def)
  then show ?thesis
    by (subst zero.simps) (auto simp: assms(2) list_all_iff)
qed

lemma struct_distinct:
  assumes "types_ok T" and "desc T t = DStruct n fts"
  shows "distinct (map fst fts)"
  using assms by (auto simp: types_ok_def desc_def split: if_splits)

lemma omitted_zero:
  "has_type T v t \<Longrightarrow> portable R v \<Longrightarrow> omitted v \<Longrightarrow> zero T t = v"
  by (subst zero.simps, induction R v rule: portable.induct) (auto split: tdesc.splits)

lemma update_fresh: "x \<notin> fst ` set kvs \<Longrightarrow> AList.update x y kvs = kvs @ [(x, y)]"
  by (induction kvs) auto

lemma foldl_update_fresh:
  "distinct (map fst (kvs @ ps)) \<Longrightarrow> foldl (\<lambda>kvs (x, y). AList.update x y kvs) kvs ps = kvs @ ps"
proof (induction ps arbitrary: kvs)
  case (Cons p ps)
  obtain x y where p: "p = (x, y)" by (cases p)
  have "AList.update x y kvs = kvs @ [(x, y)]"
    using Cons.prems by (intro update_fresh) (auto simp: p)
  with Cons.IH [of "kvs @ [(x, y)]"] Cons.prems show ?case by (simp add: p)
qed simp

text \<open>The message of a value, and that it is decoded to that value.\<close>

definition carried :: "types \<Rightarrow> tyid list \<Rightarrow> gval \<Rightarrow> bool" where
  "carried T R v \<longleftrightarrow> (\<forall>t ind. has_type T v t \<longrightarrow> portable R v \<longrightarrow> \<not> isNilPtr v \<longrightarrow> (isPtr v \<longrightarrow> ind) \<longrightarrow>
     (\<exists>m. gobEncode R v = Some m \<and> gobDecode T R ind t (zero T t) m = Some v))"

lemma carried_enc:
  assumes "carried T R v" and "has_type T v t" and "portable R v" and "\<not> isNilPtr v"
  shows "gobEncode R v = Some (the (gobEncode R v))"
    and "gobDecode T R True t (zero T t) (the (gobEncode R v)) = Some v"
  using assms unfolding carried_def by force+

text \<open>A field that is not sent keeps what the destination holds.\<close>

definition overlayFields :: "(string \<times> gval) list \<Rightarrow> (string \<times> gval) list \<Rightarrow> (string \<times> gval) list" where
  "overlayFields fs ds = map (\<lambda>((f, x), (f', y)). (f, if omitted x then y else x)) (zip fs ds)"

lemma struct_encode:
  assumes "fs \<noteq> []" and exp: "\<forall>(f, v) \<in> set fs. exported f"
    and enc: "\<forall>(f, v) \<in> set fs. \<not> omitted v \<longrightarrow> gobEncode R v \<noteq> None"
  shows "gobEncode R (GStruct fs) =
    Some (MStruct (map (\<lambda>(f, v). (f, the (gobEncode R v))) (filter (\<lambda>(f, v). exported f \<and> \<not> omitted v) fs)))"
    (is "_ = Some (MStruct ?ms)")
proof -
  have "those (map (\<lambda>(f, v). map_option (Pair f) (gobEncode R v))
      (filter (\<lambda>(f, v). exported f \<and> \<not> omitted v) fs)) = Some ?ms"
    using enc by (intro those_map_Some) force
  moreover have "list_ex (\<lambda>(f, v). exported f) fs"
    using assms(1) exp by (cases fs) auto
  ultimately show ?thesis by simp
qed

lemma struct_decode:
  assumes d: "desc T t = DStruct n fts" and dist: "distinct (map fst fs)"
    and names: "map fst fs = map fst fts" "map fst ds = map fst fts"
    and "fs \<noteq> []" and exp: "\<forall>(f, v) \<in> set fs. exported f"
    and dec: "\<forall>i < length fs. \<not> omitted (snd (fs ! i)) \<longrightarrow>
      gobDecode T R True (snd (fts ! i)) (snd (ds ! i)) (the (gobEncode R (snd (fs ! i)))) = Some (snd (fs ! i))"
  shows "gobDecode T R ind t (GStruct ds)
     (MStruct (map (\<lambda>(f, v). (f, the (gobEncode R v))) (filter (\<lambda>(f, v). exported f \<and> \<not> omitted v) fs))) =
     Some (GStruct (overlayFields fs ds))" (is "gobDecode T R ind t _ (MStruct ?ms) = _")
proof -
  let ?F = "\<lambda>((f, w), (f', ft)). case map_of ?ms f of
      Some n \<Rightarrow> if exported f then map_option (Pair f) (gobDecode T R True ft w n) else Some (f, w)
    | None \<Rightarrow> Some (f, w)"
  have len: "length fs = length fts" "length ds = length fts"
    using names by (metis length_map)+
  have "those (map ?F (zip ds fts)) = Some (overlayFields fs ds)"
  proof (rule those_map_nth)
    fix i assume "i < length (zip ds fts)"
    then have i: "i < length fs" "i < length ds" "i < length fts" using len by auto
    obtain f v where fv: "fs ! i = (f, v)" by (cases "fs ! i")
    have f: "fst (ds ! i) = f" "fst (fts ! i) = f"
      using names fv i by (metis fst_conv nth_map)+
    obtain w ft where w: "ds ! i = (f, w)" and ft: "fts ! i = (f, ft)"
      using f by (cases "ds ! i"; cases "fts ! i") auto
    have "(f, v) \<in> set fs" using i fv by (metis nth_mem)
    then have "map_of ?ms f = (if omitted v then None else Some (the (gobEncode R v)))" and "exported f"
      using map_of_filtered [OF dist, of f v "\<lambda>v. the (gobEncode R v)" "\<lambda>f v. exported f \<and> \<not> omitted v"] exp
      by auto
    then show "?F (zip ds fts ! i) = Some (overlayFields fs ds ! i)"
      using dec [rule_format, of i] i fv w ft by (simp add: overlayFields_def)
  qed (use len in \<open>simp add: overlayFields_def\<close>)
  moreover have "list_ex (\<lambda>(f, ft). exported f) fts"
    using exp \<open>fs \<noteq> []\<close> names(1) unfolding list_ex_fst names(1) [symmetric] by (cases fs) auto
  ultimately show ?thesis
    by (subst gobDecode.simps) (simp only: d prod.case tdesc.case gval.case gmsg.case if_True option.map)
qed

lemma overlay_self: "(\<And>i. i < length fs \<Longrightarrow> omitted (snd (fs ! i)) \<Longrightarrow> snd (ds ! i) = snd (fs ! i)) \<Longrightarrow>
   length ds = length fs \<Longrightarrow> overlayFields fs ds = fs"
  by (rule nth_equalityI) (auto simp: overlayFields_def case_prod_beta prod_eq_iff)

lemma struct_typed:
  assumes "has_type T (GStruct fs) t" and "desc T t = DStruct n fts"
  shows "map fst fs = map fst fts" and "i < length fs \<Longrightarrow> has_type T (snd (fs ! i)) (snd (fts ! i))"
proof -
  have *: "map fst fs = map fst fts" "list_all (\<lambda>((f, v), (f', ft)). has_type T v ft) (zip fs fts)"
    using assms by simp_all
  then show "map fst fs = map fst fts" by simp
  assume "i < length fs"
  moreover have "length fs = length fts" using *(1) by (metis length_map)
  ultimately show "has_type T (snd (fs ! i)) (snd (fts ! i))"
    using *(2) by (simp add: list_all_length case_prod_beta)
qed

lemma carried_struct:
  assumes T: "types_ok T" and IH: "\<And>f v. (f, v) \<in> set fs \<Longrightarrow> carried T R v"
  shows "carried T R (GStruct fs)"
  unfolding carried_def
proof (intro allI impI)
  fix t ind
  assume ty: "has_type T (GStruct fs) t" and port: "portable R (GStruct fs)"
  obtain n fts where d: "desc T t = DStruct n fts" using ty by (auto split: tdesc.splits)
  let ?ds = "map (\<lambda>(f, ft). (f, zero T ft)) fts"
  have names: "map fst fs = map fst fts" "map fst ?ds = map fst fts"
    using struct_typed(1) [OF ty d] by auto
  have len: "length fs = length fts" using names by (metis length_map)
  have sent: "gobEncode R (snd (fs ! i)) \<noteq> None \<and> gobDecode T R True (snd (fts ! i)) (zero T (snd (fts ! i)))
      (the (gobEncode R (snd (fs ! i)))) = Some (snd (fs ! i))"
    if "i < length fs" "\<not> omitted (snd (fs ! i))" for i
  proof -
    have "(fst (fs ! i), snd (fs ! i)) \<in> set fs" using that by simp
    then have "carried T R (snd (fs ! i))" "portable R (snd (fs ! i))"
      using IH port by (auto simp: list_all_iff)
    moreover have "\<not> isNilPtr (snd (fs ! i))" using that(2) by (auto elim: isNilPtr.elims)
    ultimately show ?thesis
      using carried_enc [OF _ struct_typed(2) [OF ty d that(1)]] by auto
  qed
  have exp: "fs \<noteq> []" "\<forall>(f, v) \<in> set fs. exported f"
    using port by (auto simp: list_all_iff)
  have "snd (?ds ! i) = snd (fs ! i)" if "i < length fs" "omitted (snd (fs ! i))" for i
    using omitted_zero [OF struct_typed(2) [OF ty d that(1)] _ that(2)] port that len
    by (auto simp: list_all_length case_prod_beta)
  then have "overlayFields fs ?ds = fs" using len by (intro overlay_self) auto
  moreover have "\<forall>(f, v) \<in> set fs. \<not> omitted v \<longrightarrow> gobEncode R v \<noteq> None"
    using sent by (force simp: in_set_conv_nth)
  moreover have "distinct (map fst fs)" unfolding names by (rule struct_distinct [OF T d])
  ultimately show "\<exists>m. gobEncode R (GStruct fs) = Some m \<and>
      gobDecode T R ind t (zero T t) m = Some (GStruct fs)"
    using struct_encode [OF exp] struct_decode [OF d _ names exp] sent len
    by (simp add: zero_struct [OF T d] case_prod_beta)
qed

lemma carried_leaf:
  "carried T R (GBool b)" "carried T R (GInt i)" "carried T R (GString s)" "carried T R (GIface None)"
  unfolding carried_def by (subst gobDecode.simps, force split: tdesc.splits)+

lemma carried_ptr:
  assumes "carried T R v"
  shows "carried T R (GPtr (Some v))"
  unfolding carried_def
proof (intro allI impI)
  fix t ind
  assume ty: "has_type T (GPtr (Some v)) t" and port: "portable R (GPtr (Some v))"
    and ind: "isPtr (GPtr (Some v)) \<longrightarrow> ind"
  obtain e where d: "desc T t = DPtr e" and v: "has_type T v e"
    using ty by (auto split: tdesc.splits)
  have "\<not> isPtr v" "\<not> isNilPtr v" "portable R v" using port by (auto elim: isNilPtr.elims)
  with assms v obtain m where "gobEncode R v = Some m" "gobDecode T R False e (zero T e) m = Some v"
    unfolding carried_def by blast
  moreover have "zero T t = GPtr None" by (subst zero.simps) (simp add: d)
  ultimately show "\<exists>m. gobEncode R (GPtr (Some v)) = Some m \<and>
      gobDecode T R ind t (zero T t) m = Some (GPtr (Some v))"
    using ind by (subst gobDecode.simps) (simp add: d)
qed

lemma carried_slice:
  assumes IH: "\<And>v. v \<in> set vs \<Longrightarrow> carried T R v"
  shows "carried T R (GSlice vs)"
  unfolding carried_def
proof (intro allI impI)
  fix t ind
  assume ty: "has_type T (GSlice vs) t" and port: "portable R (GSlice vs)"
  obtain e where d: "desc T t = DSlice e" and tys: "\<And>v. v \<in> set vs \<Longrightarrow> has_type T v e"
    using ty by (auto split: tdesc.splits simp: list_all_iff)
  let ?ms = "map (\<lambda>v. the (gobEncode R v)) vs"
  have one: "gobEncode R v = Some (the (gobEncode R v))"
    "gobDecode T R True e (zero T e) (the (gobEncode R v)) = Some v" if "v \<in> set vs" for v
    using carried_enc [OF IH [OF that] tys [OF that]] port that by (auto simp: list_all_iff)
  have "those (map (gobEncode R) vs) = Some ?ms"
    using one(1) by (intro those_map_Some)
  moreover have z: "zero T t = GSlice []" by (subst zero.simps) (simp add: d)
  moreover have "those (map (\<lambda>(w, n). gobDecode T R True e w n)
      (zip (replicate (length vs) (zero T e)) ?ms)) = Some vs"
    using one(2) by (intro those_map_nth) auto
  ultimately show "\<exists>m. gobEncode R (GSlice vs) = Some m \<and>
      gobDecode T R ind t (zero T t) m = Some (GSlice vs)"
    by (subst gobDecode.simps) (simp add: d)
qed

lemma carried_map:
  assumes IH: "\<And>a b. (a, b) \<in> set kvs \<Longrightarrow> carried T R a \<and> carried T R b"
  shows "carried T R (GMap kvs)"
  unfolding carried_def
proof (intro allI impI)
  fix t ind
  assume ty: "has_type T (GMap kvs) t" and port: "portable R (GMap kvs)"
  obtain e k where d: "desc T t = DMap e k"
    and tys: "\<And>a b. (a, b) \<in> set kvs \<Longrightarrow> has_type T a k \<and> has_type T b e"
    using ty by (auto split: tdesc.splits simp: list_all_iff)
  let ?c = "\<lambda>v. the (gobEncode R v)"
  let ?ms = "map (\<lambda>(a, b). (?c a, ?c b)) kvs"
  have one: "gobEncode R a = Some (?c a)" "gobEncode R b = Some (?c b)"
    "gobDecode T R True k (zero T k) (?c a) = Some a" "gobDecode T R True e (zero T e) (?c b) = Some b"
    if "(a, b) \<in> set kvs" for a b
    using carried_enc [of T R a k] carried_enc [of T R b e] IH [OF that] tys [OF that] port that
    by (auto simp: list_all_iff)
  have enc: "do { m \<leftarrow> gobEncode R a; n \<leftarrow> gobEncode R b; Some (m, n) } = Some (?c a, ?c b)"
    and dec: "do { x \<leftarrow> gobDecode T R True k (zero T k) (?c a);
        y \<leftarrow> gobDecode T R True e (zero T e) (?c b); Some (x, y) } = Some (a, b)"
    if "(a, b) \<in> set kvs" for a b
    using one [OF that] by (cases "gobEncode R a"; cases "gobEncode R b"; simp)+
  have "those (map (\<lambda>(a, b). do { m \<leftarrow> gobEncode R a; n \<leftarrow> gobEncode R b; Some (m, n) }) kvs) = Some ?ms"
    using enc by (intro those_map_Some) auto
  moreover have z: "zero T t = GMap []" by (subst zero.simps) (simp add: d)
  moreover have "those (map (\<lambda>(a, b). do {
      x \<leftarrow> gobDecode T R True k (zero T k) a; y \<leftarrow> gobDecode T R True e (zero T e) b;
      Some (x, y) }) ?ms) = Some kvs"
    using dec by (intro those_map_nth) (simp_all add: case_prod_beta)
  moreover have "foldl (\<lambda>kvs (x, y). AList.update x y kvs) [] kvs = kvs"
    using port by (subst foldl_update_fresh) simp_all
  ultimately show "\<exists>m. gobEncode R (GMap kvs) = Some m \<and>
      gobDecode T R ind t (zero T t) m = Some (GMap kvs)"
    by (subst gobDecode.simps) (simp add: d)
qed

lemma carried_iface:
  assumes "carried T R v"
  shows "carried T R (GIface (Some (t', v)))"
  unfolding carried_def
proof (intro allI impI)
  fix t ind
  assume ty: "has_type T (GIface (Some (t', v))) t" and port: "portable R (GIface (Some (t', v)))"
  have d: "desc T t = DIface" and v: "has_type T v t'"
    using ty by (auto split: tdesc.splits)
  have p: "t' \<in> set R" "\<not> isNilPtr v" "portable R v" using port by auto
  with assms v obtain m where "gobEncode R v = Some m" "gobDecode T R True t' (zero T t') m = Some v"
    unfolding carried_def by blast
  with p show "\<exists>m. gobEncode R (GIface (Some (t', v))) = Some m \<and>
      gobDecode T R ind t (zero T t) m = Some (GIface (Some (t', v)))"
    by (subst gobDecode.simps) (simp add: d)
qed

lemma all_carried:
  assumes T: "types_ok T"
  shows "carried T R v"
proof (induction v rule: measure_induct_rule [of size])
  case (less v)
  show ?case
  proof (cases v)
    case (GStruct fs)
    have "size w < size v" if "(f, w) \<in> set fs" for f w
      using size_list_estimation' [OF that, of "size w" "size_prod (\<lambda>x. 0) size"] by (simp add: GStruct)
    with less show ?thesis unfolding GStruct by (blast intro: carried_struct [OF T])
  next
    case (GPtr p)
    show ?thesis
    proof (cases p)
      case None
      then show ?thesis by (simp add: carried_def GPtr)
    next
      case (Some w)
      then show ?thesis using less [of w] by (simp add: GPtr carried_ptr)
    qed
  next
    case (GSlice vs)
    have "size w < size v" if "w \<in> set vs" for w
      using size_list_estimation' [OF that, of "size w" size] by (simp add: GSlice)
    with less show ?thesis unfolding GSlice by (blast intro: carried_slice)
  next
    case (GMap kvs)
    have "size a < size v" "size b < size v" if "(a, b) \<in> set kvs" for a b
      using size_list_estimation' [OF that, of "size a" "size_prod size size"]
        size_list_estimation' [OF that, of "size b" "size_prod size size"] by (simp_all add: GMap)
    with less show ?thesis unfolding GMap by (blast intro: carried_map)
  next
    case (GIface x)
    show ?thesis
    proof (cases x)
      case None
      then show ?thesis by (simp add: GIface carried_leaf)
    next
      case (Some p)
      then show ?thesis using less [of "snd p"] by (cases p) (simp add: GIface carried_iface)
    qed
  qed (simp_all add: carried_leaf)
qed

section \<open>The warning of checkDefault\<close>

fun scalar :: "tdesc \<Rightarrow> bool" where
  "scalar (DBool _) = True"
| "scalar (DInt _) = True"
| "scalar (DString _) = True"
| "scalar _ = False"

text \<open>A struct of numbers, strings and booleans, as the replies of the RPCs are.\<close>

definition flat :: "types \<Rightarrow> tyid \<Rightarrow> bool" where
  "flat T t = (case desc T t of DStruct _ fts \<Rightarrow> list_all (\<lambda>(f, ft). scalar (desc T ft)) fts | _ \<Rightarrow> False)"

lemma scalar_value:
  assumes "scalar (desc T t)" and "has_type T v t"
  obtains b n where "v = GBool b" "desc T t = DBool n" | i n where "v = GInt i" "desc T t = DInt n"
    | s n where "v = GString s" "desc T t = DString n"
  using assms
proof (cases v)
  case (GPtr p)
  then show ?thesis using assms by (cases p) (auto elim: scalar.elims split: tdesc.splits)
next
  case (GIface x)
  then show ?thesis using assms by (cases x) (auto elim: scalar.elims split: tdesc.splits)
qed (use assms that in \<open>auto elim: scalar.elims split: tdesc.splits\<close>)

lemma scalar_decode:
  assumes "scalar (desc T t)" and "has_type T v t"
  shows "gobEncode R v \<noteq> None" and "gobDecode T R ind t dst (the (gobEncode R v)) = Some v"
  using assms by (auto elim!: scalar_value simp: gobDecode.simps [of T R ind t dst])

text \<open>Decoding into a struct of scalars overlays what was sent on what the struct held.\<close>

lemma flat_decode:
  assumes T: "types_ok T" and flat: "flat T t" and ty: "has_type T (GStruct fs) t"
    and dst: "has_type T (GStruct ds) t" and port: "portable R (GStruct fs)"
  shows "\<exists>m. gobEncode R (GStruct fs) = Some m \<and>
    gobDecode T R ind t (GStruct ds) m = Some (GStruct (overlayFields fs ds))"
proof -
  obtain n fts where d: "desc T t = DStruct n fts" using ty by (auto split: tdesc.splits)
  have names: "map fst fs = map fst fts" "map fst ds = map fst fts"
    using struct_typed(1) [OF ty d] struct_typed(1) [OF dst d] .
  have len: "length fs = length fts" using names by (metis length_map)
  have sc: "scalar (desc T (snd (fts ! i)))" if "i < length fs" for i
    using flat d that len by (simp add: flat_def list_all_length case_prod_beta)
  note sent = scalar_decode [OF sc struct_typed(2) [OF ty d]]
  have exp: "fs \<noteq> []" "\<forall>(f, v) \<in> set fs. exported f"
    using port by (auto simp: list_all_iff)
  have "\<forall>(f, v) \<in> set fs. \<not> omitted v \<longrightarrow> gobEncode R v \<noteq> None"
    using sent(1) by (force simp: in_set_conv_nth)
  moreover have "distinct (map fst fs)" unfolding names by (rule struct_distinct [OF T d])
  ultimately show ?thesis
    using struct_encode [OF exp] struct_decode [OF d _ names exp] sent(2) by blast
qed

lemma checkLeaf_mono:
  "checkLeaf n z ro name g = Some g' \<Longrightarrow>
   \<not> ro \<and> registered g' = registered g \<and> errorCount g \<le> errorCount g' \<and>
   (errorCount g' = errorCount g \<longrightarrow> z)"
  by (auto simp: checkLeaf_def split: if_splits)

lemma scalar_silent:
  assumes "scalar (desc T t)" and "has_type T v t" and "depth \<le> 3"
    and "checkDefault1 T ro t v depth name g = Some g'"
  shows "\<not> ro \<and> registered g' = registered g \<and> errorCount g \<le> errorCount g' \<and>
    (errorCount g' = errorCount g \<longrightarrow> zero T t = v)"
  using assms(3,4) by (cases rule: scalar_value [OF assms(1,2)])
    (auto dest!: checkLeaf_mono simp: zero.simps [of T t])

lemma scalar_checked:
  assumes "scalar (desc T t)" and "has_type T v t" and "depth \<le> 3"
  shows "\<exists>g'. checkDefault1 T False t v depth name g = Some g'"
    and "checkDefault1 T True t v depth name g = None"
  using assms(3) by (cases rule: scalar_value [OF assms(1,2)]; simp add: checkLeaf_def)+

lemma fields_silent:
  "list_all2 (\<lambda>(f, ft) (f', v). f = f' \<and> scalar (desc T ft) \<and> has_type T v ft) fts ds \<Longrightarrow> depth \<le> 2 \<Longrightarrow>
   checkDefaultFields T ro fts ds depth name g = Some g' \<Longrightarrow>
   registered g' = registered g \<and> errorCount g \<le> errorCount g' \<and>
   (errorCount g' = errorCount g \<longrightarrow> ds = map (\<lambda>(f, ft). (f, zero T ft)) fts)"
proof (induction fts ds arbitrary: g rule: list_all2_induct)
  case Nil
  then show ?case by simp
next
  case (Cons x fts y ds)
  obtain f ft v where xy: "x = (f, ft)" "y = (f, v)" "scalar (desc T ft)" "has_type T v ft"
    using Cons.hyps by auto
  from Cons.prems xy obtain g1 where
    one: "checkDefault1 T (ro \<or> \<not> exported f) ft v (depth + 1) (fieldPath name f) g = Some g1"
    and rest: "checkDefaultFields T ro fts ds depth name g1 = Some g'"
    by (auto simp: bind_Some_iff)
  from scalar_silent [OF xy(3,4) _ one] Cons.IH [OF Cons.prems(1) rest] Cons.prems(1) show ?case
    by (auto simp: xy)
qed

lemma fields_checked:
  "list_all2 (\<lambda>(f, ft) (f', v). f = f' \<and> scalar (desc T ft) \<and> has_type T v ft) fts ds \<Longrightarrow> depth \<le> 2 \<Longrightarrow>
   (checkDefaultFields T False fts ds depth name g = None) =
   list_ex (\<lambda>(f, ft). \<not> exported f) fts"
proof (induction fts ds arbitrary: g rule: list_all2_induct)
  case Nil
  then show ?case by simp
next
  case (Cons x fts y ds)
  obtain f ft v where xy: "x = (f, ft)" "y = (f, v)" "scalar (desc T ft)" "has_type T v ft"
    using Cons.hyps by auto
  have depth: "depth + 1 \<le> 3" using Cons.prems by simp
  show ?case
    using Cons.IH [OF Cons.prems] scalar_checked [OF xy(3,4) depth, of "fieldPath name f" g]
    by (cases "exported f") (auto simp: xy)
qed

lemma checkValue_total:
  assumes "types_ok T" and "t < length T" and "set (checked g) \<subseteq> {..<length T}"
  obtains g' where "checkValue T t g = Some g'" and "set (checked g') \<subseteq> {..<length T}"
    and "registered g' = registered g" and "errorCount g \<le> errorCount g'"
proof -
  have "card ({..<length T} - set (checked g)) < Suc (length T)"
    using card_mono [of "{..<length T}" "{..<length T} - set (checked g)"] by auto
  from checkType_explores(1) [OF assms(2,3) this assms(1)] obtain g' where
    g': "checkValue T t g = Some g'" and ex: "explored T g g' {t} 0"
    unfolding checkValue_def by blast
  have "0 \<le> (\<Sum>u \<in> set (checked g') - set (checked g). lowerCase T u)"
    by (intro sum_nonneg) (auto simp: lowerCase_def lower_def split: tdesc.splits)
  with g' ex that show ?thesis by (simp add: explored_def)
qed

lemma ptrTo_desc:
  assumes "DPtr t \<in> set T"
  shows "ptrTo T t < length T" and "desc T (ptrTo T t) = DPtr t"
proof -
  show lt: "ptrTo T t < length T"
    using assms unfolding ptrTo_def by (induction T) auto
  show "desc T (ptrTo T t) = DPtr t"
    using nth_length_takeWhile [of "\<lambda>d. d \<noteq> DPtr t" T] lt by (auto simp: desc_def ptrTo_def)
qed

lemma flat_struct:
  assumes "flat T t" and "has_type T dst t"
  obtains n fts ds where "desc T t = DStruct n fts" and "dst = GStruct ds"
    and "list_all2 (\<lambda>(f, ft) (f', v). f = f' \<and> scalar (desc T ft) \<and> has_type T v ft) fts ds"
proof -
  obtain n fts where d: "desc T t = DStruct n fts" and sc: "list_all (\<lambda>(f, ft). scalar (desc T ft)) fts"
    using assms(1) by (auto simp: flat_def split: tdesc.splits)
  obtain ds where ds: "dst = GStruct ds"
    using assms(2) d by (cases "(T, dst, t)" rule: has_type.cases) auto
  have names: "map fst ds = map fst fts" and ty: "\<And>i. i < length ds \<Longrightarrow> has_type T (snd (ds ! i)) (snd (fts ! i))"
    using struct_typed [OF assms(2) [unfolded ds] d] by auto
  have len: "length ds = length fts" using names by (metis length_map)
  have "list_all2 (\<lambda>(f, ft) (f', v). f = f' \<and> scalar (desc T ft) \<and> has_type T v ft) fts ds"
    unfolding list_all2_conv_all_nth
  proof (intro conjI allI impI)
    fix i assume i: "i < length fts"
    have "fst (ds ! i) = fst (fts ! i)" using names i len by (metis nth_map)
    with ty [of i] sc i len show
      "(case fts ! i of (f, ft) \<Rightarrow> \<lambda>(f', v). f = f' \<and> scalar (desc T ft) \<and> has_type T v ft) (ds ! i)"
      by (simp add: list_all_length case_prod_beta)
  qed (simp add: len)
  with d ds that show ?thesis by blast
qed

lemma checkDefault_flat:
  assumes d: "desc T t = DStruct n fts" and p: "DPtr t \<in> set T"
  shows "checkDefault T (Some (ptrTo T t, GPtr (Some (GStruct ds)))) g =
    checkDefaultFields T False fts ds 2 [] g"
  by (simp add: checkDefault_def ptrTo_desc [OF p] d numeral_2_eq_2)

text \<open>
  Property C39.  A struct of scalars with upper-case field names that is encoded and then
  decoded into a variable of its type: decoding succeeds, every field that was sent has the
  value that was sent, every field that was not sent, because it has the zero value, keeps
  what the variable held; and if \<^verbatim>\<open>checkDefault\<close> did not complain the result is the value sent.
\<close>

theorem silent_decode_gives_sent:
  assumes T: "types_ok T" and flat: "flat T t" and ty: "has_type T (GStruct fs) t"
    and dst: "has_type T (GStruct ds) t" and port: "portable (registered g) (GStruct fs)"
    and p: "DPtr t \<in> set T" and dom: "set (checked g) \<subseteq> {..<length T}"
  shows "\<exists>buf g1 w g2. Encode T t (GStruct fs) [] g = Some (buf, True, g1) \<and>
    Decode T t (GStruct ds) buf g1 = Some ([], w, True, g2) \<and>
    w = GStruct (overlayFields fs ds) \<and> (errorCount g2 = errorCount g1 \<longrightarrow> w = GStruct fs)"
proof -
  obtain n fts where d: "desc T t = DStruct n fts"
    and sc: "list_all2 (\<lambda>(f, ft) (f', v). f = f' \<and> scalar (desc T ft) \<and> has_type T v ft) fts ds"
    using flat_struct [OF flat dst] by blast
  have t: "t < length T" using d by (auto simp: desc_def split: if_splits)
  obtain g1 where g1: "checkValue T t g = Some g1" "set (checked g1) \<subseteq> {..<length T}"
    "registered g1 = registered g"
    by (rule checkValue_total [OF T t dom])
  obtain h where h: "checkValue T (ptrTo T t) g1 = Some h" "registered h = registered g1"
    "errorCount g1 \<le> errorCount h"
    by (rule checkValue_total [OF T ptrTo_desc(1) [OF p] g1(2)])
  have "\<not> list_ex (\<lambda>(f, ft). \<not> exported f) fts"
    using port unfolding list_ex_fst struct_typed(1) [OF ty d, symmetric]
    by (auto simp: list_all_iff list_ex_iff)
  then obtain g2 where g2: "checkDefaultFields T False fts ds 2 [] h = Some g2"
    using fields_checked [OF sc, of 2 "[]" h] by auto
  note silent = fields_silent [OF sc _ g2]
  obtain m where m: "gobEncode (registered g) (GStruct fs) = Some m"
    "gobDecode T (registered g) True t (GStruct ds) m = Some (GStruct (overlayFields fs ds))"
    using flat_decode [OF T flat ty dst port] by blast
  have "overlayFields fs ds = fs" if "errorCount g2 = errorCount g1"
  proof -
    have "GStruct ds = zero T t"
      using that silent h(3) by (simp add: zero_struct [OF T d])
    then have "gobDecode T (registered g) True t (GStruct ds) m = Some (GStruct fs)"
      using carried_enc(2) [OF all_carried [OF T] ty port] m(1) by simp
    with m(2) show ?thesis by simp
  qed
  moreover have "Encode T t (GStruct fs) [] g = Some ([m], True, g1)"
    using m(1) g1 by (simp add: Encode_def del: gobEncode.simps)
  moreover have "Decode T t (GStruct ds) [m] g1 = Some ([], GStruct (overlayFields fs ds), True, g2)"
    using m(2) g1(3) h silent g2 by (simp add: Decode_def checkDefault_flat [OF d p])
  ultimately show ?thesis by blast
qed

text \<open>
  \<^verbatim>\<open>labgob\<close> means to warn about lower-case field names.  Decoding into a struct of
  scalars panics exactly when the struct has such a field: \<^verbatim>\<open>checkDefault\<close> reads every field
  with \<^verbatim>\<open>value.Interface()\<close>, which \<^verbatim>\<open>reflect\<close> refuses for them.
\<close>

theorem decode_panics_on_lower_case:
  assumes T: "types_ok T" and flat: "flat T t" and dst: "has_type T dst t"
    and p: "DPtr t \<in> set T" and dom: "set (checked g) \<subseteq> {..<length T}"
  shows "(Decode T t dst buf g = None) = (lowerCase T t \<noteq> 0)"
proof -
  obtain n fts ds where d: "desc T t = DStruct n fts" "dst = GStruct ds"
    and sc: "list_all2 (\<lambda>(f, ft) (f', v). f = f' \<and> scalar (desc T ft) \<and> has_type T v ft) fts ds"
    by (rule flat_struct [OF flat dst])
  obtain h where h: "checkValue T (ptrTo T t) g = Some h"
    by (rule checkValue_total [OF T ptrTo_desc(1) [OF p] dom])
  have "(Decode T t dst buf g = None) = (checkDefaultFields T False fts ds 2 [] h = None)"
    by (cases "checkDefaultFields T False fts ds 2 [] h")
      (auto simp: Decode_def h d checkDefault_flat [OF d(1) p] split: list.splits option.splits)
  also have "\<dots> = list_ex (\<lambda>(f, ft). \<not> exported f) fts"
    by (rule fields_checked [OF sc]) simp
  also have "\<dots> = (lowerCase T t \<noteq> 0)"
    by (auto simp: lowerCase_def lower_def d filter_empty_conv list_ex_iff)
  finally show ?thesis .
qed

section \<open>Examples\<close>

text \<open>
  The reply of a vote, a list node that mentions itself and has a lower-case field, and a
  struct with a lower-case field.
\<close>

definition exampleTypes :: types where
  "exampleTypes = [DInt ''int'', DBool ''bool'',
     DStruct ''RequestVoteReply'' [(''Term'', 0), (''VoteGranted'', 1)], DPtr 2,
     DPtr 5, DStruct ''node'' [(''value'', 0), (''Next'', 4)],
     DStruct ''point'' [(''X'', 0), (''y'', 0)], DPtr 6]"

lemma exampleTypes_ok: "types_ok exampleTypes"
  by code_simp

theorem check_type_reports_once_witness:
  "\<exists>g'. checkValue exampleTypes 5 labgob_init = Some g' \<and>
    set (checked g') = set (checked labgob_init) \<union> {u. mentions exampleTypes 5 u} \<and>
    errorCount g' = errorCount labgob_init +
      (\<Sum>u \<in> {u. mentions exampleTypes 5 u} - set (checked labgob_init). lowerCase exampleTypes u)"
  by (rule check_type_reports_once [OF exampleTypes_ok]) (simp_all add: exampleTypes_def labgob_init_def)

theorem silent_decode_gives_sent_witness:
  "\<exists>buf g1 w g2.
    Encode exampleTypes 2 (GStruct [(''Term'', GInt 4), (''VoteGranted'', GBool False)]) [] labgob_init =
      Some (buf, True, g1) \<and>
    Decode exampleTypes 2 (GStruct [(''Term'', GInt 3), (''VoteGranted'', GBool True)]) buf g1 =
      Some ([], w, True, g2) \<and>
    w = GStruct [(''Term'', GInt 4), (''VoteGranted'', GBool True)]"
proof -
  let ?fs = "[(''Term'', GInt 4), (''VoteGranted'', GBool False)]"
  let ?ds = "[(''Term'', GInt 3), (''VoteGranted'', GBool True)]"
  have "overlayFields ?fs ?ds = [(''Term'', GInt 4), (''VoteGranted'', GBool True)]"
    by code_simp
  moreover have "flat exampleTypes 2" "has_type exampleTypes (GStruct ?fs) 2"
    "has_type exampleTypes (GStruct ?ds) 2" "portable (registered labgob_init) (GStruct ?fs)"
    "DPtr 2 \<in> set exampleTypes" "set (checked labgob_init) \<subseteq> {..<length exampleTypes}"
    by code_simp+
  ultimately show ?thesis
    using silent_decode_gives_sent [OF exampleTypes_ok, of 2 ?fs ?ds labgob_init] by metis
qed

theorem decode_panics_on_lower_case_witness:
  "Decode exampleTypes 6 (GStruct [(''X'', GInt 0), (''y'', GInt 0)]) [] labgob_init = None"
proof -
  let ?v = "GStruct [(''X'', GInt 0), (''y'', GInt 0)]"
  have "flat exampleTypes 6" "has_type exampleTypes ?v 6" "DPtr 6 \<in> set exampleTypes"
    "set (checked labgob_init) \<subseteq> {..<length exampleTypes}" "lowerCase exampleTypes 6 \<noteq> 0"
    by code_simp+
  then show ?thesis
    using decode_panics_on_lower_case [OF exampleTypes_ok, of 6 ?v labgob_init "[]"] by blast
qed

end
