(* ===== verification/Lab_RPC.thy ===== *)
theory Lab_RPC
  imports Lab_Gob_Carry "HOL-Library.Word"
begin

text \<open>
  The simulated network of \<^verbatim>\<open>src/labrpc/labrpc.go\<close>: client ends, servers, services, dispatch
  by name, and the goroutine \<^verbatim>\<open>ProcessReq\<close> that carries one request.  Methods of
  \<^verbatim>\<open>Network\<close> hold \<^verbatim>\<open>rn.mu\<close> and are functions on the record of its fields.  \<^verbatim>\<open>ProcessReq\<close>
  runs beside them; it is cut where it takes the lock, waits or starts a goroutine, and
  \<open>nexec\<close> and \<open>nreach\<close> interleave the pieces.  The choices of \<^verbatim>\<open>math/rand\<close> are arguments, sleeps
  have no effect of their own.

  Names are \<^verbatim>\<open>interface{}\<close> values, \<^term>\<open>None\<close> where they are nil; a \<^verbatim>\<open>*Server\<close> is an address
  of a store, since \<^verbatim>\<open>IsServerDead\<close> compares pointers.  \<^verbatim>\<open>log.Fatalf\<close> ends the program, like a
  panic.  The objects that methods are called on are a state \<^verbatim>\<open>'o\<close> that the method changes
  in one step.
\<close>

section \<open>Services and servers\<close>

datatype iname = NStr string | NInt int

text \<open>
  What \<^verbatim>\<open>reflect\<close> tells of a method, its receiver bound: \<open>mArgs\<close> is the type of its first
  parameter, \<open>mReply\<close> the type that its second one points to, if it is a pointer.
\<close>

record 'o rpcMethod =
  mName :: string
  mPkgPath :: string
  mNumIn :: nat
  mArgs :: tyid
  mReply :: "tyid option"
  mNumOut :: nat
  mFunc :: "gval \<Rightarrow> gval \<Rightarrow> 'o \<Rightarrow> (gval \<times> 'o) outcome"

record 'o Service =
  svcName :: string
  svcMethods :: "string \<rightharpoonup> 'o rpcMethod"

definition suitable :: "'o rpcMethod \<Rightarrow> bool" where
  "suitable m = (\<not> (mPkgPath m \<noteq> [] \<or> mNumIn m \<noteq> 3 \<or> mReply m = None \<or> mNumOut m \<noteq> 0))"

definition MakeService :: "string \<Rightarrow> 'o rpcMethod list \<Rightarrow> 'o Service" where
  "MakeService name ms = \<lparr>svcName = name,
     svcMethods = foldl (\<lambda>M m. if suitable m then M(mName m \<mapsto> m) else M) Map.empty ms\<rparr>"

record 'o Server =
  services :: "string \<rightharpoonup> 'o Service"
  srvCount :: int

definition MakeServer :: "'o Server" where
  "MakeServer = \<lparr>services = Map.empty, srvCount = 0\<rparr>"

definition AddService :: "'o Service \<Rightarrow> 'o Server \<Rightarrow> 'o Server" where
  "AddService svc rs = rs\<lparr>services := (services rs)(svcName svc \<mapsto> svc)\<rparr>"

record reqMsg =
  reqEnd :: "iname option"
  svcMeth :: string
  argsType :: tyid
  reqArgs :: "gmsg list"

record replyMsg =
  repOk :: bool
  repBuf :: "gmsg list"

definition noReply :: replyMsg where
  "noReply = \<lparr>repOk = False, repBuf = []\<rparr>"

text \<open>\<^verbatim>\<open>strings.LastIndex(s, ".")\<close>.\<close>

fun lastDot :: "string \<Rightarrow> int" where
  "lastDot [] = -1"
| "lastDot (c # cs) =
     (if lastDot cs \<noteq> -1 then lastDot cs + 1 else if c = CHR ''.'' then 0 else -1)"

definition serviceDispatch :: "types \<Rightarrow> 'o Service \<Rightarrow> string \<Rightarrow> reqMsg \<Rightarrow> labgob \<Rightarrow> 'o \<Rightarrow>
    (replyMsg \<times> labgob \<times> 'o) outcome" where
  "serviceDispatch T svc methname req g obj = (case svcMethods svc methname of
     None \<Rightarrow> Panics
   | Some method \<Rightarrow>
       (case Decode T (argsType req) (zero T (argsType req)) (reqArgs req) g of
          None \<Rightarrow> Panics
        | Some (_, args, _, g1) \<Rightarrow>
            (case mReply method of
               None \<Rightarrow> Panics
             | Some replyType \<Rightarrow>
                 if mArgs method \<noteq> argsType req then Panics
                 else case mFunc method args (zero T replyType) obj of
                   Blocks \<Rightarrow> Blocks
                 | Panics \<Rightarrow> Panics
                 | Done (reply, obj1) \<Rightarrow>
                     (case Encode T (ptrTo T replyType) (GPtr (Some reply)) [] g1 of
                        None \<Rightarrow> Panics
                      | Some (buf, _, g2) \<Rightarrow> Done (\<lparr>repOk = True, repBuf = buf\<rparr>, g2, obj1)))))"

text \<open>
  The count goes up under the lock before anything else; then the request is passed on.
\<close>

definition serverDispatch :: "types \<Rightarrow> 'o Server \<Rightarrow> reqMsg \<Rightarrow> labgob \<Rightarrow> 'o \<Rightarrow>
    'o Server \<times> (replyMsg \<times> labgob \<times> 'o) outcome" where
  "serverDispatch T rs req g obj =
     (rs\<lparr>srvCount := srvCount rs + 1\<rparr>,
      let dot = lastDot (svcMeth req) in
      case (slice_to (svcMeth req) dot, slice_from (svcMeth req) (dot + 1)) of
        (Some serviceName, Some methodName) \<Rightarrow>
          (case services rs serviceName of
             Some service \<Rightarrow> serviceDispatch T service methodName req g obj
           | None \<Rightarrow> Panics)
      | _ \<Rightarrow> Panics)"

section \<open>The network\<close>

record Network =
  reliable :: bool
  longDelays :: bool
  longReordering :: bool
  ends :: "iname option \<rightharpoonup> unit"
  enabled :: "iname option \<rightharpoonup> bool"
  servers :: "iname option \<rightharpoonup> nat option"
  connections :: "iname option \<rightharpoonup> iname option"
  netDone :: bool
  netCount :: "32 word"

definition MakeNetwork :: Network where
  "MakeNetwork = \<lparr>reliable = True, longDelays = False, longReordering = False,
     ends = Map.empty, enabled = Map.empty, servers = Map.empty, connections = Map.empty,
     netDone = False, netCount = 0\<rparr>"

text \<open>Closing a closed channel panics.\<close>

definition Cleanup :: "Network \<Rightarrow> Network option" where
  "Cleanup rn = (if netDone rn then None else Some (rn\<lparr>netDone := True\<rparr>))"

definition Reliable :: "bool \<Rightarrow> Network \<Rightarrow> Network" where
  "Reliable yes rn = rn\<lparr>reliable := yes\<rparr>"

definition LongReordering :: "bool \<Rightarrow> Network \<Rightarrow> Network" where
  "LongReordering yes rn = rn\<lparr>longReordering := yes\<rparr>"

definition LongDelays :: "bool \<Rightarrow> Network \<Rightarrow> Network" where
  "LongDelays yes rn = rn\<lparr>longDelays := yes\<rparr>"

text \<open>Reading a Go map gives the zero value for a key that is not there.\<close>

definition isEnabled :: "Network \<Rightarrow> iname option \<Rightarrow> bool" where
  "isEnabled rn e = (case enabled rn e of Some b \<Rightarrow> b | None \<Rightarrow> False)"

definition connection :: "Network \<Rightarrow> iname option \<Rightarrow> iname option" where
  "connection rn e = (case connections rn e of Some s \<Rightarrow> s | None \<Rightarrow> None)"

definition serverAt :: "Network \<Rightarrow> iname option \<Rightarrow> nat option" where
  "serverAt rn s = (case servers rn s of Some a \<Rightarrow> a | None \<Rightarrow> None)"

definition ReadEndnameInfo :: "Network \<Rightarrow> iname option \<Rightarrow>
    bool \<times> iname option \<times> nat option \<times> bool \<times> bool" where
  "ReadEndnameInfo rn e =
     (isEnabled rn e, connection rn e,
      if connection rn e \<noteq> None then serverAt rn (connection rn e) else None,
      reliable rn, longReordering rn)"

definition IsServerDead :: "Network \<Rightarrow> iname option \<Rightarrow> iname option \<Rightarrow> nat option \<Rightarrow> bool" where
  "IsServerDead rn e s a = (isEnabled rn e = False \<or> serverAt rn s \<noteq> a)"

text \<open>\<^term>\<open>None\<close> when the name is taken (\<^verbatim>\<open>log.Fatalf\<close>).\<close>

definition MakeEnd :: "iname option \<Rightarrow> Network \<Rightarrow> Network option" where
  "MakeEnd e rn = (case ends rn e of
     Some _ \<Rightarrow> None
   | None \<Rightarrow> Some (rn\<lparr>ends := (ends rn)(e \<mapsto> ()), enabled := (enabled rn)(e \<mapsto> False),
       connections := (connections rn)(e \<mapsto> None)\<rparr>))"

definition AddServer :: "iname option \<Rightarrow> nat option \<Rightarrow> Network \<Rightarrow> Network" where
  "AddServer s a rn = rn\<lparr>servers := (servers rn)(s \<mapsto> a)\<rparr>"

definition DeleteServer :: "iname option \<Rightarrow> Network \<Rightarrow> Network" where
  "DeleteServer s rn = rn\<lparr>servers := (servers rn)(s \<mapsto> None)\<rparr>"

definition Connect :: "iname option \<Rightarrow> iname option \<Rightarrow> Network \<Rightarrow> Network" where
  "Connect e s rn = rn\<lparr>connections := (connections rn)(e \<mapsto> s)\<rparr>"

definition Enable :: "iname option \<Rightarrow> bool \<Rightarrow> Network \<Rightarrow> Network" where
  "Enable e b rn = rn\<lparr>enabled := (enabled rn)(e \<mapsto> b)\<rparr>"

text \<open>\<^verbatim>\<open>GetCount\<close> of a name without a server dereferences a nil pointer.\<close>

definition GetCount :: "(nat \<rightharpoonup> 'o Server) \<Rightarrow> iname option \<Rightarrow> Network \<Rightarrow> int option" where
  "GetCount heap s rn = do { a \<leftarrow> serverAt rn s; rs \<leftarrow> heap a; Some (srvCount rs) }"

definition GetTotalCount :: "Network \<Rightarrow> int" where
  "GetTotalCount rn = sint (netCount rn)"

section \<open>Calls\<close>

text \<open>The request that \<^verbatim>\<open>Call\<close> builds; an error of the encoder is ignored.\<close>

definition callRequest :: "types \<Rightarrow> iname option \<Rightarrow> string \<Rightarrow> tyid \<Rightarrow> gval \<Rightarrow> labgob \<Rightarrow>
    (reqMsg \<times> labgob) option" where
  "callRequest T e meth t args g = (case Encode T t args [] g of
     None \<Rightarrow> None
   | Some (buf, _, g1) \<Rightarrow>
       Some (\<lparr>reqEnd = e, svcMeth = meth, argsType = t, reqArgs = buf\<rparr>, g1))"

text \<open>What \<^verbatim>\<open>Call\<close> does with the reply: \<open>v\<close> of type \<open>t\<close> is what the reply pointer points to.\<close>

definition callReturn :: "types \<Rightarrow> tyid \<Rightarrow> gval \<Rightarrow> replyMsg \<Rightarrow> labgob \<Rightarrow>
    (bool \<times> gval \<times> labgob) outcome" where
  "callReturn T t v rep g =
     (if repOk rep then
        case Decode T t v (repBuf rep) g of
          None \<Rightarrow> Panics
        | Some (_, w, ok, g1) \<Rightarrow> if ok then Done (True, w, g1) else Panics
      else Done (False, v, g))"

section \<open>ProcessReq\<close>

text \<open>
  The goroutine of a request: not started, waiting for the handler of the server it found, with
  the flags it read, about to send its reply after a delay, and done.  Beside it the
  goroutine that calls the handler of the server with the given address: not started, started,
  in a handler that does not return, and done.
\<close>

datatype mainPhase =
    Arrived
  | Waiting "iname option" nat bool bool
  | Delayed replyMsg
  | Replied replyMsg

datatype dispPhase =
    NotStarted
  | Pending nat
  | Stuck nat
  | Ran nat replyMsg

record thread =
  tReq :: reqMsg
  tMain :: mainPhase
  tDisp :: dispPhase

text \<open>From the start to the wait: \<open>lose\<close> tells whether an unreliable network drops the request.\<close>

definition processBegin :: "Network \<Rightarrow> bool \<Rightarrow> thread \<Rightarrow> thread" where
  "processBegin rn lose th = (case ReadEndnameInfo rn (reqEnd (tReq th)) of
     (en, servername, server, rel, lr) \<Rightarrow>
       (case (en \<and> servername \<noteq> None, server) of
          (True, Some a) \<Rightarrow>
            if rel = False \<and> lose then th\<lparr>tMain := Replied noReply\<rparr>
            else th\<lparr>tMain := Waiting servername a rel lr, tDisp := Pending a\<rparr>
        | _ \<Rightarrow> th\<lparr>tMain := Delayed noReply\<rparr>))"

text \<open>
  From the end of the wait: with the reply of the handler, or without one after a time-out that
  found the server dead.
\<close>

definition processEnd :: "Network \<Rightarrow> bool \<Rightarrow> bool \<Rightarrow> replyMsg option \<Rightarrow> thread \<Rightarrow> thread" where
  "processEnd rn lose delay rep th = (case tMain th of
     Waiting servername a rel lr \<Rightarrow>
       let serverDead = IsServerDead rn (reqEnd (tReq th)) servername (Some a) in
       (case rep of
          None \<Rightarrow> th\<lparr>tMain := Replied noReply\<rparr>
        | Some reply \<Rightarrow>
            if serverDead then th\<lparr>tMain := Replied noReply\<rparr>
            else if rel = False \<and> lose then th\<lparr>tMain := Replied noReply\<rparr>
            else if lr \<and> delay then th\<lparr>tMain := Delayed reply\<rparr>
            else th\<lparr>tMain := Replied reply\<rparr>)
   | _ \<Rightarrow> th)"

record 'o world =
  net :: Network
  heap :: "nat \<rightharpoonup> 'o Server"
  gob :: labgob
  obj :: 'o
  threads :: "thread list"


section \<open>Executions\<close>

datatype netAct =
    AMakeEnd "iname option" | AAddServer "iname option" nat | ADeleteServer "iname option"
  | AConnect "iname option" "iname option" | AEnable "iname option" bool
  | AReliable bool | ALongReordering bool | ALongDelays bool | ACleanup
  | ACall "iname option" string tyid gval
  | ABegin nat bool | ADispatch nat | AReceive nat bool bool | ATimeout nat | AFire nat

definition dispatchThread :: "types \<Rightarrow> nat \<Rightarrow> 'o world \<Rightarrow> 'o world option" where
  "dispatchThread T i w = (let th = threads w ! i in
     case tDisp th of
       Pending a \<Rightarrow> (case heap w a of
         None \<Rightarrow> None
       | Some rs \<Rightarrow> (case serverDispatch T rs (tReq th) (gob w) (obj w) of
           (rs1, Done (rep, g1, o1)) \<Rightarrow>
             Some (w\<lparr>heap := (heap w)(a \<mapsto> rs1), gob := g1, obj := o1,
               threads := (threads w)[i := th\<lparr>tDisp := Ran a rep\<rparr>]\<rparr>)
         | (rs1, Blocks) \<Rightarrow>
             Some (w\<lparr>heap := (heap w)(a \<mapsto> rs1),
               threads := (threads w)[i := th\<lparr>tDisp := Stuck a\<rparr>]\<rparr>)
         | (rs1, Panics) \<Rightarrow> None))
     | _ \<Rightarrow> None)"

text \<open>
  One action; \<^term>\<open>None\<close> when it is not possible or ends the program.  \<open>ACall\<close> is the send of
  \<^verbatim>\<open>Call\<close> together with the receive of the goroutine that \<^verbatim>\<open>MakeNetwork\<close> starts, which counts
  the request and starts \<^verbatim>\<open>ProcessReq\<close>.
\<close>

definition callThread :: "types \<Rightarrow> iname option \<Rightarrow> string \<Rightarrow> tyid \<Rightarrow> gval \<Rightarrow> 'o world \<Rightarrow> 'o world option" where
  "callThread T e meth t args w =
     (if netDone (net w) \<or> ends (net w) e = None then None
      else case callRequest T e meth t args (gob w) of
        None \<Rightarrow> None
      | Some (req, g1) \<Rightarrow>
          Some (w\<lparr>net := (net w)\<lparr>netCount := netCount (net w) + 1\<rparr>, gob := g1,
            threads := threads w @ [\<lparr>tReq = req, tMain = Arrived, tDisp = NotStarted\<rparr>]\<rparr>))"

definition onThread :: "nat \<Rightarrow> (thread \<Rightarrow> thread option) \<Rightarrow> 'o world \<Rightarrow> 'o world option" where
  "onThread i f w = (if i < length (threads w)
     then map_option (\<lambda>th. w\<lparr>threads := (threads w)[i := th]\<rparr>) (f (threads w ! i)) else None)"

fun nexec :: "types \<Rightarrow> netAct \<Rightarrow> 'o world \<Rightarrow> 'o world option" where
  "nexec T (AMakeEnd e) w = map_option (\<lambda>rn. w\<lparr>net := rn\<rparr>) (MakeEnd e (net w))"
| "nexec T (AAddServer s a) w =
     (if heap w a = None then None else Some (w\<lparr>net := AddServer s (Some a) (net w)\<rparr>))"
| "nexec T (ADeleteServer s) w = Some (w\<lparr>net := DeleteServer s (net w)\<rparr>)"
| "nexec T (AConnect e s) w = Some (w\<lparr>net := Connect e s (net w)\<rparr>)"
| "nexec T (AEnable e b) w = Some (w\<lparr>net := Enable e b (net w)\<rparr>)"
| "nexec T (AReliable b) w = Some (w\<lparr>net := Reliable b (net w)\<rparr>)"
| "nexec T (ALongReordering b) w = Some (w\<lparr>net := LongReordering b (net w)\<rparr>)"
| "nexec T (ALongDelays b) w = Some (w\<lparr>net := LongDelays b (net w)\<rparr>)"
| "nexec T ACleanup w = map_option (\<lambda>rn. w\<lparr>net := rn\<rparr>) (Cleanup (net w))"
| "nexec T (ACall e meth t args) w = callThread T e meth t args w"
| "nexec T (ABegin i lose) w = onThread i (\<lambda>th.
     if tMain th = Arrived then Some (processBegin (net w) lose th) else None) w"
| "nexec T (ADispatch i) w = (if i < length (threads w) then dispatchThread T i w else None)"
| "nexec T (AReceive i lose delay) w = onThread i (\<lambda>th.
     case (tMain th, tDisp th) of
       (Waiting s a rel lr, Ran b rep) \<Rightarrow> Some (processEnd (net w) lose delay (Some rep) th)
     | _ \<Rightarrow> None) w"
| "nexec T (ATimeout i) w = onThread i (\<lambda>th.
     case tMain th of
       Waiting s a rel lr \<Rightarrow>
         if IsServerDead (net w) (reqEnd (tReq th)) s (Some a)
         then Some (processEnd (net w) False False None th) else None
     | _ \<Rightarrow> None) w"
| "nexec T (AFire i) w = onThread i (\<lambda>th.
     case tMain th of Delayed rep \<Rightarrow> Some (th\<lparr>tMain := Replied rep\<rparr>) | _ \<Rightarrow> None) w"

text \<open>
  Executions from a new network; the servers were made, with their services, and have served
  nothing.
\<close>

inductive nreach :: "types \<Rightarrow> (nat \<rightharpoonup> 'o Server) \<Rightarrow> labgob \<Rightarrow> 'o \<Rightarrow> 'o world \<Rightarrow> bool"
  for T h g ob where
  init: "nreach T h g ob \<lparr>net = MakeNetwork, heap = h, gob = g, obj = ob, threads = []\<rparr>"
| act: "nreach T h g ob w \<Longrightarrow> nexec T a w = Some w' \<Longrightarrow> nreach T h g ob w'"

fun nrun :: "types \<Rightarrow> netAct list \<Rightarrow> 'o world \<Rightarrow> 'o world option" where
  "nrun T [] w = Some w"
| "nrun T (a # as) w = Option.bind (nexec T a w) (nrun T as)"

lemma nrun_reach: "nreach T h g ob w \<Longrightarrow> nrun T as w = Some w' \<Longrightarrow> nreach T h g ob w'"
  by (induction as arbitrary: w) (auto simp: bind_Some_iff intro: nreach.act)

end
