(* ===== verification/Lab_RPC_Facts.thy ===== *)
theory Lab_RPC_Facts
  imports Lab_RPC
begin

text \<open>
  What the simulated network promises: a positive reply comes from a handler that ran on a
  server that was still there when the reply was looked at, the counts count, every call ends unless its handler does not
  return, and a call hands the arguments and the reply over as they are.
\<close>

section \<open>Every reachable state\<close>

fun served :: "nat \<Rightarrow> dispPhase \<Rightarrow> bool" where
  "served a (Stuck b) = (a = b)"
| "served a (Ran b rep) = (a = b)"
| "served a _ = False"

definition servedBy :: "nat \<Rightarrow> thread list \<Rightarrow> nat" where
  "servedBy a ths = length (filter (\<lambda>th. served a (tDisp th)) ths)"

fun runsAt :: "nat \<Rightarrow> dispPhase \<Rightarrow> bool" where
  "runsAt a (Pending b) = (a = b)"
| "runsAt a (Stuck b) = (a = b)"
| "runsAt a (Ran b rep) = (a = b)"
| "runsAt a NotStarted = False"

definition thread_ok :: "(nat \<rightharpoonup> 'o Server) \<Rightarrow> thread \<Rightarrow> bool" where
  "thread_ok hp th = ((\<forall>a. runsAt a (tDisp th) \<longrightarrow> hp a \<noteq> None) \<and> (case tMain th of
     Arrived \<Rightarrow> tDisp th = NotStarted
   | Waiting s a rel lr \<Rightarrow> runsAt a (tDisp th)
   | Delayed rep \<Rightarrow> repOk rep \<longrightarrow> (\<exists>a. tDisp th = Ran a rep)
   | Replied rep \<Rightarrow> repOk rep \<longrightarrow> (\<exists>a. tDisp th = Ran a rep)))"

definition world_ok :: "'o world \<Rightarrow> bool" where
  "world_ok w \<longleftrightarrow>
     list_all (thread_ok (heap w)) (threads w) \<and>
     (\<forall>s a. serverAt (net w) s = Some a \<longrightarrow> heap w a \<noteq> None) \<and>
     (\<forall>a rs. heap w a = Some rs \<longrightarrow> srvCount rs = int (servedBy a (threads w))) \<and>
     netCount (net w) = of_nat (length (threads w))"

lemma servedBy_append [simp]: "servedBy a (ths @ [th]) = servedBy a ths + (if served a (tDisp th) then 1 else 0)"
  by (simp add: servedBy_def)

lemma servedBy_update:
  "i < length ths \<Longrightarrow> servedBy a (ths[i := th]) + (if served a (tDisp (ths ! i)) then 1 else 0) =
     servedBy a ths + (if served a (tDisp th) then 1 else 0)"
proof (induction ths arbitrary: i)
  case (Cons x ths)
  then show ?case
  proof (cases i)
    case (Suc j)
    with Cons.IH [of j] Cons.prems show ?thesis by (simp add: servedBy_def split: if_splits)
  qed (simp add: servedBy_def)
qed simp

lemma world_ok_thread: "world_ok w \<Longrightarrow> i < length (threads w) \<Longrightarrow> thread_ok (heap w) (threads w ! i)"
  by (simp add: world_ok_def list_all_length)

text \<open>A step of one thread that does not run a handler.\<close>

lemma world_ok_onThread:
  assumes ok: "world_ok w" and ex: "onThread i f w = Some w'"
    and keep: "\<forall>th. f (threads w ! i) = Some th \<longrightarrow>
      thread_ok (heap w) th \<and> (\<forall>a. served a (tDisp th) = served a (tDisp (threads w ! i)))"
  shows "world_ok w'"
proof -
  obtain th where i: "i < length (threads w)" and th: "f (threads w ! i) = Some th"
    and w': "w' = w\<lparr>threads := (threads w)[i := th]\<rparr>"
    using ex by (auto simp: onThread_def split: if_splits)
  have "servedBy a ((threads w)[i := th]) = servedBy a (threads w)" for a
    using servedBy_update [OF i, of a th] keep th by auto
  then show ?thesis
    using ok keep th i unfolding w' world_ok_def
    by (auto simp: list_all_length nth_list_update)
qed

lemma processBegin_ok:
  assumes "world_ok w" and "thread_ok (heap w) th" and "tMain th = Arrived"
  shows "thread_ok (heap w) (processBegin (net w) lose th)"
    and "served a (tDisp (processBegin (net w) lose th)) = served a (tDisp th)"
proof -
  have th: "tDisp th = NotStarted" using assms(2,3) by (simp add: thread_ok_def)
  have hp: "heap w a \<noteq> None" if "serverAt (net w) s = Some a" for s a
    using assms(1) that by (simp add: world_ok_def)
  show "thread_ok (heap w) (processBegin (net w) lose th)"
    using th hp by (auto simp: processBegin_def ReadEndnameInfo_def thread_ok_def noReply_def
        split: bool.splits option.splits)
  show "served a (tDisp (processBegin (net w) lose th)) = served a (tDisp th)"
    using th by (auto simp: processBegin_def ReadEndnameInfo_def split: bool.splits option.splits)
qed

lemma processEnd_disp [simp]: "tDisp (processEnd rn lose delay rep th) = tDisp th"
  by (auto simp: processEnd_def Let_def split: mainPhase.splits option.splits)

lemma processEnd_ok:
  assumes "thread_ok hp th" and "\<forall>r. rep = Some r \<longrightarrow> (\<exists>a. tDisp th = Ran a r)"
  shows "thread_ok hp (processEnd rn lose delay rep th)"
  using assms by (cases rep)
    (auto simp: processEnd_def Let_def thread_ok_def noReply_def split: mainPhase.splits)

lemma world_ok_dispatch:
  assumes ok: "world_ok w" and i: "i < length (threads w)" and ex: "dispatchThread T i w = Some w'"
  shows "world_ok w'"
proof -
  let ?th = "threads w ! i"
  obtain a rs rs1 r where p: "tDisp ?th = Pending a" and rs: "heap w a = Some rs"
    and d: "serverDispatch T rs (tReq ?th) (gob w) (obj w) = (rs1, r)"
    using ex by (auto simp: dispatchThread_def Let_def split: dispPhase.splits option.splits prod.splits)
  have rs1: "srvCount rs1 = srvCount rs + 1"
    using d by (auto simp: serverDispatch_def)
  obtain ph where w': "net w' = net w" "heap w' = (heap w)(a \<mapsto> rs1)"
      "threads w' = (threads w)[i := ?th\<lparr>tDisp := ph\<rparr>]" and ph: "ph = Stuck a \<or> (\<exists>rep. ph = Ran a rep)"
    using ex p rs d by (auto simp: dispatchThread_def Let_def split: outcome.splits)
  have th: "thread_ok (heap w) ?th" by (rule world_ok_thread [OF ok i])
  have th': "thread_ok ((heap w)(a \<mapsto> rs1)) (?th\<lparr>tDisp := ph\<rparr>)"
    using th ph p by (auto simp: thread_ok_def split: mainPhase.splits)
  have "thread_ok ((heap w)(a \<mapsto> rs1)) (threads w ! j)" if "j < length (threads w)" for j
    using world_ok_thread [OF ok that] by (auto simp: thread_ok_def split: mainPhase.splits)
  moreover have "servedBy b ((threads w)[i := ?th\<lparr>tDisp := ph\<rparr>]) =
      servedBy b (threads w) + (if b = a then 1 else 0)" for b
    using servedBy_update [OF i, of b "?th\<lparr>tDisp := ph\<rparr>"] p ph by auto
  ultimately show ?thesis
    using ok th' rs rs1 i unfolding w' world_ok_def
    by (auto simp: list_all_length nth_list_update split: if_splits)
qed

lemma world_ok_call:
  assumes "world_ok w" and "callThread T e meth t args w = Some w'"
  shows "world_ok w'"
  using assms by (auto simp: callThread_def world_ok_def thread_ok_def serverAt_def split: if_splits option.splits)

lemma world_ok_net:
  assumes "world_ok w" and "netCount rn = netCount (net w)"
    and "\<forall>s a. serverAt rn s = Some a \<longrightarrow> heap w a \<noteq> None"
  shows "world_ok (w\<lparr>net := rn\<rparr>)"
  using assms by (simp add: world_ok_def)


lemma serverAt_ops:
  "serverAt (AddServer s a rn) s' = (if s' = s then a else serverAt rn s')"
  "serverAt (DeleteServer s rn) s' = (if s' = s then None else serverAt rn s')"
  "serverAt (Connect e s rn) s' = serverAt rn s'"
  "serverAt (Enable e b rn) s' = serverAt rn s'"
  "serverAt (Reliable b rn) s' = serverAt rn s'"
  "serverAt (LongReordering b rn) s' = serverAt rn s'"
  "serverAt (LongDelays b rn) s' = serverAt rn s'"
  by (simp_all add: serverAt_def AddServer_def DeleteServer_def Connect_def Enable_def Reliable_def
      LongReordering_def LongDelays_def)

lemma netCount_ops:
  "netCount (AddServer s a rn) = netCount rn" "netCount (DeleteServer s rn) = netCount rn"
  "netCount (Connect e s rn) = netCount rn" "netCount (Enable e b rn) = netCount rn"
  "netCount (Reliable b rn) = netCount rn" "netCount (LongReordering b rn) = netCount rn"
  "netCount (LongDelays b rn) = netCount rn"
  by (simp_all add: AddServer_def DeleteServer_def Connect_def Enable_def Reliable_def
      LongReordering_def LongDelays_def)

lemma world_ok_step:
  assumes ok: "world_ok w" and ex: "nexec T a w = Some w'"
  shows "world_ok w'"
proof -
  have hp: "serverAt (net w) s = Some b \<Longrightarrow> heap w b \<noteq> None" for s b
    using ok by (simp add: world_ok_def)
  note net_step = world_ok_net [OF ok]
  show ?thesis
  proof (cases a)
    case (AMakeEnd e)
    then obtain rn where "MakeEnd e (net w) = Some rn" "w' = w\<lparr>net := rn\<rparr>" using ex by auto
    then show ?thesis using hp
      by (auto intro!: net_step simp: MakeEnd_def serverAt_def split: option.splits)
  next
    case ACleanup
    then obtain rn where "Cleanup (net w) = Some rn" "w' = w\<lparr>net := rn\<rparr>" using ex by auto
    then show ?thesis using hp
      by (auto intro!: net_step simp: Cleanup_def serverAt_def split: if_splits)
  next
    case (ACall e meth t args)
    then show ?thesis using world_ok_call [OF ok] ex by auto
  next
    case (ABegin i lose)
    then show ?thesis
      using ex processBegin_ok [OF ok] world_ok_thread [OF ok, of i]
      by (intro world_ok_onThread [OF ok, of i]) (auto simp: onThread_def split: if_splits)
  next
    case (ADispatch i)
    then show ?thesis using world_ok_dispatch [OF ok] ex by (auto split: if_splits)
  next
    case (AReceive i lose delay)
    then show ?thesis
      using ex world_ok_thread [OF ok, of i]
      by (intro world_ok_onThread [OF ok, of i])
        (auto intro!: processEnd_ok simp: onThread_def split: if_splits mainPhase.splits dispPhase.splits)
  next
    case (ATimeout i)
    then show ?thesis
      using ex world_ok_thread [OF ok, of i]
      by (intro world_ok_onThread [OF ok, of i])
        (auto intro!: processEnd_ok simp: onThread_def split: if_splits mainPhase.splits)
  next
    case (AFire i)
    then show ?thesis
      using ex world_ok_thread [OF ok, of i]
      by (intro world_ok_onThread [OF ok, of i])
        (auto simp: onThread_def thread_ok_def split: if_splits mainPhase.splits)
  qed (use ex hp in \<open>auto intro!: net_step simp: serverAt_ops netCount_ops split: if_splits\<close>)
qed

lemma world_ok_reach:
  assumes "nreach T h g ob w" and "\<forall>a rs. h a = Some rs \<longrightarrow> srvCount rs = 0"
  shows "world_ok w"
  using assms(1)
proof induction
  case init
  with assms(2) show ?case
    by (simp add: world_ok_def MakeNetwork_def serverAt_def servedBy_def)
next
  case (act w a w')
  then show ?case by (blast intro: world_ok_step)
qed


section \<open>Replies\<close>

lemma positive_reply_step:
  assumes "nreach T h g ob w" and "\<forall>a rs. h a = Some rs \<longrightarrow> srvCount rs = 0"
    and "nexec T act w = Some w'" and "i < length (threads w)"
    and "tMain (threads w ! i) = Waiting s a rel lr"
    and "tMain (threads w' ! i) = Replied rep \<or> tMain (threads w' ! i) = Delayed rep" and "repOk rep"
  shows "isEnabled (net w) (reqEnd (tReq (threads w ! i))) \<and> serverAt (net w) s = Some a \<and>
    tDisp (threads w ! i) = Ran a rep \<and>
    (\<exists>lose delay. act = AReceive i lose delay \<and> (tMain (threads w' ! i) = Replied rep \<or> lr \<and> delay))"
proof -
  have "thread_ok (heap w) (threads w ! i)"
    using world_ok_reach [OF assms(1,2)] assms(4) by (rule world_ok_thread)
  then have at: "runsAt a (tDisp (threads w ! i))" using assms(5) by (simp add: thread_ok_def)
  have moved: "tMain (threads w' ! i) \<noteq> tMain (threads w ! i)" using assms(5,6) by auto
  show ?thesis
  proof (cases act)
    case (AReceive j lose delay)
    then show ?thesis
      using assms(3-7) moved at
      by (auto simp: onThread_def processEnd_def IsServerDead_def Let_def noReply_def nth_list_update
          split: if_splits mainPhase.splits dispPhase.splits)
  next
    case (ATimeout j)
    then show ?thesis
      using assms(3-7) moved
      by (auto simp: onThread_def processEnd_def Let_def noReply_def nth_list_update
          split: if_splits mainPhase.splits)
  next
    case (ADispatch j)
    then show ?thesis
      using assms(3,4) moved
      by (auto simp: dispatchThread_def Let_def nth_list_update
          split: if_splits dispPhase.splits option.splits prod.splits outcome.splits)
  qed (use assms(3-6) moved in \<open>auto simp: onThread_def callThread_def nth_list_update nth_append
      split: if_splits option.splits mainPhase.splits\<close>)
qed

text \<open>A thread has a positive reply since it left its wait; a delayed one was sent by its timer.\<close>

lemma positive_reply_kept:
  assumes "nexec T act w = Some w'" and "i < length (threads w')"
    and "tMain (threads w' ! i) = Replied rep \<or> tMain (threads w' ! i) = Delayed rep" and "repOk rep"
  shows "i < length (threads w) \<and> tReq (threads w' ! i) = tReq (threads w ! i) \<and>
    ((\<exists>s a rel lr. tMain (threads w ! i) = Waiting s a rel lr) \<or>
     tMain (threads w ! i) = tMain (threads w' ! i) \<or>
     act = AFire i \<and> tMain (threads w ! i) = Delayed rep \<and> tMain (threads w' ! i) = Replied rep)"
proof (cases act)
  case (ACall e meth t args)
  then show ?thesis
    using assms by (auto simp: callThread_def nth_append less_Suc_eq split: if_splits option.splits)
next
  case (ABegin j lose)
  then show ?thesis
    using assms
    by (cases "j = i") (auto simp: onThread_def processBegin_def noReply_def split: if_splits option.splits prod.splits bool.splits)
next
  case (ADispatch j)
  then show ?thesis
    using assms
    by (cases "j = i") (auto simp: dispatchThread_def Let_def
        split: if_splits dispPhase.splits option.splits prod.splits outcome.splits)
next
  case (AReceive j lose delay)
  then show ?thesis
    using assms
    by (cases "j = i") (auto simp: onThread_def processEnd_def Let_def split: if_splits mainPhase.splits dispPhase.splits)
next
  case (ATimeout j)
  then show ?thesis
    using assms
    by (cases "j = i") (auto simp: onThread_def processEnd_def Let_def split: if_splits mainPhase.splits)
next
  case (AFire j)
  then show ?thesis
    using assms by (cases "j = i") (auto simp: onThread_def split: if_splits mainPhase.splits)
qed (use assms in \<open>auto split: if_splits\<close>)

text \<open>A request waits with the flag for long reordering only when the flag was set before.\<close>

definition waitsLong :: "thread \<Rightarrow> bool" where
  "waitsLong th = (case tMain th of Waiting s a rel lr \<Rightarrow> lr | _ \<Rightarrow> False)"

definition reorders :: "'o world \<Rightarrow> bool" where
  "reorders w \<longleftrightarrow> longReordering (net w) \<or> (\<exists>th \<in> set (threads w). waitsLong th)"

lemma waitsLong_disp [simp]: "waitsLong (th\<lparr>tDisp := d\<rparr>) = waitsLong th"
  by (simp add: waitsLong_def)

lemma reorders_thread:
  assumes "\<not> reorders w" "\<not> waitsLong th" "net w' = net w" "threads w' = (threads w)[i := th]"
  shows "\<not> reorders w'"
  using assms(1-3) set_update_subset_insert [of "threads w" i th] unfolding reorders_def assms(4) by auto

lemma dispatchThread_threads:
  assumes "dispatchThread T i w = Some w'"
  shows "\<exists>d. net w' = net w \<and> threads w' = (threads w)[i := (threads w ! i)\<lparr>tDisp := d\<rparr>]"
  using assms by (auto simp: dispatchThread_def Let_def
      split: dispPhase.splits option.splits prod.splits outcome.splits)

lemma reorders_step:
  assumes "nexec T act w = Some w'" "\<not> reorders w" "act \<noteq> ALongReordering True"
  shows "\<not> reorders w'"
proof -
  have thread: ?thesis if on: "onThread i f w = Some w'" and f: "\<And>th. f (threads w ! i) = Some th \<Longrightarrow> \<not> waitsLong th" for i f
  proof -
    obtain th where "f (threads w ! i) = Some th" "w' = w\<lparr>threads := (threads w)[i := th]\<rparr>"
      using on by (auto simp: onThread_def split: if_splits)
    with f show ?thesis using reorders_thread [OF assms(2), of th w' i] by simp
  qed
  have off: "\<not> longReordering (net w)" using assms(2) by (simp add: reorders_def)
  show ?thesis
  proof (cases act)
    case (ABegin i lose)
    then show ?thesis
      using assms(1) off
      by (intro thread [of i]) (auto simp: processBegin_def ReadEndnameInfo_def waitsLong_def
          split: if_splits option.splits prod.splits bool.splits)
  next
    case (ADispatch i)
    then have i: "i < length (threads w)" and d: "dispatchThread T i w = Some w'" using assms(1) by (auto split: if_splits)
    have "\<not> waitsLong (threads w ! i)" using assms(2) i by (auto simp: reorders_def)
    moreover obtain p where "net w' = net w" "threads w' = (threads w)[i := (threads w ! i)\<lparr>tDisp := p\<rparr>]"
      using dispatchThread_threads [OF d] by blast
    ultimately show ?thesis by (intro reorders_thread [OF assms(2), of "(threads w ! i)\<lparr>tDisp := p\<rparr>" w' i]) simp_all
  next
    case (AReceive i lose delay)
    then show ?thesis
      using assms(1)
      by (intro thread [of i]) (auto simp: processEnd_def waitsLong_def Let_def
          split: if_splits mainPhase.splits dispPhase.splits)
  next
    case (ATimeout i)
    then show ?thesis
      using assms(1)
      by (intro thread [of i]) (auto simp: processEnd_def waitsLong_def Let_def split: if_splits mainPhase.splits)
  next
    case (AFire i)
    then show ?thesis
      using assms(1) by (intro thread [of i]) (auto simp: waitsLong_def split: mainPhase.splits)
  qed (use assms in \<open>auto simp: reorders_def callThread_def MakeEnd_def AddServer_def DeleteServer_def Connect_def
      Enable_def Reliable_def LongReordering_def LongDelays_def Cleanup_def waitsLong_def split: if_splits option.splits\<close>)
qed

lemma nrun_append: "nrun T (as @ bs) w = Option.bind (nrun T as w) (nrun T bs)"
  by (induction as arbitrary: w) (auto split: Option.bind_splits)

lemma nrun_snoc: "nrun T (as @ [b]) w = Some w' \<longleftrightarrow> (\<exists>w1. nrun T as w = Some w1 \<and> nexec T b w1 = Some w')"
  by (auto simp: nrun_append bind_eq_Some_conv)

lemma reorders_run:
  "nrun T acts w = Some w' \<Longrightarrow> \<not> reorders w \<Longrightarrow> ALongReordering True \<notin> set acts \<Longrightarrow> \<not> reorders w'"
  by (induction acts arbitrary: w) (auto simp: bind_eq_Some_conv dest: reorders_step)

text \<open>
  The moment at which the goroutine of request \<open>i\<close> looked at the reply: the actions before, the state it saw and the
  state it left.
\<close>

definition moment :: "types \<Rightarrow> 'o world \<Rightarrow> nat \<Rightarrow> reqMsg \<Rightarrow> replyMsg \<Rightarrow> netAct list \<Rightarrow> bool \<Rightarrow> bool \<Rightarrow> 'o world \<Rightarrow> 'o world \<Rightarrow> bool" where
  "moment T w0 i req rep acts1 lose delay w1 w2 \<longleftrightarrow> (\<exists>s a rel lr.
     nrun T acts1 w0 = Some w1 \<and> nexec T (AReceive i lose delay) w1 = Some w2 \<and> tReq (threads w1 ! i) = req \<and>
     tMain (threads w1 ! i) = Waiting s a rel lr \<and> tDisp (threads w1 ! i) = Ran a rep \<and>
     isEnabled (net w1) (reqEnd (tReq (threads w1 ! i))) \<and> serverAt (net w1) s = Some a \<and>
     (tMain (threads w2 ! i) = Replied rep \<or>
      tMain (threads w2 ! i) = Delayed rep \<and> delay \<and> ALongReordering True \<in> set acts1))"

lemma positive_reply_new:
  fixes h :: "nat \<rightharpoonup> 'o Server" and ob :: 'o and g :: labgob
  defines "w0 \<equiv> \<lparr>net = MakeNetwork, heap = h, gob = g, obj = ob, threads = []\<rparr>"
  assumes h: "\<forall>a rs. h a = Some rs \<longrightarrow> srvCount rs = 0" and r: "nrun T acts w0 = Some w1" and e: "nexec T act w1 = Some w2"
    and i: "i < length (threads w1)" and wt: "tMain (threads w1 ! i) = Waiting s a rel lr"
    and rep: "tMain (threads w2 ! i) = Replied rep \<or> tMain (threads w2 ! i) = Delayed rep" "repOk rep"
  shows "\<exists>lose delay. act = AReceive i lose delay \<and> moment T w0 i (tReq (threads w1 ! i)) rep acts lose delay w1 w2"
proof -
  have "nreach T h g ob w1" using nrun_reach [OF nreach.init r [unfolded w0_def]] .
  from positive_reply_step [OF this h e i wt rep]
  obtain lose delay where p: "isEnabled (net w1) (reqEnd (tReq (threads w1 ! i)))" "serverAt (net w1) s = Some a"
    "tDisp (threads w1 ! i) = Ran a rep" and act: "act = AReceive i lose delay"
    and d: "tMain (threads w2 ! i) = Replied rep \<or> lr \<and> delay" by blast
  have "lr \<Longrightarrow> reorders w1" using wt i by (auto simp: reorders_def waitsLong_def intro!: bexI [of _ "threads w1 ! i"])
  moreover have "\<not> reorders w0" by (simp add: w0_def reorders_def MakeNetwork_def)
  ultimately have "lr \<Longrightarrow> ALongReordering True \<in> set acts" using reorders_run [OF r] by blast
  then have "tMain (threads w2 ! i) = Replied rep \<or>
      tMain (threads w2 ! i) = Delayed rep \<and> delay \<and> ALongReordering True \<in> set acts" using d rep(1) by blast
  with r e [unfolded act] wt p have "moment T w0 i (tReq (threads w1 ! i)) rep acts lose delay w1 w2"
    unfolding moment_def by (intro exI [of _ s] exI [of _ a] exI [of _ rel] exI [of _ lr] conjI refl)
  with act show ?thesis by blast
qed

lemma positive_reply_moment:
  fixes h :: "nat \<rightharpoonup> 'o Server" and ob :: 'o and g :: labgob
  defines "w0 \<equiv> \<lparr>net = MakeNetwork, heap = h, gob = g, obj = ob, threads = []\<rparr>"
  assumes h: "\<forall>a rs. h a = Some rs \<longrightarrow> srvCount rs = 0" and "repOk rep" and "nrun T acts w0 = Some w"
    and "i < length (threads w)" and "tMain (threads w ! i) = Replied rep \<or> tMain (threads w ! i) = Delayed rep"
  shows "\<exists>acts1 lose delay acts2 w1 w2. acts = acts1 @ AReceive i lose delay # acts2 \<and>
    moment T w0 i (tReq (threads w ! i)) rep acts1 lose delay w1 w2 \<and>
    (tMain (threads w ! i) = Replied rep \<longrightarrow> tMain (threads w2 ! i) = Replied rep \<or> AFire i \<in> set acts2)"
  using assms(4-6)
proof (induction acts arbitrary: w rule: rev_induct)
  case Nil
  then have "threads w = []" by (auto simp: w0_def)
  with Nil show ?case by simp
next
  case (snoc act acts)
  obtain v where r: "nrun T acts w0 = Some v" and e: "nexec T act v = Some w"
    using snoc.prems(1) by (auto simp: nrun_snoc)
  from positive_reply_kept [OF e snoc.prems(2,3) assms(3)]
  have i: "i < length (threads v)" and q: "tReq (threads w ! i) = tReq (threads v ! i)"
    and c: "(\<exists>s a rel lr. tMain (threads v ! i) = Waiting s a rel lr) \<or> tMain (threads v ! i) = tMain (threads w ! i) \<or>
      act = AFire i \<and> tMain (threads v ! i) = Delayed rep \<and> tMain (threads w ! i) = Replied rep" by blast+
  show ?case
  proof (cases "\<exists>s a rel lr. tMain (threads v ! i) = Waiting s a rel lr")
    case True
    then obtain s a rel lr where wt: "tMain (threads v ! i) = Waiting s a rel lr" by blast
    from positive_reply_new [OF h r [unfolded w0_def] e i wt snoc.prems(3) assms(3), folded w0_def]
    obtain lose delay where n: "act = AReceive i lose delay"
      "moment T w0 i (tReq (threads v ! i)) rep acts lose delay v w" by blast
    then show ?thesis unfolding q
      by (intro exI [of _ acts] exI [of _ lose] exI [of _ delay] exI [of _ "[]"] exI [of _ v] exI [of _ w]) simp
  next
    case False
    with c snoc.prems(3) have m: "tMain (threads v ! i) = Replied rep \<or> tMain (threads v ! i) = Delayed rep"
      and f: "tMain (threads w ! i) = Replied rep \<Longrightarrow> tMain (threads v ! i) = Replied rep \<or> act = AFire i" by auto
    from snoc.IH [OF r i m] obtain acts1 lose delay acts2 w1 w2 where
      ih: "acts = acts1 @ AReceive i lose delay # acts2" "moment T w0 i (tReq (threads v ! i)) rep acts1 lose delay w1 w2"
      and l: "tMain (threads v ! i) = Replied rep \<longrightarrow> tMain (threads w2 ! i) = Replied rep \<or> AFire i \<in> set acts2" by blast
    have "acts @ [act] = acts1 @ AReceive i lose delay # (acts2 @ [act])" using ih(1) by simp
    moreover have "tMain (threads w ! i) = Replied rep \<longrightarrow> tMain (threads w2 ! i) = Replied rep \<or> AFire i \<in> set (acts2 @ [act])"
      using l f by auto
    ultimately show ?thesis using ih(2) unfolding q by blast
  qed
qed

text \<open>
  Property C35.  When a call has got a positive reply, there was a moment in the execution at which the handler
  that its request was for had returned that reply, the client end was enabled and the server whose handler ran was
  the one registered under its name.  The reply was passed on at that moment, unless long reordering had been
  switched on before: then it may come later, when its timer fires, even if the end was disabled or the server
  deleted or replaced in between.
\<close>

theorem positive_reply_from_live_server:
  assumes "nrun T acts \<lparr>net = MakeNetwork, heap = h, gob = g, obj = ob, threads = []\<rparr> = Some w"
    and "\<forall>a rs. h a = Some rs \<longrightarrow> srvCount rs = 0"
    and "i < length (threads w)" and "tMain (threads w ! i) = Replied rep" and "repOk rep"
  shows "\<exists>acts1 lose delay acts2 w1 w2 s a rel lr.
    acts = acts1 @ AReceive i lose delay # acts2 \<and>
    nrun T acts1 \<lparr>net = MakeNetwork, heap = h, gob = g, obj = ob, threads = []\<rparr> = Some w1 \<and>
    nexec T (AReceive i lose delay) w1 = Some w2 \<and> tReq (threads w1 ! i) = tReq (threads w ! i) \<and>
    tMain (threads w1 ! i) = Waiting s a rel lr \<and> tDisp (threads w1 ! i) = Ran a rep \<and>
    isEnabled (net w1) (reqEnd (tReq (threads w1 ! i))) \<and> serverAt (net w1) s = Some a \<and>
    (tMain (threads w2 ! i) = Replied rep \<or>
     tMain (threads w2 ! i) = Delayed rep \<and> delay \<and> ALongReordering True \<in> set acts1 \<and> AFire i \<in> set acts2)"
proof -
  from positive_reply_moment [OF assms(2,5,1,3) disjI1 [OF assms(4)]] assms(4)
  obtain acts1 lose delay acts2 w1 w2 where a: "acts = acts1 @ AReceive i lose delay # acts2"
    and m: "moment T \<lparr>net = MakeNetwork, heap = h, gob = g, obj = ob, threads = []\<rparr> i (tReq (threads w ! i)) rep acts1
      lose delay w1 w2"
    and f: "tMain (threads w2 ! i) = Replied rep \<or> AFire i \<in> set acts2" by blast
  from m [unfolded moment_def] obtain s a' rel lr where
    "nrun T acts1 \<lparr>net = MakeNetwork, heap = h, gob = g, obj = ob, threads = []\<rparr> = Some w1"
    "nexec T (AReceive i lose delay) w1 = Some w2" "tReq (threads w1 ! i) = tReq (threads w ! i)"
    "tMain (threads w1 ! i) = Waiting s a' rel lr" "tDisp (threads w1 ! i) = Ran a' rep"
    "isEnabled (net w1) (reqEnd (tReq (threads w1 ! i)))" "serverAt (net w1) s = Some a'"
    "tMain (threads w2 ! i) = Replied rep \<or>
     tMain (threads w2 ! i) = Delayed rep \<and> delay \<and> ALongReordering True \<in> set acts1" by blast
  with a f show ?thesis
    by (intro exI [of _ acts1] exI [of _ lose] exI [of _ delay] exI [of _ acts2] exI [of _ w1] exI [of _ w2]
        exI [of _ s] exI [of _ a'] exI [of _ rel] exI [of _ lr]) blast
qed

text \<open>
  Property C38.  \<^verbatim>\<open>GetCount\<close> is the number of requests whose handler the server has entered, and
  \<^verbatim>\<open>GetTotalCount\<close> the number of requests sent, as long as they fit an \<^verbatim>\<open>int32\<close>.
\<close>

theorem rpc_counts:
  assumes "nreach T h g ob w" and "\<forall>a rs. h a = Some rs \<longrightarrow> srvCount rs = 0"
    and "serverAt (net w) s = Some a" and "length (threads w) < 2 ^ 31"
  shows "GetCount (heap w) s (net w) = Some (int (servedBy a (threads w))) \<and>
    GetTotalCount (net w) = int (length (threads w))"
proof -
  have ok: "world_ok w" by (rule world_ok_reach [OF assms(1,2)])
  then obtain rs where "heap w a = Some rs" "srvCount rs = int (servedBy a (threads w))"
    using assms(3) unfolding world_ok_def by blast
  then have "GetCount (heap w) s (net w) = Some (int (servedBy a (threads w)))"
    using assms(3) by (simp add: GetCount_def)
  moreover have "sint (of_nat (length (threads w)) :: 32 word) = int (length (threads w))"
    using assms(4) by transfer (simp add: signed_take_bit_int_eq_self)
  ultimately show ?thesis
    using ok by (simp add: GetTotalCount_def world_ok_def)
qed

section \<open>Every call ends\<close>

text \<open>How far a request is from its reply.\<close>

fun rank :: "mainPhase \<Rightarrow> dispPhase \<Rightarrow> nat" where
  "rank Arrived d = 4"
| "rank (Waiting s a rel lr) (Pending b) = 3"
| "rank (Waiting s a rel lr) d = 2"
| "rank (Delayed rep) d = 1"
| "rank (Replied rep) d = 0"

definition threadRank :: "thread \<Rightarrow> nat" where
  "threadRank th = rank (tMain th) (tDisp th)"

lemma waiting_progress:
  assumes i: "i < length (threads w)" and ok: "thread_ok (heap w) (threads w ! i)"
    and Waiting: "tMain (threads w ! i) = Waiting s a rel lr"
    and returns: "\<forall>rs. \<not> IsServerDead (net w) (reqEnd (tReq (threads w ! i))) s (Some a) \<longrightarrow> heap w a = Some rs \<longrightarrow>
      tDisp (threads w ! i) \<noteq> Stuck a \<and>
      snd (serverDispatch T rs (tReq (threads w ! i)) (gob w) (obj w)) \<noteq> Panics"
  shows "\<exists>act w'. nexec T act w = Some w' \<and> threadRank (threads w' ! i) < threadRank (threads w ! i)"
proof (cases "IsServerDead (net w) (reqEnd (tReq (threads w ! i))) s (Some a)")
  let ?th = "threads w ! i"
  case True
  with Waiting i have "\<exists>w'. nexec T (ATimeout i) w = Some w' \<and> threadRank (threads w' ! i) < threadRank ?th"
    by (cases "tDisp ?th") (auto simp: onThread_def threadRank_def processEnd_def Let_def)
  then show ?thesis by blast
next
  let ?th = "threads w ! i"
  case False
  have at: "runsAt a (tDisp ?th)" and "heap w a \<noteq> None"
    using ok Waiting by (auto simp: thread_ok_def)
  then obtain rs where rs: "heap w a = Some rs" by blast
  note ret = returns [rule_format, OF False rs]
  show ?thesis
  proof (cases "tDisp ?th")
    case (Pending b)
    with at have p: "tDisp ?th = Pending a" by simp
    have "\<exists>w'. nexec T (ADispatch i) w = Some w' \<and> threadRank (threads w' ! i) < threadRank ?th"
      using ret i p Waiting rs
      by (cases "serverDispatch T rs (tReq ?th) (gob w) (obj w)";
          cases "snd (serverDispatch T rs (tReq ?th) (gob w) (obj w))")
        (auto simp: dispatchThread_def threadRank_def Let_def)
    then show ?thesis by blast
  next
    case (Ran b rep)
    with Waiting False i have "\<exists>w'. nexec T (AReceive i True True) w = Some w' \<and>
        threadRank (threads w' ! i) < threadRank ?th"
      by (auto simp: onThread_def threadRank_def processEnd_def Let_def)
    then show ?thesis by blast
  qed (use at ret in auto)
qed

text \<open>
  Property C37.  A request that has no reply yet can always take a step that brings it closer to
  one, and there are at most four of them, with one exception: its server is alive and the
  handler does not return or ends the program.  So \<^verbatim>\<open>Call\<close> returns unless the handler does not.
\<close>

theorem call_makes_progress:
  assumes "nreach T h g ob w" and "\<forall>a rs. h a = Some rs \<longrightarrow> srvCount rs = 0"
    and i: "i < length (threads w)" and "threadRank (threads w ! i) \<noteq> 0"
    and returns: "\<forall>s a rel lr rs. tMain (threads w ! i) = Waiting s a rel lr \<longrightarrow>
      \<not> IsServerDead (net w) (reqEnd (tReq (threads w ! i))) s (Some a) \<longrightarrow> heap w a = Some rs \<longrightarrow>
      tDisp (threads w ! i) \<noteq> Stuck a \<and>
      snd (serverDispatch T rs (tReq (threads w ! i)) (gob w) (obj w)) \<noteq> Panics"
  shows "\<exists>act w'. nexec T act w = Some w' \<and> threadRank (threads w' ! i) < threadRank (threads w ! i)"
proof -
  let ?th = "threads w ! i"
  have ok: "thread_ok (heap w) ?th"
    using world_ok_reach [OF assms(1,2)] i by (rule world_ok_thread)
  show ?thesis
  proof (cases "tMain ?th")
    case Arrived
    then have "\<exists>w'. nexec T (ABegin i True) w = Some w' \<and> threadRank (threads w' ! i) < threadRank ?th"
      using i by (auto simp: onThread_def threadRank_def processBegin_def ReadEndnameInfo_def
          split: bool.splits option.splits)
    then show ?thesis by blast
  next
    case (Delayed rep)
    then have "\<exists>w'. nexec T (AFire i) w = Some w' \<and> threadRank (threads w' ! i) < threadRank ?th"
      using i by (auto simp: onThread_def threadRank_def)
    then show ?thesis by blast
  next
    case (Replied rep)
    then show ?thesis using assms(4) by (simp add: threadRank_def)
  next
    case (Waiting s a rel lr)
    show ?thesis
      using returns Waiting by (intro waiting_progress [OF i ok Waiting]) auto
  qed
qed


section \<open>A call from end to end\<close>

text \<open>A type that no lower-case field can be reached from, the ones \<^verbatim>\<open>checkType\<close> is silent on.\<close>

definition upperCase :: "types \<Rightarrow> tyid \<Rightarrow> bool" where
  "upperCase T t = (\<forall>u. mentions T t u \<longrightarrow> lowerCase T u = 0)"

lemma upperCase_field:
  assumes "upperCase T t" and "desc T t = DStruct n fts" and "(f, ft) \<in> set fts"
  shows "exported f" and "upperCase T ft"
proof -
  have "lowerCase T t = 0" using assms(1) by (simp add: upperCase_def)
  then show "exported f"
    using assms(2,3) by (auto simp: lowerCase_def lower_def filter_empty_conv)
  have "ft \<in> succs T t" using assms(2,3) by (force simp: succs_def)
  then show "upperCase T ft"
    using assms(1) mentions_step unfolding upperCase_def by blast
qed

lemma struct_field_below:
  assumes "types_ok T" and "desc T t = DStruct n fts" and "(f, ft) \<in> set fts"
  shows "ft < t"
proof -
  have "t < length T" and "T ! t = DStruct n fts"
    using assms(2) by (auto simp: desc_def split: if_splits)
  then have "list_all (\<lambda>(f, ft). ft < t) fts"
    using assms(1) unfolding types_ok_def by fastforce
  with assms(3) show ?thesis by (auto simp: list_all_iff)
qed

lemma zero_default:
  assumes T: "types_ok T"
  shows "upperCase T t \<Longrightarrow> checkDefault1 T False t (zero T t) d name g = Some g"
proof (induction t arbitrary: d name rule: less_induct)
  case (less t)
  show ?case
  proof (cases "desc T t")
    case (DStruct n fts)
    have sub: "set fts' \<subseteq> set fts \<Longrightarrow>
        checkDefaultFields T False fts' (map (\<lambda>(f, ft). (f, zero T ft)) fts') d name g = Some g" for fts'
    proof (induction fts')
      case (Cons p fts')
      obtain f ft where p: "p = (f, ft)" by (cases p)
      then have mem: "(f, ft) \<in> set fts" using Cons.prems by simp
      then have "ft < t" by (rule struct_field_below [OF T DStruct])
      with Cons less.IH [of ft] upperCase_field [OF less.prems DStruct mem] show ?case
        by (simp add: p)
    qed simp
    then show ?thesis by (simp add: zero_struct [OF T DStruct] DStruct)
  qed (simp_all add: zero.simps [of T t] checkLeaf_def)
qed

lemma Decode_zero:
  assumes T: "types_ok T" and p: "DPtr t \<in> set T" and up: "upperCase T t"
    and dom: "set (checked g) \<subseteq> {..<length T}" and ty: "has_type T v t"
    and port: "portable (registered g) v" "\<not> isNilPtr v" and m: "gobEncode (registered g) v = Some m"
  obtains g' where "Decode T t (zero T t) [m] g = Some ([], v, True, g')"
    and "set (checked g') \<subseteq> {..<length T}" and "registered g' = registered g"
proof -
  obtain g' where g': "checkValue T (ptrTo T t) g = Some g'" "set (checked g') \<subseteq> {..<length T}"
    "registered g' = registered g"
    by (rule checkValue_total [OF T ptrTo_desc(1) [OF p] dom])
  moreover have "checkDefault T (Some (ptrTo T t, GPtr (Some (zero T t)))) g' = Some g'"
    using zero_default [OF T up] by (simp add: checkDefault_def ptrTo_desc [OF p])
  moreover have "gobDecode T (registered g) True t (zero T t) m = Some v"
    using carried_enc(2) [OF all_carried [OF T] ty port] m by simp
  ultimately show ?thesis
    using that [of g'] by (simp add: Decode_def)
qed

lemma Encode_ok:
  assumes T: "types_ok T" and t: "t < length T" and dom: "set (checked g) \<subseteq> {..<length T}"
    and ty: "has_type T v t'" and port: "portable (registered g) v" "\<not> isNilPtr v"
    and same: "w = v \<or> w = GPtr (Some v)"
  obtains m g' where "gobEncode (registered g) v = Some m" and "Encode T t w [] g = Some ([m], True, g')"
    and "set (checked g') \<subseteq> {..<length T}" and "registered g' = registered g"
proof -
  obtain g' where g': "checkValue T t g = Some g'" "set (checked g') \<subseteq> {..<length T}"
    "registered g' = registered g"
    by (rule checkValue_total [OF T t dom])
  moreover obtain m where m: "gobEncode (registered g) v = Some m"
    using carried_enc(1) [OF all_carried [OF T] ty port] by blast
  moreover have "gobEncode (registered g) w = Some m"
    using same m by auto
  ultimately show ?thesis
    using that [of m g'] by (simp add: Encode_def)
qed

lemma lastDot_none: "CHR ''.'' \<notin> set s \<Longrightarrow> lastDot s = -1"
  by (induction s) auto

lemma lastDot_split: "CHR ''.'' \<notin> set meth \<Longrightarrow> lastDot (svc @ CHR ''.'' # meth) = len svc"
  by (induction svc) (auto simp: lastDot_none len_def)

text \<open>
  Property C36.  A call is transparent: arguments that \<^verbatim>\<open>gob\<close> can carry reach the method that the
  request names as they were passed, and the reply that the method leaves reaches the
  caller's variable as it is, when that variable has its zero value; \<^verbatim>\<open>Call\<close> returns true.
\<close>

theorem rpc_transparent:
  assumes T: "types_ok T" and dom: "set (checked g) \<subseteq> {..<length T}"
    and arg: "DPtr t \<in> set T" "upperCase T t" "has_type T args t" "portable (registered g) args" "\<not> isNilPtr args"
    and find: "services rs svc = Some sv" "svcMethods sv meth = Some m" "CHR ''.'' \<notin> set meth"
    and meth: "mArgs m = t" "mReply m = Some rt" "mFunc m args (zero T rt) ob = Done (r, ob')"
    and rep: "DPtr rt \<in> set T" "upperCase T rt" "has_type T r rt" "portable (registered g) r" "\<not> isNilPtr r"
  shows "\<exists>req g1 rs' reply g2 g3. callRequest T e (svc @ CHR ''.'' # meth) t args g = Some (req, g1) \<and>
    serverDispatch T rs req g1 ob = (rs', Done (reply, g2, ob')) \<and>
    callReturn T rt (zero T rt) reply g2 = Done (True, r, g3)"
proof -
  have t: "t < length T"
    by (rule types_ok_succs [OF T, of t "ptrTo T t"]) (simp add: succs_def ptrTo_desc [OF arg(1)])
  obtain m1 g1 where m1: "gobEncode (registered g) args = Some m1"
    and call: "Encode T t args [] g = Some ([m1], True, g1)"
    and g1: "set (checked g1) \<subseteq> {..<length T}" "registered g1 = registered g"
    by (rule Encode_ok [OF T t dom arg(3-5), of args]) simp
  obtain g2 where dec: "Decode T t (zero T t) [m1] g1 = Some ([], args, True, g2)"
    and g2: "set (checked g2) \<subseteq> {..<length T}" "registered g2 = registered g"
    using Decode_zero [OF T arg(1,2) g1(1) arg(3), of m1] arg(4,5) m1 g1(2) by auto
  obtain m2 g3 where m2: "gobEncode (registered g2) r = Some m2"
    and enc: "Encode T (ptrTo T rt) (GPtr (Some r)) [] g2 = Some ([m2], True, g3)"
    and g3: "set (checked g3) \<subseteq> {..<length T}" "registered g3 = registered g2"
    by (rule Encode_ok [OF T ptrTo_desc(1) [OF rep(1)] g2(1) rep(3), of "GPtr (Some r)"])
      (use rep(4,5) g2(2) in simp_all)
  obtain g4 where ret: "Decode T rt (zero T rt) [m2] g3 = Some ([], r, True, g4)"
    using Decode_zero [OF T rep(1,2) g3(1) rep(3), of m2] rep(4,5) m2 g3(2) g2(2) by auto
  let ?req = "\<lparr>reqEnd = e, svcMeth = svc @ CHR ''.'' # meth, argsType = t, reqArgs = [m1]\<rparr>"
  have "serviceDispatch T sv meth ?req g1 ob = Done (\<lparr>repOk = True, repBuf = [m2]\<rparr>, g3, ob')"
    using find(2) meth dec enc by (simp add: serviceDispatch_def)
  moreover have "slice_to (svc @ CHR ''.'' # meth) (len svc) = Some svc"
    "slice_from (svc @ CHR ''.'' # meth) (len svc + 1) = Some meth"
    by (simp_all add: slice_defs nat_add_distrib)
  ultimately show ?thesis
    using call ret find(1) by (simp add: callRequest_def callReturn_def serverDispatch_def Let_def lastDot_split [OF find(3)])
qed

end
