(* ===== verification/Lab_RPC_Examples.thy ===== *)
theory Lab_RPC_Examples
  imports Lab_RPC_Facts
begin

text \<open>
  One request carried over the network: an end is made, connected and enabled, a server with a
  \<^verbatim>\<open>Raft.RequestVote\<close> that answers with its arguments and counts its calls is added, a call is
  sent and its handler runs.
\<close>

definition echoMethod :: "int rpcMethod" where
  "echoMethod = \<lparr>mName = ''RequestVote'', mPkgPath = [], mNumIn = 3, mArgs = 2, mReply = Some 2,
     mNumOut = 0, mFunc = (\<lambda>args reply n. Done (args, n + 1))\<rparr>"

definition echoService :: "int Service" where
  "echoService = MakeService ''Raft'' [echoMethod]"

definition echoHeap :: "nat \<rightharpoonup> int Server" where
  "echoHeap = [0 \<mapsto> AddService echoService MakeServer]"

definition echoArgs :: gval where
  "echoArgs = GStruct [(''Term'', GInt 4), (''VoteGranted'', GBool True)]"

definition echoActs :: "netAct list" where
  "echoActs = [AMakeEnd (Some (NInt 7)), AConnect (Some (NInt 7)) (Some (NInt 1)),
     AEnable (Some (NInt 7)) True, AAddServer (Some (NInt 1)) 0,
     ACall (Some (NInt 7)) ''Raft.RequestVote'' 2 echoArgs, ABegin 0 False, ADispatch 0]"

definition echoStart :: "int world" where
  "echoStart = \<lparr>net = MakeNetwork, heap = echoHeap, gob = labgob_init, obj = 0, threads = []\<rparr>"

definition echoWorld :: "int world" where
  "echoWorld = the (nrun exampleTypes echoActs echoStart)"

definition echoReply :: replyMsg where
  "echoReply = \<lparr>repOk = True,
     repBuf = [MStruct [(''Term'', MInt 4), (''VoteGranted'', MBool True)]]\<rparr>"

lemma echo_reach: "nreach exampleTypes echoHeap labgob_init 0 echoWorld"
proof -
  have "\<not> Option.is_none (nrun exampleTypes echoActs echoStart)" by code_simp
  then have "nrun exampleTypes echoActs echoStart = Some echoWorld"
    by (auto simp: echoWorld_def Option.is_none_def)
  then show ?thesis
    by (rule nrun_reach [OF nreach.init [of exampleTypes echoHeap labgob_init 0, folded echoStart_def]])
qed

lemma echo_heap: "\<forall>a rs. echoHeap a = Some rs \<longrightarrow> srvCount rs = 0"
  by (simp add: echoHeap_def AddService_def MakeServer_def)

lemma echo_world:
  "length (threads echoWorld) = 1"
  "tMain (threads echoWorld ! 0) = Waiting (Some (NInt 1)) 0 True False"
  "tDisp (threads echoWorld ! 0) = Ran 0 echoReply"
  "serverAt (net echoWorld) (Some (NInt 1)) = Some 0"
  "threadRank (threads echoWorld ! 0) = 2"
  by code_simp+

text \<open>The same request with long reordering: the server is deleted before the delayed reply comes.\<close>

definition lateActs :: "netAct list" where
  "lateActs = ALongReordering True # echoActs @ [AReceive 0 False True, ADeleteServer (Some (NInt 1)), AFire 0]"

definition lateWorld :: "int world" where
  "lateWorld = the (nrun exampleTypes lateActs echoStart)"

theorem positive_reply_from_live_server_witness:
  "serverAt (net lateWorld) (Some (NInt 1)) = None \<and> tMain (threads lateWorld ! 0) = Replied echoReply \<and>
   (\<exists>acts1 lose delay acts2 w1 w2 s a rel lr.
      lateActs = acts1 @ AReceive 0 lose delay # acts2 \<and> nrun exampleTypes acts1 echoStart = Some w1 \<and>
      nexec exampleTypes (AReceive 0 lose delay) w1 = Some w2 \<and>
      tReq (threads w1 ! 0) = tReq (threads lateWorld ! 0) \<and>
      tMain (threads w1 ! 0) = Waiting s a rel lr \<and> tDisp (threads w1 ! 0) = Ran a echoReply \<and>
      isEnabled (net w1) (reqEnd (tReq (threads w1 ! 0))) \<and> serverAt (net w1) s = Some a \<and>
      (tMain (threads w2 ! 0) = Replied echoReply \<or>
       tMain (threads w2 ! 0) = Delayed echoReply \<and> delay \<and> ALongReordering True \<in> set acts1 \<and> AFire 0 \<in> set acts2))"
proof -
  have "\<not> Option.is_none (nrun exampleTypes lateActs echoStart)" by code_simp
  then have r: "nrun exampleTypes lateActs echoStart = Some lateWorld"
    by (auto simp: lateWorld_def Option.is_none_def)
  have w: "serverAt (net lateWorld) (Some (NInt 1)) = None" "0 < length (threads lateWorld)"
    "tMain (threads lateWorld ! 0) = Replied echoReply" "repOk echoReply"
    by code_simp+
  from positive_reply_from_live_server [OF r [unfolded echoStart_def] echo_heap w(2,3,4), folded echoStart_def] w(1,3)
  show ?thesis by (intro conjI)
qed

theorem rpc_counts_witness:
  "GetCount (heap echoWorld) (Some (NInt 1)) (net echoWorld) = Some (int (servedBy 0 (threads echoWorld))) \<and>
   GetTotalCount (net echoWorld) = int (length (threads echoWorld))"
  by (rule rpc_counts [OF echo_reach echo_heap]) (simp_all add: echo_world)

theorem call_makes_progress_witness:
  "\<exists>act w'. nexec exampleTypes act echoWorld = Some w' \<and>
    threadRank (threads w' ! 0) < threadRank (threads echoWorld ! 0)"
proof (rule call_makes_progress [OF echo_reach echo_heap])
  have "isDone (snd (serverDispatch exampleTypes (the (heap echoWorld 0)) (tReq (threads echoWorld ! 0))
      (gob echoWorld) (obj echoWorld)))"
    by code_simp
  then have "snd (serverDispatch exampleTypes rs (tReq (threads echoWorld ! 0)) (gob echoWorld)
      (obj echoWorld)) \<noteq> Panics" if "heap echoWorld 0 = Some rs" for rs
    using that by auto
  then show "\<forall>s a rel lr rs. tMain (threads echoWorld ! 0) = Waiting s a rel lr \<longrightarrow>
      \<not> IsServerDead (net echoWorld) (reqEnd (tReq (threads echoWorld ! 0))) s (Some a) \<longrightarrow>
      heap echoWorld a = Some rs \<longrightarrow> tDisp (threads echoWorld ! 0) \<noteq> Stuck a \<and>
      snd (serverDispatch exampleTypes rs (tReq (threads echoWorld ! 0)) (gob echoWorld) (obj echoWorld)) \<noteq> Panics"
    by (simp add: echo_world)
qed (simp_all add: echo_world)

lemma example_upperCase: "upperCase exampleTypes 2"
  unfolding upperCase_def
proof (intro allI impI)
  fix u assume "mentions exampleTypes 2 u"
  then have "u \<in> {0, 1, 2}"
    by (rule closed_contains) (simp_all add: succs_def desc_def exampleTypes_def)
  then show "lowerCase exampleTypes u = 0"
    by (auto simp: lowerCase_def lower_def desc_def exampleTypes_def)
qed

theorem rpc_transparent_witness:
  "\<exists>req g1 rs' reply g2 g3.
    callRequest exampleTypes (Some (NInt 7)) (''Raft'' @ CHR ''.'' # ''RequestVote'') 2 echoArgs labgob_init =
      Some (req, g1) \<and>
    serverDispatch exampleTypes (AddService echoService MakeServer) req g1 5 = (rs', Done (reply, g2, 6)) \<and>
    callReturn exampleTypes 2 (zero exampleTypes 2) reply g2 = Done (True, echoArgs, g3)"
proof -
  have "DPtr 2 \<in> set exampleTypes" "has_type exampleTypes echoArgs 2"
    "portable (registered labgob_init) echoArgs" "\<not> isNilPtr echoArgs"
    "set (checked labgob_init) \<subseteq> {..<length exampleTypes}"
    by code_simp+
  then show ?thesis
    by (intro rpc_transparent [OF exampleTypes_ok, where sv = echoService and m = echoMethod])
      (simp_all add: example_upperCase AddService_def MakeServer_def echoService_def MakeService_def
        echoMethod_def suitable_def)
qed

end
