(* ===== verification/Tester_Net.thy ===== *)
theory Tester_Net
  imports Raft_State Lab_RPC
begin

text \<open>
  The tester of the Raft library (\<^verbatim>\<open>raft/config.go\<close>): the network of a group of peers and its
  changes.  A \<^verbatim>\<open>*Raft\<close> is the state of the peer, a nil pointer is \<^term>\<open>None\<close>, and so is a nil
  slice of end names.  The random names of ends and the addresses of servers are arguments.  A
  failed \<^verbatim>\<open>MakeEnd\<close> (\<^verbatim>\<open>log.Fatalf\<close>), a nil pointer and an index out of range end the program:
  the result is \<^term>\<open>None\<close>.  Time and the reporting of the tests are left out.
\<close>

section \<open>Loops\<close>

text \<open>A loop over a range whose body may end the program.\<close>

fun forEach :: "('a \<Rightarrow> 'b \<Rightarrow> 'b option) \<Rightarrow> 'a list \<Rightarrow> 'b \<Rightarrow> 'b option" where
  "forEach f [] s = Some s"
| "forEach f (x # xs) s = do { s \<leftarrow> f x s; forEach f xs s }"

lemma forEach_append: "forEach f (xs @ ys) s = do { s \<leftarrow> forEach f xs s; forEach f ys s }"
  by (induction xs arbitrary: s) (simp_all split: Option.bind_splits)

lemma forEach_upt:
  assumes "P 0 s" and "\<And>k s. k < n \<Longrightarrow> P k s \<Longrightarrow> \<exists>s'. f k s = Some s' \<and> P (Suc k) s'"
  shows "\<exists>s'. forEach f [0..<n] s = Some s' \<and> P n s'"
  using assms(2)
proof (induction n)
  case 0
  then show ?case using assms(1) by simp
next
  case (Suc n)
  then obtain s1 where s1: "forEach f [0..<n] s = Some s1" "P n s1" by (metis less_SucI)
  with Suc.prems [of n s1] show ?case by (auto simp: forEach_append)
qed

section \<open>The tester\<close>

record ('c, 's) config =
  cfgNet :: Network
  cfgN :: nat
  rafts :: "('c, 's) Raft option list"
  applyErr :: "string list"
  connected :: "bool list"
  saved :: "('c, 's) Persister option list"
  endnames :: "string list option list"
  logs :: "(int \<rightharpoonup> int) list"
  rpcs0 :: int
  cmds0 :: int
  maxIndex :: int
  maxIndex0 :: int

definition endname :: "('c, 's) config \<Rightarrow> nat \<Rightarrow> nat \<Rightarrow> string option" where
  "endname cfg i j = do {
     row \<leftarrow> slice_get (endnames cfg) (int i);
     slice_get (case row of None \<Rightarrow> [] | Some r \<Rightarrow> r) (int j) }"

abbreviation endAt :: "string \<Rightarrow> iname option" where
  "endAt e \<equiv> Some (NStr e)"

abbreviation serverOf :: "nat \<Rightarrow> iname option" where
  "serverOf i \<equiv> Some (NInt (int i))"

definition enableEnd :: "nat \<Rightarrow> nat \<Rightarrow> bool \<Rightarrow> ('c, 's) config \<Rightarrow> ('c, 's) config option" where
  "enableEnd i j b cfg = do {
     e \<leftarrow> endname cfg i j;
     Some (cfg\<lparr>cfgNet := Enable (endAt e) b (cfgNet cfg)\<rparr>) }"

definition connect :: "nat \<Rightarrow> ('c, 's) config \<Rightarrow> ('c, 's) config option" where
  "connect i cfg = do {
     cs \<leftarrow> slice_set (connected cfg) (int i) True;
     let cfg = cfg\<lparr>connected := cs\<rparr>;
     cfg \<leftarrow> forEach (\<lambda>j cfg. do {
         b \<leftarrow> slice_get (connected cfg) (int j);
         if b then enableEnd i j True cfg else Some cfg }) [0..<cfgN cfg] cfg;
     forEach (\<lambda>j cfg. do {
         b \<leftarrow> slice_get (connected cfg) (int j);
         if b then enableEnd j i True cfg else Some cfg }) [0..<cfgN cfg] cfg }"

definition disconnect :: "nat \<Rightarrow> ('c, 's) config \<Rightarrow> ('c, 's) config option" where
  "disconnect i cfg = do {
     cs \<leftarrow> slice_set (connected cfg) (int i) False;
     let cfg = cfg\<lparr>connected := cs\<rparr>;
     cfg \<leftarrow> forEach (\<lambda>j cfg. do {
         row \<leftarrow> slice_get (endnames cfg) (int i);
         if row \<noteq> None then enableEnd i j False cfg else Some cfg }) [0..<cfgN cfg] cfg;
     forEach (\<lambda>j cfg. do {
         row \<leftarrow> slice_get (endnames cfg) (int j);
         if row \<noteq> None then enableEnd j i False cfg else Some cfg }) [0..<cfgN cfg] cfg }"

text \<open>
  \<^verbatim>\<open>cfg.saved[i]\<close> and the persister of a running peer are one object: its content is the one the peer
  has written last.  A crash keeps the persisted state, not the snapshot.  The old instance is
  killed and dropped.
\<close>

definition stored :: "('c, 's) config \<Rightarrow> nat \<Rightarrow> ('c, 's) Persister option" where
  "stored cfg i = (case rafts cfg ! i of Some rf \<Rightarrow> Some (persister rf) | None \<Rightarrow> saved cfg ! i)"

definition crash1 :: "nat \<Rightarrow> ('c, 's) config \<Rightarrow> ('c, 's) config option" where
  "crash1 i cfg = do {
     cfg \<leftarrow> disconnect i cfg;
     let cfg = cfg\<lparr>cfgNet := DeleteServer (serverOf i) (cfgNet cfg)\<rparr>;
     rf \<leftarrow> slice_get (rafts cfg) (int i);
     svs \<leftarrow> slice_set (saved cfg) (int i) (map_option CopyPersister (stored cfg i));
     let cfg = cfg\<lparr>saved := svs\<rparr>;
     rfs \<leftarrow> slice_set (rafts cfg) (int i) None;
     let cfg = (if rf \<noteq> None then cfg\<lparr>rafts := rfs\<rparr> else cfg);
     sv \<leftarrow> slice_get (saved cfg) (int i);
     case sv of
       None \<Rightarrow> Some cfg
     | Some p \<Rightarrow> do {
         svs \<leftarrow> slice_set (saved cfg) (int i)
                  (Some (SaveRaftState MakePersister (ReadRaftState p)));
         Some (cfg\<lparr>saved := svs\<rparr>) } }"

text \<open>
  \<open>rnd j\<close> is the name that \<^verbatim>\<open>randstring\<close> gives for the end to server \<open>j\<close>, \<open>a\<close> the address of the new
  server.  The messages that \<^verbatim>\<open>Make\<close> sends on the apply channel are the last component.
\<close>

definition start1 :: "nat \<Rightarrow> (nat \<Rightarrow> string) \<Rightarrow> nat \<Rightarrow> ('c, 's) config \<Rightarrow>
    (('c, 's) config \<times> ('c, 's) effect list) option" where
  "start1 i rnd a cfg = do {
     cfg \<leftarrow> crash1 i cfg;
     rows \<leftarrow> slice_set (endnames cfg) (int i) (Some (map rnd [0..<cfgN cfg]));
     let cfg = cfg\<lparr>endnames := rows\<rparr>;
     cfg \<leftarrow> forEach (\<lambda>j cfg. do {
         e \<leftarrow> endname cfg i j;
         rn \<leftarrow> MakeEnd (endAt e) (cfgNet cfg);
         Some (cfg\<lparr>cfgNet := Connect (endAt e) (serverOf j) rn\<rparr>) }) [0..<cfgN cfg] cfg;
     sv \<leftarrow> slice_get (saved cfg) (int i);
     let p = (case sv of Some p \<Rightarrow> CopyPersister p | None \<Rightarrow> MakePersister);
     svs \<leftarrow> slice_set (saved cfg) (int i) (Some p);
     let cfg = cfg\<lparr>saved := svs\<rparr>;
     let (rf, effs) = Make (cfgN cfg) (int i) p;
     rfs \<leftarrow> slice_set (rafts cfg) (int i) (Some rf);
     let cfg = cfg\<lparr>rafts := rfs, cfgNet := AddServer (serverOf i) (Some a) (cfgNet cfg)\<rparr>;
     Some (cfg, effs) }"

definition setunreliable :: "bool \<Rightarrow> ('c, 's) config \<Rightarrow> ('c, 's) config" where
  "setunreliable unrel cfg = cfg\<lparr>cfgNet := Reliable (\<not> unrel) (cfgNet cfg)\<rparr>"

definition setlongreordering :: "bool \<Rightarrow> ('c, 's) config \<Rightarrow> ('c, 's) config" where
  "setlongreordering longrel cfg = cfg\<lparr>cfgNet := LongReordering longrel (cfgNet cfg)\<rparr>"

definition make_config :: "nat \<Rightarrow> bool \<Rightarrow> (nat \<Rightarrow> nat \<Rightarrow> string) \<Rightarrow> (nat \<Rightarrow> nat) \<Rightarrow> ('c, 's) config option" where
  "make_config n unreliable rnd addr = do {
     let cfg = \<lparr>cfgNet = MakeNetwork, cfgN = n, rafts = replicate n None, applyErr = replicate n [],
                connected = replicate n False, saved = replicate n None, endnames = replicate n None,
                logs = replicate n Map.empty, rpcs0 = 0, cmds0 = 0, maxIndex = 0, maxIndex0 = 0\<rparr>;
     let cfg = setunreliable unreliable cfg;
     let cfg = cfg\<lparr>cfgNet := LongDelays True (cfgNet cfg)\<rparr>;
     cfg \<leftarrow> forEach (\<lambda>i cfg. map_option fst (start1 i (rnd i) (addr i) cfg)) [0..<n] cfg;
     forEach connect [0..<n] cfg }"

text \<open>Killing the peers does not touch the tester; the network is closed.\<close>

definition cleanup :: "('c, 's) config \<Rightarrow> ('c, 's) config option" where
  "cleanup cfg = do {
     rn \<leftarrow> Cleanup (cfgNet cfg);
     Some (cfg\<lparr>rafts := map (map_option Kill) (rafts cfg), cfgNet := rn\<rparr>) }"

definition rpcTotal :: "('c, 's) config \<Rightarrow> int" where
  "rpcTotal cfg = GetTotalCount (cfgNet cfg)"

definition rpcCount :: "(nat \<rightharpoonup> 'o Server) \<Rightarrow> nat \<Rightarrow> ('c, 's) config \<Rightarrow> int option" where
  "rpcCount hp i cfg = GetCount hp (serverOf i) (cfgNet cfg)"

text \<open>\<^verbatim>\<open>begin\<close>; \<^verbatim>\<open>end\<close> reports the differences to it.\<close>

definition begin_test :: "('c, 's) config \<Rightarrow> ('c, 's) config" where
  "begin_test cfg = cfg\<lparr>rpcs0 := rpcTotal cfg, cmds0 := 0, maxIndex0 := maxIndex cfg\<rparr>"

definition end_test :: "('c, 's) config \<Rightarrow> nat \<times> int \<times> int" where
  "end_test cfg = (cfgN cfg, rpcTotal cfg - rpcs0 cfg, maxIndex cfg - maxIndex0 cfg)"

end
