(* ===== verification/Tester_Wiring.thy ===== *)
theory Tester_Wiring
  imports Tester_Net
begin

text \<open>
  What connecting and disconnecting a server does to the ends of the network: exactly the ends
  between connected servers are enabled.
\<close>

section \<open>Wiring\<close>

text \<open>
  What the operations keep: a row of end names has a name for every server, no two names are equal,
  all of them were made and lead to their server, and the end from \<open>i\<close> to \<open>j\<close> is enabled exactly
  when both are connected.  A server without end names is not connected.
\<close>

definition row :: "('c, 's) config \<Rightarrow> nat \<Rightarrow> string list option" where
  "row cfg i = endnames cfg ! i"

definition sized :: "('c, 's) config \<Rightarrow> bool" where
  "sized cfg \<longleftrightarrow> length (rafts cfg) = cfgN cfg \<and> length (connected cfg) = cfgN cfg \<and> length (saved cfg) = cfgN cfg \<and>
     length (endnames cfg) = cfgN cfg \<and> length (logs cfg) = cfgN cfg \<and>
     (\<forall>i < cfgN cfg. \<forall>r. row cfg i = Some r \<longrightarrow> length r = cfgN cfg)"

definition named :: "('c, 's) config \<Rightarrow> bool" where
  "named cfg \<longleftrightarrow> (\<forall>i < cfgN cfg. \<forall>j < cfgN cfg. \<forall>e. endname cfg i j = Some e \<longrightarrow>
     endAt e \<in> dom (ends (cfgNet cfg)) \<and> connection (cfgNet cfg) (endAt e) = serverOf j \<and>
     (\<forall>i' < cfgN cfg. \<forall>j' < cfgN cfg. endname cfg i' j' = Some e \<longrightarrow> i' = i \<and> j' = j))"

definition link :: "('c, 's) config \<Rightarrow> nat \<Rightarrow> nat \<Rightarrow> bool" where
  "link cfg i j = (case endname cfg i j of None \<Rightarrow> False | Some e \<Rightarrow> isEnabled (cfgNet cfg) (endAt e))"

definition wired :: "('c, 's) config \<Rightarrow> bool" where
  "wired cfg \<longleftrightarrow> sized cfg \<and> named cfg \<and> (\<forall>i < cfgN cfg. connected cfg ! i \<longrightarrow> row cfg i \<noteq> None) \<and>
     (\<forall>i < cfgN cfg. \<forall>j < cfgN cfg. link cfg i j = (connected cfg ! i \<and> connected cfg ! j))"

text \<open>Changes of the enabled ends alone.\<close>

definition same :: "('c, 's) config \<Rightarrow> ('c, 's) config \<Rightarrow> bool" where
  "same cfg cfg' \<longleftrightarrow> cfg' = cfg\<lparr>cfgNet := (cfgNet cfg)\<lparr>enabled := enabled (cfgNet cfg')\<rparr>\<rparr>"

lemma same_refl [simp]: "same cfg cfg"
  by (simp add: same_def)

lemma same_fields:
  assumes "same cfg cfg'"
  shows "cfgN cfg' = cfgN cfg" "connected cfg' = connected cfg" "endnames cfg' = endnames cfg" "rafts cfg' = rafts cfg"
    "saved cfg' = saved cfg" "logs cfg' = logs cfg" "endname cfg' i j = endname cfg i j" "row cfg' i = row cfg i"
    "named cfg' = named cfg" "sized cfg' = sized cfg" "ends (cfgNet cfg') = ends (cfgNet cfg)"
    "connections (cfgNet cfg') = connections (cfgNet cfg)"
proof -
  have f: "cfgN cfg' = cfgN cfg \<and> connected cfg' = connected cfg \<and> endnames cfg' = endnames cfg \<and> rafts cfg' = rafts cfg \<and>
      saved cfg' = saved cfg \<and> logs cfg' = logs cfg \<and> ends (cfgNet cfg') = ends (cfgNet cfg) \<and>
      connections (cfgNet cfg') = connections (cfgNet cfg)"
    by (subst (1 2 3 4 5 6 7 8) assms [unfolded same_def]) simp
  then show "cfgN cfg' = cfgN cfg" "connected cfg' = connected cfg" "endnames cfg' = endnames cfg" "rafts cfg' = rafts cfg"
    "saved cfg' = saved cfg" "logs cfg' = logs cfg" "ends (cfgNet cfg') = ends (cfgNet cfg)"
    "connections (cfgNet cfg') = connections (cfgNet cfg)" by blast+
  have e: "endname cfg' i j = endname cfg i j" for i j using f by (simp add: endname_def)
  then show "endname cfg' i j = endname cfg i j" "row cfg' i = row cfg i" using f by (auto simp: row_def)
  show "named cfg' = named cfg" using f e by (simp add: named_def connection_def)
  show "sized cfg' = sized cfg" using f by (simp add: sized_def row_def)
qed

lemma isEnabled_Enable: "isEnabled (Enable e b rn) e' = (if e' = e then b else isEnabled rn e')"
  by (simp add: isEnabled_def Enable_def)

lemma enableEnd_effect:
  assumes en: "enableEnd i j b cfg = Some cfg'" and nm: "named cfg" and ij: "i < cfgN cfg" "j < cfgN cfg"
    and k: "i' < cfgN cfg" "j' < cfgN cfg"
  shows "link cfg' i' j' = (if i' = i \<and> j' = j then b else link cfg i' j')"
proof -
  obtain e where e: "endname cfg i j = Some e" "cfg' = cfg\<lparr>cfgNet := Enable (endAt e) b (cfgNet cfg)\<rparr>"
    using en by (auto simp: enableEnd_def bind_Some_iff)
  have n: "endname cfg' i' j' = endname cfg i' j'" using e(2) by (simp add: endname_def)
  show ?thesis
  proof (cases "endname cfg i' j'")
    case None
    then show ?thesis using n e(1) by (auto simp: link_def)
  next
    case (Some e')
    have "e' = e \<longleftrightarrow> i' = i \<and> j' = j"
    proof
      assume "e' = e"
      then show "i' = i \<and> j' = j" using nm Some e(1) ij k unfolding named_def by blast
    qed (use Some e(1) in simp)
    then show ?thesis using n Some e by (auto simp: link_def isEnabled_Enable)
  qed
qed

lemma enableEnd_same: "enableEnd i j b cfg = Some cfg' \<Longrightarrow> same cfg cfg'"
  by (auto simp: enableEnd_def bind_Some_iff same_def Enable_def)

lemma same_trans: "same cfg cfg' \<Longrightarrow> same cfg' cfg'' \<Longrightarrow> same cfg cfg''"
  unfolding same_def by (metis (no_types, lifting) Network.surjective Network.update_convs(5) config.surjective config.update_convs(1) config.select_convs(1))

lemma slice_set_Some: "slice_set xs (int i) v = Some ys \<longleftrightarrow> i < length xs \<and> ys = xs[i := v]"
  by (auto simp: slice_set_def len_def)

lemma slice_get_nat: "slice_get xs (int i) = Some x \<longleftrightarrow> i < length xs \<and> xs ! i = x"
  by (auto simp: slice_get_def len_def)

lemma endname_row: "sized cfg \<Longrightarrow> i < cfgN cfg \<Longrightarrow> j < cfgN cfg \<Longrightarrow>
    endname cfg i j = map_option (\<lambda>r. r ! j) (row cfg i)"
  by (auto simp: endname_def row_def sized_def slice_get_def len_def split: option.splits)

text \<open>A loop that enables or disables some ends.\<close>

lemma enable_loop:
  assumes g: "\<And>k cfg'. same cfg cfg' \<Longrightarrow> g k cfg' = g k cfg"
    and pq: "\<And>k. k < n \<Longrightarrow> p k < cfgN cfg \<and> q k < cfgN cfg" and nm: "named cfg" and sz: "sized cfg"
    and ok: "\<And>k. k < n \<Longrightarrow> \<exists>b. g k cfg = Some b \<and> (t b \<longrightarrow> row cfg (p k) \<noteq> None)"
  shows "\<exists>cfg'. forEach (\<lambda>k cfg. do { b \<leftarrow> g k cfg; if t b then enableEnd (p k) (q k) v cfg else Some cfg })
      [0..<n] cfg = Some cfg' \<and> same cfg cfg' \<and> (\<forall>i < cfgN cfg. \<forall>j < cfgN cfg.
    link cfg' i j = ((\<exists>k < n. (\<exists>b. g k cfg = Some b \<and> t b) \<and> p k = i \<and> q k = j) \<and> v \<or>
      \<not> (\<exists>k < n. (\<exists>b. g k cfg = Some b \<and> t b) \<and> p k = i \<and> q k = j) \<and> link cfg i j))"
    (is "\<exists>cfg'. _ = Some cfg' \<and> ?P n cfg'")
proof (rule forEach_upt [where P = ?P])
  show "?P 0 cfg" by simp
next
  fix k cfg1
  assume k: "k < n" and P: "?P k cfg1"
  have s: "same cfg cfg1" using P by blast
  obtain b where b: "g k cfg = Some b" "t b \<longrightarrow> row cfg (p k) \<noteq> None" using ok [OF k] by blast
  have g1: "g k cfg1 = Some b" using g [OF s] b(1) by simp
  note f = same_fields [OF s]
  show "\<exists>s'. do { b \<leftarrow> g k cfg1; if t b then enableEnd (p k) (q k) v cfg1 else Some cfg1 } = Some s' \<and> ?P (Suc k) s'"
  proof (cases "t b")
    case True
    then obtain e where "endname cfg1 (p k) (q k) = Some e" using b(2) f pq [OF k] endname_row [OF sz] by auto
    then obtain cfg2 where en: "enableEnd (p k) (q k) v cfg1 = Some cfg2" by (auto simp: enableEnd_def)
    have "link cfg2 i j = (if i = p k \<and> j = q k then v else link cfg1 i j)" if "i < cfgN cfg" "j < cfgN cfg" for i j
      by (rule enableEnd_effect [OF en]) (use f nm pq [OF k] that in auto)
    then show ?thesis
      using P True b(1) g1 en same_trans [OF s enableEnd_same [OF en]] by (auto simp: less_Suc_eq)
  next
    case False
    then show ?thesis using P b g1 by (auto simp: less_Suc_eq)
  qed
qed

lemma wiredD:
  assumes "wired cfg"
  shows "sized cfg" "named cfg" "\<And>i. i < cfgN cfg \<Longrightarrow> connected cfg ! i \<Longrightarrow> row cfg i \<noteq> None"
    "\<And>i j. i < cfgN cfg \<Longrightarrow> j < cfgN cfg \<Longrightarrow> link cfg i j = (connected cfg ! i \<and> connected cfg ! j)"
  using assms by (auto simp: wired_def)

lemma set_connected:
  assumes "wired cfg"
  shows "named (cfg\<lparr>connected := (connected cfg)[i := v]\<rparr>)" "sized (cfg\<lparr>connected := (connected cfg)[i := v]\<rparr>)"
    "link (cfg\<lparr>connected := cs\<rparr>) = link cfg" "row (cfg\<lparr>connected := cs\<rparr>) = row cfg"
  using wiredD(1,2) [OF assms]
  by (auto simp: named_def sized_def row_def endname_def link_def fun_eq_iff cong: option.case_cong)

text \<open>What is left of the tester when a server is connected or disconnected.\<close>

definition rewired :: "('c, 's) config \<Rightarrow> bool list \<Rightarrow> ('c, 's) config \<Rightarrow> bool" where
  "rewired cfg cs cfg' \<longleftrightarrow> wired cfg' \<and> connected cfg' = cs \<and> same (cfg\<lparr>connected := cs\<rparr>) cfg'"

lemma rewiredI:
  assumes w: "wired cfg" "i < cfgN cfg" "v \<longrightarrow> row cfg i \<noteq> None" and s: "same (cfg\<lparr>connected := (connected cfg)[i := v]\<rparr>) cfg'"
    and l: "\<And>a b. a < cfgN cfg \<Longrightarrow> b < cfgN cfg \<Longrightarrow>
      link cfg' a b = ((connected cfg)[i := v] ! a \<and> (connected cfg)[i := v] ! b)"
  shows "rewired cfg ((connected cfg)[i := v]) cfg'"
proof -
  have "(connected cfg)[i := v] ! a \<longrightarrow> row cfg a \<noteq> None" if "a < cfgN cfg" for a
    using w wiredD(1,3) [OF w(1)] that by (cases "a = i") (auto simp: sized_def)
  then show ?thesis
    using same_fields [OF s] set_connected(1,2) [OF w(1), of i v] l s by (simp add: rewired_def wired_def row_def)
qed

lemma connect_effect:
  assumes w: "wired cfg" "row cfg i \<noteq> None" and i: "i < cfgN cfg"
  shows "\<exists>cfg'. connect i cfg = Some cfg' \<and> rewired cfg ((connected cfg)[i := True]) cfg'"
proof -
  let ?cs = "(connected cfg)[i := True]"
  let ?cfg = "cfg\<lparr>connected := ?cs\<rparr>"
  have len: "length (connected cfg) = cfgN cfg" using wiredD(1) [OF w(1)] by (simp add: sized_def)
  have g: "slice_get ?cs (int k) = Some (?cs ! k)" if "k < cfgN cfg" for k using that len by (simp add: slice_get_nat)
  have r: "?cs ! k \<longrightarrow> row cfg k \<noteq> None" if "k < cfgN cfg" for k
    using w(2) wiredD(3) [OF w(1) that] that len i by (cases "k = i") auto
  have "\<exists>cfg1. forEach (\<lambda>j cfg. do { b \<leftarrow> slice_get (connected cfg) (int j);
         if b then enableEnd i j True cfg else Some cfg }) [0..<cfgN cfg] ?cfg = Some cfg1 \<and> same ?cfg cfg1 \<and>
      (\<forall>a < cfgN ?cfg. \<forall>b < cfgN ?cfg. link cfg1 a b =
        ((\<exists>k < cfgN cfg. (\<exists>x. slice_get (connected ?cfg) (int k) = Some x \<and> x) \<and> i = a \<and> k = b) \<and> True \<or>
          \<not> (\<exists>k < cfgN cfg. (\<exists>x. slice_get (connected ?cfg) (int k) = Some x \<and> x) \<and> i = a \<and> k = b) \<and> link ?cfg a b))"
    by (rule enable_loop) (use set_connected [OF w(1)] i w g in \<open>auto simp: same_fields\<close>)
  then obtain cfg1 where l1: "forEach (\<lambda>j cfg. do { b \<leftarrow> slice_get (connected cfg) (int j);
         if b then enableEnd i j True cfg else Some cfg }) [0..<cfgN cfg] ?cfg = Some cfg1" and s1: "same ?cfg cfg1"
    and k1: "\<And>a b. a < cfgN cfg \<Longrightarrow> b < cfgN cfg \<Longrightarrow> link cfg1 a b = (a = i \<and> ?cs ! b \<or> link cfg a b)"
    using g by (auto simp: set_connected(3) [OF w(1)])
  note f1 = same_fields [OF s1]
  have "\<exists>cfg'. forEach (\<lambda>j cfg. do { b \<leftarrow> slice_get (connected cfg) (int j);
         if b then enableEnd j i True cfg else Some cfg }) [0..<cfgN cfg1] cfg1 = Some cfg' \<and> same cfg1 cfg' \<and>
      (\<forall>a < cfgN cfg1. \<forall>b < cfgN cfg1. link cfg' a b =
        ((\<exists>k < cfgN cfg1. (\<exists>x. slice_get (connected cfg1) (int k) = Some x \<and> x) \<and> k = a \<and> i = b) \<and> True \<or>
          \<not> (\<exists>k < cfgN cfg1. (\<exists>x. slice_get (connected cfg1) (int k) = Some x \<and> x) \<and> k = a \<and> i = b) \<and> link cfg1 a b))"
    by (rule enable_loop) (use set_connected [OF w(1)] i g r f1 in \<open>auto simp: same_fields\<close>)
  then obtain cfg' where l2: "forEach (\<lambda>j cfg. do { b \<leftarrow> slice_get (connected cfg) (int j);
         if b then enableEnd j i True cfg else Some cfg }) [0..<cfgN cfg1] cfg1 = Some cfg'" and s2: "same cfg1 cfg'"
    and k2: "\<And>a b. a < cfgN cfg \<Longrightarrow> b < cfgN cfg \<Longrightarrow> link cfg' a b = (b = i \<and> ?cs ! a \<or> link cfg1 a b)"
    using g f1(1,2) by auto
  have "link cfg' a b = (?cs ! a \<and> ?cs ! b)" if "a < cfgN cfg" "b < cfgN cfg" for a b
    using k1 [OF that] k2 [OF that] wiredD(4) [OF w(1) that] that len by (cases "a = i"; cases "b = i") auto
  then have "rewired cfg ?cs cfg'" by (intro rewiredI w i same_trans [OF s1 s2]) (use w in auto)
  moreover have "slice_set (connected cfg) (int i) True = Some ?cs" using i len by (simp add: slice_set_Some)
  ultimately show ?thesis using l1 l2 by (auto simp: connect_def Let_def)
qed

lemma disconnect_effect:
  assumes w: "wired cfg" and i: "i < cfgN cfg"
  shows "\<exists>cfg'. disconnect i cfg = Some cfg' \<and> rewired cfg ((connected cfg)[i := False]) cfg'"
proof -
  let ?cs = "(connected cfg)[i := False]"
  let ?cfg = "cfg\<lparr>connected := ?cs\<rparr>"
  have len: "length (connected cfg) = cfgN cfg" using wiredD(1) [OF w] by (simp add: sized_def)
  have g: "slice_get (endnames cfg) (int k) = Some (row cfg k)" if "k < cfgN cfg" for k
    using that wiredD(1) [OF w] by (simp add: slice_get_nat sized_def row_def)
  have "\<exists>cfg1. forEach (\<lambda>j cfg. do { r \<leftarrow> slice_get (endnames cfg) (int i);
         if r \<noteq> None then enableEnd i j False cfg else Some cfg }) [0..<cfgN cfg] ?cfg = Some cfg1 \<and> same ?cfg cfg1 \<and>
      (\<forall>a < cfgN ?cfg. \<forall>b < cfgN ?cfg. link cfg1 a b =
        ((\<exists>k < cfgN cfg. (\<exists>x. slice_get (endnames ?cfg) (int i) = Some x \<and> x \<noteq> None) \<and> i = a \<and> k = b) \<and> False \<or>
          \<not> (\<exists>k < cfgN cfg. (\<exists>x. slice_get (endnames ?cfg) (int i) = Some x \<and> x \<noteq> None) \<and> i = a \<and> k = b) \<and> link ?cfg a b))"
    by (rule enable_loop) (use set_connected [OF w] i g in \<open>auto simp: same_fields\<close>)
  then obtain cfg1 where l1: "forEach (\<lambda>j cfg. do { r \<leftarrow> slice_get (endnames cfg) (int i);
         if r \<noteq> None then enableEnd i j False cfg else Some cfg }) [0..<cfgN cfg] ?cfg = Some cfg1" and s1: "same ?cfg cfg1"
    and k1: "\<And>a b. a < cfgN cfg \<Longrightarrow> b < cfgN cfg \<Longrightarrow> link cfg1 a b = ((a = i \<longrightarrow> row cfg a = None) \<and> link cfg a b)"
    using g [OF i] by (auto simp: set_connected(3) [OF w])
  note f1 = same_fields [OF s1]
  have "\<exists>cfg'. forEach (\<lambda>j cfg. do { r \<leftarrow> slice_get (endnames cfg) (int j);
         if r \<noteq> None then enableEnd j i False cfg else Some cfg }) [0..<cfgN cfg1] cfg1 = Some cfg' \<and> same cfg1 cfg' \<and>
      (\<forall>a < cfgN cfg1. \<forall>b < cfgN cfg1. link cfg' a b =
        ((\<exists>k < cfgN cfg1. (\<exists>x. slice_get (endnames cfg1) (int k) = Some x \<and> x \<noteq> None) \<and> k = a \<and> i = b) \<and> False \<or>
          \<not> (\<exists>k < cfgN cfg1. (\<exists>x. slice_get (endnames cfg1) (int k) = Some x \<and> x \<noteq> None) \<and> k = a \<and> i = b) \<and> link cfg1 a b))"
    by (rule enable_loop) (use set_connected [OF w] i g f1 in \<open>auto simp: same_fields\<close>)
  then obtain cfg' where l2: "forEach (\<lambda>j cfg. do { r \<leftarrow> slice_get (endnames cfg) (int j);
         if r \<noteq> None then enableEnd j i False cfg else Some cfg }) [0..<cfgN cfg1] cfg1 = Some cfg'" and s2: "same cfg1 cfg'"
    and k2: "\<And>a b. a < cfgN cfg \<Longrightarrow> b < cfgN cfg \<Longrightarrow> link cfg' a b = ((b = i \<longrightarrow> row cfg a = None) \<and> link cfg1 a b)"
    using g f1(1,3) by auto
  have "link cfg' a b = (?cs ! a \<and> ?cs ! b)" if "a < cfgN cfg" "b < cfgN cfg" for a b
    using k1 [OF that] k2 [OF that] wiredD(3,4) [OF w] that len by (cases "a = i"; cases "b = i") auto
  then have "rewired cfg ?cs cfg'" by (intro rewiredI w i same_trans [OF s1 s2]) auto
  moreover have "slice_set (connected cfg) (int i) False = Some ?cs" using i len by (simp add: slice_set_Some)
  ultimately show ?thesis using l1 l2 by (auto simp: disconnect_def Let_def)
qed

end
