(* ===== verification/Tester_Restart.thy ===== *)
theory Tester_Restart
  imports Tester_Wiring
begin

text \<open>
  Crashing and starting a server: the wiring is kept, the new instance is made from the state that the
  old one persisted, and its ends have new names.
\<close>

section \<open>Crashes\<close>

lemma wired_cong:
  assumes "wired cfg" "cfgN cfg' = cfgN cfg" "connected cfg' = connected cfg" "endnames cfg' = endnames cfg" "logs cfg' = logs cfg"
    "length (rafts cfg') = cfgN cfg" "length (saved cfg') = cfgN cfg" "ends (cfgNet cfg') = ends (cfgNet cfg)"
    "connections (cfgNet cfg') = connections (cfgNet cfg)" "enabled (cfgNet cfg') = enabled (cfgNet cfg)"
  shows "wired cfg'"
proof -
  have e: "endname cfg' = endname cfg" "row cfg' = row cfg" using assms by (auto simp: endname_def row_def fun_eq_iff)
  then have "link cfg' = link cfg"
    using assms by (auto simp: link_def isEnabled_def fun_eq_iff cong: option.case_cong)
  then show ?thesis using assms e by (simp add: wired_def sized_def named_def connection_def)
qed

definition crashed :: "nat \<Rightarrow> ('c, 's) config \<Rightarrow> ('c, 's) config \<Rightarrow> bool" where
  "crashed i cfg cfg' \<longleftrightarrow> wired cfg' \<and> cfgN cfg' = cfgN cfg \<and> connected cfg' = (connected cfg)[i := False] \<and>
     endnames cfg' = endnames cfg \<and> logs cfg' = logs cfg \<and> ends (cfgNet cfg') = ends (cfgNet cfg) \<and>
     servers (cfgNet cfg') = (servers (cfgNet cfg))(serverOf i \<mapsto> None) \<and> rafts cfg' = (rafts cfg)[i := None] \<and>
     saved cfg' = (saved cfg)[i := map_option (\<lambda>p. SaveRaftState MakePersister (ReadRaftState p)) (stored cfg i)]"

lemma crash1_effect:
  fixes cfg :: "('c, 's) config"
  assumes w: "wired cfg" and i: "i < cfgN cfg"
  shows "\<exists>cfg'. crash1 i cfg = Some cfg' \<and> crashed i cfg cfg'"
proof -
  obtain cfg1 where d: "disconnect i cfg = Some cfg1" and r: "rewired cfg ((connected cfg)[i := False]) cfg1"
    using disconnect_effect [OF w i] by blast
  have s: "same (cfg\<lparr>connected := (connected cfg)[i := False]\<rparr>) cfg1" and w1: "wired cfg1"
    using r by (auto simp: rewired_def)
  note f = same_fields [OF s]
  have sv: "servers (cfgNet cfg1) = servers (cfgNet cfg)"
    by (subst s [unfolded same_def]) simp
  have l: "length (saved cfg) = cfgN cfg" "length (rafts cfg) = cfgN cfg"
    using wiredD(1) [OF w] by (auto simp: sized_def)
  have g: "slice_get (saved cfg) (int i) = Some (saved cfg ! i)" "slice_get (rafts cfg) (int i) = Some (rafts cfg ! i)"
    "\<And>x. slice_set (saved cfg) (int i) x = Some ((saved cfg)[i := x])"
    "\<And>x. slice_set (rafts cfg) (int i) x = Some ((rafts cfg)[i := x])"
    "\<And>x. slice_get ((saved cfg)[i := x]) (int i) = Some x"
    "\<And>x y. slice_set ((saved cfg)[i := x]) (int i) y = Some ((saved cfg)[i := y])"
    using l i by (auto simp: slice_get_nat slice_set_Some)
  define sv' :: "('c, 's) Persister option" where "sv' = map_option (\<lambda>p. SaveRaftState MakePersister (ReadRaftState p)) (stored cfg i)"
  have st: "stored (cfg1\<lparr>cfgNet := x\<rparr>) i = stored cfg i" for x using f by (simp add: stored_def split: option.split)
  have u: "rafts cfg ! i = None \<Longrightarrow> (rafts cfg)[i := None] = rafts cfg" by (metis list_update_id)
  have "crash1 i cfg = Some (cfg1\<lparr>cfgNet := DeleteServer (serverOf i) (cfgNet cfg1),
      saved := (saved cfg)[i := sv'], rafts := (rafts cfg)[i := None]\<rparr>)" (is "_ = Some ?cfg'")
    using f g u st by (cases "stored cfg i"; cases "rafts cfg ! i")
      (auto simp: crash1_def d Let_def sv'_def CopyPersister_def ReadRaftState_def)
  moreover have "wired ?cfg'" by (rule wired_cong [OF w1]) (use f l in \<open>auto simp: DeleteServer_def\<close>)
  ultimately show ?thesis using f r sv by (simp add: crashed_def sv'_def rewired_def DeleteServer_def)
qed

section \<open>Starts\<close>

text \<open>The ends that \<^verbatim>\<open>start1\<close> makes.\<close>

definition ends_made :: "(nat \<Rightarrow> string) \<Rightarrow> Network \<Rightarrow> nat \<Rightarrow> Network \<Rightarrow> bool" where
  "ends_made rnd rn k rn' \<longleftrightarrow> dom (ends rn') = dom (ends rn) \<union> (\<lambda>j. endAt (rnd j)) ` {..<k} \<and>
     (\<forall>j < k. connection rn' (endAt (rnd j)) = serverOf j \<and> \<not> isEnabled rn' (endAt (rnd j))) \<and>
     (\<forall>e \<in> dom (ends rn). connection rn' e = connection rn e \<and> isEnabled rn' e = isEnabled rn e)"

lemma ends_made_Suc:
  assumes "ends_made rnd rn k rn1" "\<And>j. j < Suc k \<Longrightarrow> endAt (rnd j) \<notin> dom (ends rn)" "inj_on rnd {..<Suc k}"
  shows "\<exists>rn2. MakeEnd (endAt (rnd k)) rn1 = Some rn2 \<and>
    ends_made rnd rn (Suc k) (Connect (endAt (rnd k)) (serverOf k) rn2)"
proof -
  have ne: "rnd j \<noteq> rnd k" if "j < k" for j using assms(3) that by (auto simp: inj_on_def)
  have "endAt (rnd k) \<notin> (\<lambda>j. endAt (rnd j)) ` {..<k}" using ne by fastforce
  then have "endAt (rnd k) \<notin> dom (ends rn1)"
    using assms(1) assms(2) [of k] by (simp add: ends_made_def)
  then have nw: "ends rn1 (endAt (rnd k)) = None" by blast
  have nd: "e \<noteq> endAt (rnd k)" if "e \<in> dom (ends rn)" for e using assms(2) [of k] that by auto
  show ?thesis using assms(1) nw ne nd
    by (auto simp: ends_made_def MakeEnd_def Connect_def connection_def isEnabled_def lessThan_Suc less_Suc_eq)
qed

definition fresh_names :: "nat \<Rightarrow> (nat \<Rightarrow> string) \<Rightarrow> ('c, 's) config \<Rightarrow> bool" where
  "fresh_names n rnd cfg \<longleftrightarrow> inj_on rnd {..<n} \<and> (\<forall>j < n. endAt (rnd j) \<notin> dom (ends (cfgNet cfg)))"

definition started :: "nat \<Rightarrow> (nat \<Rightarrow> string) \<Rightarrow> nat \<Rightarrow> ('c, 's) config \<Rightarrow> ('c, 's) config \<Rightarrow> bool" where
  "started i rnd a cfg cfg' \<longleftrightarrow> wired cfg' \<and> cfgN cfg' = cfgN cfg \<and> connected cfg' = (connected cfg)[i := False] \<and>
     endnames cfg' = (endnames cfg)[i := Some (map rnd [0..<cfgN cfg])] \<and> logs cfg' = logs cfg \<and>
     dom (ends (cfgNet cfg')) = dom (ends (cfgNet cfg)) \<union> (\<lambda>j. endAt (rnd j)) ` {..<cfgN cfg} \<and>
     serverAt (cfgNet cfg') (serverOf i) = Some a \<and>
     (\<exists>p. saved cfg' = (saved cfg)[i := Some p] \<and> rafts cfg' = (rafts cfg)[i := Some (fst (Make (cfgN cfg) (int i) p))] \<and>
       p = (case stored cfg i of Some q \<Rightarrow> SaveRaftState MakePersister (ReadRaftState q) | None \<Rightarrow> MakePersister))"

text \<open>The new row of names.\<close>

lemma wired_new_row:
  assumes c: "crashed i cfg cfg1" and w: "wired cfg" and i: "i < cfgN cfg" and fr: "fresh_names (cfgN cfg) rnd cfg"
    and m: "ends_made rnd (cfgNet cfg1) (cfgN cfg) (cfgNet cfg2)"
    and f: "cfgN cfg2 = cfgN cfg" "connected cfg2 = connected cfg1" "logs cfg2 = logs cfg"
      "endnames cfg2 = (endnames cfg)[i := Some (map rnd [0..<cfgN cfg])]"
      "length (rafts cfg2) = cfgN cfg" "length (saved cfg2) = cfgN cfg"
  shows "wired cfg2"
proof -
  have w1: "wired cfg1" and f1: "cfgN cfg1 = cfgN cfg" "connected cfg1 = (connected cfg)[i := False]" "endnames cfg1 = endnames cfg"
    "ends (cfgNet cfg1) = ends (cfgNet cfg)"
    using c by (auto simp: crashed_def)
  have l: "length (endnames cfg) = cfgN cfg" "length (connected cfg) = cfgN cfg" using wiredD(1) [OF w] by (auto simp: sized_def)
  have r: "row cfg2 a = (if a = i then Some (map rnd [0..<cfgN cfg]) else row cfg1 a)" if "a < cfgN cfg" for a
    using that f l f1 by (simp add: row_def)
  have sz: "sized cfg2"
    using wiredD(1) [OF w1] r f l f1 c by (auto simp: sized_def crashed_def)
  have e: "endname cfg2 a b = (if a = i then Some (rnd b) else endname cfg1 a b)" if "a < cfgN cfg" "b < cfgN cfg" for a b
    using that r endname_row [OF sz] endname_row [OF wiredD(1) [OF w1]] f f1 by simp
  have old: "endAt x \<in> dom (ends (cfgNet cfg))" "connection (cfgNet cfg2) (endAt x) = serverOf b"
      "isEnabled (cfgNet cfg2) (endAt x) = isEnabled (cfgNet cfg1) (endAt x)"
    if "endname cfg1 a b = Some x" "a < cfgN cfg" "b < cfgN cfg" for a b x
    using that wiredD(2) [OF w1] m f1 by (auto simp: named_def ends_made_def)
  have new: "endAt (rnd b) \<in> dom (ends (cfgNet cfg2))" "connection (cfgNet cfg2) (endAt (rnd b)) = serverOf b"
      "\<not> isEnabled (cfgNet cfg2) (endAt (rnd b))" "endAt (rnd b) \<notin> dom (ends (cfgNet cfg))" if "b < cfgN cfg" for b
    using m that fr by (auto simp: ends_made_def fresh_names_def)
  have inj: "rnd b = rnd b' \<longleftrightarrow> b = b'" if "b < cfgN cfg" "b' < cfgN cfg" for b b'
    using fr that by (auto simp: fresh_names_def inj_on_def)
  have nm: "named cfg2" unfolding named_def
  proof (intro allI impI conjI)
    fix a b x assume ab: "a < cfgN cfg2" "b < cfgN cfg2" "endname cfg2 a b = Some x"
    have "x = rnd b \<or> endname cfg1 a b = Some x" using ab e f by (auto split: if_splits)
    then show "connection (cfgNet cfg2) (endAt x) = serverOf b"
      using ab f new(2) old(2) by auto
    have "endAt x \<in> dom (ends (cfgNet cfg)) \<or> x = rnd b" using \<open>x = rnd b \<or> _\<close> old(1) [of a b x] ab f by auto
    moreover have "dom (ends (cfgNet cfg)) \<subseteq> dom (ends (cfgNet cfg2))" using m f1 by (simp add: ends_made_def)
    moreover have "endAt (rnd b) \<in> dom (ends (cfgNet cfg2))" using new(1) ab f by simp
    ultimately show "endAt x \<in> dom (ends (cfgNet cfg2))" by blast
    fix a' b' assume ab': "a' < cfgN cfg2" "b' < cfgN cfg2" "endname cfg2 a' b' = Some x"
    show "a' = a" "b' = b"
    proof -
      have "a' = a \<and> b' = b"
      proof (cases "a = i"; cases "a' = i")
        assume "a \<noteq> i" "a' \<noteq> i"
        then show ?thesis using ab ab' e f wiredD(2) [OF w1] f1(1) by (auto simp: named_def)
      next
        assume "a \<noteq> i" "a' = i"
        then show ?thesis using ab ab' e f new(4) [of b'] old(1) [of a b x] by auto
      next
        assume "a = i" "a' \<noteq> i"
        then show ?thesis using ab ab' e f new(4) [of b] old(1) [of a' b' x] by auto
      qed (use ab ab' e f inj in auto)
      then show "a' = a" "b' = b" by auto
    qed
  qed
  have lk: "link cfg2 a b = (connected cfg2 ! a \<and> connected cfg2 ! b)" if "a < cfgN cfg" "b < cfgN cfg" for a b
  proof (cases "a = i")
    case True
    then show ?thesis using that e new(3) f f1 l by (simp add: link_def)
  next
    case False
    then have "link cfg2 a b = link cfg1 a b"
      using that e old(3) by (auto simp: link_def split: option.split)
    then show ?thesis using wiredD(4) [OF w1] that f f1 by simp
  qed
  show ?thesis unfolding wired_def
    using sz nm lk r f f1 wiredD(3) [OF w1] by (auto split: if_splits)
qed

lemma start1_ends:
  assumes fr: "fresh_names n rnd cfg" and nm: "\<And>j. j < n \<Longrightarrow> endname cfg i j = Some (rnd j)"
  shows "\<exists>rn'. forEach (\<lambda>j cfg. do {
         e \<leftarrow> endname cfg i j;
         rn \<leftarrow> MakeEnd (endAt e) (cfgNet cfg);
         Some (cfg\<lparr>cfgNet := Connect (endAt e) (serverOf j) rn\<rparr>) }) [0..<n] cfg = Some (cfg\<lparr>cfgNet := rn'\<rparr>) \<and>
       ends_made rnd (cfgNet cfg) n rn'"
proof -
  let ?f = "\<lambda>j cfg. do {
         e \<leftarrow> endname cfg i j;
         rn \<leftarrow> MakeEnd (endAt e) (cfgNet cfg);
         Some (cfg\<lparr>cfgNet := Connect (endAt e) (serverOf j) rn\<rparr>) }"
  have "\<exists>c. forEach ?f [0..<n] cfg = Some c \<and> (\<exists>rn'. c = cfg\<lparr>cfgNet := rn'\<rparr> \<and> ends_made rnd (cfgNet cfg) n rn')"
  proof (rule forEach_upt)
    show "\<exists>rn'. cfg = cfg\<lparr>cfgNet := rn'\<rparr> \<and> ends_made rnd (cfgNet cfg) 0 rn'"
      by (rule exI [of _ "cfgNet cfg"]) (simp add: ends_made_def)
  next
    fix k c
    assume k: "k < n" and "\<exists>rn'. c = cfg\<lparr>cfgNet := rn'\<rparr> \<and> ends_made rnd (cfgNet cfg) k rn'"
    then obtain rn1 where c: "c = cfg\<lparr>cfgNet := rn1\<rparr>" and m: "ends_made rnd (cfgNet cfg) k rn1" by blast
    have "inj_on rnd {..<Suc k}" using fr k unfolding fresh_names_def by (auto intro: inj_on_subset)
    then obtain rn2 where "MakeEnd (endAt (rnd k)) rn1 = Some rn2"
        "ends_made rnd (cfgNet cfg) (Suc k) (Connect (endAt (rnd k)) (serverOf k) rn2)"
      using ends_made_Suc [OF m] fr k by (auto simp: fresh_names_def)
    moreover have "endname c i k = Some (rnd k)" using nm [OF k] c by (simp add: endname_def)
    ultimately show "\<exists>c'. ?f k c = Some c' \<and> (\<exists>rn'. c' = cfg\<lparr>cfgNet := rn'\<rparr> \<and> ends_made rnd (cfgNet cfg) (Suc k) rn')"
      using c by auto
  qed
  then show ?thesis by blast
qed

lemma start1_effect:
  fixes cfg :: "('c, 's) config"
  assumes w: "wired cfg" and i: "i < cfgN cfg" and fr: "fresh_names (cfgN cfg) rnd cfg"
  shows "\<exists>cfg' effs. start1 i rnd a cfg = Some (cfg', effs) \<and> started i rnd a cfg cfg'"
proof -
  obtain cfg1 where c: "crash1 i cfg = Some cfg1" and cr: "crashed i cfg cfg1" using crash1_effect [OF w i] by blast
  have w1: "wired cfg1" and f: "cfgN cfg1 = cfgN cfg" "endnames cfg1 = endnames cfg" "connected cfg1 = (connected cfg)[i := False]"
      "ends (cfgNet cfg1) = ends (cfgNet cfg)" "logs cfg1 = logs cfg" "rafts cfg1 = (rafts cfg)[i := None]"
      "saved cfg1 = (saved cfg)[i := map_option (\<lambda>p. SaveRaftState MakePersister (ReadRaftState p)) (stored cfg i)]"
    using cr by (auto simp: crashed_def)
  have l: "length (endnames cfg) = cfgN cfg" "length (saved cfg) = cfgN cfg" "length (rafts cfg) = cfgN cfg"
    using wiredD(1) [OF w] by (auto simp: sized_def)
  define rows where "rows = (endnames cfg)[i := Some (map rnd [0..<cfgN cfg])]"
  have "\<exists>rn'. forEach (\<lambda>j cfg. do {
         e \<leftarrow> endname cfg i j;
         rn \<leftarrow> MakeEnd (endAt e) (cfgNet cfg);
         Some (cfg\<lparr>cfgNet := Connect (endAt e) (serverOf j) rn\<rparr>) }) [0..<cfgN cfg] (cfg1\<lparr>endnames := rows\<rparr>) =
           Some (cfg1\<lparr>endnames := rows\<rparr>\<lparr>cfgNet := rn'\<rparr>) \<and> ends_made rnd (cfgNet (cfg1\<lparr>endnames := rows\<rparr>)) (cfgN cfg) rn'"
    by (rule start1_ends)
      (use fr f l i in \<open>auto simp: fresh_names_def endname_def rows_def slice_get_def len_def\<close>)
  then obtain rn' where lp: "forEach (\<lambda>j cfg. do {
         e \<leftarrow> endname cfg i j;
         rn \<leftarrow> MakeEnd (endAt e) (cfgNet cfg);
         Some (cfg\<lparr>cfgNet := Connect (endAt e) (serverOf j) rn\<rparr>) }) [0..<cfgN cfg] (cfg1\<lparr>endnames := rows\<rparr>) =
           Some (cfg1\<lparr>endnames := rows, cfgNet := rn'\<rparr>)" and m: "ends_made rnd (cfgNet cfg1) (cfgN cfg) rn'"
    by auto
  define p :: "('c, 's) Persister" where
    "p = (case stored cfg i of Some q \<Rightarrow> SaveRaftState MakePersister (ReadRaftState q) | None \<Rightarrow> MakePersister)"
  define cfg2 where "cfg2 = cfg1\<lparr>endnames := rows, saved := (saved cfg)[i := Some p],
      rafts := (rafts cfg)[i := Some (fst (Make (cfgN cfg) (int i) p))], cfgNet := AddServer (serverOf i) (Some a) rn'\<rparr>"
  have set: "slice_set (endnames cfg) (int i) (Some (map rnd [0..<cfgN cfg])) = Some rows"
    using l i by (simp add: slice_set_Some rows_def)
  have get: "slice_get (saved cfg1) (int i) = Some (map_option (\<lambda>p. SaveRaftState MakePersister (ReadRaftState p)) (stored cfg i))"
    using f l i by (simp add: slice_get_nat)
  have put: "slice_set (saved cfg1) (int i) x = Some ((saved cfg)[i := x])"
      "slice_set (rafts cfg1) (int i) y = Some ((rafts cfg)[i := y])" for x y
    using f l i by (auto simp: slice_set_Some)
  have pc: "(case map_option (\<lambda>p. SaveRaftState MakePersister (ReadRaftState p)) (stored cfg i) of
      None \<Rightarrow> MakePersister | Some p \<Rightarrow> CopyPersister p) = p"
    by (cases "stored cfg i") (auto simp: p_def CopyPersister_def)
  have "start1 i rnd a cfg = Some (cfg2, snd (Make (cfgN cfg) (int i) p))"
    using f(1,2) by (simp add: start1_def c set lp get put Let_def cfg2_def case_prod_beta pc del: case_map_option)
  moreover have "wired cfg2"
  proof (rule wired_new_row [OF cr w i fr])
    show "ends_made rnd (cfgNet cfg1) (cfgN cfg) (cfgNet cfg2)"
      using m by (simp add: ends_made_def cfg2_def AddServer_def connection_def isEnabled_def)
  qed (use f l in \<open>auto simp: cfg2_def rows_def\<close>)
  ultimately show ?thesis using f m
    by (auto simp: started_def cfg2_def rows_def p_def ends_made_def serverAt_def AddServer_def)
qed

lemma started_row:
  assumes "started i rnd a cfg cfg'" "wired cfg" "j < cfgN cfg"
  shows "row cfg' j = (if j = i then Some (map rnd [0..<cfgN cfg]) else row cfg j)"
  using assms wiredD(1) [OF assms(2)] by (simp add: started_def row_def sized_def)

end
