(* ===== verification/Tester_Boot.thy ===== *)
theory Tester_Boot
  imports Tester_Restart
begin

text \<open>
  A new tester, and everything a test does to it: no operation of the tester ends the program, and the
  network always has exactly the connections the tester has noted.
\<close>

section \<open>Making the tester\<close>

definition names_distinct :: "nat \<Rightarrow> (nat \<Rightarrow> nat \<Rightarrow> string) \<Rightarrow> bool" where
  "names_distinct n rnd \<longleftrightarrow> (\<forall>i < n. \<forall>j < n. \<forall>i' < n. \<forall>j' < n. rnd i j = rnd i' j' \<longrightarrow> i = i' \<and> j = j')"

definition booting :: "nat \<Rightarrow> (nat \<Rightarrow> nat \<Rightarrow> string) \<Rightarrow> nat \<Rightarrow> ('c, 's) config \<Rightarrow> bool" where
  "booting n rnd k cfg \<longleftrightarrow> wired cfg \<and> cfgN cfg = n \<and> connected cfg = replicate n False \<and>
     dom (ends (cfgNet cfg)) = {endAt (rnd i j) | i j. i < k \<and> j < n} \<and>
     (\<forall>i < k. row cfg i \<noteq> None \<and> rafts cfg ! i = Some (fst (Make n (int i) MakePersister))) \<and>
     (\<forall>i < n. k \<le> i \<longrightarrow> rafts cfg ! i = None \<and> saved cfg ! i = None)"

lemma booting_step:
  fixes cfg :: "('c, 's) config"
  assumes b: "booting n rnd k cfg" and k: "k < n" and d: "names_distinct n rnd"
  shows "\<exists>cfg'. map_option fst (start1 k (rnd k) a cfg) = Some cfg' \<and> booting n rnd (Suc k) cfg'"
proof -
  have w: "wired cfg" "cfgN cfg = n" "connected cfg = replicate n False" using b by (auto simp: booting_def)
  have l: "length (saved cfg) = n" "length (rafts cfg) = n" using wiredD(1) [OF w(1)] w(2) by (auto simp: sized_def)
  have inj: "i = i' \<and> j = j'" if "rnd i j = rnd i' j'" "i < n" "j < n" "i' < n" "j' < n" for i j i' j'
    using d that by (simp add: names_distinct_def)
  have dm: "dom (ends (cfgNet cfg)) = {endAt (rnd i j) | i j. i < k \<and> j < n}" using b by (simp add: booting_def)
  have "endAt (rnd k j) \<notin> dom (ends (cfgNet cfg))" if "j < n" for j
  proof
    assume "endAt (rnd k j) \<in> dom (ends (cfgNet cfg))"
    then obtain i j' where "rnd k j = rnd i j'" "i < k" "j' < n" unfolding dm by blast
    then show False using inj [of k j i j'] that k by simp
  qed
  then have "fresh_names (cfgN cfg) (rnd k) cfg"
    using w(2) k inj [of k _ k] by (auto simp: fresh_names_def inj_on_def)
  then obtain cfg' effs where c: "start1 k (rnd k) a cfg = Some (cfg', effs)" and st: "started k (rnd k) a cfg cfg'"
    using start1_effect [OF w(1)] w(2) k by blast
  have p: "stored cfg k = None" using b k by (simp add: booting_def stored_def)
  have f: "wired cfg'" "cfgN cfg' = n" "connected cfg' = (connected cfg)[k := False]"
    "dom (ends (cfgNet cfg')) = dom (ends (cfgNet cfg)) \<union> (\<lambda>j. endAt (rnd k j)) ` {..<n}"
    "saved cfg' = (saved cfg)[k := Some MakePersister]"
    "rafts cfg' = (rafts cfg)[k := Some (fst (Make n (int k) MakePersister))]"
    using st w(2) p by (auto simp: started_def)
  have "connected cfg' = replicate n False" using f(3) w(3) k by (simp add: list_eq_iff_nth_eq nth_list_update)
  moreover have "dom (ends (cfgNet cfg')) = {endAt (rnd i j) | i j. i < Suc k \<and> j < n}"
    using f(4) b by (auto simp: booting_def less_Suc_eq)
  moreover have "row cfg' i \<noteq> None \<and> rafts cfg' ! i = Some (fst (Make n (int i) MakePersister))" if "i < Suc k" for i
    using that b k l f(6) started_row [OF st w(1), of i] w(2) by (cases "i = k") (auto simp: booting_def)
  ultimately have "booting n rnd (Suc k) cfg'"
    using f b k by (simp add: booting_def)
  then show ?thesis using c by simp
qed

definition joining :: "nat \<Rightarrow> nat \<Rightarrow> ('c, 's) config \<Rightarrow> bool" where
  "joining n k cfg \<longleftrightarrow> wired cfg \<and> cfgN cfg = n \<and> (\<forall>i < k. connected cfg ! i) \<and>
     (\<forall>i < n. row cfg i \<noteq> None \<and> rafts cfg ! i = Some (fst (Make n (int i) MakePersister)))"

lemma joining_step:
  assumes b: "joining n k cfg" and k: "k < n"
  shows "\<exists>cfg'. connect k cfg = Some cfg' \<and> joining n (Suc k) cfg'"
proof -
  have w: "wired cfg" "cfgN cfg = n" "row cfg k \<noteq> None" using b k by (auto simp: joining_def)
  obtain cfg' where c: "connect k cfg = Some cfg'" and r: "rewired cfg ((connected cfg)[k := True]) cfg'"
    using connect_effect [OF w(1,3)] w(2) k by blast
  have l: "length (connected cfg) = n" using wiredD(1) [OF w(1)] w(2) by (simp add: sized_def)
  have s: "same (cfg\<lparr>connected := (connected cfg)[k := True]\<rparr>) cfg'" using r by (simp add: rewired_def)
  have f: "wired cfg'" "cfgN cfg' = n" "connected cfg' = (connected cfg)[k := True]" "row cfg' i = row cfg i" "rafts cfg' = rafts cfg" for i
    using r same_fields(1,2,4) [OF s] same_fields(8) [OF s, of i] w(2) by (auto simp: rewired_def row_def)
  have "connected cfg' ! i" if "i < Suc k" for i
    using that b f(3) l k by (cases "i = k") (auto simp: joining_def)
  then have "joining n (Suc k) cfg'" using f b by (simp add: joining_def)
  then show ?thesis using c by blast
qed

lemma make_config_effect:
  assumes d: "names_distinct n rnd"
  shows "\<exists>cfg :: ('c, 's) config. make_config n u rnd addr = Some cfg \<and> joining n n cfg"
proof -
  define cfg0 :: "('c, 's) config" where "cfg0 = (setunreliable u
     \<lparr>cfgNet = MakeNetwork, cfgN = n, rafts = replicate n None, applyErr = replicate n [],
      connected = replicate n False, saved = replicate n None, endnames = replicate n None,
      logs = replicate n Map.empty, rpcs0 = 0, cmds0 = 0, maxIndex = 0, maxIndex0 = 0\<rparr>)"
  define cfg1 where "cfg1 = cfg0\<lparr>cfgNet := LongDelays True (cfgNet cfg0)\<rparr>"
  have "endname cfg1 i j = None" for i j
    by (simp add: endname_def cfg1_def cfg0_def setunreliable_def slice_get_def len_def bind_eq_None_conv)
  then have "wired cfg1"
    by (simp add: wired_def sized_def named_def link_def row_def cfg1_def cfg0_def setunreliable_def)
  then have "booting n rnd 0 cfg1"
    by (simp add: booting_def cfg1_def cfg0_def setunreliable_def LongDelays_def Reliable_def MakeNetwork_def)
  then obtain cfg2 where c2: "forEach (\<lambda>i cfg. map_option fst (start1 i (rnd i) (addr i) cfg)) [0..<n] cfg1 = Some cfg2"
      and b2: "booting n rnd n cfg2"
    using forEach_upt [of "booting n rnd" cfg1 n "\<lambda>i cfg. map_option fst (start1 i (rnd i) (addr i) cfg)"] booting_step d by blast
  have "joining n 0 cfg2" using b2 by (simp add: joining_def booting_def)
  then have "\<exists>cfg3. forEach connect [0..<n] cfg2 = Some cfg3 \<and> joining n n cfg3"
    using forEach_upt [of "joining n" cfg2 n connect] joining_step by blast
  then show ?thesis using c2 by (auto simp: make_config_def Let_def cfg1_def cfg0_def)
qed

text \<open>
  Everything a test does to the network: the tester is made, servers are connected, disconnected,
  crashed and started in any order, the network is switched, and the peers move on in between.
  A server is only connected once it was started.
\<close>

inductive tested :: "nat \<Rightarrow> ('c, 's) config \<Rightarrow> bool" for n where
  made: "make_config n u rnd addr = Some cfg \<Longrightarrow> names_distinct n rnd \<Longrightarrow> tested n cfg"
| connect: "tested n cfg \<Longrightarrow> i < n \<Longrightarrow> connect i cfg = Some cfg' \<Longrightarrow> tested n cfg'"
| disconnect: "tested n cfg \<Longrightarrow> i < n \<Longrightarrow> disconnect i cfg = Some cfg' \<Longrightarrow> tested n cfg'"
| crash: "tested n cfg \<Longrightarrow> i < n \<Longrightarrow> crash1 i cfg = Some cfg' \<Longrightarrow> tested n cfg'"
| start: "tested n cfg \<Longrightarrow> i < n \<Longrightarrow> fresh_names n rnd cfg \<Longrightarrow> start1 i rnd a cfg = Some (cfg', effs) \<Longrightarrow> tested n cfg'"
| unreliable: "tested n cfg \<Longrightarrow> tested n (setunreliable b cfg)"
| reordering: "tested n cfg \<Longrightarrow> tested n (setlongreordering b cfg)"
| peer: "tested n cfg \<Longrightarrow> i < n \<Longrightarrow> rafts cfg ! i \<noteq> None \<Longrightarrow> tested n (cfg\<lparr>rafts := (rafts cfg)[i := Some rf]\<rparr>)"

definition tester_ok :: "nat \<Rightarrow> ('c, 's) config \<Rightarrow> bool" where
  "tester_ok n cfg \<longleftrightarrow> wired cfg \<and> cfgN cfg = n \<and> (\<forall>i < n. row cfg i \<noteq> None)"

lemma connect_ok:
  assumes "tester_ok n cfg" "i < n"
  shows "\<exists>cfg'. connect i cfg = Some cfg' \<and> tester_ok n cfg' \<and> connected cfg' = (connected cfg)[i := True]"
proof -
  have w: "wired cfg" "row cfg i \<noteq> None" "i < cfgN cfg" using assms by (auto simp: tester_ok_def)
  obtain cfg' where "connect i cfg = Some cfg'" "rewired cfg ((connected cfg)[i := True]) cfg'"
    using connect_effect [OF w] by blast
  moreover from this(2) have s: "same (cfg\<lparr>connected := (connected cfg)[i := True]\<rparr>) cfg'" by (simp add: rewired_def)
  ultimately show ?thesis using same_fields(1,3) [OF s] assms by (simp add: tester_ok_def rewired_def row_def)
qed

lemma disconnect_ok:
  assumes "tester_ok n cfg" "i < n"
  shows "\<exists>cfg'. disconnect i cfg = Some cfg' \<and> tester_ok n cfg' \<and> connected cfg' = (connected cfg)[i := False]"
proof -
  have w: "wired cfg" "i < cfgN cfg" using assms by (auto simp: tester_ok_def)
  obtain cfg' where "disconnect i cfg = Some cfg'" "rewired cfg ((connected cfg)[i := False]) cfg'"
    using disconnect_effect [OF w] by blast
  moreover from this(2) have s: "same (cfg\<lparr>connected := (connected cfg)[i := False]\<rparr>) cfg'" by (simp add: rewired_def)
  ultimately show ?thesis using same_fields(1,3) [OF s] assms by (simp add: tester_ok_def rewired_def row_def)
qed

lemma crash1_ok:
  assumes "tester_ok n cfg" "i < n"
  shows "\<exists>cfg'. crash1 i cfg = Some cfg' \<and> tester_ok n cfg' \<and> connected cfg' = (connected cfg)[i := False]"
  using crash1_effect [of cfg i] assms by (auto simp: tester_ok_def crashed_def row_def)

lemma start1_ok:
  assumes "tester_ok n cfg" "i < n" "fresh_names n rnd cfg"
  shows "\<exists>cfg' effs. start1 i rnd a cfg = Some (cfg', effs) \<and> tester_ok n cfg' \<and> connected cfg' = (connected cfg)[i := False]"
proof -
  have w: "wired cfg" "i < cfgN cfg" "fresh_names (cfgN cfg) rnd cfg" "cfgN cfg = n" using assms by (auto simp: tester_ok_def)
  obtain cfg' effs where "start1 i rnd a cfg = Some (cfg', effs)" "started i rnd a cfg cfg'"
    using start1_effect [OF w(1-3)] by blast
  moreover have "row cfg' j \<noteq> None" if "j < n" for j
    using started_row [OF calculation(2) w(1)] that w(4) assms(1) by (simp add: tester_ok_def)
  ultimately show ?thesis using w(4) by (simp add: tester_ok_def started_def)
qed

lemma tester_ok_cong:
  assumes "tester_ok n cfg" "cfgN cfg' = cfgN cfg" "connected cfg' = connected cfg" "endnames cfg' = endnames cfg" "logs cfg' = logs cfg"
    "length (rafts cfg') = length (rafts cfg)" "saved cfg' = saved cfg" "ends (cfgNet cfg') = ends (cfgNet cfg)"
    "connections (cfgNet cfg') = connections (cfgNet cfg)" "enabled (cfgNet cfg') = enabled (cfgNet cfg)"
  shows "tester_ok n cfg'"
proof -
  have w: "wired cfg" using assms(1) by (simp add: tester_ok_def)
  have "length (rafts cfg') = cfgN cfg" "length (saved cfg') = cfgN cfg"
    using wiredD(1) [OF w] assms(6,7) by (simp_all add: sized_def)
  then have "wired cfg'" by (rule wired_cong [OF w assms(2-5) _ _ assms(8-10)])
  then show ?thesis using assms(1,2,4) by (simp add: tester_ok_def row_def)
qed

lemma tested_ok:
  fixes cfg :: "('c, 's) config"
  assumes "tested n cfg"
  shows "tester_ok n cfg"
  using assms
proof (induction rule: tested.induct)
  case (made u rnd addr cfg)
  obtain cfg' :: "('c, 's) config" where "make_config n u rnd addr = Some cfg'" "joining n n cfg'"
    using make_config_effect [OF made(2)] by blast
  then show ?case using made(1) by (simp add: tester_ok_def joining_def)
next
  case (connect cfg i cfg')
  then show ?case using connect_ok [OF connect.IH] by fastforce
next
  case (disconnect cfg i cfg')
  then show ?case using disconnect_ok [OF disconnect.IH] by fastforce
next
  case (crash cfg i cfg')
  then show ?case using crash1_ok [OF crash.IH] by fastforce
next
  case (start cfg i rnd a cfg' effs)
  show ?case using start1_ok [OF start.IH start.hyps(2,3), of a] start.hyps(4) by simp
next
  case (unreliable cfg b)
  then show ?case by (elim tester_ok_cong) (simp_all add: setunreliable_def Reliable_def)
next
  case (reordering cfg b)
  then show ?case by (elim tester_ok_cong) (simp_all add: setlongreordering_def LongReordering_def)
next
  case (peer cfg i rf)
  show ?case by (rule tester_ok_cong [OF peer.IH]) simp_all
qed

section \<open>Connected servers\<close>

text \<open>
  Property C20.  Whatever a test does to the network of a tester whose end names are distinct, the end
  from one server to another leads to that server and is enabled exactly when both servers are
  connected, no two servers share an end, and connecting, disconnecting and crashing a server
  never end the program.
\<close>

theorem tester_network:
  assumes "tested n cfg" and "i < n" and "j < n"
  shows "(\<exists>e. endname cfg i j = Some e \<and> connection (cfgNet cfg) (endAt e) = serverOf j \<and>
      isEnabled (cfgNet cfg) (endAt e) = (connected cfg ! i \<and> connected cfg ! j) \<and>
      (\<forall>i' < n. \<forall>j' < n. endname cfg i' j' = Some e \<longrightarrow> i' = i \<and> j' = j)) \<and>
    connect i cfg \<noteq> None \<and> disconnect i cfg \<noteq> None \<and> crash1 i cfg \<noteq> None"
proof -
  have ok: "tester_ok n cfg" by (rule tested_ok [OF assms(1)])
  then have w: "wired cfg" "cfgN cfg = n" "row cfg i \<noteq> None" using assms(2) by (auto simp: tester_ok_def)
  then obtain e where e: "endname cfg i j = Some e"
    using endname_row [OF wiredD(1) [OF w(1)]] assms(2,3) by auto
  moreover have "isEnabled (cfgNet cfg) (endAt e) = (connected cfg ! i \<and> connected cfg ! j)"
    using wiredD(4) [OF w(1), of i j] e w(2) assms(2,3) by (simp add: link_def)
  moreover have "connection (cfgNet cfg) (endAt e) = serverOf j \<and>
      (\<forall>i' < n. \<forall>j' < n. endname cfg i' j' = Some e \<longrightarrow> i' = i \<and> j' = j)"
    using wiredD(2) [OF w(1)] e w(2) assms(2,3) by (simp add: named_def)
  moreover have "connect i cfg \<noteq> None" "disconnect i cfg \<noteq> None" "crash1 i cfg \<noteq> None"
    using connect_ok [OF ok assms(2)] disconnect_ok [OF ok assms(2)] crash1_ok [OF ok assms(2)] by auto
  ultimately show ?thesis by blast
qed

text \<open>Three servers, the last of which crashes and is started again without being connected.\<close>

lemma fresh_names_code [code]: "fresh_names n rnd cfg \<longleftrightarrow> distinct (map rnd [0..<n]) \<and>
    list_all (\<lambda>j. ends (cfgNet cfg) (endAt (rnd j)) = None) [0..<n]"
  unfolding fresh_names_def domIff not_not distinct_map list_all_iff by (auto simp: atLeast0LessThan)

definition some_name :: "nat \<Rightarrow> nat \<Rightarrow> string" where
  "some_name i j = [''abcd'' ! i, ''abcd'' ! j]"

definition crash_and_start :: "((int, int) config \<times> (int, int) config) option" where
  "crash_and_start = do {
     cfg \<leftarrow> make_config 3 False some_name (\<lambda>i. i);
     cfg \<leftarrow> disconnect 0 cfg;
     cfg \<leftarrow> crash1 2 cfg;
     (cfg', effs) \<leftarrow> start1 2 (some_name 3) 7 cfg;
     Some (cfg, cfg') }"

lemma crash_and_start_tested: "tested 3 (snd (the crash_and_start))"
proof -
  have "map_option (\<lambda>(cfg, cfg'). fresh_names 3 (some_name 3) cfg) crash_and_start = Some True" by code_simp
  then obtain c1 c2 c3 c4 effs where
    c: "make_config 3 False some_name (\<lambda>i. i) = Some c1" "disconnect 0 c1 = Some c2" "crash1 2 c2 = Some c3"
      "start1 2 (some_name 3) 7 c3 = Some (c4, effs)" "crash_and_start = Some (c3, c4)" "fresh_names 3 (some_name 3) c3"
    unfolding crash_and_start_def by (auto simp: bind_Some_iff split: prod.splits)
  have "names_distinct 3 some_name"
    by (auto simp: names_distinct_def some_name_def less_Suc_eq numeral_3_eq_3)
  note t1 = tested.made [OF c(1) this]
  have "tested 3 c3" by (rule tested.crash [OF tested.disconnect [OF t1 _ c(2)] _ c(3)]) simp_all
  then have "tested 3 c4" by (rule tested.start [OF _ _ c(6,4)]) simp
  then show ?thesis unfolding c(5) option.sel snd_conv .
qed

theorem tester_network_witness:
  "let cfg = snd (the crash_and_start) in
   (\<exists>e. endname cfg 1 2 = Some e \<and> connection (cfgNet cfg) (endAt e) = serverOf 2 \<and> \<not> isEnabled (cfgNet cfg) (endAt e)) \<and>
   connect 1 cfg \<noteq> None"
proof -
  have "\<not> connected (snd (the crash_and_start)) ! 2" by code_simp
  then show ?thesis using tester_network [OF crash_and_start_tested, of 1 2] unfolding Let_def by auto
qed

end
