(* ===== verification/Raft_Validity.thy ===== *)
theory Raft_Validity
  imports Raft_Runs
begin

text \<open>
  Validity: no command is made up.  What a service is handed was given to \<^verbatim>\<open>Start\<close> of some peer
  before, through elections, lost and repeated messages, restarts and snapshots.
\<close>

section \<open>The commands that are around\<close>

fun submitted :: "('c, 's) event \<Rightarrow> 'c option set" where
  "submitted (Submit n command) = {command}"
| "submitted _ = {}"

text \<open>The first entry of a log is the one of the snapshot and has no command.\<close>

definition stores :: "'c option set \<Rightarrow> ('c, 's) Raft \<Rightarrow> bool" where
  "stores S rf \<longleftrightarrow> (\<forall>e \<in> set (tl (Logs rf)). Command e \<in> S)"

definition carries :: "'c option set \<Rightarrow> ('c, 's) rpc \<Rightarrow> bool" where
  "carries S r \<longleftrightarrow> (\<forall>args. rpc_req r = AEReq args \<longrightarrow> (\<forall>e \<in> set (Entries args). Command e \<in> S))"

definition hands :: "'c option set \<Rightarrow> ('c, 's) ApplyMsg list \<Rightarrow> bool" where
  "hands S ms \<longleftrightarrow> (\<forall>m \<in> set ms. CommandValid m \<longrightarrow> amCommand m \<in> S)"

definition known :: "nat \<Rightarrow> 'c option set \<Rightarrow> ('c, 's) cluster \<Rightarrow> bool" where
  "known N S c \<longleftrightarrow> (\<forall>n < N. stores S (peers c n)) \<and> (\<forall>r \<in> set (rpcs c). carries S r) \<and>
     (\<forall>n. hands S (outbox c n) \<and> hands S (delivered c n))"

lemma hands_simps [simp]: "hands S []" "hands S (ms @ ms') \<longleftrightarrow> hands S ms \<and> hands S ms'"
    "hands S (m # ms) \<longleftrightarrow> (CommandValid m \<longrightarrow> amCommand m \<in> S) \<and> hands S ms"
  by (auto simp: hands_def)

lemma known_mono: "known N S c \<Longrightarrow> S \<subseteq> S' \<Longrightarrow> known N S' c"
  unfolding known_def stores_def carries_def hands_def by blast

lemma stores_cong: "stores S rf \<Longrightarrow> Logs rf' = Logs rf \<Longrightarrow> stores S rf'"
  by (simp add: stores_def)

text \<open>A suffix of the log that leaves out its first entry.\<close>

lemma stores_drop: "stores S rf \<Longrightarrow> 0 < k \<Longrightarrow> e \<in> set (drop k (Logs rf)) \<Longrightarrow> Command e \<in> S"
  using set_drop_subset [of "k - 1" "tl (Logs rf)"] by (auto simp: stores_def drop_Suc [symmetric] dest!: subsetD)

lemma stores_nth: "stores S rf \<Longrightarrow> 0 < k \<Longrightarrow> k < length (Logs rf) \<Longrightarrow> Command (Logs rf ! k) \<in> S"
  by (rule stores_drop [of S rf k]) (auto simp: Cons_nth_drop_Suc [symmetric])

lemma stores_head: "set es \<subseteq> set (drop (Suc k) (Logs rf)) \<Longrightarrow> stores S rf \<Longrightarrow> Logs rf' = e # es \<Longrightarrow> stores S rf'"
  using stores_drop [of S rf "Suc k"] by (auto simp: stores_def)

section \<open>Steps\<close>

lemma AppendEntries_stores:
  assumes "AppendEntries rf args = Some (rf', reply, effs)" and "stores S rf" and "\<forall>e \<in> set (Entries args). Command e \<in> S"
  shows "stores S rf'"
proof (cases "Success reply")
  case True
  from AppendEntries_accept_log [OF assms(1) True] obtain p k where p: "0 < p" "p \<le> length (Logs rf)"
    "Logs rf' = (if k < length (Entries args) then take (p + k) (Logs rf) @ drop k (Entries args) else Logs rf)"
    by metis
  have "set (tl (take (p + k) (Logs rf) @ drop k (Entries args))) \<subseteq> set (tl (Logs rf)) \<union> set (Entries args)"
    using p(1,2) set_take_subset [of "p + k - 1" "tl (Logs rf)"] set_drop_subset [of k "Entries args"]
    by (cases "Logs rf") (auto simp: take_Cons' dest: in_set_takeD in_set_dropD)
  then show ?thesis using p(3) assms(2,3) by (auto simp: stores_def)
next
  case False
  have "Logs rf' = Logs rf"
    using assms(1) by (cases rule: AppendEntries_cases) (use False in \<open>auto dest: adoptTerm_fields\<close>)
  then show ?thesis by (rule stores_cong [OF assms(2)])
qed

lemma InstallSnapShot_stores:
  assumes "InstallSnapShot rf args = Some (rf', reply, effs)" and "raft_wf rf" and "stores S rf"
  shows "stores S rf' \<and> hands T (applies effs)"
  using assms(1,2)
proof (cases rule: InstallSnapShot_cases)
  case stale
  then show ?thesis using assms(3) by simp
next
  case (outdated rf1 change)
  then show ?thesis using assms(3) adoptTerm_fields [OF outdated(2)] by (auto intro: stores_cong)
next
  case (install rf1 change rest rf2)
  have "nat (LastIncludedIndex args - SnapshotIndex rf + 1) = Suc (nat (LastIncludedIndex args - SnapshotIndex rf))"
    using install(3) by linarith
  then have "stores S rf'"
    by (intro stores_head [OF _ assms(3)]) (auto simp: install(5-7) split: if_splits)
  then show ?thesis using install(9) by (simp add: notifyAppUseNewSnapShot_def)
qed

lemma handle_stores:
  assumes "handle rf req = Some (rf', rsp, effs)" and "raft_wf rf" and "stores S rf" and "carries S r" and "rpc_req r = req"
  shows "stores S rf' \<and> hands T (applies effs)"
proof (cases req)
  case (RVReq args)
  then obtain reply where rv: "RequestVote rf args = Some (rf', reply, effs)" using assms(1) by auto
  then have "applies effs = []" by (auto simp: RequestVote_def Let_def bind_Some_iff split: if_splits)
  then show ?thesis using RequestVote_log [OF rv] assms(3) by (auto intro: stores_cong)
next
  case (AEReq args)
  then obtain reply where ae: "AppendEntries rf args = Some (rf', reply, effs)" using assms(1) by auto
  have "stores S rf'" by (rule AppendEntries_stores [OF ae assms(3)]) (use assms(4,5) AEReq in \<open>simp add: carries_def\<close>)
  moreover have "applies effs = []"
    using ae by (cases rule: AppendEntries_cases) (auto simp: followCommit_def split: if_splits)
  ultimately show ?thesis by simp
next
  case (ISReq args)
  then obtain reply where "InstallSnapShot rf args = Some (rf', reply, effs)" using assms(1) by auto
  then show ?thesis by (rule InstallSnapShot_stores [OF _ assms(2,3)])
qed

lemma checkConsistency_carries:
  assumes "checkConsistency rf to = Some effs" and "stores S rf" and "r \<in> set (spawn n effs)"
  shows "carries S r"
proof -
  have "Command e \<in> S" if "slice_from (Logs rf) (i + 1) = Some es" "slice_get (Logs rf) i = Some x" "e \<in> set es" for i es e x
  proof -
    have "0 \<le> i" "es = drop (nat (i + 1)) (Logs rf)"
      using that by (auto simp: slice_from_def slice_get_def split: if_splits)
    then show ?thesis using stores_drop [OF assms(2), of "nat (i + 1)"] that(3) by simp
  qed
  then show ?thesis
    using assms(1,3) by (auto simp: checkConsistency_def carries_def bind_Some_iff Let_def split: if_splits)
qed

lemma applyLoop_hands:
  "applyLoop rf i hi = Some (rf', effs) \<Longrightarrow> stores S rf \<Longrightarrow> hands S (applies effs)"
proof (induction rf i hi arbitrary: rf' effs rule: applyLoop.induct)
  case (1 rf i hi)
  consider (e) "\<not> i \<le> hi" | (s) "i \<le> hi" "i \<le> SnapshotIndex rf" | (r) "i \<le> hi" "\<not> i \<le> SnapshotIndex rf" by blast
  then show ?case
  proof cases
    case e
    then show ?thesis using "1.prems" by (simp add: applyLoop.simps [of rf i hi])
  next
    case s
    then show ?thesis using "1.IH"(1) "1.prems" by (simp add: applyLoop.simps [of rf i hi])
  next
    case r
    then obtain e effs' where e: "slice_get (Logs rf) (logIdxGlobal2Local rf i) = Some e"
      "applyLoop (rf\<lparr>lastApplied := i\<rparr>) (i + 1) hi = Some (rf', effs')"
      "effs = Apply \<lparr>amCommandIndex = i, amCommand = Command e, CommandValid = True, SnapShot = []\<rparr> # effs'"
      using "1.prems"(1) by (auto simp: applyLoop.simps [of rf i hi] bind_Some_iff)
    have "hands S (applies effs')"
      using "1.IH"(2) [OF r e(1,2)] "1.prems"(2) by (simp add: stores_def)
    moreover have "Command e \<in> S"
      using e(1) r stores_nth [OF "1.prems"(2), of "nat (i - SnapshotIndex rf)"]
      by (auto simp: slice_get_def logIdxGlobal2Local_def len_def split: if_splits)
    ultimately show ?thesis using e(3) by simp
  qed
qed

text \<open>A step of one peer.\<close>

lemma known_peer:
  assumes "known N S c" and "peers c' = (peers c)(n := rf)" "stores S rf"
    and "\<And>r. r \<in> set (rpcs c') \<Longrightarrow> (\<exists>r0 \<in> set (rpcs c). rpc_req r = rpc_req r0) \<or> carries S r"
    and "\<And>i. hands S (outbox c' i) \<and> hands S (delivered c' i)"
  shows "known N S c'"
  unfolding known_def
proof (intro conjI allI ballI impI)
  fix r assume "r \<in> set (rpcs c')"
  then show "carries S r" using assms(1) assms(4) [of r] by (auto simp: known_def carries_def)
qed (use assms in \<open>auto simp: known_def\<close>)

lemma spawn_Start: "Start rf command = Some (rf', res, effs) \<Longrightarrow> spawn n effs = []"
  by (auto elim!: Start_cases)

lemma broadCastVote_carries:
  assumes "broadCastVote rf = Some (rf', effs)" "raft_wf rf"
  shows "Logs rf' = Logs rf \<and> (\<forall>r \<in> set (spawn n effs). carries S r)"
  using assms by (cases rule: broadCastVote_cases) (auto simp: spawn_def carries_def)

lemma update_req:
  assumes "r \<in> set (rs[i := x])" and "x0 \<in> set rs" and "rpc_req x = rpc_req x0"
  shows "\<exists>r0 \<in> set rs. rpc_req r = rpc_req r0"
  using assms set_update_subset_insert [of rs i x] by auto

lemma knownD:
  assumes "known N S c" "base_inv N c"
  shows "n < N \<Longrightarrow> raft_wf (peers c n)" "n < N \<Longrightarrow> durable (peers c n)" "n < N \<Longrightarrow> stores S (peers c n)"
    "hands S (outbox c i) \<and> hands S (delivered c i)"
  using assms by (auto simp: base_inv_def peer_ok_def known_def)

lemma known_deliver:
  assumes k: "known N S c" "base_inv N c" and r: "i < length (rpcs c)" "r = rpcs c ! i"
    and hd: "handle (peers c (rpc_dst r)) (rpc_req r) = Some (rf, rsp, effs)"
  shows "known N S (c\<lparr>peers := (peers c)(rpc_dst r := rf), rpcs := (rpcs c)[i := r\<lparr>rpc_resp := Some rsp\<rparr>],
      outbox := (outbox c)(rpc_dst r := outbox c (rpc_dst r) @ applies effs)\<rparr>)"
proof -
  have m: "r \<in> set (rpcs c)" using r by simp
  then have n: "rpc_dst r < N" "carries S r" using k by (auto simp: base_inv_def rpc_ok_def known_def)
  have f: "stores S rf" "hands S (applies effs)"
    using handle_stores [OF hd knownD(1,3) [OF k n(1)] n(2) refl] by auto
  show ?thesis
    by (rule known_peer [OF k(1) _ f(1)])
      (use knownD(4) [OF k] f(2) in \<open>auto dest: update_req [OF _ m]\<close>)
qed

lemma known_returns:
  assumes k: "known N S c" "base_inv N c" and r: "i < length (rpcs c)" "r = rpcs c ! i"
    and fin: "finish (peers c (rpc_src r)) (rpc_dst r) (rpc_req r) out = Some (rf, effs)"
  shows "known N S (c\<lparr>peers := (peers c)(rpc_src r := rf),
      rpcs := (rpcs c)[i := r\<lparr>rpc_live := False\<rparr>] @ spawn (rpc_src r) effs\<rparr>)"
proof -
  have m: "r \<in> set (rpcs c)" using r by simp
  then have n: "rpc_src r < N" "peer_ok N (rpc_src r) (peers c (rpc_src r))" using k by (auto simp: base_inv_def rpc_ok_def)
  have "Logs rf = Logs (peers c (rpc_src r))" using finish_log [OF fin knownD(1) [OF k n(1)]] by simp
  then have f: "stores S rf" by (rule stores_cong [OF knownD(3) [OF k n(1)]])
  have "spawn (rpc_src r) effs = []" using finish_ok [OF fin n(2)] by simp
  then show ?thesis
    by (intro known_peer [OF k(1) _ f])
      (use knownD(4) [OF k] in \<open>auto dest: update_req [OF _ m]\<close>)
qed

lemma known_submit:
  assumes k: "known N S c" "base_inv N c" and n: "n < N" and st: "Start (peers c n) command = Some (rf, res, effs)"
  shows "known N (S \<union> {command}) (c\<lparr>peers := (peers c)(n := rf), rpcs := rpcs c @ spawn n effs\<rparr>)"
proof -
  have "Logs (peers c n) \<noteq> []" using knownD(1) [OF k n] by (simp add: raft_wf_def)
  then have f: "stores (S \<union> {command}) rf"
    using knownD(3) [OF k n] by (cases rule: Start_cases [OF st]) (auto simp: stores_def)
  have k': "known N (S \<union> {command}) c" by (rule known_mono [OF k(1)]) blast
  show ?thesis by (rule known_peer [OF k' _ f]) (use k' spawn_Start [OF st] in \<open>auto simp: known_def\<close>)
qed

lemma known_compact:
  assumes k: "known N S c" "base_inv N c" and n: "n < N" and cp: "Compact (peers c n) idx snap = Some rf"
  shows "known N S (c\<lparr>peers := (peers c)(n := rf)\<rparr>)"
proof -
  have "stores S rf" using cp
  proof (cases rule: Compact_cases)
    case (compacted e rf1)
    have "nat (idx - SnapshotIndex (peers c n) + 1) = Suc (nat (idx - SnapshotIndex (peers c n)))"
      using compacted(1) by linarith
    then show ?thesis by (intro stores_head [OF _ knownD(3) [OF k n]]) (auto simp: compacted(4,5))
  qed (use knownD(3) [OF k n] in simp)
  then show ?thesis by (intro known_peer [OF k(1), of _ n rf]) (use knownD(4) [OF k] in auto)
qed

lemma known_restart:
  assumes k: "known N S c" "base_inv N c" and n: "n < N"
    and mk: "Make N (int n) (CopyPersister (persister (peers c n))) = (rf, effs)"
  shows "known N S (c\<lparr>peers := (peers c)(n := rf), rpcs := map (orphan n) (rpcs c),
      outbox := (outbox c)(n := []), delivered := (delivered c)(n := applies effs)\<rparr>)"
proof -
  have "Logs rf = Logs (peers c n)"
    using recover_wf [OF knownD(2) [OF k n], of N n] mk by (auto simp: fst_def split: prod.splits)
  then have f: "stores S rf" by (rule stores_cong [OF knownD(3) [OF k n]])
  have "hands S (applies effs)"
    using mk by (auto simp: Make_def Let_def notifyAppUseNewSnapShot_def split: if_splits)
  then show ?thesis by (intro known_peer [OF k(1) _ f]) (use knownD(4) [OF k] in \<open>auto simp: orphan_def\<close>)
qed

lemma known_exec:
  assumes k: "known N S c" "base_inv N c" and ev: "exec N c ev = Some c'"
  shows "known N (S \<union> submitted ev) c'"
proof (cases ev)
  case (Timeout n)
  then obtain rf effs where t: "n < N" "broadCastVote (peers c n) = Some (rf, effs)"
      "c' = c\<lparr>peers := (peers c)(n := rf), rpcs := rpcs c @ spawn n effs\<rparr>"
    using ev by (auto simp: bind_Some_iff split: if_splits)
  have f: "Logs rf = Logs (peers c n)" "\<forall>r \<in> set (spawn n effs). carries S r"
    using broadCastVote_carries [OF t(2) knownD(1) [OF k t(1)]] by blast+
  have "known N S c'"
    by (rule known_peer [OF k(1) _ stores_cong [OF knownD(3) [OF k t(1)] f(1)]]) (use knownD(4) [OF k] f(2) in \<open>auto simp: t(3)\<close>)
  then show ?thesis using Timeout by simp
next
  case (Deliver i)
  then show ?thesis using ev known_deliver [OF k] by (auto simp: bind_Some_iff Let_def split: if_splits)
next
  case (CallReturns i lost)
  then show ?thesis using ev known_returns [OF k] by (auto simp: bind_Some_iff Let_def simp del: finish.simps split: if_splits)
next
  case (Submit n command)
  then show ?thesis using ev known_submit [OF k] by (auto simp: bind_Some_iff split: if_splits)
next
  case (CheckPeer n to)
  then obtain effs where t: "n < N" "checkConsistency (peers c n) (int to) = Some effs" "c' = c\<lparr>rpcs := rpcs c @ spawn n effs\<rparr>"
    using ev by (auto simp: bind_Some_iff split: if_splits)
  have "known N S c'"
    using k(1) checkConsistency_carries [OF t(2) knownD(3) [OF k t(1)]] by (auto simp: t(3) known_def)
  then show ?thesis using CheckPeer by simp
next
  case (CompactPeer n idx snap)
  then show ?thesis using ev known_compact [OF k] by (auto simp: bind_Some_iff split: if_splits)
next
  case (ApplyRound n)
  then obtain rf effs where t: "n < N" "applyLogEntryDaemon (peers c n) = Some (rf, effs)"
      "c' = c\<lparr>peers := (peers c)(n := rf), delivered := (delivered c)(n := delivered c n @ applies effs)\<rparr>"
    using ev by (auto simp: bind_Some_iff split: if_splits)
  have f: "Logs rf = Logs (peers c n)" using t(2) by (auto simp: applyLogEntryDaemon_def dest: applyLoop_fields)
  have "hands S (applies effs)" by (rule applyLoop_hands [OF t(2) [unfolded applyLogEntryDaemon_def] knownD(3) [OF k t(1)]])
  then have "known N S c'"
    by (intro known_peer [OF k(1) _ stores_cong [OF knownD(3) [OF k t(1)] f]]) (use knownD(4) [OF k] in \<open>auto simp: t(3)\<close>)
  then show ?thesis using ApplyRound by simp
next
  case (Flush n)
  then obtain m ms where t: "outbox c n = m # ms"
      "c' = c\<lparr>outbox := (outbox c)(n := ms), delivered := (delivered c)(n := delivered c n @ [m])\<rparr>"
    using ev by (auto split: if_splits list.splits)
  have "hands S (m # ms)" using knownD(4) [OF k, of n] t(1) by simp
  then have "known N S c'" using k(1) by (simp add: t(2) known_def)
  then show ?thesis using Flush by simp
next
  case (Restart n)
  then show ?thesis using ev known_restart [OF k] by (auto simp del: CopyPersister_id split: if_splits prod.splits)
next
  case (KillPeer n)
  then show ?thesis using ev k(1) by (auto simp: known_def stores_def Kill_def split: if_splits)
qed

lemma known_run:
  "run N c evs = Some c' \<Longrightarrow> known N S c \<Longrightarrow> reachable N c \<Longrightarrow> known N (S \<union> \<Union> (submitted ` set evs)) c'"
proof (induction evs arbitrary: c S)
  case (Cons ev evs)
  obtain c1 where c1: "exec N c ev = Some c1" "run N c1 evs = Some c'" using Cons.prems(1) by (auto simp: bind_Some_iff)
  have "known N (S \<union> submitted ev) c1"
    by (rule known_exec [OF Cons.prems(2) reachable_base_inv [OF Cons.prems(3)] c1(1)])
  then show ?case
    using Cons.IH [OF c1(2)] reachable.step [OF Cons.prems(3) exec_sound [OF c1(1)]] by (metis (no_types, lifting) Un_assoc UN_insert list.simps(15))
qed simp

lemma known_init: "known N {} (init_cluster N)"
  by (simp add: known_def init_cluster_def stores_def Make_def Let_def dePersistState_def decodeState_def persister_defs)

lemma submitted_iff: "x \<in> submitted ev \<longleftrightarrow> (\<exists>n. ev = Submit n x)"
  by (cases ev) auto

text \<open>
  Property C6.  Validity: a command that a service of a cluster is handed, at whatever peer and after
  whatever elections, losses, restarts, compactions and snapshots, was submitted with \<^verbatim>\<open>Start\<close> to some
  peer before.
\<close>

theorem commands_were_submitted:
  assumes "run N (init_cluster N) evs = Some c"
    and "m \<in> set (delivered c n)" and "CommandValid m"
  shows "\<exists>k. Submit k (amCommand m) \<in> set evs"
proof -
  have "known N ({} \<union> \<Union> (submitted ` set evs)) c"
    by (rule known_run [OF assms(1) known_init reachable.init])
  then have "amCommand m \<in> \<Union> (submitted ` set evs)" using assms(2,3) by (auto simp: known_def hands_def)
  then show ?thesis by (auto simp: submitted_iff)
qed

theorem commands_were_submitted_witness:
  "let c = trace 3 (replicate_both @ then_compact) in delivered c 1 \<noteq> [] \<and>
     (\<exists>k. Submit k (amCommand (delivered c 1 ! 0)) \<in> set (replicate_both @ then_compact))"
proof -
  let ?evs = "replicate_both @ then_compact"
  let ?c = "trace 3 ?evs"
  have "run 3 (init_cluster 3) ?evs \<noteq> None" by code_simp
  then have r: "run 3 (init_cluster 3) ?evs = Some ?c" by (auto simp: trace_def)
  have d: "0 < length (delivered ?c 1)" by code_simp
  have v: "CommandValid (delivered ?c 1 ! 0)" by code_simp
  have "\<exists>k. Submit k (amCommand (delivered ?c 1 ! 0)) \<in> set ?evs"
    by (rule commands_were_submitted [OF r nth_mem [OF d] v])
  then show ?thesis using d unfolding Let_def by blast
qed

end
