(* ===== verification/Tester_Checks.thy ===== *)
theory Tester_Checks
  imports Tester_Net "HOL-Library.AList"
begin

text \<open>
  What the tester of the Raft library observes (\<^verbatim>\<open>raft/config.go\<close>): the reader of an apply channel,
  and the checks of a test.  A check looks at one server after the other while the peers go on, so its
  argument \<open>look\<close> gives the tester as it is at each look.  A \<^verbatim>\<open>t.Fatalf\<close> is a \<open>failure\<close>; a nil pointer
  or an index out of range is \<^term>\<open>None\<close>.
\<close>

section \<open>The reader of an apply channel\<close>

text \<open>A command is an \<^verbatim>\<open>int\<close> or some other value.\<close>

datatype command = IntCmd int | OtherCmd string

datatype apply_error = Mismatch int nat int nat int | OutOfOrder nat int | NotInt

text \<open>The body of the loop over \<^verbatim>\<open>applyCh\<close> of server \<open>i\<close>; an error ends the program (\<^verbatim>\<open>log.Fatalf\<close>).\<close>

definition mismatch :: "nat \<Rightarrow> int \<Rightarrow> int \<Rightarrow> (int \<rightharpoonup> int) list \<Rightarrow> apply_error option" where
  "mismatch i idx v ls = foldl (\<lambda>err j. case (ls ! j) idx of
       Some old \<Rightarrow> if old \<noteq> v then Some (Mismatch idx i v j old) else err
     | None \<Rightarrow> err) None [0..<length ls]"

definition readMsg :: "nat \<Rightarrow> (command, 's) ApplyMsg \<Rightarrow> (command, 's) config \<Rightarrow>
    (apply_error + (command, 's) config) option" where
  "readMsg i m cfg =
     (if \<not> CommandValid m then Some (Inr cfg)
      else case amCommand m of
        Some (IntCmd v) \<Rightarrow> do {
          let idx = amCommandIndex m;
          let err = mismatch i idx v (logs cfg);
          l \<leftarrow> slice_get (logs cfg) (int i);
          let prevok = (l (idx - 1) \<noteq> None);
          ls \<leftarrow> slice_set (logs cfg) (int i) (l(idx \<mapsto> v));
          let cfg = cfg\<lparr>logs := ls\<rparr>;
          let cfg = (if idx > maxIndex cfg then cfg\<lparr>maxIndex := idx\<rparr> else cfg);
          let err = (if idx > 1 \<and> \<not> prevok then Some (OutOfOrder i idx) else err);
          Some (case err of Some e \<Rightarrow> Inl e | None \<Rightarrow> Inr cfg) }
      | _ \<Rightarrow> Some (Inl NotInt))"

section \<open>Checks\<close>

datatype failure =
    TwoLeaders int nat
  | NoLeader
  | TermsDisagree
  | LeaderClaimed nat
  | ApplyFailed string
  | ValuesDiffer int int int
  | TooFew nat int
  | NoAgreement int

definition peerState :: "('c, 's) config \<Rightarrow> nat \<Rightarrow> (int \<times> bool) option" where
  "peerState cfg i = do { r \<leftarrow> slice_get (rafts cfg) (int i); rf \<leftarrow> r; Some (GetState rf) }"

text \<open>The leaders by term; \<^verbatim>\<open>range\<close> over the map takes the terms in any order, here in the order of insertion.\<close>

definition leadersAt :: "(nat \<Rightarrow> ('c, 's) config) \<Rightarrow> nat \<Rightarrow> (int \<times> nat list) list option" where
  "leadersAt look n = forEach (\<lambda>i leaders. do {
       b \<leftarrow> slice_get (connected (look i)) (int i);
       if b then do {
         (term, leader) \<leftarrow> peerState (look i) i;
         Some (if leader
               then AList.update term ((case map_of leaders term of Some l \<Rightarrow> l | None \<Rightarrow> []) @ [i]) leaders
               else leaders) }
       else Some leaders }) [0..<n] []"

fun lastTermWithLeader :: "(int \<times> nat list) list \<Rightarrow> int \<Rightarrow> failure + int" where
  "lastTermWithLeader [] lastTerm = Inr lastTerm"
| "lastTermWithLeader ((term, l) # leaders) lastTerm =
     (if length l > 1 then Inl (TwoLeaders term (length l))
      else lastTermWithLeader leaders (if term > lastTerm then term else lastTerm))"

fun tryLeaders :: "(nat \<Rightarrow> nat \<Rightarrow> ('c, 's) config) \<Rightarrow> nat \<Rightarrow> nat list \<Rightarrow> (failure + nat) option" where
  "tryLeaders look n [] = Some (Inl NoLeader)"
| "tryLeaders look n (it # its) = do {
     leaders \<leftarrow> leadersAt (look it) n;
     case lastTermWithLeader leaders (-1) of
       Inl f \<Rightarrow> Some (Inl f)
     | Inr lastTerm \<Rightarrow>
         if leaders \<noteq> [] then do {
           i \<leftarrow> slice_get (case map_of leaders lastTerm of Some l \<Rightarrow> l | None \<Rightarrow> []) 0;
           Some (Inr i) }
         else tryLeaders look n its }"

definition checkOneLeader :: "(nat \<Rightarrow> nat \<Rightarrow> ('c, 's) config) \<Rightarrow> nat \<Rightarrow> (failure + nat) option" where
  "checkOneLeader look n = tryLeaders look n [0..<10]"

fun termsFrom :: "(nat \<Rightarrow> ('c, 's) config) \<Rightarrow> int \<Rightarrow> nat list \<Rightarrow> (failure + int) option" where
  "termsFrom look term [] = Some (Inr term)"
| "termsFrom look term (i # is) = do {
     b \<leftarrow> slice_get (connected (look i)) (int i);
     if b then do {
       (xterm, leader) \<leftarrow> peerState (look i) i;
       if term = -1 then termsFrom look xterm is
       else if term \<noteq> xterm then Some (Inl TermsDisagree)
       else termsFrom look term is }
     else termsFrom look term is }"

definition checkTerms :: "(nat \<Rightarrow> ('c, 's) config) \<Rightarrow> nat \<Rightarrow> (failure + int) option" where
  "checkTerms look n = termsFrom look (-1) [0..<n]"

fun noLeaderIn :: "(nat \<Rightarrow> ('c, 's) config) \<Rightarrow> nat list \<Rightarrow> (failure + unit) option" where
  "noLeaderIn look [] = Some (Inr ())"
| "noLeaderIn look (i # is) = do {
     b \<leftarrow> slice_get (connected (look i)) (int i);
     if b then do {
       (term, leader) \<leftarrow> peerState (look i) i;
       if leader then Some (Inl (LeaderClaimed i)) else noLeaderIn look is }
     else noLeaderIn look is }"

definition checkNoLeader :: "(nat \<Rightarrow> ('c, 's) config) \<Rightarrow> nat \<Rightarrow> (failure + unit) option" where
  "checkNoLeader look n = noLeaderIn look [0..<n]"

text \<open>How many servers have applied an entry, and which command.\<close>

fun countCommitted :: "(nat \<Rightarrow> ('c, 's) config) \<Rightarrow> int \<Rightarrow> nat \<Rightarrow> int \<Rightarrow> nat list \<Rightarrow> (failure + nat \<times> int) option" where
  "countCommitted look idx count cmd [] = Some (Inr (count, cmd))"
| "countCommitted look idx count cmd (i # is) = do {
     e \<leftarrow> slice_get (applyErr (look i)) (int i);
     if e \<noteq> [] then Some (Inl (ApplyFailed e))
     else do {
       l \<leftarrow> slice_get (logs (look i)) (int i);
       case l idx of
         None \<Rightarrow> countCommitted look idx count cmd is
       | Some cmd1 \<Rightarrow>
           if count > 0 \<and> cmd \<noteq> cmd1 then Some (Inl (ValuesDiffer idx cmd cmd1))
           else countCommitted look idx (count + 1) cmd1 is } }"

definition nCommitted :: "(nat \<Rightarrow> ('c, 's) config) \<Rightarrow> nat \<Rightarrow> int \<Rightarrow> (failure + nat \<times> int) option" where
  "nCommitted look n idx = countCommitted look idx 0 (-1) [0..<n]"

text \<open>
  \<^verbatim>\<open>wait\<close>: \<open>look it 0\<close> are the looks of \<^verbatim>\<open>nCommitted\<close> in round \<open>it\<close>, \<open>look it 1\<close> those at the terms.
\<close>

fun movedOn :: "(nat \<Rightarrow> ('c, 's) config) \<Rightarrow> int \<Rightarrow> nat list \<Rightarrow> bool option" where
  "movedOn look startTerm [] = Some False"
| "movedOn look startTerm (i # is) = do {
     (t, leader) \<leftarrow> peerState (look i) i;
     if t > startTerm then Some True else movedOn look startTerm is }"

fun waitRounds :: "(nat \<Rightarrow> nat \<Rightarrow> nat \<Rightarrow> ('c, 's) config) \<Rightarrow> nat \<Rightarrow> int \<Rightarrow> nat \<Rightarrow> int \<Rightarrow> nat list \<Rightarrow>
    (failure + bool) option" where
  "waitRounds look n idx want startTerm [] = Some (Inr False)"
| "waitRounds look n idx want startTerm (it # its) = do {
     r \<leftarrow> nCommitted (look it 0) n idx;
     case r of
       Inl f \<Rightarrow> Some (Inl f)
     | Inr (nd, cmd) \<Rightarrow>
         if nd \<ge> want then Some (Inr False)
         else if startTerm > -1 then do {
           moved \<leftarrow> movedOn (look it 1) startTerm [0..<n];
           if moved then Some (Inr True) else waitRounds look n idx want startTerm its }
         else waitRounds look n idx want startTerm its }"

definition waitFor :: "(nat \<Rightarrow> nat \<Rightarrow> nat \<Rightarrow> ('c, 's) config) \<Rightarrow> nat \<Rightarrow> int \<Rightarrow> nat \<Rightarrow> int \<Rightarrow> (failure + int) option" where
  "waitFor look n idx want startTerm = do {
     r \<leftarrow> waitRounds look n idx want startTerm [0..<30];
     case r of
       Inl f \<Rightarrow> Some (Inl f)
     | Inr True \<Rightarrow> Some (Inr (-1))
     | Inr False \<Rightarrow> do {
         r \<leftarrow> nCommitted (look 30 0) n idx;
         Some (case r of
           Inl f \<Rightarrow> Inl f
         | Inr (nd, cmd) \<Rightarrow> if nd < want then Inl (TooFew nd idx) else Inr cmd) } }"

text \<open>
  \<^verbatim>\<open>one\<close>: in a round the servers are asked to start the command one after the other, then the tester
  polls until enough servers have applied it.  The rounds and the polls are those the clock leaves
  time for.  A server that takes the command is returned with its new state.
\<close>

fun tryServers :: "(nat \<Rightarrow> (command, 's) config) \<Rightarrow> nat \<Rightarrow> int \<Rightarrow> nat \<Rightarrow> nat list \<Rightarrow>
    (nat \<times> (nat \<times> (command, 's) Raft \<times> int) option) option" where
  "tryServers look n cmd starts [] = Some (starts, None)"
| "tryServers look n cmd starts (si # sis) =
     (let starts = (starts + 1) mod n in do {
        b \<leftarrow> slice_get (connected (look si)) (int starts);
        r \<leftarrow> (if b then slice_get (rafts (look si)) (int starts) else Some None);
        case r of
          None \<Rightarrow> tryServers look n cmd starts sis
        | Some rf \<Rightarrow> do {
            (rf', (index1, t, ok), effs) \<leftarrow> Start rf (Some (IntCmd cmd));
            if ok then Some (starts, Some (starts, rf', index1))
            else tryServers look n cmd starts sis } })"

fun pollAgreement :: "(nat \<Rightarrow> (command, 's) config) list \<Rightarrow> nat \<Rightarrow> int \<Rightarrow> int \<Rightarrow> nat \<Rightarrow> (failure + bool) option" where
  "pollAgreement [] n index cmd expectedServers = Some (Inr False)"
| "pollAgreement (look # looks) n index cmd expectedServers = do {
     r \<leftarrow> nCommitted look n index;
     case r of
       Inl f \<Rightarrow> Some (Inl f)
     | Inr (nd, cmd1) \<Rightarrow>
         if nd > 0 \<and> nd \<ge> expectedServers \<and> cmd1 = cmd then Some (Inr True)
         else pollAgreement looks n index cmd expectedServers }"

fun oneRounds :: "((nat \<Rightarrow> (command, 's) config) \<times> (nat \<Rightarrow> (command, 's) config) list) list \<Rightarrow>
    nat \<Rightarrow> int \<Rightarrow> nat \<Rightarrow> bool \<Rightarrow> nat \<Rightarrow> (failure + int) option" where
  "oneRounds [] n cmd expectedServers retry starts = Some (Inl (NoAgreement cmd))"
| "oneRounds ((look, polls) # rounds) n cmd expectedServers retry starts = do {
     (starts, taken) \<leftarrow> tryServers look n cmd starts [0..<n];
     let index = (case taken of Some (i, rf, index1) \<Rightarrow> index1 | None \<Rightarrow> -1);
     if index \<noteq> -1 then do {
       r \<leftarrow> pollAgreement polls n index cmd expectedServers;
       case r of
         Inl f \<Rightarrow> Some (Inl f)
       | Inr agreed \<Rightarrow>
           if agreed then Some (Inr index)
           else if \<not> retry then Some (Inl (NoAgreement cmd))
           else oneRounds rounds n cmd expectedServers retry starts }
     else oneRounds rounds n cmd expectedServers retry starts }"

definition one_cmd :: "((nat \<Rightarrow> (command, 's) config) \<times> (nat \<Rightarrow> (command, 's) config) list) list \<Rightarrow>
    nat \<Rightarrow> int \<Rightarrow> nat \<Rightarrow> bool \<Rightarrow> (failure + int) option" where
  "one_cmd rounds n cmd expectedServers retry = oneRounds rounds n cmd expectedServers retry 0"

section \<open>What a check that passes has seen\<close>

text \<open>Servers whose log holds a command at an index.\<close>

definition holders :: "(nat \<Rightarrow> ('c, 's) config) \<Rightarrow> int \<Rightarrow> int \<Rightarrow> nat list \<Rightarrow> nat list" where
  "holders look idx cmd is = filter (\<lambda>i. (logs (look i) ! i) idx = Some cmd) is"

lemma countCommitted_holders:
  assumes "countCommitted look idx count cmd is = Some (Inr (nd, cmd'))"
  shows "nd = count + length (holders look idx cmd' is) \<and> (0 < count \<longrightarrow> cmd' = cmd) \<and>
    (\<forall>i \<in> set is. \<forall>c. (logs (look i) ! i) idx = Some c \<longrightarrow> c = cmd')"
  using assms
proof (induction "is" arbitrary: count cmd)
  case (Cons i "is")
  obtain e where e: "slice_get (applyErr (look i)) (int i) = Some e" "e = []"
    using Cons.prems by (auto simp: bind_Some_iff split: if_splits)
  obtain l where l: "slice_get (logs (look i)) (int i) = Some l" "logs (look i) ! i = l"
    using Cons.prems by (auto simp: bind_Some_iff slice_get_def len_def split: if_splits)
  show ?case
  proof (cases "l idx")
    case None
    then have "countCommitted look idx count cmd is = Some (Inr (nd, cmd'))" using Cons.prems e l by simp
    from Cons.IH [OF this] show ?thesis using None l by (simp add: holders_def)
  next
    case (Some c)
    then have c: "\<not> (0 < count \<and> cmd \<noteq> c)" and r: "countCommitted look idx (count + 1) c is = Some (Inr (nd, cmd'))"
      using Cons.prems e l by (auto split: if_splits)
    from Cons.IH [OF r] have h: "nd = count + 1 + length (holders look idx cmd' is)" "cmd' = c"
      "\<forall>i \<in> set is. \<forall>c. (logs (look i) ! i) idx = Some c \<longrightarrow> c = cmd'" by auto
    then show ?thesis using Some c l by (auto simp: holders_def)
  qed
qed (simp add: holders_def)

lemma pollAgreement_seen:
  assumes "pollAgreement polls n idx cmd want = Some (Inr True)"
  shows "\<exists>look \<in> set polls. want \<le> length (holders look idx cmd [0..<n]) \<and> holders look idx cmd [0..<n] \<noteq> []"
  using assms
proof (induction polls)
  case (Cons look looks)
  obtain r0 where r0: "nCommitted look n idx = Some r0" using Cons.prems by (cases "nCommitted look n idx") auto
  then obtain nd c where r: "nCommitted look n idx = Some (Inr (nd, c))" using Cons.prems by (cases r0) auto
  have nd: "nd = length (holders look idx c [0..<n])"
    using countCommitted_holders [OF r [unfolded nCommitted_def]] by simp
  show ?case
  proof (cases "nd > 0 \<and> nd \<ge> want \<and> c = cmd")
    case True
    then show ?thesis using nd by auto
  next
    case False
    then show ?thesis using Cons r by auto
  qed
qed simp

text \<open>\<^verbatim>\<open>one\<close> returns an index only after enough servers were seen to have applied the command there.\<close>

lemma one_cmd_seen:
  assumes "one_cmd rounds n cmd want retry = Some (Inr idx)"
  shows "\<exists>(asked, polls) \<in> set rounds. \<exists>look \<in> set polls.
    want \<le> length (holders look idx cmd [0..<n]) \<and> holders look idx cmd [0..<n] \<noteq> []"
proof -
  have "\<exists>(asked, polls) \<in> set rounds. \<exists>look \<in> set polls.
      want \<le> length (holders look idx cmd [0..<n]) \<and> holders look idx cmd [0..<n] \<noteq> []"
    if "oneRounds rounds n cmd want retry starts = Some (Inr idx)" for starts
    using that
  proof (induction rounds arbitrary: starts)
    case (Cons r0 rounds)
    obtain asked polls where r0: "r0 = (asked, polls)" by fastforce
    note prems = Cons.prems [unfolded r0]
    obtain starts' taken where t: "tryServers asked n cmd starts [0..<n] = Some (starts', taken)"
      using prems by (cases "tryServers asked n cmd starts [0..<n]") auto
    define index where "index = (case taken of Some (i, rf, index1) \<Rightarrow> index1 | None \<Rightarrow> -1)"
    have later: ?case if "oneRounds rounds n cmd want retry starts' = Some (Inr idx)"
      using Cons.IH [OF that] by auto
    have eq: "(if index \<noteq> -1 then do {
         r \<leftarrow> pollAgreement polls n index cmd want;
         case r of
           Inl f \<Rightarrow> Some (Inl f)
         | Inr agreed \<Rightarrow>
             if agreed then Some (Inr index)
             else if \<not> retry then Some (Inl (NoAgreement cmd))
             else oneRounds rounds n cmd want retry starts' }
       else oneRounds rounds n cmd want retry starts') = Some (Inr idx)"
      using prems unfolding oneRounds.simps t bind.simps prod.case Let_def index_def [symmetric] .
    show ?case
    proof (cases "index = -1")
      case True
      then show ?thesis using eq later by simp
    next
      case False
      then obtain agreed where r: "pollAgreement polls n index cmd want = Some (Inr agreed)"
        using eq by (cases "pollAgreement polls n index cmd want") (auto split: sum.splits)
      show ?thesis
      proof (cases agreed)
        case True
        then have "index = idx" using eq False r by simp
        then have "pollAgreement polls n idx cmd want = Some (Inr True)" using r True by simp
        from pollAgreement_seen [OF this] show ?thesis using r0 by auto
      next
        case nag: False
        then show ?thesis using eq False r later by (auto split: if_splits)
      qed
    qed
  qed simp
  then show ?thesis using assms unfolding one_cmd_def by blast
qed

end
