(* ===== verification/Tester_Watch.thy ===== *)
theory Tester_Watch
  imports Raft_Validity Tester_Checks
begin

text \<open>
  The tester beside a running cluster: the reader of every apply channel takes what its peer sends.
  Without snapshots, which the tester of the Raft library does not use, no reader ever has anything to
  complain about: what the servers apply agrees, has no gaps and consists of the commands that were
  submitted.
\<close>

section \<open>Readers\<close>

fun readMsgs :: "nat \<Rightarrow> (command, 's) ApplyMsg list \<Rightarrow> (command, 's) config \<Rightarrow>
    (apply_error + (command, 's) config) option" where
  "readMsgs i [] cfg = Some (Inr cfg)"
| "readMsgs i (m # ms) cfg = do {
     r \<leftarrow> readMsg i m cfg;
     case r of Inl e \<Rightarrow> Some (Inl e) | Inr cfg \<Rightarrow> readMsgs i ms cfg }"

fun readers :: "(nat \<Rightarrow> (command, 's) ApplyMsg list) \<Rightarrow> nat list \<Rightarrow> (command, 's) config \<Rightarrow>
    (apply_error + (command, 's) config) option" where
  "readers fr [] cfg = Some (Inr cfg)"
| "readers fr (i # is) cfg = do {
     r \<leftarrow> readMsgs i (fr i) cfg;
     case r of Inl e \<Rightarrow> Some (Inl e) | Inr cfg \<Rightarrow> readers fr is cfg }"

text \<open>What a step has sent on the apply channel of a peer; a restarted peer has a new channel.\<close>

fun fresh :: "('c, 's) event \<Rightarrow> ('c, 's) cluster \<Rightarrow> ('c, 's) cluster \<Rightarrow> nat \<Rightarrow> ('c, 's) ApplyMsg list" where
  "fresh (Restart k) c c' n = (if n = k then delivered c' n else [])"
| "fresh ev c c' n = drop (length (delivered c n)) (delivered c' n)"

fun watch :: "nat \<Rightarrow> (command, 's) cluster \<Rightarrow> (command, 's) config \<Rightarrow> (command, 's) event list \<Rightarrow>
    (apply_error + (command, 's) cluster \<times> (command, 's) config) option" where
  "watch N c cfg [] = Some (Inr (c, cfg))"
| "watch N c cfg (ev # evs) = do {
     c' \<leftarrow> exec N c ev;
     r \<leftarrow> readers (fresh ev c c') [0..<N] cfg;
     case r of Inl e \<Rightarrow> Some (Inl e) | Inr cfg' \<Rightarrow> watch N c' cfg' evs }"

section \<open>Reading\<close>

lemma mismatch_None:
  assumes "\<And>j old. j < length ls \<Longrightarrow> (ls ! j) idx = Some old \<Longrightarrow> old = v"
  shows "mismatch i idx v ls = None"
proof -
  have "foldl (\<lambda>err j. case (ls ! j) idx of
       Some old \<Rightarrow> if old \<noteq> v then Some (Mismatch idx i v j old) else err
     | None \<Rightarrow> err) None js = None" if "set js \<subseteq> {..<length ls}" for js
    using that assms by (induction js rule: rev_induct) (auto split: option.split)
  then show ?thesis unfolding mismatch_def by (simp add: atLeast0LessThan)
qed

definition int_commands :: "command option set" where
  "int_commands = {Some (IntCmd v) | v. True}"

definition intMsg :: "int \<Rightarrow> int \<Rightarrow> (command, 's) ApplyMsg" where
  "intMsg i v = \<lparr>amCommandIndex = i, amCommand = Some (IntCmd v), CommandValid = True, SnapShot = []\<rparr>"

definition logged :: "(command, 's) config \<Rightarrow> nat \<Rightarrow> int \<Rightarrow> int \<Rightarrow> (command, 's) config" where
  "logged cfg n i v = cfg\<lparr>logs := (logs cfg)[n := (logs cfg ! n)(i \<mapsto> v)], maxIndex := max i (maxIndex cfg)\<rparr>"

lemma readMsg_ok:
  assumes "n < length (logs cfg)" and "\<And>j old. j < length (logs cfg) \<Longrightarrow> (logs cfg ! j) i = Some old \<Longrightarrow> old = v"
    and "1 < i \<Longrightarrow> (logs cfg ! n) (i - 1) \<noteq> None"
  shows "readMsg n (intMsg i v) cfg = Some (Inr (logged cfg n i v))"
proof -
  have "slice_get (logs cfg) (int n) = Some (logs cfg ! n)" "slice_set (logs cfg) (int n) x = Some ((logs cfg)[n := x])" for x
    using assms(1) by (auto simp: slice_get_def slice_set_def len_def)
  moreover have "mismatch n i v (logs cfg) = None" by (rule mismatch_None) (use assms(2) in blast)
  ultimately show ?thesis using assms(3) by (auto simp: readMsg_def intMsg_def logged_def Let_def max_def)
qed

lemma readMsgs_ignored: "(\<And>m. m \<in> set ms \<Longrightarrow> \<not> CommandValid m) \<Longrightarrow> readMsgs i ms cfg = Some (Inr cfg)"
  by (induction ms) (simp_all add: readMsg_def)

lemma readers_ignored: "(\<And>i m. m \<in> set (fr i) \<Longrightarrow> \<not> CommandValid m) \<Longrightarrow> readers fr is cfg = Some (Inr cfg)"
  by (induction "is") (simp_all add: readMsgs_ignored)

lemma readers_one:
  assumes "\<And>i. i \<noteq> n \<Longrightarrow> fr i = []" and "n \<in> set is" "distinct is" and "readMsgs n (fr n) cfg = Some (Inr cfg')"
  shows "readers fr is cfg = Some (Inr cfg')"
proof -
  have none: "readers fr js x = Some (Inr x)" if "n \<notin> set js" for js x
    using that assms(1) by (induction js) auto
  have app: "readers fr (js @ ks) x = readers fr ks x" if "n \<notin> set js" for js ks x
    using that assms(1) by (induction js) auto
  obtain js ks where "is = js @ n # ks" using split_list [OF assms(2)] by blast
  then show ?thesis using assms(3,4) app [of js "n # ks" cfg] none [of ks cfg'] by simp
qed

text \<open>What holds of the logs of the tester: they agree with what was chosen, and have no gaps.\<close>

definition seen_ok :: "nat \<Rightarrow> command ghost \<Rightarrow> (command, 's) config \<Rightarrow> bool" where
  "seen_ok N g cfg \<longleftrightarrow> length (logs cfg) = N \<and>
     (\<forall>n < N. \<forall>i v. (logs cfg ! n) i = Some v \<longrightarrow> msg_ok N g (intMsg i v :: (command, 's) ApplyMsg))"

definition filled :: "(command, 's) config \<Rightarrow> nat \<Rightarrow> int \<Rightarrow> bool" where
  "filled cfg n k \<longleftrightarrow> (\<forall>j. 1 \<le> j \<and> j \<le> k \<longrightarrow> (logs cfg ! n) j \<noteq> None)"

lemma logged_ok:
  assumes "seen_ok N g cfg" "n < N" "msg_ok N g (intMsg i v :: (command, 's) ApplyMsg)"
  shows "seen_ok N g (logged cfg n i v :: (command, 's) config)"
  unfolding seen_ok_def
proof (intro conjI allI impI)
  show "length (logs (logged cfg n i v)) = N" using assms by (simp add: logged_def seen_ok_def)
  fix m k w assume "m < N" "(logs (logged cfg n i v) ! m) k = Some w"
  then show "msg_ok N g (intMsg k w :: (command, 's) ApplyMsg)"
    using assms by (cases "m = n"; cases "k = i") (auto simp: logged_def seen_ok_def)
qed

lemma readMsgs_run:
  fixes cfg :: "(command, 's) config"
  assumes core: "core_inv N h v g" and n: "n < N"
    and "seen_ok N g cfg" and "filled cfg n k" and "0 \<le> k" and "k + int d = b"
    and "\<And>i. k < i \<Longrightarrow> i \<le> b \<Longrightarrow> \<exists>w. f i = intMsg i w \<and> msg_ok N g (f i :: (command, 's) ApplyMsg)"
  shows "\<exists>cfg'. readMsgs n (map f [k + 1..b]) cfg = Some (Inr cfg') \<and> seen_ok N g cfg' \<and> filled cfg' n b \<and>
    (\<forall>m < N. m \<noteq> n \<longrightarrow> logs cfg' ! m = logs cfg ! m)"
  using assms(3-)
proof (induction d arbitrary: k cfg)
  case 0
  then show ?case by auto
next
  case (Suc d)
  have lt: "k < b" using Suc.prems(4) by simp
  then obtain w where w: "f (k + 1) = intMsg (k + 1) w" "msg_ok N g (intMsg (k + 1) w :: (command, 's) ApplyMsg)"
    using Suc.prems(5) [of "k + 1"] by auto
  have len: "length (logs cfg) = N" using Suc.prems(1) by (simp add: seen_ok_def)
  have same: "old = w" if "j < length (logs cfg)" "(logs cfg ! j) (k + 1) = Some old" for j old
  proof -
    have "msg_ok N g (intMsg (k + 1) old :: (command, 's) ApplyMsg)" using Suc.prems(1) that by (simp add: seen_ok_def)
    from msgs_agree [OF core this w(2)] show ?thesis by (simp add: intMsg_def)
  qed
  have prev: "1 < k + 1 \<Longrightarrow> (logs cfg ! n) (k + 1 - 1) \<noteq> None" using Suc.prems(2) by (simp add: filled_def)
  let ?cfg = "logged cfg n (k + 1) w"
  have r: "readMsg n (f (k + 1)) cfg = Some (Inr ?cfg)"
    unfolding w(1) by (rule readMsg_ok [OF _ same prev]) (use n len in simp_all)
  have row: "logs ?cfg ! n = (logs cfg ! n)(k + 1 \<mapsto> w)" using n len by (simp add: logged_def)
  have fl: "filled ?cfg n (k + 1)"
    unfolding filled_def row using Suc.prems(2) by (auto simp: filled_def)
  have "\<exists>cfg'. readMsgs n (map f [k + 1 + 1..b]) ?cfg = Some (Inr cfg') \<and> seen_ok N g cfg' \<and> filled cfg' n b \<and>
      (\<forall>m < N. m \<noteq> n \<longrightarrow> logs cfg' ! m = logs ?cfg ! m)"
    by (rule Suc.IH [OF logged_ok [OF Suc.prems(1) n w(2)] fl]) (use Suc.prems(3-5) in auto)
  moreover have "[k + 1..b] = (k + 1) # [k + 1 + 1..b]" using lt by (simp add: upto_rec1)
  ultimately show ?case using r by (auto simp: logged_def)
qed

section \<open>Steps that hand out no command\<close>

text \<open>The index up to which a peer has applied.\<close>

definition keeps_applied :: "('c, 's) Raft \<Rightarrow> ('c, 's) Raft \<Rightarrow> bool" where
  "keeps_applied rf rf' \<longleftrightarrow> lastApplied rf' = lastApplied rf \<or> lastApplied rf' = 0"

lemma handle_applied:
  assumes "handle rf req = Some (rf', rsp, effs)" and "raft_wf rf"
  shows "lastApplied rf' = lastApplied rf"
proof (cases req)
  case (RVReq args)
  then show ?thesis using assms by (auto dest: RequestVote_log)
next
  case (AEReq args)
  then obtain reply where ae: "AppendEntries rf args = Some (rf', reply, effs)" using assms(1) by auto
  show ?thesis
  proof (cases "Success reply")
    case True
    then show ?thesis using AppendEntries_accept_log [OF ae True] by metis
  next
    case False
    show ?thesis using ae by (cases rule: AppendEntries_cases) (use False in \<open>auto dest: adoptTerm_fields\<close>)
  qed
next
  case (ISReq args)
  then obtain reply where "InstallSnapShot rf args = Some (rf', reply, effs)" using assms(1) by auto
  then show ?thesis using assms(2) by (cases rule: InstallSnapShot_cases) (auto dest: adoptTerm_fields)
qed

lemma recordMatch_applied: "recordMatch rf to i = Some (rf', effs) \<Longrightarrow> lastApplied rf' = lastApplied rf"
  by (auto elim!: recordMatch_cases)

lemma finish_applied:
  assumes "finish rf to req out = Some (rf', effs)" and "raft_wf rf"
  shows "lastApplied rf' = lastApplied rf"
proof -
  have v: "lastApplied rf' = lastApplied rf" if "sendRequestVoteAndProcess rf ok reply = Some (rf', effs)" for ok reply
    using that assms(2) by (cases rule: sendRequestVoteAndProcess_cases) (auto dest: stepDown_fields)
  have a: "lastApplied rf' = lastApplied rf" if "sendAppendEntriesAndProcess rf args srv ok reply = Some (rf', effs)" for args srv ok reply
    using that by (cases rule: sendAppendEntriesAndProcess_cases) (auto dest: stepDown_fields recordMatch_applied)
  have i: "lastApplied rf' = lastApplied rf" if "sendSnapShotAndProcess rf args srv ok reply = Some (rf', effs)" for args srv ok reply
    using that by (cases rule: sendSnapShotAndProcess_cases) (auto dest: stepDown_fields)
  show ?thesis using assms(1) v a i by (cases "(rf, to, req, out)" rule: finish.cases) auto
qed

lemma Start_applied: "Start rf command = Some (rf', res, effs) \<Longrightarrow> lastApplied rf' = lastApplied rf"
  by (auto elim!: Start_cases)

lemma Compact_applied: "Compact rf idx snap = Some rf' \<Longrightarrow> lastApplied rf' = lastApplied rf"
  by (auto elim!: Compact_cases)

lemma broadCastVote_applied: "broadCastVote rf = Some (rf', effs) \<Longrightarrow> raft_wf rf \<Longrightarrow> lastApplied rf' = lastApplied rf"
  by (auto elim!: broadCastVote_cases)

lemma restart_applied:
  assumes "Make N (int n) (persister rf) = (rf', effs)" and "durable rf"
  shows "lastApplied rf' = 0" and "hands S (applies effs)"
proof -
  show "lastApplied rf' = 0" using recover_wf [OF assms(2), of N n] assms(1) by simp
  show "hands S (applies effs)" using assms(1) by (auto simp: Make_def Let_def notifyAppUseNewSnapShot_def split: if_splits)
qed

text \<open>All steps but a round of the apply daemon.\<close>

lemma exec_quiet:
  assumes b: "base_inv N c" and ev: "exec N c ev = Some c'" "\<And>n. ev \<noteq> ApplyRound n" and ob: "\<And>i. hands {} (outbox c i)"
  shows "hands {} (outbox c' i) \<and> hands {} (fresh ev c c' i) \<and> (n < N \<longrightarrow> keeps_applied (peers c n) (peers c' n))"
proof -
  have p: "raft_wf (peers c k)" "durable (peers c k)" if "k < N" for k using b that by (auto simp: base_inv_def peer_ok_def)
  have r: "rpc_src (rpcs c ! k) < N" "rpc_dst (rpcs c ! k) < N" if "k < length (rpcs c)" for k
    using b nth_mem [OF that] by (auto simp: base_inv_def rpc_ok_def)
  note q = handle_stores [where S = UNIV and T = "{}", OF _ p(1)]
  show ?thesis
  proof (cases ev)
    case (Deliver k)
    then obtain rf rsp effs where t: "k < length (rpcs c)"
        "handle (peers c (rpc_dst (rpcs c ! k))) (rpc_req (rpcs c ! k)) = Some (rf, rsp, effs)"
        "c' = c\<lparr>peers := (peers c)(rpc_dst (rpcs c ! k) := rf), rpcs := (rpcs c)[k := (rpcs c ! k)\<lparr>rpc_resp := Some rsp\<rparr>],
                outbox := (outbox c)(rpc_dst (rpcs c ! k) := outbox c (rpc_dst (rpcs c ! k)) @ applies effs)\<rparr>"
      using ev(1) by (auto simp: bind_Some_iff Let_def split: if_splits)
    have "hands {} (applies effs)"
      using q [OF t(2) r(2) [OF t(1)], of "rpcs c ! k"] by (simp add: stores_def carries_def)
    then show ?thesis
      using ob handle_applied [OF t(2) p(1) [OF r(2) [OF t(1)]]] Deliver by (auto simp: t(3) keeps_applied_def)
  next
    case (CallReturns k lost)
    then obtain rf effs where t: "k < length (rpcs c)"
        "finish (peers c (rpc_src (rpcs c ! k))) (rpc_dst (rpcs c ! k)) (rpc_req (rpcs c ! k)) (if lost then None else rpc_resp (rpcs c ! k)) = Some (rf, effs)"
        "c' = c\<lparr>peers := (peers c)(rpc_src (rpcs c ! k) := rf),
                rpcs := (rpcs c)[k := (rpcs c ! k)\<lparr>rpc_live := False\<rparr>] @ spawn (rpc_src (rpcs c ! k)) effs\<rparr>"
      using ev(1) by (auto simp: bind_Some_iff Let_def split: if_splits)
    show ?thesis
      using ob finish_applied [OF t(2) p(1) [OF r(1) [OF t(1)]]] CallReturns by (auto simp: t(3) keeps_applied_def)
  next
    case (Flush k)
    then obtain m ms where t: "outbox c k = m # ms"
        "c' = c\<lparr>outbox := (outbox c)(k := ms), delivered := (delivered c)(k := delivered c k @ [m])\<rparr>"
      using ev(1) by (auto split: if_splits list.splits)
    have "hands {} (m # ms)" using ob [of k] t(1) by simp
    then show ?thesis using ob Flush by (auto simp: t(2) keeps_applied_def)
  next
    case (Restart k)
    then show ?thesis using ev(1) ob restart_applied [OF _ p(2)]
      by (auto simp: keeps_applied_def split: if_splits prod.splits)
  qed (use ev ob p in \<open>auto simp: bind_Some_iff keeps_applied_def Kill_def
      dest: Start_applied Compact_applied broadCastVote_applied split: if_splits\<close>)
qed

section \<open>The readers beside a cluster\<close>

definition watch_ok :: "nat \<Rightarrow> command ghost \<Rightarrow> (command, 's) cluster \<Rightarrow> (command, 's) config \<Rightarrow> bool" where
  "watch_ok N g c cfg \<longleftrightarrow> seen_ok N g cfg \<and> (\<forall>n. hands {} (outbox c n)) \<and>
     (\<forall>n < N. 0 \<le> lastApplied (peers c n) \<and> filled cfg n (lastApplied (peers c n)))"

lemma watch_ok_quiet:
  assumes w: "watch_ok N g c cfg" and b: "base_inv N c" and ev: "exec N c ev = Some c'" "\<And>n. ev \<noteq> ApplyRound n"
    and g: "seen_ok N g' cfg"
  shows "readers (fresh ev c c') [0..<N] cfg = Some (Inr cfg) \<and> watch_ok N g' c' cfg"
proof -
  have ob: "\<And>i. hands {} (outbox c i)" using w by (simp add: watch_ok_def)
  note q = exec_quiet [OF b ev ob]
  have "readers (fresh ev c c') [0..<N] cfg = Some (Inr cfg)"
    by (rule readers_ignored) (use q in \<open>auto simp: hands_def\<close>)
  moreover have "0 \<le> lastApplied (peers c' n) \<and> filled cfg n (lastApplied (peers c' n))" if "n < N" for n
    using w q [of 0 n] that by (auto simp: watch_ok_def keeps_applied_def filled_def)
  ultimately show ?thesis using q g by (simp add: watch_ok_def)
qed

lemma watch_ok_apply:
  fixes c :: "(command, 's) cluster"
  assumes w: "watch_ok N g c cfg" and ev: "exec N c (ApplyRound n) = Some c'" and ns: "no_snapshots N c"
    and inv: "linv N h g fl c" "cinv N g fl c" and inv': "linv N h' g' fl' c'" "cinv N g' fl' c'"
    and g: "seen_ok N g' cfg" and k: "known N int_commands c'"
  shows "\<exists>cfg'. readers (fresh (ApplyRound n) c c') [0..<N] cfg = Some (Inr cfg') \<and> watch_ok N g' c' cfg'"
proof -
  let ?rf = "peers c n"
  obtain rf effs where t: "n < N" "applyLogEntryDaemon ?rf = Some (rf, effs)"
      "c' = c\<lparr>peers := (peers c)(n := rf), delivered := (delivered c)(n := delivered c n @ applies effs)\<rparr>"
    using ev by (auto simp: bind_Some_iff split: if_splits)
  have s: "SnapshotIndex ?rf = 0" "0 \<le> lastApplied ?rf" "filled cfg n (lastApplied ?rf)"
    using ns w t(1) by (auto simp: no_snapshots_def watch_ok_def)
  have "cmt N g (CurrentTerm ?rf) (nat (commitIndex ?rf)) (fl n)"
    using inv(2) t(1) by (auto simp: cinv_def pinv_def counters_def)
  then have "commitIndex ?rf \<le> lastIndex ?rf"
    using cmt_length rep_lastIndex [OF linvD(5) [OF inv(1) t(1)]] by fastforce
  note sp = applyLoop_spec [OF this, of "lastApplied ?rf + 1"]
  have m: "max (lastApplied ?rf + 1) (SnapshotIndex ?rf + 1) = lastApplied ?rf + 1" using s by simp
  have rf: "rf = (if lastApplied ?rf < commitIndex ?rf then ?rf\<lparr>lastApplied := commitIndex ?rf\<rparr> else ?rf)"
    and e: "effs = map (applied ?rf) [lastApplied ?rf + 1..commitIndex ?rf]"
    using t(2) sp unfolding applyLogEntryDaemon_def m by auto
  define f :: "int \<Rightarrow> (command, 's) ApplyMsg" where "f i = \<lparr>amCommandIndex = i,
      amCommand = Command (Logs ?rf ! nat (i - SnapshotIndex ?rf)), CommandValid = True, SnapShot = []\<rparr>" for i
  have ap: "applies effs = map f [lastApplied ?rf + 1..commitIndex ?rf]"
    unfolding e applies_applied f_def ..
  have f: "\<exists>v. f i = intMsg i v \<and> msg_ok N g' (f i)" if "lastApplied ?rf < i" "i \<le> commitIndex ?rf" for i
  proof -
    have d: "f i \<in> set (delivered c' n)" using that ap by (simp add: t(3))
    moreover have "hands int_commands (delivered c' n)" using k by (simp add: known_def)
    moreover have "CommandValid (f i)" by (simp add: f_def)
    ultimately have "amCommand (f i) \<in> int_commands" unfolding hands_def by blast
    moreover have "msg_ok N g' (f i)" using inv'(2) d by (auto simp: cinv_def)
    ultimately show ?thesis by (auto simp: f_def intMsg_def int_commands_def)
  qed
  have fr: "fresh (ApplyRound n) c c' n = applies effs" "i \<noteq> n \<Longrightarrow> fresh (ApplyRound n) c c' i = []" for i by (simp_all add: t(3))
  show ?thesis
  proof (cases "lastApplied ?rf \<le> commitIndex ?rf")
    case True
    obtain cfg' where r: "readMsgs n (map f [lastApplied ?rf + 1..commitIndex ?rf]) cfg = Some (Inr cfg')"
        "seen_ok N g' cfg'" "filled cfg' n (commitIndex ?rf)" "\<forall>m < N. m \<noteq> n \<longrightarrow> logs cfg' ! m = logs cfg ! m"
      using readMsgs_run [OF linvD(2) [OF inv'(1)] t(1) g s(3,2), of "nat (commitIndex ?rf - lastApplied ?rf)" "commitIndex ?rf" f] f True
      by auto
    have "readers (fresh (ApplyRound n) c c') [0..<N] cfg = Some (Inr cfg')"
      by (rule readers_one [of n]) (use fr t(1) r(1) ap in auto)
    moreover have "watch_ok N g' c' cfg'"
      using w r(2-4) rf True s(2) by (auto simp: watch_ok_def t(3) filled_def split: if_splits)
    ultimately show ?thesis by blast
  next
    case False
    then have "applies effs = []" "rf = ?rf" using ap rf by auto
    then have "readers (fresh (ApplyRound n) c c') [0..<N] cfg = Some (Inr cfg)"
      by (intro readers_one [of n]) (use fr t(1) in auto)
    moreover have "watch_ok N g' c' cfg" using w g \<open>rf = ?rf\<close> by (auto simp: watch_ok_def t(3))
    ultimately show ?thesis by blast
  qed
qed

lemma seen_ok_mono:
  fixes cfg :: "(command, 's) config"
  assumes "seen_ok N g cfg" "core_inv N h v g" "gle g g'"
  shows "seen_ok N g' cfg"
  unfolding seen_ok_def
proof (intro conjI allI impI)
  show "length (logs cfg) = N" using assms(1) by (simp add: seen_ok_def)
  fix n i v assume "n < N" "(logs cfg ! n) i = Some v"
  then show "msg_ok N g' (intMsg i v :: (command, 's) ApplyMsg)"
    using assms(1) by (intro msg_ok_mono [OF assms(2,3)]) (simp add: seen_ok_def)
qed

lemma watch_total:
  fixes c :: "(command, 's) cluster"
  assumes "run_plain N c evs" and "linv N h g fl c" and "cinv N g fl c" and "Raft_Plain.flat N c" and "watch_ok N g c cfg"
    and "known N int_commands c" and "\<And>k cmd. Submit k cmd \<in> set evs \<Longrightarrow> cmd \<in> int_commands"
  shows "\<exists>cfg'. watch N c cfg evs = Some (Inr (the (run N c evs), cfg'))"
  using assms
proof (induction evs arbitrary: c cfg h g fl)
  case (Cons ev evs)
  obtain c' where c': "exec N c ev = Some c'" "run_plain N c' evs" and ns: "no_snapshots N c"
    using Cons.prems(1) by (auto split: option.splits)
  have st: "cstep N c c'" by (rule exec_sound [OF c'(1)])
  obtain g' fl' where s: "lstep N g fl c g' fl' c'" using lstep_exists [OF Cons.prems(2,3) st] by blast
  obtain h' where h': "linv N h' g' fl' c'" "gle g g'" using lstepD [OF s] by metis
  have ci: "cinv N g' fl' c'" by (rule cinv_step [OF s st flat_in_range [OF Cons.prems(4)]])
  have ft: "Raft_Plain.flat N c'" by (rule flat_step [OF Cons.prems(4) s ns st])
  have so: "seen_ok N g' cfg"
    using Cons.prems(5) by (intro seen_ok_mono [OF _ linvD(2) [OF Cons.prems(2)] h'(2)]) (simp add: watch_ok_def)
  have b: "base_inv N c" by (rule linvD(4) [OF Cons.prems(2)])
  have "submitted ev \<subseteq> int_commands" using Cons.prems(7) by (fastforce simp: submitted_iff)
  then have k: "known N int_commands c'"
    using known_exec [OF Cons.prems(6) b c'(1)] by (simp add: Un_absorb2)
  have "\<exists>cfg'. readers (fresh ev c c') [0..<N] cfg = Some (Inr cfg') \<and> watch_ok N g' c' cfg'"
  proof (cases "\<exists>n. ev = ApplyRound n")
    case True
    then show ?thesis using watch_ok_apply [OF Cons.prems(5) _ ns Cons.prems(2,3) h'(1) ci so k] c'(1) by blast
  next
    case False
    then show ?thesis using watch_ok_quiet [OF Cons.prems(5) b c'(1) _ so] by blast
  qed
  then obtain cfg' where r: "readers (fresh ev c c') [0..<N] cfg = Some (Inr cfg')" "watch_ok N g' c' cfg'" by blast
  have "\<exists>cfg''. watch N c' cfg' evs = Some (Inr (the (run N c' evs), cfg''))"
    by (rule Cons.IH [OF c'(2) h'(1) ci ft r(2) k]) (use Cons.prems(7) in auto)
  then show ?case using c'(1) r(1) by auto
qed simp

text \<open>
  Property C7.  In a test of the Raft library, which submits integers and takes no snapshots, the
  readers of the apply channels never report an error, whatever is lost, delayed, reordered, crashed and
  restarted: no two servers apply different commands at an index, no server skips an index, also
  after a restart, and every command that is applied is an integer.
\<close>

theorem tester_sees_agreement:
  fixes cfg :: "(command, 's) config"
  assumes "run_plain N (init_cluster N) evs" and "\<And>k cmd. Submit k cmd \<in> set evs \<Longrightarrow> \<exists>v. cmd = Some (IntCmd v)"
    and "logs cfg = replicate N Map.empty"
  shows "\<exists>cfg'. watch N (init_cluster N) cfg evs = Some (Inr (trace N evs, cfg'))"
proof -
  have "watch_ok N no_ghost (init_cluster N :: (command, 's) cluster) cfg"
    using assms(3) by (simp add: watch_ok_def seen_ok_def filled_def init_cluster_def Make_def Let_def dePersistState_def
        decodeState_def persister_defs)
  moreover have "known N int_commands (init_cluster N :: (command, 's) cluster)"
    by (rule known_mono [OF known_init]) simp
  ultimately have "\<exists>cfg'. watch N (init_cluster N) cfg evs = Some (Inr (the (run N (init_cluster N) evs), cfg'))"
    using assms(2) by (intro watch_total [OF assms(1) linv_init cinv_init flat_init]) (auto simp: int_commands_def)
  then show ?thesis by (simp add: trace_def)
qed

text \<open>Two commands, a crash of the follower in between and its catching up.\<close>

definition test_run :: "(command, int) event list" where
  "test_run = [Timeout 0, Deliver 0, CallReturns 0 False, Submit 0 (Some (IntCmd 5)), CheckPeer 0 1, Deliver 2,
     CallReturns 2 False, ApplyRound 0, Submit 0 (Some (IntCmd 6)), CheckPeer 0 1, Deliver 3, ApplyRound 1,
     CallReturns 3 False, ApplyRound 0, Restart 1, CheckPeer 0 1, Deliver 4, ApplyRound 1]"

definition test_config :: "(command, int) config" where
  "test_config = \<lparr>cfgNet = MakeNetwork, cfgN = 3, rafts = replicate 3 None, applyErr = replicate 3 [],
     connected = replicate 3 False, saved = replicate 3 None, endnames = replicate 3 None,
     logs = replicate 3 Map.empty, rpcs0 = 0, cmds0 = 0, maxIndex = 0, maxIndex0 = 0\<rparr>"

theorem tester_sees_agreement_witness:
  "\<exists>cfg'. watch 3 (init_cluster 3) test_config test_run = Some (Inr (trace 3 test_run, cfg'))"
proof (rule tester_sees_agreement)
  show "run_plain 3 (init_cluster 3) test_run" by code_simp
  show "\<exists>v. cmd = Some (IntCmd v)" if "Submit k cmd \<in> set test_run" for k cmd
    using that by (auto simp: test_run_def)
  show "logs test_config = replicate 3 Map.empty" by (simp add: test_config_def)
qed

end
