(* ===== verification/Tester_Leader.thy ===== *)
theory Tester_Leader
  imports Raft_Safety Tester_Checks
begin

text \<open>
  \<^verbatim>\<open>checkOneLeader\<close> beside a running cluster: it asks one server after the other, so that it sees each
  peer at another time.  It still never sees two leaders of one term.
\<close>

section \<open>Leaders of a term at different times\<close>

lemma extends_refl: "extends h h"
  by (simp add: extends_def)

lemma extends_trans: "extends h h' \<Longrightarrow> extends h' h'' \<Longrightarrow> extends h h''"
  by (auto simp: extends_def)

lemma election_step:
  assumes "election_inv N h c" and "cstep N c c'"
  shows "\<exists>h'. extends h h' \<and> election_inv N h' c'"
proof -
  have b: "base_inv N c" and hist: "hist_ok N h (peers c)" using assms(1) by (auto simp: election_inv_def)
  have b': "base_inv N c'" by (rule base_inv_step [OF assms(2) b])
  from assms(2) b show ?thesis
  proof (cases rule: cstep_classified)
    case (passively n rf)
    have "extends h (cast h n rf)"
      by (rule hist_ok_cast(2) [OF hist]) (use passively in \<open>auto simp: passive_cluster_step_def passive_step_def\<close>)
    then show ?thesis using election_inv_passive [OF passively b' assms(1)] by blast
  next
    case (candidacy n rf)
    have "extends h (cast h n rf)"
      by (rule hist_ok_cast(2) [OF hist]) (use candidacy in \<open>auto simp: candidate_step_def\<close>)
    then show ?thesis using election_inv_candidate [OF candidacy b' assms(1)] by blast
  next
    case (vote n rf)
    then show ?thesis using election_inv_vote [OF vote b' assms(1)] extends_refl by blast
  qed
qed

lemma election_run:
  "run N c evs = Some c' \<Longrightarrow> election_inv N h c \<Longrightarrow> \<exists>h'. extends h h' \<and> election_inv N h' c'"
proof (induction evs arbitrary: c h)
  case Nil
  then show ?case using extends_refl by auto
next
  case (Cons ev evs)
  obtain c1 where c1: "exec N c ev = Some c1" "run N c1 evs = Some c'" using Cons.prems(1) by (auto simp: bind_Some_iff)
  obtain h1 where h1: "extends h h1" "election_inv N h1 c1" using election_step [OF Cons.prems(2) exec_sound [OF c1(1)]] by blast
  then show ?case using Cons.IH [OF c1(2) h1(2)] extends_trans by blast
qed

lemma run_append: "run N c (evs @ evs') = do { c' \<leftarrow> run N c evs; run N c' evs' }"
  by (induction evs arbitrary: c) (auto split: Option.bind_splits)

text \<open>The states an execution passes through.\<close>

lemma run_take:
  assumes "run N c evs = Some c'" "j \<le> length evs"
  obtains c1 where "run N c (take j evs) = Some c1" "run N c1 (drop j evs) = Some c'"
  using assms run_append [of N c "take j evs" "drop j evs"] by (cases "run N c (take j evs)") auto

definition leads :: "('c, 's) Raft \<Rightarrow> int \<Rightarrow> bool" where
  "leads rf t \<longleftrightarrow> rstate rf = LEADER \<and> CurrentTerm rf = t"

lemma leader_over_time:
  assumes r: "run N (init_cluster N) evs = Some c" and j: "j \<le> length evs" "j' \<le> length evs" and n: "n < N" "n' < N"
    and l: "leads (peers (trace N (take j evs)) n) t" "leads (peers (trace N (take j' evs)) n') t"
  shows "n = n'"
proof -
  have key: "n = n'" if "j \<le> j'" "j' \<le> length evs" "n < N" "n' < N"
      "leads (peers (trace N (take j evs)) n) t" "leads (peers (trace N (take j' evs)) n') t" for j j' n n'
  proof -
    obtain c2 where c2: "run N (init_cluster N) (take j' evs) = Some c2" by (rule run_take [OF r \<open>j' \<le> length evs\<close>])
    obtain c1 where c1: "run N (init_cluster N) (take j (take j' evs)) = Some c1" "run N c1 (drop j (take j' evs)) = Some c2"
      by (rule run_take [OF c2, of j]) (use \<open>j \<le> j'\<close> \<open>j' \<le> length evs\<close> in auto)
    have tr: "trace N (take j evs) = c1" "trace N (take j' evs) = c2" using c1(1) c2 that(1) by (simp_all add: trace_def min_def)
    obtain h1 where h1: "election_inv N h1 c1" using reachable_election_inv [OF run_reachable [OF reachable.init c1(1)]] by blast
    then obtain h2 where h2: "extends h1 h2" "election_inv N h2 c2" using election_run [OF c1(2)] by blast
    have "quorum N h2 t n" using h1 that(3,5) tr(1) quorum_mono [OF h2(1)] by (auto simp: election_inv_def leads_def)
    moreover have "quorum N h2 t n'" using h2(2) that(4,6) tr(2) by (auto simp: election_inv_def leads_def)
    ultimately show ?thesis by (rule quorum_unique)
  qed
  show ?thesis using key [of j j' n n'] key [of j' j n' n] j n l by (cases "j \<le> j'") auto
qed

lemma terms_not_negative:
  fixes c :: "('c, 's) cluster"
  assumes r: "run N (init_cluster N) evs = Some c" and j: "j \<le> length evs" and n: "n < N"
  shows "0 \<le> CurrentTerm (peers (trace N (take j evs) :: ('c, 's) cluster) n)"
proof -
  obtain c1 where c1: "run N (init_cluster N) (take j evs) = Some c1" by (rule run_take [OF r j])
  have "CurrentTerm (peers (init_cluster N :: ('c, 's) cluster) n) = 0"
    by (simp add: init_cluster_def Make_def Let_def dePersistState_def decodeState_def persister_defs)
  then show ?thesis using run_votes [OF reachable.init c1 n] c1 by (simp add: trace_def)
qed

section \<open>The looks of the tester\<close>

text \<open>A look shows the peers of some state of the execution; a connected server is running.\<close>

definition shows_state :: "nat \<Rightarrow> ('c, 's) event list \<Rightarrow> ('c, 's) config \<Rightarrow> bool" where
  "shows_state N evs cfg \<longleftrightarrow> length (rafts cfg) = N \<and> length (connected cfg) = N \<and>
     (\<exists>j \<le> length evs. \<forall>n < N. connected cfg ! n \<longrightarrow> rafts cfg ! n = Some (peers (trace N (take j evs)) n))"

definition seen_leader :: "(nat \<Rightarrow> ('c, 's) config) \<Rightarrow> nat \<Rightarrow> int \<Rightarrow> bool" where
  "seen_leader look i t \<longleftrightarrow> connected (look i) ! i \<and> (\<exists>rf. rafts (look i) ! i = Some rf \<and> leads rf t)"

lemma seen_leader_unique:
  assumes r: "run N (init_cluster N) evs = Some c" and s: "\<And>i. shows_state N evs (look i)" and n: "n < N" "n' < N"
    and l: "seen_leader look n t" "seen_leader look n' t"
  shows "n = n' \<and> 0 \<le> t"
proof -
  obtain j where j: "j \<le> length evs" "leads (peers (trace N (take j evs)) n) t"
    using s [of n] l(1) n(1) by (auto simp: shows_state_def seen_leader_def)
  obtain j' where j': "j' \<le> length evs" "leads (peers (trace N (take j' evs)) n') t"
    using s [of n'] l(2) n(2) by (auto simp: shows_state_def seen_leader_def)
  show ?thesis
    using leader_over_time [OF r j(1) j'(1) n j(2) j'(2)] terms_not_negative [OF r j(1) n(1)] j(2) by (simp add: leads_def)
qed

text \<open>The map of leaders: every term has exactly one of them.\<close>

definition one_each :: "(nat \<Rightarrow> ('c, 's) config) \<Rightarrow> nat \<Rightarrow> (int \<times> nat list) list \<Rightarrow> bool" where
  "one_each look k leaders \<longleftrightarrow> distinct (map fst leaders) \<and>
     (\<forall>(t, l) \<in> set leaders. \<exists>i < k. l = [i] \<and> seen_leader look i t) \<and>
     (\<forall>i < k. \<forall>t. seen_leader look i t \<longrightarrow> (t, [i]) \<in> set leaders)"

lemma leadersAt_one_each:
  assumes r: "run N (init_cluster N) evs = Some c" and s: "\<And>i. shows_state N evs (look i)"
  shows "\<exists>leaders. leadersAt look N = Some leaders \<and> one_each look N leaders"
  unfolding leadersAt_def
proof (rule forEach_upt)
  show "one_each look 0 []" by (simp add: one_each_def)
next
  fix k leaders
  assume k: "k < N" and o: "one_each look k leaders"
  obtain j where st: "length (rafts (look k)) = N" "length (connected (look k)) = N" "j \<le> length evs"
      "connected (look k) ! k \<longrightarrow> rafts (look k) ! k = Some (peers (trace N (take j evs)) k)"
    using s [of k] k by (auto simp: shows_state_def)
  have c: "slice_get (connected (look k)) (int k) = Some (connected (look k) ! k)"
    "slice_get (rafts (look k)) (int k) = Some (rafts (look k) ! k)"
    using st k by (auto simp: slice_get_def len_def)
  have up: "one_each look (Suc k) leaders" if "\<And>t. \<not> seen_leader look k t"
    using o that by (fastforce simp: one_each_def less_Suc_eq)
  show "\<exists>leaders'. do {
       b \<leftarrow> slice_get (connected (look k)) (int k);
       if b then do {
         (term, leader) \<leftarrow> peerState (look k) k;
         Some (if leader
               then AList.update term ((case map_of leaders term of Some l \<Rightarrow> l | None \<Rightarrow> []) @ [k]) leaders
               else leaders) }
       else Some leaders } = Some leaders' \<and> one_each look (Suc k) leaders'"
  proof (cases "connected (look k) ! k")
    case False
    then show ?thesis using c(1) up by (simp add: seen_leader_def)
  next
    case True
    let ?rf = "peers (trace N (take j evs)) k"
    have ps: "peerState (look k) k = Some (CurrentTerm ?rf, rstate ?rf = LEADER)"
      using c(2) st(4) True by (simp add: peerState_def GetState_def)
    show ?thesis
    proof (cases "rstate ?rf = LEADER")
      case False
      then show ?thesis using c(1) True ps up st(4) by (simp add: seen_leader_def leads_def)
    next
      case l: True
      let ?t = "CurrentTerm ?rf"
      have sl: "seen_leader look k ?t" using True st(4) l by (simp add: seen_leader_def leads_def)
      have none: "map_of leaders ?t = None"
      proof (rule ccontr)
        assume "map_of leaders ?t \<noteq> None"
        then obtain l where "(?t, l) \<in> set leaders" using map_of_SomeD by fastforce
        then obtain i where "i < k" "seen_leader look i ?t" using o by (auto simp: one_each_def)
        then show False using seen_leader_unique [OF r s _ k _ sl, of i] k by simp
      qed
      then have nk: "?t \<notin> fst ` set leaders" by (simp add: map_of_eq_None_iff)
      then have "AList.update ?t [k] leaders = leaders @ [(?t, [k])]" by (induction leaders) auto
      then have "one_each look (Suc k) (AList.update ?t [k] leaders)"
        using o sl nk st(4) True by (fastforce simp: one_each_def less_Suc_eq seen_leader_def leads_def)
      then show ?thesis using c(1) True ps l none by simp
    qed
  qed
qed

lemma lastTermWithLeader_max:
  assumes "\<forall>(t, l) \<in> set leaders. length l = 1"
  shows "lastTermWithLeader leaders u = Inr (Max (insert u (fst ` set leaders)))"
  using assms
proof (induction leaders arbitrary: u)
  case (Cons x leaders)
  obtain t l where x: "x = (t, l)" by fastforce
  have "Max (insert (if t > u then t else u) (fst ` set leaders)) = Max (insert u (insert t (fst ` set leaders)))"
    by (cases "fst ` set leaders = {}") (auto simp: max_def)
  then show ?case using Cons x by simp
qed simp

lemma tryLeaders_result:
  assumes r: "run N (init_cluster N) evs = Some c" and s: "\<And>it i. shows_state N evs (look it i)"
  shows "tryLeaders look N its = Some (Inl NoLeader) \<and> (\<forall>it \<in> set its. \<forall>i < N. \<forall>t. \<not> seen_leader (look it) i t) \<or>
    (\<exists>it \<in> set its. \<exists>i < N. \<exists>t. tryLeaders look N its = Some (Inr i) \<and> seen_leader (look it) i t \<and>
       (\<forall>i' < N. \<forall>t'. seen_leader (look it) i' t' \<longrightarrow> t' \<le> t))"
proof (induction its)
  case (Cons it its)
  obtain leaders where l: "leadersAt (look it) N = Some leaders" and o: "one_each (look it) N leaders"
    using leadersAt_one_each [OF r, of "look it"] s by blast
  have len: "\<forall>(t, l) \<in> set leaders. length l = 1" using o by (fastforce simp: one_each_def)
  show ?case
  proof (cases "leaders = []")
    case True
    then have "\<forall>i < N. \<forall>t. \<not> seen_leader (look it) i t" using o by (simp add: one_each_def)
    then show ?thesis using Cons l True by auto
  next
    case False
    let ?T = "Max (fst ` set leaders)"
    have T: "?T \<in> fst ` set leaders" using False by simp
    then obtain i where i: "i < N" "(?T, [i]) \<in> set leaders" "seen_leader (look it) i ?T"
      using o by (fastforce simp: one_each_def)
    have "0 \<le> ?T" using seen_leader_unique [OF r _ i(1,1,3,3)] s by blast
    then have "lastTermWithLeader leaders (-1) = Inr ?T"
      using lastTermWithLeader_max [OF len, of "-1"] False by (simp add: max_def)
    moreover have "map_of leaders ?T = Some [i]" using o i(2) by (simp add: one_each_def)
    ultimately have "tryLeaders look N (it # its) = Some (Inr i)" using l False by (simp add: slice_get_def len_def)
    moreover have "t' \<le> ?T" if "i' < N" "seen_leader (look it) i' t'" for i' t'
      using o that by (force simp: one_each_def intro!: Max_ge)
    ultimately show ?thesis using i by auto
  qed
qed simp

text \<open>
  Property C8.  \<^verbatim>\<open>checkOneLeader\<close> looks at the servers one after the other while the cluster runs on.
  It never panics and never reports two leaders of one term.  It returns a connected server that it
  saw leading in a term that no leader it saw in that round exceeds, and it reports that there is no leader
  exactly when it saw none in its ten rounds.
\<close>

theorem check_one_leader:
  assumes "run N (init_cluster N) evs = Some c" and "\<And>it i. shows_state N evs (look it i)"
  shows "checkOneLeader look N = Some (Inl NoLeader) \<and> (\<forall>it < 10. \<forall>i < N. \<forall>t. \<not> seen_leader (look it) i t) \<or>
    (\<exists>it < 10. \<exists>i < N. \<exists>t. checkOneLeader look N = Some (Inr i) \<and> seen_leader (look it) i t \<and>
       (\<forall>i' < N. \<forall>t'. seen_leader (look it) i' t' \<longrightarrow> t' \<le> t))"
  using tryLeaders_result [OF assms(1), of look "[0..<10]"] assms(2)
  unfolding checkOneLeader_def by (simp add: atLeast0LessThan Bex_def Ball_def)

text \<open>An execution with two leaders of different terms, looked at in its last state.\<close>

definition two_leaders :: "(command, int) event list" where
  "two_leaders = [Timeout 0, Deliver 0, CallReturns 0 False, Timeout 2, Timeout 2, Deliver 5, CallReturns 5 False]"

definition last_look :: "(command, int) config" where
  "last_look = \<lparr>cfgNet = MakeNetwork, cfgN = 3, rafts = map (\<lambda>n. Some (peers (trace 3 two_leaders) n)) [0..<3],
     applyErr = replicate 3 [], connected = [True, True, True], saved = replicate 3 None, endnames = replicate 3 None,
     logs = replicate 3 Map.empty, rpcs0 = 0, cmds0 = 0, maxIndex = 0, maxIndex0 = 0\<rparr>"

theorem check_one_leader_witness:
  "\<exists>i < 3. \<exists>t. checkOneLeader (\<lambda>_ _. last_look) 3 = Some (Inr i) \<and> seen_leader (\<lambda>_. last_look) i t \<and>
     (\<forall>i' < 3. \<forall>t'. seen_leader (\<lambda>_. last_look) i' t' \<longrightarrow> t' \<le> t)"
proof -
  have "run 3 (init_cluster 3) two_leaders \<noteq> None" by code_simp
  then obtain c where c: "run 3 (init_cluster 3) two_leaders = Some c" by auto
  have "\<forall>n < 3. rafts last_look ! n = Some (peers (trace 3 (take (length two_leaders) two_leaders)) n)"
    by (simp add: last_look_def)
  then have s: "shows_state 3 two_leaders last_look" unfolding shows_state_def by (auto simp: last_look_def)
  have "map_option isl (checkOneLeader (\<lambda>_ _. last_look) 3) = Some False" by code_simp
  then show ?thesis using check_one_leader [OF c, of "\<lambda>_ _. last_look"] s by auto
qed

end
