(* ===== verification/KV_Tester.thy ===== *)
theory KV_Tester
  imports KV_Client Tester_Net "HOL-Library.Multiset"
begin

text \<open>
  The tester of the key/value service (\<^verbatim>\<open>kvraft/config.go\<close>): servers and clerks on a network that the
  tests cut into pieces.  A server is the pair of a \<^verbatim>\<open>KVServer\<close> and its Raft peer.  Clerks are kept in the
  order in which they are made and a clerk is named by its number.  Random names, random numbers and the
  addresses of servers are arguments; an index out of range or a nil pointer gives \<^term>\<open>None\<close>.
\<close>

section \<open>Shuffling handles\<close>

text \<open>\<open>rnd i\<close> is the number that \<^verbatim>\<open>rand.Intn\<close> gives for the bound \<open>i + 1\<close>.\<close>

definition swap :: "'a list \<Rightarrow> nat \<Rightarrow> nat \<Rightarrow> 'a list" where
  "swap xs i j = xs[i := xs ! j, j := xs ! i]"

definition random_handles :: "(nat \<Rightarrow> nat) \<Rightarrow> 'a list \<Rightarrow> 'a list" where
  "random_handles rnd kvh = foldl (\<lambda>sa i. swap sa i (rnd i mod (i + 1))) kvh [0..<length kvh]"

section \<open>The tester\<close>

record ('c, 's, 'k) kvconfig =
  kvNet :: Network
  kvN :: nat
  kvservers :: "('k \<times> ('c, 's) Raft) option list"
  kvSaved :: "('c, 's) Persister option list"
  kvEndnames :: "string list option list"
  clerks :: "(nat \<times> string list) list"
  nextClientId :: nat
  kvMaxraftstate :: int
  kvRpcs0 :: int
  ops :: int

definition kvEndname :: "('c, 's, 'k) kvconfig \<Rightarrow> nat \<Rightarrow> nat \<Rightarrow> string option" where
  "kvEndname cfg i j = do {
     row \<leftarrow> slice_get (kvEndnames cfg) (int i);
     slice_get (case row of None \<Rightarrow> [] | Some r \<Rightarrow> r) (int j) }"

definition kvEnable :: "nat \<Rightarrow> nat \<Rightarrow> bool \<Rightarrow> ('c, 's, 'k) kvconfig \<Rightarrow> ('c, 's, 'k) kvconfig option" where
  "kvEnable i j b cfg = do {
     e \<leftarrow> kvEndname cfg i j;
     Some (cfg\<lparr>kvNet := Enable (endAt e) b (kvNet cfg)\<rparr>) }"

definition connectUnlocked :: "nat \<Rightarrow> nat list \<Rightarrow> ('c, 's, 'k) kvconfig \<Rightarrow> ('c, 's, 'k) kvconfig option" where
  "connectUnlocked i to cfg = do {
     cfg \<leftarrow> forEach (\<lambda>j cfg. kvEnable i (to ! j) True cfg) [0..<length to] cfg;
     forEach (\<lambda>j cfg. kvEnable (to ! j) i True cfg) [0..<length to] cfg }"

text \<open>The second loop tests \<^verbatim>\<open>endnames[j]\<close> and reads \<^verbatim>\<open>endnames[from[j]]\<close>.\<close>

definition disconnectUnlocked :: "nat \<Rightarrow> nat list \<Rightarrow> ('c, 's, 'k) kvconfig \<Rightarrow> ('c, 's, 'k) kvconfig option" where
  "disconnectUnlocked i from cfg = do {
     cfg \<leftarrow> forEach (\<lambda>j cfg. do {
         row \<leftarrow> slice_get (kvEndnames cfg) (int i);
         if row \<noteq> None then kvEnable i (from ! j) False cfg else Some cfg }) [0..<length from] cfg;
     forEach (\<lambda>j cfg. do {
         row \<leftarrow> slice_get (kvEndnames cfg) (int j);
         if row \<noteq> None then kvEnable (from ! j) i False cfg else Some cfg }) [0..<length from] cfg }"

definition All :: "('c, 's, 'k) kvconfig \<Rightarrow> nat list" where
  "All cfg = [0..<kvN cfg]"

definition ConnectAll :: "('c, 's, 'k) kvconfig \<Rightarrow> ('c, 's, 'k) kvconfig option" where
  "ConnectAll cfg = forEach (\<lambda>i cfg. connectUnlocked i (All cfg) cfg) [0..<kvN cfg] cfg"

definition partition_net :: "nat list \<Rightarrow> nat list \<Rightarrow> ('c, 's, 'k) kvconfig \<Rightarrow> ('c, 's, 'k) kvconfig option" where
  "partition_net p1 p2 cfg = do {
     cfg \<leftarrow> forEach (\<lambda>i cfg. do {
         cfg \<leftarrow> disconnectUnlocked i p2 cfg;
         connectUnlocked i p1 cfg }) p1 cfg;
     forEach (\<lambda>i cfg. do {
         cfg \<leftarrow> disconnectUnlocked i p1 cfg;
         connectUnlocked i p2 cfg }) p2 cfg }"

section \<open>Clerks\<close>

definition clerkEnds :: "('c, 's, 'k) kvconfig \<Rightarrow> nat \<Rightarrow> string list" where
  "clerkEnds cfg ck = (case map_of (clerks cfg) ck of Some es \<Rightarrow> es | None \<Rightarrow> [])"

definition setClient :: "bool \<Rightarrow> nat \<Rightarrow> nat list \<Rightarrow> ('c, 's, 'k) kvconfig \<Rightarrow> ('c, 's, 'k) kvconfig option" where
  "setClient b ck to cfg = forEach (\<lambda>j cfg. do {
       s \<leftarrow> slice_get (clerkEnds cfg ck) (int j);
       Some (cfg\<lparr>kvNet := Enable (endAt s) b (kvNet cfg)\<rparr>) }) to cfg"

definition ConnectClientUnlocked :: "nat \<Rightarrow> nat list \<Rightarrow> ('c, 's, 'k) kvconfig \<Rightarrow> ('c, 's, 'k) kvconfig option" where
  "ConnectClientUnlocked = setClient True"

definition DisconnectClientUnlocked :: "nat \<Rightarrow> nat list \<Rightarrow> ('c, 's, 'k) kvconfig \<Rightarrow> ('c, 's, 'k) kvconfig option" where
  "DisconnectClientUnlocked = setClient False"

text \<open>Making ends with new names, each connected to the server it is for.\<close>

definition makeEnds :: "(nat \<Rightarrow> string) \<Rightarrow> (nat \<Rightarrow> iname) \<Rightarrow> nat \<Rightarrow> Network \<Rightarrow> Network option" where
  "makeEnds rnd srv n rn = forEach (\<lambda>j rn. do {
       rn \<leftarrow> MakeEnd (endAt (rnd j)) rn;
       Some (Connect (endAt (rnd j)) (Some (srv j)) rn) }) [0..<n] rn"

text \<open>
  The clerk has its ends in a random order; the tester keeps the names in the order of the servers.
  \<open>names\<close> are the random names, \<open>mix\<close> and \<open>seed\<close> the other random numbers.
\<close>

definition makeClient :: "(nat \<Rightarrow> string) \<Rightarrow> (nat \<Rightarrow> nat) \<Rightarrow> int \<Rightarrow> nat list \<Rightarrow> ('c, 's, 'k) kvconfig \<Rightarrow>
    (('c, 's, 'k) kvconfig \<times> nat \<times> Clerk \<times> string list) option" where
  "makeClient names mix seed to cfg = do {
     rn \<leftarrow> makeEnds names (\<lambda>j. NInt (int j)) (kvN cfg) (kvNet cfg);
     let endnames = map names [0..<kvN cfg];
     let ends = random_handles mix endnames;
     let clerk = MakeClerk (len ends) seed;
     let ck = nextClientId cfg;
     let cfg = cfg\<lparr>kvNet := rn, clerks := clerks cfg @ [(ck, endnames)], nextClientId := ck + 1\<rparr>;
     cfg \<leftarrow> ConnectClientUnlocked ck to cfg;
     Some (cfg, ck, clerk, ends) }"

text \<open>The names of ends are no files: \<^verbatim>\<open>os.Remove\<close> fails and its error is dropped.\<close>

definition deleteClient :: "nat \<Rightarrow> ('c, 's, 'k) kvconfig \<Rightarrow> ('c, 's, 'k) kvconfig" where
  "deleteClient ck cfg = cfg\<lparr>clerks := filter (\<lambda>c. fst c \<noteq> ck) (clerks cfg)\<rparr>"

section \<open>Servers\<close>

text \<open>The persister of a running server and \<^verbatim>\<open>saved[i]\<close> are one object.\<close>

definition kvStored :: "('c, 's, 'k) kvconfig \<Rightarrow> nat \<Rightarrow> ('c, 's) Persister option" where
  "kvStored cfg i = (case kvservers cfg ! i of Some (kv, rf) \<Rightarrow> Some (persister rf) | None \<Rightarrow> kvSaved cfg ! i)"

definition ShutdownServer :: "nat \<Rightarrow> ('c, 's, 'k) kvconfig \<Rightarrow> ('c, 's, 'k) kvconfig option" where
  "ShutdownServer i cfg = do {
     cfg \<leftarrow> disconnectUnlocked i (All cfg) cfg;
     let cfg = cfg\<lparr>kvNet := DeleteServer (serverOf i) (kvNet cfg)\<rparr>;
     kv \<leftarrow> slice_get (kvservers cfg) (int i);
     svs \<leftarrow> slice_set (kvSaved cfg) (int i) (map_option CopyPersister (kvStored cfg i));
     kvs \<leftarrow> slice_set (kvservers cfg) (int i) None;
     Some (cfg\<lparr>kvSaved := svs, kvservers := kvs\<rparr>) }"

text \<open>
  \<open>mk\<close> makes the service part of the server (\<^verbatim>\<open>StartKVServer\<close>).  The messages that the Raft peer sends
  on the apply channel at its start are the last component.
\<close>

definition StartServer :: "(int \<Rightarrow> int \<Rightarrow> 'k) \<Rightarrow> (nat \<Rightarrow> string) \<Rightarrow> nat \<Rightarrow> nat \<Rightarrow> ('c, 's, 'k) kvconfig \<Rightarrow>
    (('c, 's, 'k) kvconfig \<times> ('c, 's) effect list) option" where
  "StartServer mk rnd a i cfg = do {
     rows \<leftarrow> slice_set (kvEndnames cfg) (int i) (Some (map rnd [0..<kvN cfg]));
     let cfg = cfg\<lparr>kvEndnames := rows\<rparr>;
     rn \<leftarrow> makeEnds rnd (\<lambda>j. NInt (int j)) (kvN cfg) (kvNet cfg);
     let cfg = cfg\<lparr>kvNet := rn\<rparr>;
     sv \<leftarrow> slice_get (kvSaved cfg) (int i);
     let p = (case (if sv \<noteq> None then kvStored cfg i else None) of
                Some p \<Rightarrow> CopyPersister p | None \<Rightarrow> MakePersister);
     svs \<leftarrow> slice_set (kvSaved cfg) (int i) (Some p);
     let cfg = cfg\<lparr>kvSaved := svs\<rparr>;
     let (rf, effs) = Make (kvN cfg) (int i) p;
     kvs \<leftarrow> slice_set (kvservers cfg) (int i) (Some (mk (int i) (kvMaxraftstate cfg), rf));
     let cfg = cfg\<lparr>kvservers := kvs, kvNet := AddServer (serverOf i) (Some a) (kvNet cfg)\<rparr>;
     Some (cfg, effs) }"

text \<open>The first server that says it is the leader; a server that was shut down is a nil pointer.\<close>

fun leaderAmong :: "('c, 's, 'k) kvconfig \<Rightarrow> nat list \<Rightarrow> (bool \<times> nat) option" where
  "leaderAmong cfg [] = Some (False, 0)"
| "leaderAmong cfg (i # is) = do {
     kv \<leftarrow> slice_get (kvservers cfg) (int i);
     (srv, rf) \<leftarrow> kv;
     if snd (GetState rf) then Some (True, i) else leaderAmong cfg is }"

definition Leader :: "('c, 's, 'k) kvconfig \<Rightarrow> (bool \<times> nat) option" where
  "Leader cfg = leaderAmong cfg [0..<kvN cfg]"

definition make_partition :: "('c, 's, 'k) kvconfig \<Rightarrow> (nat list \<times> nat list) option" where
  "make_partition cfg = do {
     (found, l) \<leftarrow> Leader cfg;
     let p1 = replicate (kvN cfg div 2 + 1) 0;
     let p2 = replicate (kvN cfg div 2) 0;
     (p1, p2, j) \<leftarrow> forEach (\<lambda>i (p1, p2, j).
         if i \<noteq> l then
           (if j < length p1 then do { p1 \<leftarrow> slice_set p1 (int j) i; Some (p1, p2, j + 1) }
            else do { p2 \<leftarrow> slice_set p2 (int j - len p1) i; Some (p1, p2, j + 1) })
         else Some (p1, p2, j)) [0..<kvN cfg] (p1, p2, 0);
     p2 \<leftarrow> slice_set p2 (len p2 - 1) l;
     Some (p1, p2) }"

definition kv_make_config :: "(int \<Rightarrow> int \<Rightarrow> 'k) \<Rightarrow> nat \<Rightarrow> bool \<Rightarrow> int \<Rightarrow> (nat \<Rightarrow> nat \<Rightarrow> string) \<Rightarrow> (nat \<Rightarrow> nat) \<Rightarrow>
    ('c, 's, 'k) kvconfig option" where
  "kv_make_config mk n unreliable maxsize rnd addr = do {
     let cfg = \<lparr>kvNet = MakeNetwork, kvN = n, kvservers = replicate n None, kvSaved = replicate n None,
                kvEndnames = replicate n None, clerks = [], nextClientId = n + 1000, kvMaxraftstate = maxsize,
                kvRpcs0 = 0, ops = 0\<rparr>;
     cfg \<leftarrow> forEach (\<lambda>i cfg. map_option fst (StartServer mk (rnd i) (addr i) i cfg)) [0..<n] cfg;
     cfg \<leftarrow> ConnectAll cfg;
     Some (cfg\<lparr>kvNet := Reliable (\<not> unreliable) (kvNet cfg)\<rparr>) }"

definition kvCleanup :: "('c, 's, 'k) kvconfig \<Rightarrow> ('c, 's, 'k) kvconfig option" where
  "kvCleanup cfg = do {
     rn \<leftarrow> Cleanup (kvNet cfg);
     Some (cfg\<lparr>kvservers := map (map_option (map_prod id Kill)) (kvservers cfg), kvNet := rn\<rparr>) }"

text \<open>The size of what a persister holds is the length of its encoding, a parameter.\<close>

definition sizeOver :: "(('c, 's) Persister \<Rightarrow> int) \<Rightarrow> ('c, 's, 'k) kvconfig \<Rightarrow> int option" where
  "sizeOver bytes cfg = forEach (\<lambda>i m. do {
       sv \<leftarrow> slice_get (kvSaved cfg) (int i);
       p \<leftarrow> (if sv = None then None else kvStored cfg i);
       Some (if bytes p > m then bytes p else m) }) [0..<kvN cfg] 0"

definition LogSize :: "('c gobval list \<Rightarrow> int) \<Rightarrow> ('c, 's, 'k) kvconfig \<Rightarrow> int option" where
  "LogSize bytes cfg = sizeOver (\<lambda>p. bytes (raftstate p)) cfg"

definition SnapshotSize :: "('s list \<Rightarrow> int) \<Rightarrow> ('c, 's, 'k) kvconfig \<Rightarrow> int option" where
  "SnapshotSize bytes cfg = sizeOver (\<lambda>p. bytes (snapshot p)) cfg"

definition kvBegin :: "('c, 's, 'k) kvconfig \<Rightarrow> ('c, 's, 'k) kvconfig" where
  "kvBegin cfg = cfg\<lparr>kvRpcs0 := GetTotalCount (kvNet cfg), ops := 0\<rparr>"

text \<open>A 32-bit counter that wraps around.\<close>

definition kvOp :: "('c, 's, 'k) kvconfig \<Rightarrow> ('c, 's, 'k) kvconfig" where
  "kvOp cfg = cfg\<lparr>ops := (ops cfg + 1 + 2 ^ 31) mod 2 ^ 32 - 2 ^ 31\<rparr>"

definition kvEnd :: "('c, 's, 'k) kvconfig \<Rightarrow> nat \<times> int \<times> int" where
  "kvEnd cfg = (kvN cfg, GetTotalCount (kvNet cfg) - kvRpcs0 cfg, ops cfg)"

section \<open>Shuffling keeps the handles\<close>

lemma swap_keeps: "i < length xs \<Longrightarrow> j < length xs \<Longrightarrow> mset (swap xs i j) = mset xs"
  unfolding swap_def by (rule mset_swap)

lemma random_handles_keeps: "mset (random_handles rnd xs) = mset xs \<and> length (random_handles rnd xs) = length xs"
proof -
  have "mset (foldl (\<lambda>sa i. swap sa i (rnd i mod (i + 1))) ys is) = mset ys \<and>
      length (foldl (\<lambda>sa i. swap sa i (rnd i mod (i + 1))) ys is) = length ys"
    if "\<forall>i \<in> set is. i < length ys" for ys :: "'a list" and "is"
    using that
  proof (induction "is" arbitrary: ys)
    case (Cons i "is")
    have "rnd i mod (i + 1) < length ys"
      by (rule less_le_trans [OF mod_less_divisor]) (use Cons.prems in auto)
    then show ?case using Cons swap_keeps [of i ys "rnd i mod (i + 1)"] by (simp add: swap_def)
  qed simp
  then show ?thesis by (simp add: random_handles_def)
qed

end
