(* ===== verification/KV_Partition.thy ===== *)
theory KV_Partition
  imports KV_Tester
begin

text \<open>
  Network partitions made by the tester of the key/value service: exactly the servers of one side can
  reach each other, and the leader is on the side of the minority, provided that the number of servers is
  odd.
\<close>

section \<open>Ends that are switched\<close>

lemma forEach_list:
  assumes "P [] s" and "\<And>pre x s. \<exists>post. xs = pre @ x # post \<Longrightarrow> P pre s \<Longrightarrow> \<exists>s'. f x s = Some s' \<and> P (pre @ [x]) s'"
  shows "\<exists>s'. forEach f xs s = Some s' \<and> P xs s'"
  using assms(2)
proof (induction xs rule: rev_induct)
  case Nil
  then show ?case using assms(1) by simp
next
  case (snoc x xs)
  have "\<exists>s'. forEach f xs s = Some s' \<and> P xs s'" by (rule snoc.IH) (use snoc.prems in fastforce)
  then obtain s1 where s1: "forEach f xs s = Some s1" "P xs s1" by blast
  obtain s2 where "f x s1 = Some s2" "P (xs @ [x]) s2" using snoc.prems [of xs x s1] s1(2) by auto
  then show ?case using s1(1) by (auto simp: forEach_append)
qed

text \<open>All servers have been started: they have names for all their ends, and no name is used twice.\<close>

definition kv_named :: "('c, 's, 'k) kvconfig \<Rightarrow> bool" where
  "kv_named cfg \<longleftrightarrow> length (kvEndnames cfg) = kvN cfg \<and>
     (\<forall>i < kvN cfg. \<exists>r. kvEndnames cfg ! i = Some r \<and> length r = kvN cfg) \<and>
     (\<forall>i < kvN cfg. \<forall>j < kvN cfg. \<forall>i' < kvN cfg. \<forall>j' < kvN cfg.
        kvEndname cfg i j = kvEndname cfg i' j' \<longrightarrow> i = i' \<and> j = j')"

definition kv_link :: "('c, 's, 'k) kvconfig \<Rightarrow> nat \<Rightarrow> nat \<Rightarrow> bool" where
  "kv_link cfg i j = (case kvEndname cfg i j of None \<Rightarrow> False | Some e \<Rightarrow> isEnabled (kvNet cfg) (endAt e))"

text \<open>A change of the network alone whose links are \<open>L\<close>.\<close>

definition kv_switched :: "('c, 's, 'k) kvconfig \<Rightarrow> (nat \<Rightarrow> nat \<Rightarrow> bool) \<Rightarrow> ('c, 's, 'k) kvconfig \<Rightarrow> bool" where
  "kv_switched cfg L cfg' \<longleftrightarrow> (\<exists>rn. cfg' = cfg\<lparr>kvNet := rn\<rparr>) \<and>
     (\<forall>i < kvN cfg. \<forall>j < kvN cfg. kv_link cfg' i j = L i j)"

lemma kv_switchedD:
  assumes "kv_switched cfg L cfg'"
  shows "kvN cfg' = kvN cfg" "kvEndnames cfg' = kvEndnames cfg" "kvEndname cfg' i j = kvEndname cfg i j"
    "kv_named cfg' = kv_named cfg" "i < kvN cfg \<Longrightarrow> j < kvN cfg \<Longrightarrow> kv_link cfg' i j = L i j"
proof -
  obtain rn where c: "cfg' = cfg\<lparr>kvNet := rn\<rparr>" using assms by (auto simp: kv_switched_def)
  show e: "kvN cfg' = kvN cfg" "kvEndnames cfg' = kvEndnames cfg" "kvEndname cfg' i j = kvEndname cfg i j" for i j
    by (simp_all add: c kvEndname_def)
  show "kv_named cfg' = kv_named cfg" by (simp add: kv_named_def e)
  show "i < kvN cfg \<Longrightarrow> j < kvN cfg \<Longrightarrow> kv_link cfg' i j = L i j" using assms by (simp add: kv_switched_def)
qed

lemma kv_switched_refl: "kv_switched cfg (kv_link cfg) cfg"
  unfolding kv_switched_def by (intro conjI exI [of _ "kvNet cfg"]) auto

lemma kv_switched_trans:
  assumes "kv_switched cfg L cfg'" and "kv_switched cfg' L' cfg''"
  shows "kv_switched cfg L' cfg''"
proof -
  have "\<exists>rn. cfg'' = cfg\<lparr>kvNet := rn\<rparr>" using assms by (auto simp: kv_switched_def)
  then show ?thesis using assms(2) kv_switchedD(1) [OF assms(1)] by (simp add: kv_switched_def)
qed

lemma kv_switched_cong:
  assumes "kv_switched cfg L cfg'" and "\<And>a b. a < kvN cfg \<Longrightarrow> b < kvN cfg \<Longrightarrow> L a b = L' a b"
  shows "kv_switched cfg L' cfg'"
  using assms by (simp add: kv_switched_def)

lemma kvEndname_some:
  assumes "kv_named cfg" "i < kvN cfg" "j < kvN cfg"
  obtains e where "kvEndname cfg i j = Some e"
proof -
  obtain r where "kvEndnames cfg ! i = Some r" "length r = kvN cfg" "length (kvEndnames cfg) = kvN cfg"
    using assms by (auto simp: kv_named_def)
  then show thesis using assms(2,3) that by (simp add: kvEndname_def slice_get_def len_def)
qed

lemma kvEnable_effect:
  assumes nm: "kv_named cfg" and ij: "i < kvN cfg" "j < kvN cfg"
  shows "\<exists>cfg'. kvEnable i j v cfg = Some cfg' \<and>
    kv_switched cfg (\<lambda>a b. if a = i \<and> b = j then v else kv_link cfg a b) cfg'"
proof -
  obtain e where e: "kvEndname cfg i j = Some e" by (rule kvEndname_some [OF assms])
  let ?cfg = "cfg\<lparr>kvNet := Enable (endAt e) v (kvNet cfg)\<rparr>"
  have "kv_link ?cfg a b = (if a = i \<and> b = j then v else kv_link cfg a b)" if ab: "a < kvN cfg" "b < kvN cfg" for a b
  proof -
    obtain e' where e': "kvEndname cfg a b = Some e'" by (rule kvEndname_some [OF nm ab])
    have "e' = e \<longleftrightarrow> a = i \<and> b = j"
    proof
      assume "e' = e"
      then have "kvEndname cfg a b = kvEndname cfg i j" using e e' by simp
      then show "a = i \<and> b = j" using nm ab ij by (simp add: kv_named_def)
    qed (use e e' in simp)
    then show ?thesis using e' by (auto simp: kv_link_def kvEndname_def isEnabled_def Enable_def)
  qed
  then have "kv_switched cfg (\<lambda>a b. if a = i \<and> b = j then v else kv_link cfg a b) ?cfg"
    by (auto simp: kv_switched_def)
  then show ?thesis using e by (auto simp: kvEnable_def)
qed

text \<open>A loop that switches ends.\<close>

lemma kv_switch_loop:
  assumes nm: "kv_named cfg" and pq: "\<And>k. k < n \<Longrightarrow> p k < kvN cfg \<and> q k < kvN cfg"
    and f: "\<And>k cfg'. k < n \<Longrightarrow> kvN cfg' = kvN cfg \<Longrightarrow> kvEndnames cfg' = kvEndnames cfg \<Longrightarrow> f k cfg' = kvEnable (p k) (q k) v cfg'"
  shows "\<exists>cfg'. forEach f [0..<n] cfg = Some cfg' \<and>
    kv_switched cfg (\<lambda>a b. if \<exists>k < n. p k = a \<and> q k = b then v else kv_link cfg a b) cfg'"
proof (rule forEach_upt)
  show "kv_switched cfg (\<lambda>a b. if \<exists>k < 0. p k = a \<and> q k = b then v else kv_link cfg a b) cfg"
    using kv_switched_refl by simp
next
  fix k cfg1
  assume k: "k < n" and s: "kv_switched cfg (\<lambda>a b. if \<exists>k' < k. p k' = a \<and> q k' = b then v else kv_link cfg a b) cfg1"
  note d = kv_switchedD [OF s]
  obtain cfg2 where c: "kvEnable (p k) (q k) v cfg1 = Some cfg2"
      "kv_switched cfg1 (\<lambda>a b. if a = p k \<and> b = q k then v else kv_link cfg1 a b) cfg2"
    using kvEnable_effect [of cfg1 "p k" "q k" v] nm d(1,4) pq [OF k] by auto
  have "kv_switched cfg (\<lambda>a b. if \<exists>k' < Suc k. p k' = a \<and> q k' = b then v else kv_link cfg a b) cfg2"
    by (rule kv_switched_cong [OF kv_switched_trans [OF s c(2)]]) (use d(5) in \<open>auto simp: less_Suc_eq\<close>)
  then show "\<exists>cfg2. f k cfg1 = Some cfg2 \<and>
      kv_switched cfg (\<lambda>a b. if \<exists>k' < Suc k. p k' = a \<and> q k' = b then v else kv_link cfg a b) cfg2"
    using c(1) f [OF k d(1,2)] by simp
qed

lemma connectUnlocked_effect:
  assumes nm: "kv_named cfg" and i: "i < kvN cfg" and to: "\<forall>j \<in> set to. j < kvN cfg"
  shows "\<exists>cfg'. connectUnlocked i to cfg = Some cfg' \<and>
    kv_switched cfg (\<lambda>a b. a = i \<and> b \<in> set to \<or> b = i \<and> a \<in> set to \<or> kv_link cfg a b) cfg'"
proof -
  have t: "to ! k < kvN cfg" if "k < length to" for k using to that by simp
  obtain cfg1 where l1: "forEach (\<lambda>j cfg. kvEnable i (to ! j) True cfg) [0..<length to] cfg = Some cfg1"
      "kv_switched cfg (\<lambda>a b. if \<exists>k < length to. i = a \<and> to ! k = b then True else kv_link cfg a b) cfg1"
    using kv_switch_loop [OF nm, of "length to" "\<lambda>_. i" "\<lambda>k. to ! k" "\<lambda>j cfg. kvEnable i (to ! j) True cfg" True] i t by auto
  note d = kv_switchedD [OF l1(2)]
  obtain cfg2 where l2: "forEach (\<lambda>j cfg. kvEnable (to ! j) i True cfg) [0..<length to] cfg1 = Some cfg2"
      "kv_switched cfg1 (\<lambda>a b. if \<exists>k < length to. to ! k = a \<and> i = b then True else kv_link cfg1 a b) cfg2"
    using kv_switch_loop [of cfg1 "length to" "\<lambda>k. to ! k" "\<lambda>_. i" "\<lambda>j cfg. kvEnable (to ! j) i True cfg" True] nm i t d(1,4) by auto
  have "kv_switched cfg (\<lambda>a b. a = i \<and> b \<in> set to \<or> b = i \<and> a \<in> set to \<or> kv_link cfg a b) cfg2"
    by (rule kv_switched_cong [OF kv_switched_trans [OF l1(2) l2(2)]]) (use d(5) in \<open>auto simp: in_set_conv_nth\<close>)
  then show ?thesis using l1(1) l2(1) by (auto simp: connectUnlocked_def)
qed

lemma disconnectUnlocked_effect:
  fixes cfg :: "('a, 'b, 'c) kvconfig"
  assumes nm: "kv_named cfg" and i: "i < kvN cfg" and fr: "\<forall>j \<in> set from. j < kvN cfg" "length from \<le> kvN cfg"
  shows "\<exists>cfg'. disconnectUnlocked i from cfg = Some cfg' \<and>
    kv_switched cfg (\<lambda>a b. \<not> (a = i \<and> b \<in> set from) \<and> \<not> (b = i \<and> a \<in> set from) \<and> kv_link cfg a b) cfg'"
proof -
  have t: "from ! k < kvN cfg" if "k < length from" for k using fr(1) that by simp
  have r: "\<exists>x. slice_get (kvEndnames cfg) (int k) = Some (Some x)" if "k < kvN cfg" for k
    using nm that by (auto simp: kv_named_def slice_get_def len_def)
  define f where "f j cfg = do {
      row \<leftarrow> slice_get (kvEndnames cfg) (int i);
      if row \<noteq> None then kvEnable i (from ! j) False cfg else Some cfg }" for j and cfg :: "('a, 'b, 'c) kvconfig"
  define g where "g j cfg = do {
      row \<leftarrow> slice_get (kvEndnames cfg) (int j);
      if row \<noteq> None then kvEnable (from ! j) i False cfg else Some cfg }" for j and cfg :: "('a, 'b, 'c) kvconfig"
  have f: "f k cfg' = kvEnable i (from ! k) False cfg'" if "kvEndnames cfg' = kvEndnames cfg" for k cfg'
    using r [OF i] that by (auto simp: f_def)
  have g: "g k cfg' = kvEnable (from ! k) i False cfg'" if "k < length from" "kvEndnames cfg' = kvEndnames cfg" for k cfg'
    using r [of k] that fr(2) by (auto simp: g_def)
  have "\<exists>cfg1. forEach f [0..<length from] cfg = Some cfg1 \<and>
      kv_switched cfg (\<lambda>a b. if \<exists>k < length from. i = a \<and> from ! k = b then False else kv_link cfg a b) cfg1"
    by (rule kv_switch_loop [OF nm _ f]) (use i t in auto)
  then obtain cfg1 where l1: "forEach f [0..<length from] cfg = Some cfg1"
      "kv_switched cfg (\<lambda>a b. if \<exists>k < length from. i = a \<and> from ! k = b then False else kv_link cfg a b) cfg1" by blast
  note d = kv_switchedD [OF l1(2)]
  have "\<exists>cfg2. forEach g [0..<length from] cfg1 = Some cfg2 \<and>
      kv_switched cfg1 (\<lambda>a b. if \<exists>k < length from. from ! k = a \<and> i = b then False else kv_link cfg1 a b) cfg2"
    by (rule kv_switch_loop [OF _ _ g]) (use nm i t d(1,2,4) in auto)
  then obtain cfg2 where l2: "forEach g [0..<length from] cfg1 = Some cfg2"
      "kv_switched cfg1 (\<lambda>a b. if \<exists>k < length from. from ! k = a \<and> i = b then False else kv_link cfg1 a b) cfg2" by blast
  have "kv_switched cfg (\<lambda>a b. \<not> (a = i \<and> b \<in> set from) \<and> \<not> (b = i \<and> a \<in> set from) \<and> kv_link cfg a b) cfg2"
    by (rule kv_switched_cong [OF kv_switched_trans [OF l1(2) l2(2)]]) (use d(5) in \<open>auto simp: in_set_conv_nth\<close>)
  then show ?thesis using l1(1) l2(1) unfolding disconnectUnlocked_def f_def g_def by auto
qed

section \<open>Partitions\<close>

definition sideLoop :: "nat list \<Rightarrow> nat list \<Rightarrow> ('c, 's, 'k) kvconfig \<Rightarrow> ('c, 's, 'k) kvconfig option" where
  "sideLoop p q cfg = forEach (\<lambda>i cfg. do { cfg \<leftarrow> disconnectUnlocked i q cfg; connectUnlocked i p cfg }) p cfg"

lemma partition_net_sides: "partition_net p1 p2 cfg = do { cfg \<leftarrow> sideLoop p1 p2 cfg; sideLoop p2 p1 cfg }"
  by (simp add: partition_net_def sideLoop_def)

lemma sideLoop_effect:
  assumes nm: "kv_named cfg" and p: "\<forall>j \<in> set p. j < kvN cfg" and q: "\<forall>j \<in> set q. j < kvN cfg" "length q \<le> kvN cfg"
    and d: "set p \<inter> set q = {}"
  shows "\<exists>cfg'. sideLoop p q cfg = Some cfg' \<and> kv_switched cfg (\<lambda>a b.
    if a \<in> set p \<and> b \<in> set q \<or> a \<in> set q \<and> b \<in> set p then False
    else a \<in> set p \<and> b \<in> set p \<or> kv_link cfg a b) cfg'"
proof -
  let ?L = "\<lambda>pre a b. if a \<in> set pre \<and> b \<in> set q \<or> b \<in> set pre \<and> a \<in> set q then False
    else a \<in> set pre \<and> b \<in> set p \<or> b \<in> set pre \<and> a \<in> set p \<or> kv_link cfg a b"
  have "\<exists>cfg'. sideLoop p q cfg = Some cfg' \<and> kv_switched cfg (?L p) cfg'"
    unfolding sideLoop_def
  proof (rule forEach_list [where P = "\<lambda>pre. kv_switched cfg (?L pre)"])
    show "kv_switched cfg (?L []) cfg" using kv_switched_refl by simp
  next
    fix pre x cfg1
    assume "\<exists>post. p = pre @ x # post" and s: "kv_switched cfg (?L pre) cfg1"
    then have x: "x \<in> set p" "set pre \<subseteq> set p" by auto
    note e = kv_switchedD [OF s]
    obtain cfg2 where c2: "disconnectUnlocked x q cfg1 = Some cfg2"
        "kv_switched cfg1 (\<lambda>a b. \<not> (a = x \<and> b \<in> set q) \<and> \<not> (b = x \<and> a \<in> set q) \<and> kv_link cfg1 a b) cfg2"
      using disconnectUnlocked_effect [of cfg1 x q] nm p q x(1) e(1,4) by auto
    note e2 = kv_switchedD [OF c2(2)]
    obtain cfg3 where c3: "connectUnlocked x p cfg2 = Some cfg3"
        "kv_switched cfg2 (\<lambda>a b. a = x \<and> b \<in> set p \<or> b = x \<and> a \<in> set p \<or> kv_link cfg2 a b) cfg3"
      using connectUnlocked_effect [of cfg2 x p] nm p x(1) e(1,4) e2(1,4) by auto
    have "kv_switched cfg (?L (pre @ [x])) cfg3"
      by (rule kv_switched_cong [OF kv_switched_trans [OF kv_switched_trans [OF s c2(2)] c3(2)]])
        (use e(1,5) e2(5) d x in auto)
    then show "\<exists>cfg'. do { cfg \<leftarrow> disconnectUnlocked x q cfg1; connectUnlocked x p cfg } = Some cfg' \<and>
        kv_switched cfg (?L (pre @ [x])) cfg'"
      using c2(1) c3(1) by auto
  qed
  then obtain cfg' where c: "sideLoop p q cfg = Some cfg'" "kv_switched cfg (?L p) cfg'" by blast
  have "kv_switched cfg (\<lambda>a b. if a \<in> set p \<and> b \<in> set q \<or> a \<in> set q \<and> b \<in> set p then False
      else a \<in> set p \<and> b \<in> set p \<or> kv_link cfg a b) cfg'"
    by (rule kv_switched_cong [OF c(2)]) auto
  then show ?thesis using c(1) by blast
qed

text \<open>Two disjoint sides that cover all servers.\<close>

definition sides :: "nat \<Rightarrow> nat list \<Rightarrow> nat list \<Rightarrow> bool" where
  "sides n p1 p2 \<longleftrightarrow> distinct (p1 @ p2) \<and> set (p1 @ p2) = {..<n}"

lemma sidesD:
  assumes "sides n p1 p2"
  shows "\<forall>j \<in> set p1. j < n" "\<forall>j \<in> set p2. j < n" "length p1 \<le> n" "length p2 \<le> n" "set p1 \<inter> set p2 = {}"
    "\<And>j. j < n \<Longrightarrow> j \<in> set p1 \<or> j \<in> set p2"
proof -
  have "length (p1 @ p2) = n" using assms distinct_card [of "p1 @ p2"] by (simp add: sides_def)
  then show "length p1 \<le> n" "length p2 \<le> n" by auto
qed (use assms in \<open>auto simp: sides_def\<close>)

lemma partition_effect:
  assumes nm: "kv_named cfg" and s: "sides (kvN cfg) p1 p2"
  shows "\<exists>cfg'. partition_net p1 p2 cfg = Some cfg' \<and>
    kv_switched cfg (\<lambda>a b. a \<in> set p1 \<and> b \<in> set p1 \<or> a \<in> set p2 \<and> b \<in> set p2) cfg'"
proof -
  note d = sidesD [OF s]
  obtain cfg1 where c1: "sideLoop p1 p2 cfg = Some cfg1" "kv_switched cfg (\<lambda>a b.
      if a \<in> set p1 \<and> b \<in> set p2 \<or> a \<in> set p2 \<and> b \<in> set p1 then False
      else a \<in> set p1 \<and> b \<in> set p1 \<or> kv_link cfg a b) cfg1"
    using sideLoop_effect [OF nm d(1,2,4,5)] by blast
  note e = kv_switchedD [OF c1(2)]
  have "\<exists>cfg2. sideLoop p2 p1 cfg1 = Some cfg2 \<and> kv_switched cfg1 (\<lambda>a b.
      if a \<in> set p2 \<and> b \<in> set p1 \<or> a \<in> set p1 \<and> b \<in> set p2 then False
      else a \<in> set p2 \<and> b \<in> set p2 \<or> kv_link cfg1 a b) cfg2"
    by (rule sideLoop_effect) (use nm d e(1,4) in auto)
  then obtain cfg2 where c2: "sideLoop p2 p1 cfg1 = Some cfg2" "kv_switched cfg1 (\<lambda>a b.
      if a \<in> set p2 \<and> b \<in> set p1 \<or> a \<in> set p1 \<and> b \<in> set p2 then False
      else a \<in> set p2 \<and> b \<in> set p2 \<or> kv_link cfg1 a b) cfg2"
    by blast
  have "kv_switched cfg (\<lambda>a b. a \<in> set p1 \<and> b \<in> set p1 \<or> a \<in> set p2 \<and> b \<in> set p2) cfg2"
  proof (rule kv_switched_cong [OF kv_switched_trans [OF c1(2) c2(2)]])
    fix a b assume ab: "a < kvN cfg" "b < kvN cfg"
    show "(if a \<in> set p2 \<and> b \<in> set p1 \<or> a \<in> set p1 \<and> b \<in> set p2 then False
        else a \<in> set p2 \<and> b \<in> set p2 \<or> kv_link cfg1 a b) = (a \<in> set p1 \<and> b \<in> set p1 \<or> a \<in> set p2 \<and> b \<in> set p2)"
      unfolding e(5) [OF ab] using d(6) [OF ab(1)] d(6) [OF ab(2)] d(5) by auto
  qed
  then show ?thesis using c1(1) c2(1) by (auto simp: partition_net_sides)
qed

section \<open>The leader in the minority\<close>

text \<open>Two arrays that are filled from the left, the second one after the first.\<close>

definition filling :: "nat \<Rightarrow> nat \<Rightarrow> nat list \<Rightarrow> nat list \<times> nat list \<times> nat \<Rightarrow> bool" where
  "filling m1 m2 xs = (\<lambda>(p1, p2, j). j = length xs \<and>
     p1 = take m1 xs @ replicate (m1 - length xs) 0 \<and> p2 = drop m1 xs @ replicate (m2 - (length xs - m1)) 0)"

lemma slice_set_end: "slice_set (xs @ replicate (Suc k) y) (int (length xs)) x = Some (xs @ x # replicate k y)"
  by (simp add: slice_set_def len_def list_update_append)

lemma filling_step:
  assumes "filling m1 m2 xs (p1, p2, j)" and "length xs < m1 + m2"
  shows "\<exists>st. (if j < length p1 then do { p1 \<leftarrow> slice_set p1 (int j) x; Some (p1, p2, j + 1) }
      else do { p2 \<leftarrow> slice_set p2 (int j - len p1) x; Some (p1, p2, j + 1) }) = Some st \<and> filling m1 m2 (xs @ [x]) st"
proof (cases "length xs < m1")
  case True
  then obtain k where k: "m1 - length xs = Suc k" by (metis Suc_diff_Suc)
  have "slice_set p1 (int j) x = Some (xs @ x # replicate k 0)"
    using assms(1) True k slice_set_end [of xs k 0 x] by (simp add: filling_def)
  moreover have "j < length p1" "m1 - Suc (length xs) = k" using assms(1) True k by (auto simp: filling_def)
  ultimately show ?thesis using assms(1) True by (auto simp: filling_def)
next
  case False
  then obtain k where k: "m2 - (length xs - m1) = Suc k" using assms(2) by (metis Suc_diff_Suc less_diff_conv2 not_le add.commute)
  have l: "length p1 = m1" "j = length xs" using assms(1) False by (auto simp: filling_def)
  then have "int j - len p1 = int (length (drop m1 xs))" using False by (simp add: len_def of_nat_diff)
  then have "slice_set p2 (int j - len p1) x = Some (drop m1 xs @ x # replicate k 0)"
    using assms(1) k slice_set_end [of "drop m1 xs" k 0 x] by (simp add: filling_def)
  moreover have "m2 - (Suc (length xs) - m1) = k" using k False by (simp add: Suc_diff_le)
  ultimately show ?thesis using assms(1) False l by (auto simp: filling_def)
qed

lemma others_length:
  assumes "l < n"
  shows "length (filter (\<lambda>x. x \<noteq> l) [0..<n]) = n - 1"
proof -
  have "filter (\<lambda>x. x \<noteq> l) [0..<n] = remove1 l [0..<n]"
    by (simp add: distinct_remove1_removeAll removeAll_filter_not_eq eq_commute [of l])
  then show ?thesis using assms by (simp add: length_remove1)
qed

lemma fill_loop:
  assumes "length (filter (\<lambda>x. x \<noteq> l) [0..<n]) \<le> m1 + m2"
  shows "\<exists>st. forEach (\<lambda>i (p1, p2, j).
         if i \<noteq> l then
           (if j < length p1 then do { p1 \<leftarrow> slice_set p1 (int j) i; Some (p1, p2, j + 1) }
            else do { p2 \<leftarrow> slice_set p2 (int j - len p1) i; Some (p1, p2, j + 1) })
         else Some (p1, p2, j)) [0..<n] (replicate m1 0, replicate m2 0, 0) = Some st \<and>
    filling m1 m2 (filter (\<lambda>x. x \<noteq> l) [0..<n]) st"
proof (rule forEach_upt)
  show "filling m1 m2 (filter (\<lambda>x. x \<noteq> l) [0..<0]) (replicate m1 0, replicate m2 0, 0)" by (simp add: filling_def)
next
  fix k st
  assume k: "k < n" and f: "filling m1 m2 (filter (\<lambda>x. x \<noteq> l) [0..<k]) st"
  obtain p1 p2 j where st: "st = (p1, p2, j)" by (cases st)
  have lt: "length (filter (\<lambda>x. x \<noteq> l) [0..<k]) < m1 + m2" if "k \<noteq> l"
  proof -
    have "[0..<n] = [0..<k] @ k # [Suc k..<n]" using upt_add_eq_append [of 0 k "n - k"] k by (simp add: upt_conv_Cons)
    then show ?thesis using assms that by simp
  qed
  show "\<exists>st'. (case st of (p1, p2, j) \<Rightarrow>
         if k \<noteq> l then
           (if j < length p1 then do { p1 \<leftarrow> slice_set p1 (int j) k; Some (p1, p2, j + 1) }
            else do { p2 \<leftarrow> slice_set p2 (int j - len p1) k; Some (p1, p2, j + 1) })
         else Some (p1, p2, j)) = Some st' \<and> filling m1 m2 (filter (\<lambda>x. x \<noteq> l) [0..<Suc k]) st'"
    using f filling_step [of m1 m2 "filter (\<lambda>x. x \<noteq> l) [0..<k]" p1 p2 j k] lt unfolding st by auto
qed

lemma leaderAmong_in: "leaderAmong cfg is = Some (True, l) \<Longrightarrow> l \<in> set is"
  by (induction "is") (auto simp: bind_Some_iff split: if_splits prod.splits)

lemma make_partition_odd:
  assumes l: "Leader cfg = Some (f, l)" "l < kvN cfg" and n: "kvN cfg = 2 * m + 1" "0 < m"
  shows "make_partition cfg = Some (take (m + 1) (filter (\<lambda>x. x \<noteq> l) [0..<kvN cfg]),
    drop (m + 1) (filter (\<lambda>x. x \<noteq> l) [0..<kvN cfg]) @ [l])"
proof -
  let ?o = "filter (\<lambda>x. x \<noteq> l) [0..<kvN cfg]"
  have len: "length ?o = 2 * m" using others_length [OF l(2)] n by simp
  have h: "kvN cfg div 2 = m" using n by simp
  obtain p1 p2 j where st: "forEach (\<lambda>i (p1, p2, j).
         if i \<noteq> l then
           (if j < length p1 then do { p1 \<leftarrow> slice_set p1 (int j) i; Some (p1, p2, j + 1) }
            else do { p2 \<leftarrow> slice_set p2 (int j - len p1) i; Some (p1, p2, j + 1) })
         else Some (p1, p2, j)) [0..<kvN cfg] (replicate (m + 1) 0, replicate m 0, 0) = Some (p1, p2, j)"
      "filling (m + 1) m ?o (p1, p2, j)"
    using fill_loop [of l "kvN cfg" "m + 1" m] len by auto
  have p: "p1 = take (m + 1) ?o" "p2 = drop (m + 1) ?o @ [0]" using st(2) len n(2) by (auto simp: filling_def Suc_diff_le)
  have "slice_set p2 (len p2 - 1) l = Some (drop (m + 1) ?o @ [l])"
    using slice_set_end [of "drop (m + 1) ?o" 0 0 l] by (simp add: p(2) len_def)
  then show ?thesis unfolding make_partition_def l(1) h bind.simps prod.case Let_def st(1) using p(1) by simp
qed

text \<open>
  Property C21.  With an odd number of servers, at least three, \<^verbatim>\<open>make_partition\<close> puts the current leader on
  the side of a minority, and after \<^verbatim>\<open>partition\<close> exactly the servers of one side can reach each
  other, whatever was connected before.
\<close>

theorem make_partition_isolates_leader:
  assumes "kv_named cfg" and "odd (kvN cfg)" and "3 \<le> kvN cfg" and "Leader cfg = Some (True, l)"
  shows "\<exists>p1 p2 cfg'. make_partition cfg = Some (p1, p2) \<and> partition_net p1 p2 cfg = Some cfg' \<and>
    sides (kvN cfg) p1 p2 \<and> l \<in> set p2 \<and> 2 * length p2 < kvN cfg \<and>
    (\<forall>i < kvN cfg. \<forall>j < kvN cfg. kv_link cfg' i j \<longleftrightarrow> (i \<in> set p1 \<longleftrightarrow> j \<in> set p1))"
proof -
  obtain m where m: "kvN cfg = 2 * m + 1" "0 < m" using assms(2,3) by (auto elim!: oddE)
  have l: "l < kvN cfg" using leaderAmong_in assms(4) by (fastforce simp: Leader_def)
  define xs where "xs = filter (\<lambda>x. x \<noteq> l) [0..<kvN cfg]"
  define p1 where "p1 = take (m + 1) xs"
  define p2 where "p2 = drop (m + 1) xs @ [l]"
  have mp: "make_partition cfg = Some (p1, p2)"
    unfolding p1_def p2_def xs_def by (rule make_partition_odd [OF assms(4) l m])
  have xs: "distinct xs" "set xs = {..<kvN cfg} - {l}" "length xs = 2 * m"
    using others_length [OF l] m by (auto simp: xs_def)
  have pp: "p1 @ p2 = xs @ [l]" by (simp add: p1_def p2_def)
  have s: "sides (kvN cfg) p1 p2" unfolding sides_def pp using xs(1,2) l by auto
  have minority: "2 * length p2 < kvN cfg" using xs(3) m by (simp add: p2_def)
  obtain cfg' where c: "partition_net p1 p2 cfg = Some cfg'"
      "kv_switched cfg (\<lambda>a b. a \<in> set p1 \<and> b \<in> set p1 \<or> a \<in> set p2 \<and> b \<in> set p2) cfg'"
    using partition_effect [OF assms(1) s] by blast
  have "kv_link cfg' i j \<longleftrightarrow> (i \<in> set p1 \<longleftrightarrow> j \<in> set p1)" if "i < kvN cfg" "j < kvN cfg" for i j
    using kv_switchedD(5) [OF c(2) that] sidesD(5) [OF s] sidesD(6) [OF s that(1)] sidesD(6) [OF s that(2)] by blast
  moreover have "l \<in> set p2" by (simp add: p2_def)
  ultimately show ?thesis
    using mp c(1) s minority by (intro exI [of _ p1] exI [of _ p2] exI [of _ cfg']) simp
qed

text \<open>Some servers, of which one has become the leader.\<close>

definition some_servers :: "nat \<Rightarrow> nat \<Rightarrow> (Op, snapval, KVServer) kvconfig option" where
  "some_servers n l = do {
     cfg \<leftarrow> kv_make_config StartKVServer n False (-1) (\<lambda>i j. [''abcde'' ! i, ''abcde'' ! j]) (\<lambda>i. i);
     Some (cfg\<lparr>kvservers := map (\<lambda>i. map_option (map_prod id (\<lambda>rf. if i = l then rf\<lparr>rstate := LEADER\<rparr> else rf))
       (kvservers cfg ! i)) [0..<n]\<rparr>) }"

lemma kv_named_code [code]: "kv_named cfg \<longleftrightarrow> length (kvEndnames cfg) = kvN cfg \<and>
    list_all (\<lambda>i. case kvEndnames cfg ! i of Some r \<Rightarrow> length r = kvN cfg | None \<Rightarrow> False) [0..<kvN cfg] \<and>
    distinct (map (\<lambda>(i, j). kvEndname cfg i j) (List.product [0..<kvN cfg] [0..<kvN cfg]))"
proof -
  have "(case x of Some r \<Rightarrow> length r = k | None \<Rightarrow> False) \<longleftrightarrow> (\<exists>r. x = Some r \<and> length r = k)" for x :: "string list option" and k
    by (cases x) simp_all
  moreover have "distinct (map (\<lambda>(i, j). kvEndname cfg i j) (List.product [0..<kvN cfg] [0..<kvN cfg])) \<longleftrightarrow>
      (\<forall>i < kvN cfg. \<forall>j < kvN cfg. \<forall>i' < kvN cfg. \<forall>j' < kvN cfg.
        kvEndname cfg i j = kvEndname cfg i' j' \<longrightarrow> i = i' \<and> j = j')"
    by (simp add: distinct_map distinct_product inj_on_def Ball_def) blast
  ultimately show ?thesis by (simp add: kv_named_def list_all_iff Ball_def)
qed

theorem make_partition_isolates_leader_witness:
  "\<exists>p1 p2 cfg'. make_partition (the (some_servers 3 0)) = Some (p1, p2) \<and>
     partition_net p1 p2 (the (some_servers 3 0)) = Some cfg' \<and> 0 \<in> set p2 \<and> length p2 \<le> 1"
proof -
  have "kv_named (the (some_servers 3 0))" "Leader (the (some_servers 3 0)) = Some (True, 0)" "kvN (the (some_servers 3 0)) = 3"
    by code_simp+
  then show ?thesis using make_partition_isolates_leader [of "the (some_servers 3 0)" 0] by auto
qed

text \<open>
  With an even number of servers the second side is not filled: one of its elements stays 0, so that server 0
  is on both sides.  Of four servers with server 1 as leader no side is left with a majority.
\<close>

theorem make_partition_even:
  "let cfg = the (some_servers 4 1); cfg' = the (partition_net [0, 2, 3] [0, 1] cfg) in
   make_partition cfg = Some ([0, 2, 3], [0, 1]) \<and>
   list_all (\<lambda>(i, j). \<not> kv_link cfg' i j \<and> \<not> kv_link cfg' j i) [(0, 2), (0, 3), (1, 2), (1, 3)]"
  by code_simp

end
