(* ===== verification/Shard_Clerk.thy ===== *)
theory Shard_Clerk
  imports KV_Client
begin

text \<open>
  The shard master and the sharded key/value service (\<^verbatim>\<open>shardmaster\<close>, \<^verbatim>\<open>shardkv\<close>).  The handlers of the servers
  are empty in this repository, so the content of these packages is their clerks.  As in the clerk of the
  key/value service, what a call over the network gives is a parameter that may depend on the number
  of the call, and a loop that never ends is \<^term>\<open>None\<close>.  The records of the servers leave out the lock, the channel
  of the peer, whose messages are effects, and the function that makes ends, which no code of the server calls.
\<close>

section \<open>Configurations\<close>

definition NShards :: int where
  "NShards = 10"

record Config =
  Num :: int
  Shards :: "int list"
  Groups :: "int \<rightharpoonup> string list"

text \<open>The zero value; the array of shards has \<^const>\<open>NShards\<close> elements.\<close>

definition zeroConfig :: Config where
  "zeroConfig = \<lparr>Num = 0, Shards = replicate (nat NShards) 0, Groups = Map.empty\<rparr>"

definition config_ok :: "Config \<Rightarrow> bool" where
  "config_ok cfg \<longleftrightarrow> len (Shards cfg) = NShards"

section \<open>The shard master\<close>

record MasterReply =
  mrWrongLeader :: bool
  mrErr :: string

record QueryReply = MasterReply +
  qrConfig :: Config

record JoinArgs =
  jaServers :: "int \<rightharpoonup> string list"

record LeaveArgs =
  laGIDs :: "int list"

record MoveArgs =
  maShard :: int
  maGID :: int

record QueryArgs =
  qaNum :: int

record ('c, 's) ShardMaster =
  smMe :: int
  smRf :: "('c, 's) Raft"
  configs :: "Config list"

definition StartMaster :: "nat \<Rightarrow> int \<Rightarrow> ('c, 's) Persister \<Rightarrow> ('c, 's) ShardMaster \<times> ('c, 's) effect list" where
  "StartMaster n i p = (let (rf, effs) = Make n i p
     in (\<lparr>smMe = i, smRf = rf, configs = [zeroConfig]\<rparr>, effs))"

definition KillMaster :: "('c, 's) ShardMaster \<Rightarrow> ('c, 's) ShardMaster" where
  "KillMaster sm = sm\<lparr>smRf := Kill (smRf sm)\<rparr>"

text \<open>The handlers leave the server and the reply as they are.\<close>

definition smQuery :: "('c, 's) ShardMaster \<Rightarrow> QueryArgs \<Rightarrow> QueryReply \<Rightarrow> ('c, 's) ShardMaster \<times> QueryReply" where
  "smQuery sm args reply = (sm, reply)"

definition smJoin :: "('c, 's) ShardMaster \<Rightarrow> JoinArgs \<Rightarrow> MasterReply \<Rightarrow> ('c, 's) ShardMaster \<times> MasterReply" where
  "smJoin sm args reply = (sm, reply)"

definition smLeave :: "('c, 's) ShardMaster \<Rightarrow> LeaveArgs \<Rightarrow> MasterReply \<Rightarrow> ('c, 's) ShardMaster \<times> MasterReply" where
  "smLeave sm args reply = (sm, reply)"

definition smMove :: "('c, 's) ShardMaster \<Rightarrow> MoveArgs \<Rightarrow> MasterReply \<Rightarrow> ('c, 's) ShardMaster \<times> MasterReply" where
  "smMove sm args reply = (sm, reply)"

text \<open>A clerk knows the ends of the servers, of a type \<open>'e\<close>.\<close>

record 'e MasterClerk =
  mckServers :: "'e list"

definition MakeMasterClerk :: "'e list \<Rightarrow> 'e MasterClerk" where
  "MakeMasterClerk servers = \<lparr>mckServers = servers\<rparr>"

text \<open>
  The loop of the clerk, which its four methods share: every server is tried in turn, for ever.
  \<open>att t srv\<close> is what call number \<open>t\<close>, to \<open>srv\<close>, gives the method to return.
\<close>

partial_function (option) masterLoop :: "(nat \<Rightarrow> 'e \<Rightarrow> 'r option) \<Rightarrow> 'e list \<Rightarrow> 'e list \<Rightarrow> nat \<Rightarrow> ('r \<times> nat) option" where
  [code]: "masterLoop att servers rest t =
     (case rest of
        [] \<Rightarrow> masterLoop att servers servers t
      | srv # rest' \<Rightarrow>
          (case att t srv of
             Some r \<Rightarrow> Some (r, Suc t)
           | None \<Rightarrow> masterLoop att servers rest' (Suc t)))"

definition Query :: "(nat \<Rightarrow> 'e \<Rightarrow> QueryArgs \<Rightarrow> QueryReply call) \<Rightarrow> 'e MasterClerk \<Rightarrow> int \<Rightarrow> nat \<Rightarrow> (Config \<times> nat) option" where
  "Query net ck num t =
     (let args = \<lparr>qaNum = num\<rparr>
      in masterLoop (\<lambda>t srv. case net t srv args of (ok, reply) \<Rightarrow>
           if ok \<and> mrWrongLeader reply = False then Some (qrConfig reply) else None)
           (mckServers ck) (mckServers ck) t)"

definition Join :: "(nat \<Rightarrow> 'e \<Rightarrow> JoinArgs \<Rightarrow> MasterReply call) \<Rightarrow> 'e MasterClerk \<Rightarrow> (int \<rightharpoonup> string list) \<Rightarrow> nat \<Rightarrow>
    (unit \<times> nat) option" where
  "Join net ck servers t =
     (let args = \<lparr>jaServers = servers\<rparr>
      in masterLoop (\<lambda>t srv. case net t srv args of (ok, reply) \<Rightarrow>
           if ok \<and> mrWrongLeader reply = False then Some () else None)
           (mckServers ck) (mckServers ck) t)"

definition Leave :: "(nat \<Rightarrow> 'e \<Rightarrow> LeaveArgs \<Rightarrow> MasterReply call) \<Rightarrow> 'e MasterClerk \<Rightarrow> int list \<Rightarrow> nat \<Rightarrow>
    (unit \<times> nat) option" where
  "Leave net ck gids t =
     (let args = \<lparr>laGIDs = gids\<rparr>
      in masterLoop (\<lambda>t srv. case net t srv args of (ok, reply) \<Rightarrow>
           if ok \<and> mrWrongLeader reply = False then Some () else None)
           (mckServers ck) (mckServers ck) t)"

definition Move :: "(nat \<Rightarrow> 'e \<Rightarrow> MoveArgs \<Rightarrow> MasterReply call) \<Rightarrow> 'e MasterClerk \<Rightarrow> int \<Rightarrow> int \<Rightarrow> nat \<Rightarrow>
    (unit \<times> nat) option" where
  "Move net ck shard gid t =
     (let args = \<lparr>maShard = shard, maGID = gid\<rparr>
      in masterLoop (\<lambda>t srv. case net t srv args of (ok, reply) \<Rightarrow>
           if ok \<and> mrWrongLeader reply = False then Some () else None)
           (mckServers ck) (mckServers ck) t)"

section \<open>The sharded key/value service\<close>

definition ErrWrongGroup :: string where
  "ErrWrongGroup = ''ErrWrongGroup''"

record SPutAppendArgs =
  spKey :: string
  spValue :: string
  spOp :: string

record SGetArgs =
  sgKey :: string

record ('c, 's) ShardKV =
  skMe :: int
  skRf :: "('c, 's) Raft"
  skGid :: int
  skMasters :: "string list"
  skMaxraftstate :: int

definition StartShardKV :: "nat \<Rightarrow> int \<Rightarrow> ('c, 's) Persister \<Rightarrow> int \<Rightarrow> int \<Rightarrow> string list \<Rightarrow>
    ('c, 's) ShardKV \<times> ('c, 's) effect list" where
  "StartShardKV n i p maxsize gid masters = (let (rf, effs) = Make n i p
     in (\<lparr>skMe = i, skRf = rf, skGid = gid, skMasters = masters, skMaxraftstate = maxsize\<rparr>, effs))"

definition KillShardKV :: "('c, 's) ShardKV \<Rightarrow> ('c, 's) ShardKV" where
  "KillShardKV kv = kv\<lparr>skRf := Kill (skRf kv)\<rparr>"

definition skGet :: "('c, 's) ShardKV \<Rightarrow> SGetArgs \<Rightarrow> GetReply \<Rightarrow> ('c, 's) ShardKV \<times> GetReply" where
  "skGet kv args reply = (kv, reply)"

definition skPutAppend :: "('c, 's) ShardKV \<Rightarrow> SPutAppendArgs \<Rightarrow> PutAppendReply \<Rightarrow> ('c, 's) ShardKV \<times> PutAppendReply" where
  "skPutAppend kv args reply = (kv, reply)"

text \<open>The shard of a key: its first byte modulo the number of shards.\<close>

definition key2shard :: "string \<Rightarrow> int" where
  "key2shard key = (if key \<noteq> [] then of_char (hd key) else 0) mod NShards"

text \<open>A clerk has the clerk of the master, the latest configuration it knows and makes ends from names.\<close>

record 'e ShardClerk =
  sckSm :: "'e MasterClerk"
  sckConfig :: Config
  sckMakeEnd :: "string \<Rightarrow> 'e"

definition MakeShardClerk :: "'e list \<Rightarrow> (string \<Rightarrow> 'e) \<Rightarrow> 'e ShardClerk" where
  "MakeShardClerk masters make_end =
     \<lparr>sckSm = MakeMasterClerk masters, sckConfig = zeroConfig, sckMakeEnd = make_end\<rparr>"

text \<open>
  The inner loops over the servers of a group: one returns, or it is left for a later configuration.
  \<open>t\<close> counts the calls.
\<close>

fun getFrom :: "(nat \<Rightarrow> 'e \<Rightarrow> SGetArgs \<Rightarrow> GetReply call) \<Rightarrow> (string \<Rightarrow> 'e) \<Rightarrow> SGetArgs \<Rightarrow> nat \<Rightarrow> string list \<Rightarrow>
    string option \<times> nat" where
  "getFrom net make_end args t [] = (None, t)"
| "getFrom net make_end args t (srv # servers) =
     (case net t (make_end srv) args of (ok, reply) \<Rightarrow>
        if ok \<and> grWrongLeader reply = False \<and> (grErr reply = OK \<or> grErr reply = ErrNoKey)
        then (Some (grValue reply), Suc t)
        else if ok \<and> grErr reply = ErrWrongGroup then (None, Suc t)
        else getFrom net make_end args (Suc t) servers)"

fun putAppendAt :: "(nat \<Rightarrow> 'e \<Rightarrow> SPutAppendArgs \<Rightarrow> PutAppendReply call) \<Rightarrow> (string \<Rightarrow> 'e) \<Rightarrow> SPutAppendArgs \<Rightarrow> nat \<Rightarrow>
    string list \<Rightarrow> unit option \<times> nat" where
  "putAppendAt net make_end args t [] = (None, t)"
| "putAppendAt net make_end args t (srv # servers) =
     (case net t (make_end srv) args of (ok, reply) \<Rightarrow>
        if ok \<and> parWrongLeader reply = False \<and> parErr reply = OK then (Some (), Suc t)
        else if ok \<and> parErr reply = ErrWrongGroup then (None, Suc t)
        else putAppendAt net make_end args (Suc t) servers)"

text \<open>
  The outer loop, which the two methods share: \<open>grp\<close> is the inner loop, \<open>master\<close> what the calls to the
  shard master give.  A result \<open>Inl\<close> is the panic of an index out of range.
\<close>

partial_function (option) shardLoop :: "(nat \<Rightarrow> string list \<Rightarrow> 'r option \<times> nat) \<Rightarrow>
    (nat \<Rightarrow> 'e \<Rightarrow> QueryArgs \<Rightarrow> QueryReply call) \<Rightarrow> string \<Rightarrow> 'e ShardClerk \<Rightarrow> nat \<Rightarrow>
    (unit + 'r \<times> 'e ShardClerk \<times> nat) option" where
  [code]: "shardLoop grp master key ck t =
     (let shard = key2shard key in
      case slice_get (Shards (sckConfig ck)) shard of
        None \<Rightarrow> Some (Inl ())
      | Some gid \<Rightarrow>
          (case (case Groups (sckConfig ck) gid of Some servers \<Rightarrow> grp t servers | None \<Rightarrow> (None, t)) of
             (Some r, t') \<Rightarrow> Some (Inr (r, ck, t'))
           | (None, t') \<Rightarrow>
               Option.bind (Query master (sckSm ck) (-1) t') (\<lambda>x.
                 shardLoop grp master key (ck\<lparr>sckConfig := fst x\<rparr>) (snd x))))"

definition shardGet :: "(nat \<Rightarrow> 'e \<Rightarrow> SGetArgs \<Rightarrow> GetReply call) \<Rightarrow> (nat \<Rightarrow> 'e \<Rightarrow> QueryArgs \<Rightarrow> QueryReply call) \<Rightarrow>
    'e ShardClerk \<Rightarrow> string \<Rightarrow> nat \<Rightarrow> (unit + string \<times> 'e ShardClerk \<times> nat) option" where
  "shardGet net master ck key t = shardLoop (getFrom net (sckMakeEnd ck) \<lparr>sgKey = key\<rparr>) master key ck t"

definition shardPutAppend :: "(nat \<Rightarrow> 'e \<Rightarrow> SPutAppendArgs \<Rightarrow> PutAppendReply call) \<Rightarrow>
    (nat \<Rightarrow> 'e \<Rightarrow> QueryArgs \<Rightarrow> QueryReply call) \<Rightarrow> 'e ShardClerk \<Rightarrow> string \<Rightarrow> string \<Rightarrow> string \<Rightarrow> nat \<Rightarrow>
    (unit + unit \<times> 'e ShardClerk \<times> nat) option" where
  "shardPutAppend net master ck key val op t =
     shardLoop (putAppendAt net (sckMakeEnd ck) \<lparr>spKey = key, spValue = val, spOp = op\<rparr>) master key ck t"

definition shardPut :: "(nat \<Rightarrow> 'e \<Rightarrow> SPutAppendArgs \<Rightarrow> PutAppendReply call) \<Rightarrow>
    (nat \<Rightarrow> 'e \<Rightarrow> QueryArgs \<Rightarrow> QueryReply call) \<Rightarrow> 'e ShardClerk \<Rightarrow> string \<Rightarrow> string \<Rightarrow> nat \<Rightarrow>
    (unit + unit \<times> 'e ShardClerk \<times> nat) option" where
  "shardPut net master ck key val t = shardPutAppend net master ck key val ''Put'' t"

definition shardAppend :: "(nat \<Rightarrow> 'e \<Rightarrow> SPutAppendArgs \<Rightarrow> PutAppendReply call) \<Rightarrow>
    (nat \<Rightarrow> 'e \<Rightarrow> QueryArgs \<Rightarrow> QueryReply call) \<Rightarrow> 'e ShardClerk \<Rightarrow> string \<Rightarrow> string \<Rightarrow> nat \<Rightarrow>
    (unit + unit \<times> 'e ShardClerk \<times> nat) option" where
  "shardAppend net master ck key val t = shardPutAppend net master ck key val ''Append'' t"

section \<open>The clerk of the shard master\<close>

lemma masterLoop_sound:
  assumes "masterLoop att servers rest t = Some y" and "set rest \<subseteq> set servers"
  shows "\<exists>k srv. t \<le> k \<and> snd y = Suc k \<and> srv \<in> set servers \<and> att k srv = Some (fst y)"
proof -
  let ?P = "\<lambda>att servers rest t y. set rest \<subseteq> set servers \<longrightarrow>
    (\<exists>k srv. t \<le> k \<and> snd y = Suc k \<and> srv \<in> set servers \<and> att k srv = Some (fst y))"
  have "?P att servers rest t y"
    using assms(1)
  proof (rule masterLoop.raw_induct [where P = ?P, rotated])
    fix loop att servers rest t y
    assume ih: "\<And>att servers rest t y. loop att servers rest t = Some y \<Longrightarrow> ?P att servers rest t y"
      and y: "(case rest of [] \<Rightarrow> loop att servers servers t
        | srv # rest' \<Rightarrow> (case att t srv of Some r \<Rightarrow> Some (r, Suc t) | None \<Rightarrow> loop att servers rest' (Suc t))) = Some y"
    show "?P att servers rest t y"
    proof (cases rest)
      case Nil
      with y have "loop att servers servers t = Some y" by simp
      from ih [OF this] show ?thesis by simp
    next
      case (Cons srv rest')
      show ?thesis
      proof (cases "att t srv")
        case None
        with y Cons have "loop att servers rest' (Suc t) = Some y" by simp
        from ih [OF this] show ?thesis using Cons Suc_leD by fastforce
      next
        case (Some r)
        with y Cons have "y = (r, Suc t)" by simp
        with Some Cons show ?thesis by auto
      qed
    qed
  qed
  with assms(2) show ?thesis by blast
qed

text \<open>One server that always answers is enough for a method to return.\<close>

lemma masterLoop_reaches:
  assumes L: "\<And>t. att t L \<noteq> None" and "L \<in> set rest"
  shows "masterLoop att servers rest t \<noteq> None"
  using assms(2)
proof (induction rest arbitrary: t)
  case (Cons srv rest)
  then show ?case
    using L [of t] masterLoop.simps [of att servers "srv # rest" t] by (cases "att t srv") auto
qed simp

text \<open>Without servers, or when no call is ever answered, a method does not return.\<close>

lemma masterLoop_never:
  assumes "\<And>t srv. srv \<in> set servers \<Longrightarrow> att t srv = None"
  shows "masterLoop att servers servers t = None"
proof (rule ccontr)
  assume "masterLoop att servers servers t \<noteq> None"
  then obtain y where "masterLoop att servers servers t = Some y" by auto
  from masterLoop_sound [OF this] assms show False by fastforce
qed

lemma Query_sound:
  assumes "Query net ck num t = Some (cfg, t')"
  shows "\<exists>k srv reply. t \<le> k \<and> t' = Suc k \<and> srv \<in> set (mckServers ck) \<and> net k srv \<lparr>qaNum = num\<rparr> = (True, reply) \<and>
    \<not> mrWrongLeader reply \<and> cfg = qrConfig reply"
proof -
  obtain k srv where k: "t \<le> k" "t' = Suc k" "srv \<in> set (mckServers ck)"
    and a: "(case net k srv \<lparr>qaNum = num\<rparr> of (ok, reply) \<Rightarrow>
      if ok \<and> mrWrongLeader reply = False then Some (qrConfig reply) else None) = Some cfg"
    using masterLoop_sound [OF assms [unfolded Query_def Let_def]] by auto
  then show ?thesis by (cases "net k srv \<lparr>qaNum = num\<rparr>") (auto split: if_splits)
qed

lemma Query_returns:
  assumes "srv \<in> set (mckServers ck)"
    and "\<And>t. \<exists>reply. net t srv \<lparr>qaNum = num\<rparr> = (True, reply) \<and> \<not> mrWrongLeader reply"
  shows "Query net ck num t \<noteq> None"
  unfolding Query_def Let_def
proof (rule masterLoop_reaches [OF _ assms(1)])
  show "(case net t srv \<lparr>qaNum = num\<rparr> of (ok, reply) \<Rightarrow>
      if ok \<and> mrWrongLeader reply = False then Some (qrConfig reply) else None) \<noteq> None" for t
    using assms(2) [of t] by auto
qed

section \<open>The clerk of the sharded service\<close>

lemma key2shard_range: "0 \<le> key2shard key \<and> key2shard key < NShards"
  by (simp add: key2shard_def NShards_def)

lemma getFrom_answer:
  "getFrom net make_end args t servers = (Some v, t') \<Longrightarrow>
     \<exists>k srv reply. srv \<in> set servers \<and> net k (make_end srv) args = (True, reply) \<and>
       \<not> grWrongLeader reply \<and> (grErr reply = OK \<or> grErr reply = ErrNoKey) \<and> grValue reply = v"
proof (induction servers arbitrary: t)
  case (Cons srv servers)
  obtain ok reply where n: "net t (make_end srv) args = (ok, reply)" by fastforce
  show ?case
  proof (cases "ok \<and> grWrongLeader reply = False \<and> (grErr reply = OK \<or> grErr reply = ErrNoKey)")
    case True
    then have "v = grValue reply" using Cons.prems n by auto
    then show ?thesis using True n by (intro exI [of _ t] exI [of _ srv] exI [of _ reply]) auto
  next
    case False
    then have "getFrom net make_end args (Suc t) servers = (Some v, t')" using Cons.prems n by (auto split: if_splits)
    from Cons.IH [OF this] show ?thesis by auto
  qed
qed simp

lemma putAppendAt_answer:
  "putAppendAt net make_end args t servers = (Some u, t') \<Longrightarrow>
     \<exists>k srv reply. srv \<in> set servers \<and> net k (make_end srv) args = (True, reply) \<and>
       \<not> parWrongLeader reply \<and> parErr reply = OK"
proof (induction servers arbitrary: t)
  case (Cons srv servers)
  obtain ok reply where n: "net t (make_end srv) args = (ok, reply)" by fastforce
  show ?case
  proof (cases "ok \<and> parWrongLeader reply = False \<and> parErr reply = OK")
    case True
    then show ?thesis using n by (intro exI [of _ t] exI [of _ srv] exI [of _ reply]) auto
  next
    case False
    then have "putAppendAt net make_end args (Suc t) servers = (Some u, t')" using Cons.prems n by (auto split: if_splits)
    from Cons.IH [OF this] show ?thesis by auto
  qed
qed simp

text \<open>
  What a method returns comes from the group that has the key's shard in the configuration the clerk ends
  with, and no index is out of range as long as configurations have \<^const>\<open>NShards\<close> shards.
\<close>

definition owners :: "Config \<Rightarrow> string \<Rightarrow> string list option" where
  "owners cfg key = Groups cfg (Shards cfg ! nat (key2shard key))"

definition sends :: "(Config \<Rightarrow> bool) \<Rightarrow> (nat \<Rightarrow> 'e \<Rightarrow> QueryArgs \<Rightarrow> QueryReply call) \<Rightarrow> bool" where
  "sends I master \<longleftrightarrow> (\<forall>t srv args. I (qrConfig (snd (master t srv args))))"

lemma shard_of_config: "config_ok cfg \<Longrightarrow> slice_get (Shards cfg) (key2shard key) = Some (Shards cfg ! nat (key2shard key))"
  using key2shard_range [of key] by (simp add: slice_get_Some_iff config_ok_def)

lemma Query_sends:
  "\<lbrakk>sends I master; Query master ck num t = Some (cfg, t')\<rbrakk> \<Longrightarrow> I cfg"
  using Query_sound [of master ck num t cfg t'] unfolding sends_def by (metis snd_conv)

lemma shardLoop_sound:
  assumes "shardLoop grp master key ck t = Some y" and "sends I master" and "I (sckConfig ck)"
    and I: "\<And>cfg. I cfg \<Longrightarrow> config_ok cfg"
  shows "\<exists>r ck' t' k servers. y = Inr (r, ck', t') \<and> I (sckConfig ck') \<and>
    owners (sckConfig ck') key = Some servers \<and> grp k servers = (Some r, t')"
proof -
  let ?Q = "\<lambda>grp key y. \<exists>r ck' t' k servers. y = Inr (r, ck', t') \<and> I (sckConfig ck') \<and>
    owners (sckConfig ck') key = Some servers \<and> grp k servers = (Some r, t')"
  let ?P = "\<lambda>grp master key ck t y. sends I master \<longrightarrow> I (sckConfig ck) \<longrightarrow> ?Q grp key y"
  have "?P grp master key ck t y"
    using assms(1)
  proof (rule shardLoop.raw_induct [where P = ?P, rotated])
    fix loop grp master key ck t y
    assume ih: "\<And>grp master key ck t y. loop grp master key ck t = Some y \<Longrightarrow> ?P grp master key ck t y"
      and y: "(let shard = key2shard key in
        case slice_get (Shards (sckConfig ck)) shard of None \<Rightarrow> Some (Inl ())
        | Some gid \<Rightarrow> (case (case Groups (sckConfig ck) gid of Some servers \<Rightarrow> grp t servers | None \<Rightarrow> (None, t)) of
             (Some r, t') \<Rightarrow> Some (Inr (r, ck, t'))
           | (None, t') \<Rightarrow> Option.bind (Query master (sckSm ck) (-1) t') (\<lambda>x.
                 loop grp master key (ck\<lparr>sckConfig := fst x\<rparr>) (snd x)))) = Some y"
    show "?P grp master key ck t y"
    proof (intro impI)
      assume m: "sends I master" and c: "I (sckConfig ck)"
      obtain a t1 where a: "(case owners (sckConfig ck) key of Some servers \<Rightarrow> grp t servers | None \<Rightarrow> (None, t)) = (a, t1)"
        by fastforce
      note y' = y [unfolded Let_def shard_of_config [OF I [OF c]], simplified, folded owners_def, unfolded a]
      show "?Q grp key y"
      proof (cases a)
        case None
        then obtain cfg t2 where q: "Query master (sckSm ck) (-1) t1 = Some (cfg, t2)"
          and l: "loop grp master key (ck\<lparr>sckConfig := cfg\<rparr>) t2 = Some y"
          using y' by (auto simp: bind_eq_Some_conv)
        from ih [OF l] Query_sends [OF m q] m show ?thesis by simp
      next
        case (Some r)
        with y' have "y = Inr (r, ck, t1)" by simp
        with a Some c show ?thesis by (auto split: option.splits)
      qed
    qed
  qed
  with assms(2,3) show ?thesis by blast
qed

text \<open>
  Property C32.  The clerk of the sharded service never indexes the shards out of range, and answers from
  the right group.  \<^term>\<open>key2shard\<close> is below the number of shards for every key, so from a configuration with all
  its shards, and while the shard master sends such ones, \<^verbatim>\<open>Get\<close> does not panic; the value it returns was sent, with
  \<^verbatim>\<open>OK\<close> or \<^verbatim>\<open>ErrNoKey\<close>, by a server of the group that has the key's shard in the configuration the clerk is left with.
\<close>

theorem shard_get_in_range:
  fixes ck :: "'e ShardClerk"
  assumes "sends config_ok master" and "config_ok (sckConfig ck)" and "shardGet net master ck key t = Some y"
  shows "\<exists>v ck' t' servers k srv reply. y = Inr (v, ck', t') \<and> config_ok (sckConfig ck') \<and>
    Groups (sckConfig ck') (Shards (sckConfig ck') ! nat (key2shard key)) = Some servers \<and> srv \<in> set servers \<and>
    net k (sckMakeEnd ck srv) \<lparr>sgKey = key\<rparr> = (True, reply) \<and> \<not> grWrongLeader reply \<and>
    (grErr reply = OK \<or> grErr reply = ErrNoKey) \<and> v = grValue reply"
proof -
  obtain v ck' t' k servers where y: "y = Inr (v, ck', t')" "config_ok (sckConfig ck')"
      "owners (sckConfig ck') key = Some servers"
    and g: "getFrom net (sckMakeEnd ck) \<lparr>sgKey = key\<rparr> k servers = (Some v, t')"
    using shardLoop_sound [OF assms(3) [unfolded shardGet_def] assms(1,2)] by blast
  from getFrom_answer [OF g] obtain k' srv reply where "srv \<in> set servers"
      "net k' (sckMakeEnd ck srv) \<lparr>sgKey = key\<rparr> = (True, reply)" "\<not> grWrongLeader reply"
      "grErr reply = OK \<or> grErr reply = ErrNoKey" "grValue reply = v" by blast
  with y show ?thesis unfolding owners_def by blast
qed

text \<open>
  A new clerk, a shard master that gives all the shards to one group, and a group whose first server is down
  and whose second one answers.
\<close>

definition demoConfig :: Config where
  "demoConfig = \<lparr>Num = 1, Shards = replicate 10 100, Groups = [100 \<mapsto> [''s0'', ''s1'']]\<rparr>"

definition demoMaster :: "nat \<Rightarrow> string \<Rightarrow> QueryArgs \<Rightarrow> QueryReply call" where
  "demoMaster t srv args = (True, \<lparr>mrWrongLeader = False, mrErr = OK, qrConfig = demoConfig\<rparr>)"

definition demoGroup :: "nat \<Rightarrow> string \<Rightarrow> SGetArgs \<Rightarrow> GetReply call" where
  "demoGroup t srv args =
     (if srv = ''s1'' then (True, \<lparr>grWrongLeader = False, grErr = OK, grValue = ''v''\<rparr>)
      else (False, \<lparr>grWrongLeader = False, grErr = [], grValue = []\<rparr>))"

definition demoClerk :: "string ShardClerk" where
  "demoClerk = MakeShardClerk [''m''] (\<lambda>name. name)"

lemma demo_configs: "sends config_ok demoMaster" "config_ok (sckConfig demoClerk)" "config_ok demoConfig"
  by (simp_all add: sends_def config_ok_def demoMaster_def demoConfig_def demoClerk_def MakeShardClerk_def zeroConfig_def
      NShards_def)

lemma demo_get: "shardGet demoGroup demoMaster demoClerk ''z'' 0 =
    Some (Inr (''v'', demoClerk\<lparr>sckConfig := demoConfig\<rparr>, 3))"
proof -
  have shard: "key2shard ''z'' = 2" by code_simp
  have new: "Query demoMaster (MakeMasterClerk [''m'']) (-1) 0 = Some (demoConfig, 1)"
    by (simp add: Query_def MakeMasterClerk_def masterLoop.simps demoMaster_def Let_def)
  show ?thesis
    unfolding shardGet_def demoClerk_def MakeShardClerk_def
    by (subst shardLoop.simps, simp add: shard Let_def zeroConfig_def NShards_def slice_get_def new,
        subst shardLoop.simps, simp add: shard Let_def demoConfig_def slice_get_def demoGroup_def OK_def)
qed

theorem shard_get_in_range_witness:
  "sends config_ok demoMaster \<and> config_ok (sckConfig demoClerk) \<and>
   (\<exists>v ck' t' servers k srv reply. (shardGet demoGroup demoMaster demoClerk ''z'' 0 = Some (Inr (v, ck', t'))) \<and>
      config_ok (sckConfig ck') \<and>
      Groups (sckConfig ck') (Shards (sckConfig ck') ! nat (key2shard ''z'')) = Some servers \<and> srv \<in> set servers \<and>
      demoGroup k (sckMakeEnd demoClerk srv) \<lparr>sgKey = ''z''\<rparr> = (True, reply) \<and> \<not> grWrongLeader reply \<and>
      (grErr reply = OK \<or> grErr reply = ErrNoKey) \<and> v = grValue reply)"
  using shard_get_in_range [OF demo_configs(1,2) demo_get] demo_configs demo_get by auto

theorem shard_put_in_range:
  fixes ck :: "'e ShardClerk"
  assumes "sends config_ok master" and "config_ok (sckConfig ck)" and "shardPutAppend net master ck key val op t = Some y"
  shows "\<exists>ck' t' servers k srv reply. y = Inr ((), ck', t') \<and> config_ok (sckConfig ck') \<and>
    owners (sckConfig ck') key = Some servers \<and> srv \<in> set servers \<and>
    net k (sckMakeEnd ck srv) \<lparr>spKey = key, spValue = val, spOp = op\<rparr> = (True, reply) \<and>
    \<not> parWrongLeader reply \<and> parErr reply = OK"
proof -
  obtain ck' t' k servers where y: "y = Inr ((), ck', t')" "config_ok (sckConfig ck')"
      "owners (sckConfig ck') key = Some servers"
    and g: "putAppendAt net (sckMakeEnd ck) \<lparr>spKey = key, spValue = val, spOp = op\<rparr> k servers = (Some (), t')"
    using shardLoop_sound [OF assms(3) [unfolded shardPutAppend_def] assms(1,2)] by auto
  from putAppendAt_answer [OF g] y show ?thesis by blast
qed

section \<open>Returning\<close>

text \<open>
  A group serves a key when one of its servers always answers, with success, and none says that the group is
  the wrong one.
\<close>

definition serves :: "(nat \<Rightarrow> 'e \<Rightarrow> SGetArgs \<Rightarrow> GetReply call) \<Rightarrow> (string \<Rightarrow> 'e) \<Rightarrow> string \<Rightarrow> string list \<Rightarrow> bool" where
  "serves net make_end key servers \<longleftrightarrow>
     (\<exists>srv \<in> set servers. \<forall>t. \<exists>reply. net t (make_end srv) \<lparr>sgKey = key\<rparr> = (True, reply) \<and>
        \<not> grWrongLeader reply \<and> grErr reply = OK) \<and>
     (\<forall>srv \<in> set servers. \<forall>t. grErr (snd (net t (make_end srv) \<lparr>sgKey = key\<rparr>)) \<noteq> ErrWrongGroup)"

lemma getFrom_returns:
  assumes "\<And>t. \<exists>reply. net t (make_end L) args = (True, reply) \<and> \<not> grWrongLeader reply \<and> grErr reply = OK"
    and "L \<in> set servers"
    and "\<And>srv t. srv \<in> set servers \<Longrightarrow> grErr (snd (net t (make_end srv) args)) \<noteq> ErrWrongGroup"
  shows "\<exists>v t'. getFrom net make_end args t servers = (Some v, t')"
  using assms(2,3)
proof (induction servers arbitrary: t)
  case (Cons srv servers)
  obtain ok reply where n: "net t (make_end srv) args = (ok, reply)" by fastforce
  show ?case
  proof (cases "ok \<and> grWrongLeader reply = False \<and> (grErr reply = OK \<or> grErr reply = ErrNoKey)")
    case True
    then show ?thesis using n by simp
  next
    case False
    have "srv \<noteq> L" using False n assms(1) [of t] by auto
    then have "\<exists>v t'. getFrom net make_end args (Suc t) servers = (Some v, t')"
      using Cons.IH [of "Suc t"] Cons.prems by auto
    moreover have "grErr reply \<noteq> ErrWrongGroup" using Cons.prems(2) [of srv t] n by simp
    ultimately show ?thesis using n False by auto
  qed
qed simp

lemma shardGet_at_owner:
  assumes c: "config_ok (sckConfig ck)" and o: "owners (sckConfig ck) key = Some servers"
    and s: "serves net make_end key servers"
  shows "\<exists>v t'. shardLoop (getFrom net make_end \<lparr>sgKey = key\<rparr>) master key ck t = Some (Inr (v, ck, t'))"
proof -
  obtain v t' where "getFrom net make_end \<lparr>sgKey = key\<rparr> t servers = (Some v, t')"
    using s getFrom_returns [of net make_end _ "\<lparr>sgKey = key\<rparr>" servers t] unfolding serves_def by blast
  then show ?thesis
    using o [unfolded owners_def] by (simp add: shardLoop.simps Let_def shard_of_config [OF c])
qed

text \<open>
  Whatever configuration the clerk has, \<^verbatim>\<open>Get\<close> returns, after at most one question to the shard master, when
  the shard master is up and knows a configuration in which the key's shard is with a group that serves it.
\<close>

theorem shard_get_returns:
  fixes ck :: "'e ShardClerk"
  assumes c: "config_ok (sckConfig ck)"
    and up: "srv \<in> set (mckServers (sckSm ck))" "\<And>t. \<exists>reply. master t srv \<lparr>qaNum = -1\<rparr> = (True, reply) \<and> \<not> mrWrongLeader reply"
    and latest: "\<And>t srv reply. master t srv \<lparr>qaNum = -1\<rparr> = (True, reply) \<Longrightarrow> \<not> mrWrongLeader reply \<Longrightarrow> qrConfig reply = cfg"
    and cfg: "config_ok cfg" "owners cfg key = Some servers" "serves net (sckMakeEnd ck) key servers"
  shows "\<exists>v ck' t'. shardGet net master ck key t = Some (Inr (v, ck', t')) \<and> sckConfig ck' \<in> {sckConfig ck, cfg}"
proof -
  let ?get = "getFrom net (sckMakeEnd ck) \<lparr>sgKey = key\<rparr>"
  obtain a t1 where a: "(case owners (sckConfig ck) key of Some servers \<Rightarrow> ?get t servers | None \<Rightarrow> (None, t)) = (a, t1)"
    by fastforce
  have l: "shardLoop ?get master key ck t = (case (a, t1) of (Some r, t') \<Rightarrow> Some (Inr (r, ck, t'))
      | (None, t') \<Rightarrow> Option.bind (Query master (sckSm ck) (-1) t')
          (\<lambda>x. shardLoop ?get master key (ck\<lparr>sckConfig := fst x\<rparr>) (snd x)))"
    unfolding a [symmetric] owners_def by (subst shardLoop.simps) (simp add: Let_def shard_of_config [OF c])
  show ?thesis
  proof (cases a)
    case None
    obtain cfg' t2 where q: "Query master (sckSm ck) (-1) t1 = Some (cfg', t2)"
      using Query_returns [OF up(1), of master "-1" t1] up(2) by fastforce
    then have "cfg' = cfg" using Query_sound [OF q] latest by blast
    moreover obtain v t' where
      "shardLoop ?get master key (ck\<lparr>sckConfig := cfg\<rparr>) t2 = Some (Inr (v, ck\<lparr>sckConfig := cfg\<rparr>, t'))"
      using shardGet_at_owner [of "ck\<lparr>sckConfig := cfg\<rparr>" key servers net "sckMakeEnd ck" master t2] cfg by auto
    ultimately show ?thesis using None l q by (simp add: shardGet_def)
  next
    case (Some r)
    then show ?thesis using l by (simp add: shardGet_def)
  qed
qed

section \<open>The handlers of this repository\<close>

text \<open>
  The handler of \<^verbatim>\<open>Query\<close> leaves the reply as it was, so what a clerk reads is the configuration without groups:
  with these servers \<^verbatim>\<open>Get\<close> of a new clerk does not return.
\<close>

definition zeroQueryReply :: QueryReply where
  "zeroQueryReply = \<lparr>mrWrongLeader = False, mrErr = [], qrConfig = zeroConfig\<rparr>"

definition emptyMaster :: "('c, 's) ShardMaster \<Rightarrow> (nat \<Rightarrow> 'e \<Rightarrow> bool) \<Rightarrow> nat \<Rightarrow> 'e \<Rightarrow> QueryArgs \<Rightarrow> QueryReply call" where
  "emptyMaster sm ok t srv args = (ok t srv, snd (smQuery sm args zeroQueryReply))"

theorem shard_get_never:
  fixes ok :: "nat \<Rightarrow> 'e \<Rightarrow> bool"
  shows "shardGet net (emptyMaster sm ok) (MakeShardClerk masters make_end) key t = None"
proof (rule ccontr)
  assume "shardGet net (emptyMaster sm ok) (MakeShardClerk masters make_end) key t \<noteq> None"
  then obtain y where y: "shardLoop (getFrom net make_end \<lparr>sgKey = key\<rparr>) (emptyMaster sm ok)
      key (MakeShardClerk masters make_end) t = Some y"
    unfolding shardGet_def by (auto simp: MakeShardClerk_def)
  let ?I = "\<lambda>cfg. cfg = zeroConfig"
  have "sends ?I (emptyMaster sm ok)" by (simp add: sends_def emptyMaster_def smQuery_def zeroQueryReply_def)
  moreover have "?I (sckConfig (MakeShardClerk masters make_end))" by (simp add: MakeShardClerk_def)
  moreover have "config_ok cfg" if "?I cfg" for cfg
    using that by (simp add: config_ok_def zeroConfig_def NShards_def)
  ultimately obtain servers where "owners zeroConfig key = Some servers"
    using shardLoop_sound [OF y, of ?I] by auto
  then show False by (simp add: owners_def zeroConfig_def)
qed

end
