(* ===== verification/MR_Files.thy ===== *)
theory MR_Files
  imports Go_Prelude "HOL-Library.Multiset" "HOL-Library.AList" "HOL-Library.Char_ord" "HOL-Library.List_Lexorder"
begin

text \<open>
  The files of a MapReduce job (\<^verbatim>\<open>mapreduce/common.go\<close>, \<^verbatim>\<open>common_map.go\<close>, \<^verbatim>\<open>master_splitmerge.go\<close>): their names, the
  merge of the results and the removal of the files.  A file system maps names to contents; \<^verbatim>\<open>log.Fatal\<close> is
  \<^term>\<open>None\<close>.  What \<^verbatim>\<open>encoding/json\<close> reads from a file until its first error is a parameter, and so is the order in
  which a map is ranged over.  Creating a file always succeeds, and removing one fails only when it is missing.
\<close>

section \<open>Names\<close>

definition digit :: "nat \<Rightarrow> char" where
  "digit k = char_of (48 + k)"

fun digits :: "nat \<Rightarrow> string" where
  "digits n = (if n < 10 then [digit n] else digits (n div 10) @ [digit (n mod 10)])"

declare digits.simps [simp del]

text \<open>\<^verbatim>\<open>strconv.Itoa\<close>\<close>

definition Itoa :: "int \<Rightarrow> string" where
  "Itoa z = (if z < 0 then ''-'' @ digits (nat (- z)) else digits (nat z))"

definition reduceName :: "string \<Rightarrow> int \<Rightarrow> int \<Rightarrow> string" where
  "reduceName jobName mapTask reduceTask = ''mrtmp.'' @ jobName @ ''-'' @ Itoa mapTask @ ''-'' @ Itoa reduceTask"

definition mergeName :: "string \<Rightarrow> int \<Rightarrow> string" where
  "mergeName jobName reduceTask = ''mrtmp.'' @ jobName @ ''-res-'' @ Itoa reduceTask"

text \<open>The 32-bit FNV-1a hash of \<^verbatim>\<open>hash/fnv\<close>, without its sign bit.\<close>

definition fnv32a :: "string \<Rightarrow> nat" where
  "fnv32a s = foldl (\<lambda>h c. (Bit_Operations.xor h (of_char c) * 16777619) mod 2 ^ 32) 2166136261 s"

definition ihash :: "string \<Rightarrow> int" where
  "ihash s = int (fnv32a s mod 2 ^ 31)"

section \<open>The master\<close>

record KeyValue =
  kvKey :: string
  kvValue :: string

type_synonym fs = "string \<rightharpoonup> string"

datatype jobPhase = mapPhase | reducePhase

record Master =
  mAddress :: string
  mWorkers :: "string list"
  mJobName :: string
  mFiles :: "string list"
  mNReduce :: int
  mShutdown :: bool
  mStats :: "int list"

text \<open>\<^verbatim>\<open>merge\<close>: the results are read into a map, and the map is written in the order of its keys.\<close>

fun readResults :: "(string \<Rightarrow> KeyValue list) \<Rightarrow> fs \<Rightarrow> (string \<times> string) list \<Rightarrow> string list \<Rightarrow>
    (string \<times> string) list option" where
  "readResults decode fs kvs [] = Some kvs"
| "readResults decode fs kvs (p # ps) =
     (case fs p of
        None \<Rightarrow> None
      | Some file \<Rightarrow>
          readResults decode fs (foldl (\<lambda>kvs kv. AList.update (kvKey kv) (kvValue kv) kvs) kvs (decode file)) ps)"

definition outLine :: "string \<Rightarrow> string \<Rightarrow> string" where
  "outLine k v = k @ '': '' @ v @ [CHR 0x0A]"

definition merge_results :: "(string \<Rightarrow> KeyValue list) \<Rightarrow> (string list \<Rightarrow> string list) \<Rightarrow> Master \<Rightarrow> fs \<Rightarrow> fs option" where
  "merge_results decode order mr fs =
     (case readResults decode fs [] (map (\<lambda>i. mergeName (mJobName mr) (int i)) [0..<nat (mNReduce mr)]) of
        None \<Rightarrow> None
      | Some kvs \<Rightarrow>
          let keys = sort (order (map fst kvs))
          in Some (fs(''mrtmp.'' @ mJobName mr \<mapsto> concat (map (\<lambda>k. outLine k (the (map_of kvs k))) keys))))"

fun removeFile :: "fs \<Rightarrow> string \<Rightarrow> fs option" where
  "removeFile fs n = (case fs n of None \<Rightarrow> None | Some _ \<Rightarrow> Some (fs(n := None)))"

fun removeFiles :: "fs \<Rightarrow> string list \<Rightarrow> fs option" where
  "removeFiles fs [] = Some fs"
| "removeFiles fs (n # ns) = (case removeFile fs n of None \<Rightarrow> None | Some fs' \<Rightarrow> removeFiles fs' ns)"

definition jobFiles :: "Master \<Rightarrow> string list" where
  "jobFiles mr =
     concat (map (\<lambda>i. map (\<lambda>j. reduceName (mJobName mr) (int i) (int j)) [0..<nat (mNReduce mr)]) [0..<length (mFiles mr)]) @
     map (\<lambda>i. mergeName (mJobName mr) (int i)) [0..<nat (mNReduce mr)] @
     [''mrtmp.'' @ mJobName mr]"

definition CleanupFiles :: "Master \<Rightarrow> fs \<Rightarrow> fs option" where
  "CleanupFiles mr fs = removeFiles fs (jobFiles mr)"

section \<open>Different files have different names\<close>

definition undigits :: "string \<Rightarrow> nat" where
  "undigits s = foldl (\<lambda>a c. 10 * a + (of_char c - 48)) 0 s"

lemma of_digit: "k < 10 \<Longrightarrow> of_char (digit k) = (48 + k :: nat)"
  by (simp add: digit_def)

lemma undigits_digits: "undigits (digits n) = n"
proof (induction n rule: digits.induct)
  case (1 n)
  show ?case
  proof (cases "n < 10")
    case True
    then show ?thesis by (subst digits.simps) (simp add: undigits_def of_digit)
  next
    case False
    have "undigits (digits n) = 10 * undigits (digits (n div 10)) + (of_char (digit (n mod 10)) - 48)"
      using False by (subst digits.simps) (simp add: undigits_def)
    then show ?thesis using 1 [OF False] by (simp add: of_digit)
  qed
qed

lemma digits_inject [simp]: "digits m = digits n \<longleftrightarrow> m = n"
  using undigits_digits by metis

lemma digits_chars: "c \<in> set (digits n) \<Longrightarrow> 48 \<le> (of_char c :: nat) \<and> (of_char c :: nat) \<le> 57"
proof (induction n rule: digits.induct)
  case (1 n)
  show ?case
  proof (cases "n < 10")
    case True
    then have "c = digit n" using 1(2) by (simp add: digits.simps [of n])
    then show ?thesis using True by (simp add: of_digit)
  next
    case False
    then have "c \<in> set (digits (n div 10)) \<or> c = digit (n mod 10)" using 1(2) by (subst (asm) digits.simps) auto
    then show ?thesis using 1(1) [OF False] by (auto simp: of_digit)
  qed
qed

lemma no_digit [simp]: "CHR ''-'' \<notin> set (digits n)" "CHR ''r'' \<notin> set (digits n)"
  using digits_chars [of "CHR ''-''" n] digits_chars [of "CHR ''r''" n] by auto

lemma Itoa_nat: "Itoa (int n) = digits n"
  by (simp add: Itoa_def)

lemma reduceName_inject: "reduceName job (int m) (int r) = reduceName job (int m') (int r') \<longleftrightarrow> m = m' \<and> r = r'"
  by (simp add: reduceName_def Itoa_nat append_Cons_eq_iff)

lemma mergeName_inject: "mergeName job (int r) = mergeName job (int r') \<longleftrightarrow> r = r'"
  by (simp add: mergeName_def Itoa_nat)

lemma reduceName_mergeName: "reduceName job (int m) (int r) \<noteq> mergeName job (int r')"
proof
  assume "reduceName job (int m) (int r) = mergeName job (int r')"
  then have e: "digits m @ CHR ''-'' # digits r = CHR ''r'' # ''es-'' @ digits r'"
    by (simp add: reduceName_def mergeName_def Itoa_nat)
  have "digits m \<noteq> []" by (subst digits.simps) simp
  then obtain c cs where "digits m = c # cs" by (cases "digits m") auto
  with e have "CHR ''r'' \<in> set (digits m)" by simp
  then show False by simp
qed

lemma names_not_output: "reduceName job i j \<noteq> ''mrtmp.'' @ job" "mergeName job j \<noteq> ''mrtmp.'' @ job"
  by (simp_all add: reduceName_def mergeName_def)

lemma jobFiles_distinct: "distinct (jobFiles mr)"
proof -
  have "distinct (concat (map (\<lambda>i. map (\<lambda>j. reduceName (mJobName mr) (int i) (int j)) [0..<nat (mNReduce mr)]) ms))"
    if "distinct ms" for ms :: "nat list"
    using that by (induction ms) (auto simp: distinct_map inj_on_def reduceName_inject)
  then show ?thesis
    using names_not_output [of "mJobName mr"]
    by (auto simp: jobFiles_def distinct_map inj_on_def mergeName_inject reduceName_mergeName dest: sym)
qed

lemma removeFiles_all:
  "distinct ns \<Longrightarrow> \<forall>n \<in> set ns. fs n \<noteq> None \<Longrightarrow> removeFiles fs ns = Some (\<lambda>n. if n \<in> set ns then None else fs n)"
proof (induction ns arbitrary: fs)
  case (Cons n ns)
  from Cons.prems have "removeFiles (fs(n := None)) ns = Some (\<lambda>m. if m \<in> set ns then None else (fs(n := None)) m)"
    by (intro Cons.IH) auto
  with Cons.prems show ?case by (auto simp: fun_eq_iff)
qed simp

text \<open>
  Property C34.  The files of a job have pairwise different names, so no map or reduce task writes the file
  of another one, and \<^verbatim>\<open>CleanupFiles\<close>, called when all of them are there, removes each of them, and nothing else,
  without an error.
\<close>

theorem cleanup_removes_job_files:
  assumes "\<forall>n \<in> set (jobFiles mr). fs n \<noteq> None"
  shows "distinct (jobFiles mr) \<and>
    CleanupFiles mr fs = Some (\<lambda>n. if n \<in> set (jobFiles mr) then None else fs n)"
  using jobFiles_distinct removeFiles_all [OF jobFiles_distinct assms] by (auto simp: CleanupFiles_def)

section \<open>The merged result\<close>

lemma map_of_updates:
  "map_of (foldl (\<lambda>kvs kv. AList.update (kvKey kv) (kvValue kv) kvs) kvs ps) k =
     (case map_of (rev (map (\<lambda>kv. (kvKey kv, kvValue kv)) ps)) k of None \<Rightarrow> map_of kvs k | Some v \<Rightarrow> Some v)"
  by (induction ps arbitrary: kvs) (auto simp: update_conv' map_add_def split: option.splits)

lemma distinct_updates:
  "distinct (map fst kvs) \<Longrightarrow> distinct (map fst (foldl (\<lambda>kvs kv. AList.update (kvKey kv) (kvValue kv) kvs) kvs ps))"
  by (induction ps arbitrary: kvs) (auto simp: distinct_update)

text \<open>The pairs that the reduce tasks wrote, in the order of the tasks.\<close>

definition resultNames :: "Master \<Rightarrow> string list" where
  "resultNames mr = map (\<lambda>i. mergeName (mJobName mr) (int i)) [0..<nat (mNReduce mr)]"

definition results :: "(string \<Rightarrow> KeyValue list) \<Rightarrow> fs \<Rightarrow> string list \<Rightarrow> KeyValue list" where
  "results decode fs ps = concat (map (\<lambda>p. decode (the (fs p))) ps)"

definition valueOf :: "KeyValue list \<Rightarrow> string \<Rightarrow> string option" where
  "valueOf kvs k = map_of (rev (map (\<lambda>kv. (kvKey kv, kvValue kv)) kvs)) k"

lemma readResults_all:
  "\<forall>p \<in> set ps. fs p \<noteq> None \<Longrightarrow>
   readResults decode fs kvs ps =
     Some (foldl (\<lambda>kvs kv. AList.update (kvKey kv) (kvValue kv) kvs) kvs (results decode fs ps))"
  by (induction ps arbitrary: kvs) (auto simp: results_def)

lemma readResults_missing:
  "p \<in> set ps \<Longrightarrow> fs p = None \<Longrightarrow> readResults decode fs kvs ps = None"
  by (induction ps arbitrary: kvs) (auto split: option.splits)

lemma valueOf_updates:
  "map_of (foldl (\<lambda>kvs kv. AList.update (kvKey kv) (kvValue kv) kvs) [] ps) k = valueOf ps k"
  by (subst map_of_updates) (simp add: valueOf_def split: option.splits)

lemma dom_valueOf: "dom (valueOf kvs) = kvKey ` set kvs"
  unfolding valueOf_def by (simp add: dom_map_of_conv_image_fst image_image)

text \<open>
  Property C33.  \<^verbatim>\<open>merge\<close> writes one line for each key that some reduce task wrote, in the order of the keys, with
  the value that was written last, in the order of the tasks; it writes no other file, and the order in which
  the map is ranged over does not matter.  When a result file is missing it ends the program.
\<close>

theorem merge_output:
  assumes "\<And>ks. mset (order ks) = mset ks"
  shows "if \<forall>p \<in> set (resultNames mr). fs p \<noteq> None
    then \<exists>keys. merge_results decode order mr fs = Some (fs(''mrtmp.'' @ mJobName mr \<mapsto>
          concat (map (\<lambda>k. outLine k (the (valueOf (results decode fs (resultNames mr)) k))) keys))) \<and>
        sorted keys \<and> distinct keys \<and> set keys = kvKey ` set (results decode fs (resultNames mr))
    else merge_results decode order mr fs = None"
proof (cases "\<forall>p \<in> set (resultNames mr). fs p \<noteq> None")
  case True
  let ?rs = "results decode fs (resultNames mr)"
  let ?kvs = "foldl (\<lambda>kvs kv. AList.update (kvKey kv) (kvValue kv) kvs) [] ?rs"
  let ?keys = "sort (order (map fst ?kvs))"
  have r: "readResults decode fs [] (resultNames mr) = Some ?kvs" by (rule readResults_all [OF True])
  have m: "map_of ?kvs = valueOf ?rs" using valueOf_updates by blast
  have ks: "mset ?keys = mset (map fst ?kvs)" using assms by simp
  have "distinct (map fst ?kvs)" by (rule distinct_updates) simp
  then have d: "distinct ?keys" using mset_eq_imp_distinct_iff [OF ks] by simp
  have "set ?keys = dom (map_of ?kvs)" using mset_eq_setD [OF ks] by (simp add: dom_map_of_conv_image_fst)
  then have s: "set ?keys = kvKey ` set ?rs" by (simp only: m dom_valueOf)
  have "merge_results decode order mr fs = Some (fs(''mrtmp.'' @ mJobName mr \<mapsto>
      concat (map (\<lambda>k. outLine k (the (valueOf ?rs k))) ?keys)))"
    using r by (simp add: merge_results_def resultNames_def [symmetric] Let_def m)
  with d s sorted_sort show ?thesis unfolding if_P [OF True] by blast
next
  case False
  then obtain p where "p \<in> set (resultNames mr)" "fs p = None" by blast
  then have "readResults decode fs [] (resultNames mr) = None" by (rule readResults_missing)
  with False show ?thesis by (simp add: merge_results_def resultNames_def [symmetric])
qed

text \<open>
  A job of two map and two reduce tasks.  The decoder stands for one whose values are a letter for the key
  and a letter for the value; both reduce tasks wrote the key \<open>b\<close>.
\<close>

definition demoMR :: Master where
  "demoMR = \<lparr>mAddress = ''m'', mWorkers = [], mJobName = ''j'', mFiles = [''x'', ''y''], mNReduce = 2, mShutdown = False,
     mStats = []\<rparr>"

fun demoDecode :: "string \<Rightarrow> KeyValue list" where
  "demoDecode (k # v # s) = \<lparr>kvKey = [k], kvValue = [v]\<rparr> # demoDecode s"
| "demoDecode s = []"

definition demoFS :: fs where
  "demoFS = [''mrtmp.j-0-0'' \<mapsto> [], ''mrtmp.j-0-1'' \<mapsto> [], ''mrtmp.j-1-0'' \<mapsto> [], ''mrtmp.j-1-1'' \<mapsto> [],
     ''mrtmp.j-res-0'' \<mapsto> ''c1b2'', ''mrtmp.j-res-1'' \<mapsto> ''b3a4'', ''mrtmp.j'' \<mapsto> [], ''input'' \<mapsto> ''text'']"

lemma demo_jobFiles: "jobFiles demoMR = [''mrtmp.j-0-0'', ''mrtmp.j-0-1'', ''mrtmp.j-1-0'', ''mrtmp.j-1-1'',
    ''mrtmp.j-res-0'', ''mrtmp.j-res-1'', ''mrtmp.j'']"
  by code_simp

theorem cleanup_removes_job_files_witness:
  "CleanupFiles demoMR demoFS \<noteq> None \<and> the (CleanupFiles demoMR demoFS) = [''input'' \<mapsto> ''text'']"
proof -
  have "\<forall>n \<in> set (jobFiles demoMR). demoFS n \<noteq> None" by (simp add: demo_jobFiles demoFS_def)
  from cleanup_removes_job_files [OF this]
  have "CleanupFiles demoMR demoFS = Some (\<lambda>n. if n \<in> set (jobFiles demoMR) then None else demoFS n)" by blast
  moreover have "(\<lambda>n. if n \<in> set (jobFiles demoMR) then None else demoFS n) = [''input'' \<mapsto> ''text'']"
    by (simp add: demo_jobFiles demoFS_def fun_eq_iff)
  ultimately show ?thesis by simp
qed

theorem merge_output_witness:
  "(\<forall>ks :: string list. mset (rev ks) = mset ks) \<and> list_all (\<lambda>p. demoFS p \<noteq> None) (resultNames demoMR) \<and>
   (\<exists>keys. merge_results demoDecode rev demoMR demoFS = Some (demoFS(''mrtmp.j'' \<mapsto>
        concat (map (\<lambda>k. outLine k (the (valueOf (demoDecode ''c1b2b3a4'') k))) keys))) \<and>
      sorted keys \<and> distinct keys \<and> set keys = {''a'', ''b'', ''c''}) \<and>
   valueOf (demoDecode ''c1b2b3a4'') ''b'' = Some ''3''"
proof -
  have n: "resultNames demoMR = [''mrtmp.j-res-0'', ''mrtmp.j-res-1'']" by code_simp
  then have f: "\<forall>p \<in> set (resultNames demoMR). demoFS p \<noteq> None" by (simp add: demoFS_def)
  have r: "results demoDecode demoFS (resultNames demoMR) = demoDecode ''c1b2b3a4''"
    unfolding n by (simp add: results_def demoFS_def)
  have k: "kvKey ` set (demoDecode ''c1b2b3a4'') = {''a'', ''b'', ''c''}" by auto
  have j: "''mrtmp.'' @ mJobName demoMR = ''mrtmp.j''" by (simp add: demoMR_def)
  have "mset (rev ks) = mset ks" for ks :: "string list" by simp
  from merge_output [OF this, of demoMR demoFS demoDecode, unfolded r k j if_P [OF f]] f
  show ?thesis by (simp add: valueOf_def list_all_iff)
qed

end
