(* ===== verification/MR_Jobs.thy ===== *)
theory MR_Jobs
  imports MR_Files
begin

text \<open>
  The master and the workers of MapReduce (\<^verbatim>\<open>mapreduce/master.go\<close>, \<^verbatim>\<open>master_rpc.go\<close>, \<^verbatim>\<open>worker.go\<close>, \<^verbatim>\<open>schedule.go\<close>).  The bodies of
  \<^verbatim>\<open>doMap\<close>, \<^verbatim>\<open>doReduce\<close> and \<^verbatim>\<open>schedule\<close> are empty in this repository.  Goroutines are cut where they release a lock;
  their steps are events, so that a list of events is an interleaving.  \<^verbatim>\<open>log.Fatal\<close> and panics are \<^term>\<open>None\<close>.
\<close>

section \<open>The master\<close>

definition newMaster :: "string \<Rightarrow> Master" where
  "newMaster master = \<lparr>mAddress = master, mWorkers = [], mJobName = [], mFiles = [], mNReduce = 0,
     mShutdown = False, mStats = []\<rparr>"

definition doMap :: "string \<Rightarrow> int \<Rightarrow> string \<Rightarrow> int \<Rightarrow> (string \<Rightarrow> string \<Rightarrow> KeyValue list) \<Rightarrow> fs \<Rightarrow> fs" where
  "doMap jobName mapTask inFile nReduce mapF fs = fs"

definition doReduce :: "string \<Rightarrow> int \<Rightarrow> string \<Rightarrow> int \<Rightarrow> (string \<Rightarrow> string list \<Rightarrow> string) \<Rightarrow> fs \<Rightarrow> fs" where
  "doReduce jobName reduceTask outFile nMap reduceF fs = fs"

text \<open>\<^verbatim>\<open>schedule\<close> computes what it prints: the number of tasks and of inputs or outputs.\<close>

definition schedule :: "string \<Rightarrow> string list \<Rightarrow> int \<Rightarrow> jobPhase \<Rightarrow> int \<times> int" where
  "schedule jobName mapFiles nReduce phase =
     (case phase of
        mapPhase \<Rightarrow> (len mapFiles, nReduce)
      | reducePhase \<Rightarrow> (nReduce, len mapFiles))"

text \<open>\<^verbatim>\<open>run\<close>; a result means that \<^verbatim>\<open>Wait\<close> returns.\<close>

definition run_job :: "(string \<Rightarrow> KeyValue list) \<Rightarrow> (string list \<Rightarrow> string list) \<Rightarrow> Master \<Rightarrow> string \<Rightarrow> string list \<Rightarrow> int \<Rightarrow>
    (Master \<Rightarrow> jobPhase \<Rightarrow> fs \<Rightarrow> fs) \<Rightarrow> (Master \<Rightarrow> Master option) \<Rightarrow> fs \<Rightarrow> (Master \<times> fs) option" where
  "run_job decode order mr jobName files nreduce sched finish fs =
     (let mr = mr\<lparr>mJobName := jobName, mFiles := files, mNReduce := nreduce\<rparr>;
          fs = sched mr mapPhase fs;
          fs = sched mr reducePhase fs
      in case finish mr of
           None \<Rightarrow> None
         | Some mr \<Rightarrow> map_option (Pair mr) (merge_results decode order mr fs))"

definition sequentialPhase :: "(string \<Rightarrow> string \<Rightarrow> KeyValue list) \<Rightarrow> (string \<Rightarrow> string list \<Rightarrow> string) \<Rightarrow> Master \<Rightarrow> jobPhase \<Rightarrow>
    fs \<Rightarrow> fs" where
  "sequentialPhase mapF reduceF mr phase fs =
     (case phase of
        mapPhase \<Rightarrow> foldl (\<lambda>fs i. doMap (mJobName mr) (int i) (mFiles mr ! i) (mNReduce mr) mapF fs) fs [0..<length (mFiles mr)]
      | reducePhase \<Rightarrow> foldl (\<lambda>fs i. doReduce (mJobName mr) (int i) (mergeName (mJobName mr) (int i)) (len (mFiles mr)) reduceF fs)
          fs [0..<nat (mNReduce mr)])"

definition Sequential :: "(string \<Rightarrow> KeyValue list) \<Rightarrow> (string list \<Rightarrow> string list) \<Rightarrow> string \<Rightarrow> string list \<Rightarrow> int \<Rightarrow>
    (string \<Rightarrow> string \<Rightarrow> KeyValue list) \<Rightarrow> (string \<Rightarrow> string list \<Rightarrow> string) \<Rightarrow> fs \<Rightarrow> (Master \<times> fs) option" where
  "Sequential decode order jobName files nreduce mapF reduceF fs =
     run_job decode order (newMaster ''master'') jobName files nreduce (sequentialPhase mapF reduceF)
       (\<lambda>mr. Some (mr\<lparr>mStats := [len files + nreduce]\<rparr>)) fs"

text \<open>
  \<^verbatim>\<open>killWorkers\<close>: \<open>calls\<close> is what the Shutdown call to a worker gives.  \<^verbatim>\<open>stopRPCServer\<close> calls the master itself, whose
  handler closes a channel, which panics the second time.
\<close>

definition killWorkers :: "(string \<Rightarrow> bool \<times> int) \<Rightarrow> Master \<Rightarrow> int list" where
  "killWorkers calls mr = foldl (\<lambda>ntasks w. case calls w of (ok, reply) \<Rightarrow>
     if ok = False then ntasks else ntasks @ [reply]) [] (mWorkers mr)"

definition masterShutdown :: "Master \<Rightarrow> Master option" where
  "masterShutdown mr = (if mShutdown mr then None else Some (mr\<lparr>mShutdown := True\<rparr>))"

definition stopRPCServer :: "bool \<Rightarrow> Master \<Rightarrow> Master option" where
  "stopRPCServer arrives mr = (if arrives then masterShutdown mr else Some mr)"

text \<open>The listener of the master, when its address is free.\<close>

definition startRPCServer :: "bool \<Rightarrow> Master \<Rightarrow> Master option" where
  "startRPCServer listens mr = (if listens then Some mr else None)"

text \<open>\<open>registered\<close> are the workers that have registered when the phases, which schedule nothing, are over.\<close>

definition Distributed :: "(string \<Rightarrow> KeyValue list) \<Rightarrow> (string list \<Rightarrow> string list) \<Rightarrow> (string \<Rightarrow> bool \<times> int) \<Rightarrow> bool \<Rightarrow> bool \<Rightarrow>
    string list \<Rightarrow> string \<Rightarrow> string list \<Rightarrow> int \<Rightarrow> string \<Rightarrow> fs \<Rightarrow> (Master \<times> fs) option" where
  "Distributed decode order calls listens arrives registered jobName files nreduce master fs =
     (case startRPCServer listens (newMaster master) of
        None \<Rightarrow> None
      | Some mr \<Rightarrow>
          run_job decode order (mr\<lparr>mWorkers := registered\<rparr>) jobName files nreduce (\<lambda>mr phase fs. fs)
            (\<lambda>mr. stopRPCServer arrives (mr\<lparr>mStats := killWorkers calls mr\<rparr>)) fs)"

text \<open>
  With the tasks of this repository no result file is written, so a job with a reduce task ends in
  \<^verbatim>\<open>log.Fatal\<close> unless a file of that name was there before.
\<close>

lemma sequentialPhase_idle [simp]: "sequentialPhase mapF reduceF mr phase fs = fs"
proof -
  have "foldl (\<lambda>fs i. fs) fs ks = fs" for ks :: "nat list" and fs :: fs by (induction ks) auto
  then show ?thesis by (simp add: sequentialPhase_def doMap_def doReduce_def split: jobPhase.splits)
qed

theorem sequential_fatal:
  assumes "0 \<le> i" "i < nreduce" and "fs (mergeName jobName i) = None"
  shows "Sequential decode order jobName files nreduce mapF reduceF fs = None"
proof -
  let ?ps = "map (\<lambda>i. mergeName jobName (int i)) [0..<nat nreduce]"
  have "mergeName jobName i \<in> set ?ps" using assms(1,2) by (auto intro: image_eqI [of _ _ "nat i"])
  then have "readResults decode fs [] ?ps = None" using assms(3) by (rule readResults_missing)
  then show ?thesis by (simp add: Sequential_def run_job_def merge_results_def Let_def newMaster_def)
qed

text \<open>The statistics of a distributed job: the answers of the workers that were reached, in their order.\<close>

lemma killWorkers_answers: "killWorkers calls mr = map (snd \<circ> calls) (filter (fst \<circ> calls) (mWorkers mr))"
proof -
  have "foldl (\<lambda>ntasks w. case calls w of (ok, reply) \<Rightarrow> if ok = False then ntasks else ntasks @ [reply]) acc ws =
      acc @ map (snd \<circ> calls) (filter (fst \<circ> calls) ws)" for acc ws
    by (induction ws arbitrary: acc) (auto split: prod.splits)
  then show ?thesis by (simp add: killWorkers_def)
qed

section \<open>Registration\<close>

text \<open>
  A forwarder is one call of \<^verbatim>\<open>forwardRegistrations\<close>, one per phase: the next worker to tell about, whether it waits
  for a registration, the goroutines that still send a name, and the names that were received.
\<close>

record forwarder =
  fwNext :: nat
  fwWaiting :: bool
  fwPending :: "string list"
  fwTaken :: "string list"

record registry =
  rgMaster :: Master
  rgForward :: "forwarder list"

definition newForwarder :: forwarder where
  "newForwarder = \<lparr>fwNext = 0, fwWaiting = False, fwPending = [], fwTaken = []\<rparr>"

text \<open>\<^verbatim>\<open>Register\<close> appends the worker and wakes whoever waits for one.\<close>

definition Register :: "registry \<Rightarrow> string \<Rightarrow> registry" where
  "Register rg worker = rg\<lparr>rgMaster := (rgMaster rg)\<lparr>mWorkers := mWorkers (rgMaster rg) @ [worker]\<rparr>,
     rgForward := map (\<lambda>fw. fw\<lparr>fwWaiting := False\<rparr>) (rgForward rg)\<rparr>"

text \<open>A round of the loop of \<^verbatim>\<open>forwardRegistrations\<close>.\<close>

definition forwardRegistrations :: "Master \<Rightarrow> forwarder \<Rightarrow> forwarder" where
  "forwardRegistrations mr fw =
     (if length (mWorkers mr) > fwNext fw
      then fw\<lparr>fwPending := fwPending fw @ [mWorkers mr ! fwNext fw], fwNext := fwNext fw + 1\<rparr>
      else fw\<lparr>fwWaiting := True\<rparr>)"

datatype registration = Registers string | NewPhase | Forward nat | Takes nat string

fun rexec :: "registry \<Rightarrow> registration \<Rightarrow> registry option" where
  "rexec rg (Registers w) = Some (Register rg w)"
| "rexec rg NewPhase = Some (rg\<lparr>rgForward := rgForward rg @ [newForwarder]\<rparr>)"
| "rexec rg (Forward k) =
     (if k < length (rgForward rg) \<and> \<not> fwWaiting (rgForward rg ! k)
      then Some (rg\<lparr>rgForward := (rgForward rg)[k := forwardRegistrations (rgMaster rg) (rgForward rg ! k)]\<rparr>)
      else None)"
| "rexec rg (Takes k w) =
     (if k < length (rgForward rg) \<and> w \<in> set (fwPending (rgForward rg ! k))
      then let fw = rgForward rg ! k
        in Some (rg\<lparr>rgForward := (rgForward rg)[k := fw\<lparr>fwPending := remove1 w (fwPending fw), fwTaken := fwTaken fw @ [w]\<rparr>]\<rparr>)
      else None)"

fun rrun :: "registry \<Rightarrow> registration list \<Rightarrow> registry option" where
  "rrun rg [] = Some rg"
| "rrun rg (e # es) = (case rexec rg e of None \<Rightarrow> None | Some rg' \<Rightarrow> rrun rg' es)"

definition forward_ok :: "string list \<Rightarrow> forwarder \<Rightarrow> bool" where
  "forward_ok ws fw \<longleftrightarrow> fwNext fw \<le> length ws \<and> mset (fwTaken fw) + mset (fwPending fw) = mset (take (fwNext fw) ws) \<and>
     (fwWaiting fw \<longrightarrow> fwNext fw = length ws)"

definition registry_ok :: "registry \<Rightarrow> bool" where
  "registry_ok rg \<longleftrightarrow> list_all (forward_ok (mWorkers (rgMaster rg))) (rgForward rg)"

fun registered :: "registration \<Rightarrow> string list" where
  "registered (Registers w) = [w]"
| "registered _ = []"

lemma list_all_update: "list_all P xs \<Longrightarrow> P x \<Longrightarrow> list_all P (xs[k := x])"
  using set_update_subset_insert [of xs k x] by (auto simp: list_all_iff)

lemma forward_ok_round:
  assumes "forward_ok (mWorkers mr) fw" shows "forward_ok (mWorkers mr) (forwardRegistrations mr fw)"
  using assms by (auto simp: forward_ok_def forwardRegistrations_def take_Suc_conv_app_nth)

lemma forward_ok_register:
  assumes "forward_ok ws fw" shows "forward_ok (ws @ [w]) (fw\<lparr>fwWaiting := False\<rparr>)"
  using assms by (simp add: forward_ok_def)

lemma forward_ok_take:
  assumes "forward_ok ws fw" "w \<in> set (fwPending fw)"
  shows "forward_ok ws (fw\<lparr>fwPending := remove1 w (fwPending fw), fwTaken := fwTaken fw @ [w]\<rparr>)"
proof -
  have "mset (fwTaken fw @ [w]) + mset (remove1 w (fwPending fw)) = mset (fwTaken fw) + mset (fwPending fw)"
    using assms(2) by simp
  with assms(1) show ?thesis by (simp add: forward_ok_def)
qed

lemma rexec_ok:
  assumes "rexec rg e = Some rg'" "registry_ok rg"
  shows "registry_ok rg' \<and> mWorkers (rgMaster rg') = mWorkers (rgMaster rg) @ registered e"
proof (cases e)
  case (Registers w)
  have "list_all (forward_ok (mWorkers (rgMaster rg) @ [w])) (map (\<lambda>fw. fw\<lparr>fwWaiting := False\<rparr>) (rgForward rg))"
    using assms(2) forward_ok_register unfolding registry_ok_def list_all_iff by auto
  with Registers assms(1) show ?thesis by (auto simp: registry_ok_def Register_def)
next
  case NewPhase
  then show ?thesis using assms by (auto simp: registry_ok_def newForwarder_def forward_ok_def)
next
  case (Forward k)
  let ?fw = "rgForward rg ! k"
  have k: "k < length (rgForward rg)"
    and rg': "rg' = rg\<lparr>rgForward := (rgForward rg)[k := forwardRegistrations (rgMaster rg) ?fw]\<rparr>"
    using assms(1) Forward by (auto split: if_splits)
  have "forward_ok (mWorkers (rgMaster rg)) ?fw" using assms(2) k by (simp add: registry_ok_def list_all_length)
  from list_all_update [OF assms(2) [unfolded registry_ok_def] forward_ok_round [OF this], of k]
  show ?thesis using rg' Forward by (simp add: registry_ok_def)
next
  case (Takes k w)
  let ?fw = "rgForward rg ! k"
  have k: "k < length (rgForward rg)" "w \<in> set (fwPending ?fw)"
    and rg': "rg' = rg\<lparr>rgForward := (rgForward rg)[k := ?fw\<lparr>fwPending := remove1 w (fwPending ?fw), fwTaken := fwTaken ?fw @ [w]\<rparr>]\<rparr>"
    using assms(1) Takes by (auto simp: Let_def split: if_splits)
  have "forward_ok (mWorkers (rgMaster rg)) ?fw" using assms(2) k by (simp add: registry_ok_def list_all_length)
  from list_all_update [OF assms(2) [unfolded registry_ok_def] forward_ok_take [OF this k(2)], of k]
  show ?thesis using rg' Takes by (simp add: registry_ok_def)
qed

lemma rrun_ok:
  "rrun rg es = Some rg' \<Longrightarrow> registry_ok rg \<Longrightarrow>
   registry_ok rg' \<and> mWorkers (rgMaster rg') = mWorkers (rgMaster rg) @ concat (map registered es)"
proof (induction es arbitrary: rg)
  case (Cons e es)
  then obtain rg1 where e: "rexec rg e = Some rg1" and r: "rrun rg1 es = Some rg'" by (auto split: option.splits)
  from Cons.IH [OF r] rexec_ok [OF e Cons.prems(2)] show ?case by auto
qed simp

text \<open>
  However registrations, phases and the goroutines of the master interleave, the channel of a phase carries
  every worker that registered before or during the phase at most once for each time it registered, and none
  is left out when the forwarder waits.
\<close>

theorem registrations_forwarded_once:
  assumes "rrun \<lparr>rgMaster = newMaster address, rgForward = []\<rparr> es = Some rg" and "fw \<in> set (rgForward rg)"
  shows "mWorkers (rgMaster rg) = concat (map registered es) \<and>
    mset (fwTaken fw) + mset (fwPending fw) = mset (take (fwNext fw) (concat (map registered es))) \<and>
    (fwWaiting fw \<longrightarrow> mset (fwTaken fw) + mset (fwPending fw) = mset (concat (map registered es)))"
proof -
  have "registry_ok \<lparr>rgMaster = newMaster address, rgForward = []\<rparr>" by (simp add: registry_ok_def)
  from rrun_ok [OF assms(1) this]
  have w: "mWorkers (rgMaster rg) = concat (map registered es)" and ok: "registry_ok rg" by (auto simp: newMaster_def)
  then have "forward_ok (concat (map registered es)) fw" using assms(2) by (simp add: registry_ok_def list_all_iff)
  with w show ?thesis by (auto simp: forward_ok_def)
qed

end
