(* ===== verification/MR_Worker.thy ===== *)
theory MR_Worker
  imports MR_Jobs
begin

text \<open>
  The workers of MapReduce (\<^verbatim>\<open>mapreduce/worker.go\<close>): the critical sections of \<^verbatim>\<open>DoTask\<close>, which several calls run at once on
  several workers that share one count of parallelism, and the loop of \<^verbatim>\<open>RunWorker\<close> that accepts connections.
\<close>

section \<open>Tasks\<close>

record Worker =
  wkName :: string
  wkMap :: "string \<Rightarrow> string \<Rightarrow> KeyValue list"
  wkReduce :: "string \<Rightarrow> string list \<Rightarrow> string"
  nRPC :: int
  nTasks :: int
  wkConcurrent :: int

record Parallelism =
  parNow :: int
  parMax :: int

record DoTaskArgs =
  dtJobName :: string
  dtFile :: string
  dtPhase :: jobPhase
  dtTaskNumber :: int
  dtNumOtherPhase :: int

text \<open>The worker as \<^verbatim>\<open>RunWorker\<close> makes it.\<close>

definition newWorker :: "string \<Rightarrow> (string \<Rightarrow> string \<Rightarrow> KeyValue list) \<Rightarrow> (string \<Rightarrow> string list \<Rightarrow> string) \<Rightarrow> int \<Rightarrow> Worker" where
  "newWorker name mapF reduceF n = \<lparr>wkName = name, wkMap = mapF, wkReduce = reduceF, nRPC = n, nTasks = 0, wkConcurrent = 0\<rparr>"

definition taskEnter :: "Worker \<Rightarrow> Worker option" where
  "taskEnter wk =
     (let wk = wk\<lparr>nTasks := nTasks wk + 1, wkConcurrent := wkConcurrent wk + 1\<rparr>
      in if wkConcurrent wk > 1 then None else Some wk)"

definition taskCount :: "Parallelism \<Rightarrow> Parallelism" where
  "taskCount p =
     (let p = p\<lparr>parNow := parNow p + 1\<rparr>
      in if parNow p > parMax p then p\<lparr>parMax := parNow p\<rparr> else p)"

definition taskWork :: "Worker \<Rightarrow> DoTaskArgs \<Rightarrow> fs \<Rightarrow> fs" where
  "taskWork wk arg fs =
     (case dtPhase arg of
        mapPhase \<Rightarrow> doMap (dtJobName arg) (dtTaskNumber arg) (dtFile arg) (dtNumOtherPhase arg) (wkMap wk) fs
      | reducePhase \<Rightarrow> doReduce (dtJobName arg) (dtTaskNumber arg) (mergeName (dtJobName arg) (dtTaskNumber arg))
          (dtNumOtherPhase arg) (wkReduce wk) fs)"

definition taskLeave :: "Worker \<Rightarrow> Worker" where
  "taskLeave wk = wk\<lparr>wkConcurrent := wkConcurrent wk - 1\<rparr>"

definition taskUncount :: "Parallelism \<Rightarrow> Parallelism" where
  "taskUncount p = p\<lparr>parNow := parNow p - 1\<rparr>"

definition workerShutdown :: "Worker \<Rightarrow> Worker \<times> int" where
  "workerShutdown wk = (wk\<lparr>nRPC := 1\<rparr>, nTasks wk)"

text \<open>
  A call of \<^verbatim>\<open>DoTask\<close> at one of the points between its critical sections, on workers that all have the same
  \<^verbatim>\<open>parallelism\<close>.
\<close>

datatype point = Entered | Counted | Worked | Left | Finished

record task =
  tkWorker :: nat
  tkArg :: DoTaskArgs
  tkPoint :: point

record pool =
  plWorkers :: "Worker list"
  plPar :: Parallelism
  plTasks :: "task list"
  plFiles :: fs

datatype pool_event = DoTask nat DoTaskArgs | Proceed nat

fun proceed :: "pool \<Rightarrow> nat \<Rightarrow> task \<Rightarrow> pool option" where
  "proceed pl k tk =
     (let at = (\<lambda>pt. (plTasks pl)[k := tk\<lparr>tkPoint := pt\<rparr>]); i = tkWorker tk in
      case tkPoint tk of
        Entered \<Rightarrow> Some (pl\<lparr>plPar := taskCount (plPar pl), plTasks := at Counted\<rparr>)
      | Counted \<Rightarrow> Some (pl\<lparr>plFiles := taskWork (plWorkers pl ! i) (tkArg tk) (plFiles pl), plTasks := at Worked\<rparr>)
      | Worked \<Rightarrow> Some (pl\<lparr>plWorkers := (plWorkers pl)[i := taskLeave (plWorkers pl ! i)], plTasks := at Left\<rparr>)
      | Left \<Rightarrow> Some (pl\<lparr>plPar := taskUncount (plPar pl), plTasks := at Finished\<rparr>)
      | Finished \<Rightarrow> None)"

fun pexec :: "pool \<Rightarrow> pool_event \<Rightarrow> pool option" where
  "pexec pl (DoTask i arg) =
     (if i < length (plWorkers pl)
      then (case taskEnter (plWorkers pl ! i) of
              None \<Rightarrow> None
            | Some wk \<Rightarrow> Some (pl\<lparr>plWorkers := (plWorkers pl)[i := wk],
                plTasks := plTasks pl @ [\<lparr>tkWorker = i, tkArg = arg, tkPoint = Entered\<rparr>]\<rparr>))
      else None)"
| "pexec pl (Proceed k) = (if k < length (plTasks pl) then proceed pl k (plTasks pl ! k) else None)"

text \<open>The states a pool goes through.\<close>

fun prun :: "pool \<Rightarrow> pool_event list \<Rightarrow> pool list option" where
  "prun pl [] = Some [pl]"
| "prun pl (e # es) = (case pexec pl e of None \<Rightarrow> None | Some pl' \<Rightarrow> map_option ((#) pl) (prun pl' es))"

definition newPool :: "Worker list \<Rightarrow> fs \<Rightarrow> pool" where
  "newPool ws fs = \<lparr>plWorkers = ws, plPar = \<lparr>parNow = 0, parMax = 0\<rparr>, plTasks = [], plFiles = fs\<rparr>"

section \<open>What the counters count\<close>

definition running :: "task \<Rightarrow> bool" where
  "running tk \<longleftrightarrow> tkPoint tk = Entered \<or> tkPoint tk = Counted \<or> tkPoint tk = Worked"

definition counted :: "task \<Rightarrow> bool" where
  "counted tk \<longleftrightarrow> tkPoint tk = Counted \<or> tkPoint tk = Worked \<or> tkPoint tk = Left"

definition countIf :: "('a \<Rightarrow> bool) \<Rightarrow> 'a list \<Rightarrow> int" where
  "countIf P xs = int (length (filter P xs))"

lemma countIf_simps [simp]:
  "countIf P [] = 0" "countIf P (x # xs) = (if P x then 1 else 0) + countIf P xs"
  "countIf P (xs @ ys) = countIf P xs + countIf P ys"
  by (auto simp: countIf_def)

lemma countIf_update:
  "k < length xs \<Longrightarrow>
   countIf P (xs[k := y]) = countIf P xs - (if P (xs ! k) then 1 else 0) + (if P y then 1 else 0)"
  by (induction xs arbitrary: k) (auto simp: less_Suc_eq_0_disj nth_Cons' split: nat.splits)

definition worker_ok :: "task list \<Rightarrow> nat \<Rightarrow> Worker \<Rightarrow> bool" where
  "worker_ok tks i wk \<longleftrightarrow> wkConcurrent wk = countIf (\<lambda>tk. tkWorker tk = i \<and> running tk) tks \<and>
     nTasks wk = countIf (\<lambda>tk. tkWorker tk = i) tks \<and> wkConcurrent wk \<le> 1"

definition pool_ok :: "pool \<Rightarrow> bool" where
  "pool_ok pl \<longleftrightarrow>
     (\<forall>i < length (plWorkers pl). worker_ok (plTasks pl) i (plWorkers pl ! i)) \<and>
     (\<forall>tk \<in> set (plTasks pl). tkWorker tk < length (plWorkers pl)) \<and>
     parNow (plPar pl) = countIf counted (plTasks pl) \<and> parNow (plPar pl) \<le> parMax (plPar pl)"

lemma newPool_ok:
  "\<forall>wk \<in> set ws. wkConcurrent wk = 0 \<and> nTasks wk = 0 \<Longrightarrow> pool_ok (newPool ws fs)"
  by (simp add: pool_ok_def newPool_def worker_ok_def)

lemma worker_ok_enter:
  assumes "worker_ok tks i wk" "taskEnter wk = Some wk'" "tkWorker tk = i" "tkPoint tk = Entered"
  shows "worker_ok (tks @ [tk]) i wk'"
  using assms by (auto simp: worker_ok_def taskEnter_def running_def Let_def split: if_splits)

lemma worker_ok_other: "worker_ok tks i wk \<Longrightarrow> tkWorker tk \<noteq> i \<Longrightarrow> worker_ok (tks @ [tk]) i wk"
  by (simp add: worker_ok_def)

text \<open>A task that moves on without leaving its worker, and one that leaves it.\<close>

lemma worker_ok_update:
  assumes "worker_ok tks i wk" "k < length tks" "tkWorker tk' = tkWorker (tks ! k)"
    "tkWorker tk' = i \<Longrightarrow> running tk' = running (tks ! k)"
  shows "worker_ok (tks[k := tk']) i wk"
  using assms by (auto simp: worker_ok_def countIf_update)

lemma worker_ok_leave:
  assumes "worker_ok tks i wk" "k < length tks" "tkWorker (tks ! k) = i" "running (tks ! k)"
    "tkWorker tk' = i" "\<not> running tk'"
  shows "worker_ok (tks[k := tk']) i (taskLeave wk)"
  using assms by (auto simp: worker_ok_def countIf_update taskLeave_def)

lemma task_points [simp]:
  "running (tk\<lparr>tkPoint := pt\<rparr>) \<longleftrightarrow> pt = Entered \<or> pt = Counted \<or> pt = Worked"
  "counted (tk\<lparr>tkPoint := pt\<rparr>) \<longleftrightarrow> pt = Counted \<or> pt = Worked \<or> pt = Left"
  by (auto simp: running_def counted_def)

lemma set_update_bound:
  "\<lbrakk>\<forall>tk \<in> set tks. P tk; P tk'\<rbrakk> \<Longrightarrow> \<forall>tk \<in> set (tks[k := tk']). P tk"
  using set_update_subset_insert [of tks k tk'] by auto

lemma pool_ok_DoTask:
  assumes ok: "pool_ok pl" and e: "pexec pl (DoTask i arg) = Some pl'"
  shows "pool_ok pl' \<and> parMax (plPar pl') = parMax (plPar pl)"
proof -
  let ?tk = "\<lparr>tkWorker = i, tkArg = arg, tkPoint = Entered\<rparr>"
  obtain wk where i: "i < length (plWorkers pl)" and wk: "taskEnter (plWorkers pl ! i) = Some wk"
    and pl': "pl' = pl\<lparr>plWorkers := (plWorkers pl)[i := wk], plTasks := plTasks pl @ [?tk]\<rparr>"
    using e by (auto split: if_splits option.splits)
  have "worker_ok (plTasks pl @ [?tk]) j ((plWorkers pl)[i := wk] ! j)" if j: "j < length (plWorkers pl)" for j
  proof (cases "j = i")
    case True
    have "worker_ok (plTasks pl) i (plWorkers pl ! i)" using ok i by (simp add: pool_ok_def)
    from worker_ok_enter [OF this wk, of ?tk] show ?thesis using True i by simp
  next
    case False
    have "worker_ok (plTasks pl) j (plWorkers pl ! j)" using ok j by (simp add: pool_ok_def)
    from worker_ok_other [OF this, of ?tk] show ?thesis using False by simp
  qed
  with ok i show ?thesis by (auto simp: pool_ok_def pl' counted_def)
qed

lemma workers_leave:
  assumes ok: "pool_ok pl" and k: "k < length (plTasks pl)" and pt: "tkPoint (plTasks pl ! k) = Worked"
    and j: "j < length (plWorkers pl)"
  shows "worker_ok ((plTasks pl)[k := (plTasks pl ! k)\<lparr>tkPoint := Left\<rparr>]) j
    ((plWorkers pl)[tkWorker (plTasks pl ! k) := taskLeave (plWorkers pl ! tkWorker (plTasks pl ! k))] ! j)"
proof -
  let ?tk = "plTasks pl ! k"
  have w: "worker_ok (plTasks pl) j (plWorkers pl ! j)" using ok j by (simp add: pool_ok_def)
  show ?thesis
  proof (cases "j = tkWorker ?tk")
    case True
    have "worker_ok ((plTasks pl)[k := ?tk\<lparr>tkPoint := Left\<rparr>]) j (taskLeave (plWorkers pl ! j))"
      by (rule worker_ok_leave [OF w k]) (use pt True in \<open>auto simp: running_def\<close>)
    then show ?thesis using True j by simp
  next
    case False
    have "worker_ok ((plTasks pl)[k := ?tk\<lparr>tkPoint := Left\<rparr>]) j (plWorkers pl ! j)"
      by (rule worker_ok_update [OF w k]) (use False in auto)
    then show ?thesis using False by simp
  qed
qed

lemma pool_ok_Proceed:
  assumes ok: "pool_ok pl" and e: "pexec pl (Proceed k) = Some pl'"
  shows "pool_ok pl' \<and> parMax (plPar pl') = max (parMax (plPar pl)) (parNow (plPar pl'))"
proof -
  let ?tk = "plTasks pl ! k"
  let ?i = "tkWorker ?tk"
  have k: "k < length (plTasks pl)" and p: "proceed pl k ?tk = Some pl'" using e by (auto split: if_splits)
  have i: "?i < length (plWorkers pl)" using ok k by (simp add: pool_ok_def)
  have w: "worker_ok (plTasks pl) j (plWorkers pl ! j)" if "j < length (plWorkers pl)" for j
    using ok that by (simp add: pool_ok_def)
  have b: "\<forall>tk \<in> set ((plTasks pl)[k := ?tk\<lparr>tkPoint := pt\<rparr>]). tkWorker tk < length (plWorkers pl)" for pt
    by (rule set_update_bound) (use ok i in \<open>auto simp: pool_ok_def\<close>)
  have n: "parNow (plPar pl) = countIf counted (plTasks pl)" "parNow (plPar pl) \<le> parMax (plPar pl)"
    using ok by (auto simp: pool_ok_def)
  show ?thesis
  proof (cases "tkPoint ?tk")
    case Entered
    then have "worker_ok ((plTasks pl)[k := ?tk\<lparr>tkPoint := Counted\<rparr>]) j (plWorkers pl ! j)"
      if "j < length (plWorkers pl)" for j by (intro worker_ok_update [OF w [OF that] k]) (auto simp: running_def)
    with Entered b n k p show ?thesis
      by (auto simp: pool_ok_def countIf_update counted_def taskCount_def Let_def)
  next
    case Counted
    then have "worker_ok ((plTasks pl)[k := ?tk\<lparr>tkPoint := Worked\<rparr>]) j (plWorkers pl ! j)"
      if "j < length (plWorkers pl)" for j by (intro worker_ok_update [OF w [OF that] k]) (auto simp: running_def)
    with Counted b n k p show ?thesis by (auto simp: pool_ok_def countIf_update counted_def)
  next
    case Worked
    note workers_leave [OF ok k Worked]
    with Worked b n k p show ?thesis by (auto simp: pool_ok_def countIf_update counted_def Let_def)
  next
    case Left
    then have "worker_ok ((plTasks pl)[k := ?tk\<lparr>tkPoint := Finished\<rparr>]) j (plWorkers pl ! j)"
      if "j < length (plWorkers pl)" for j by (intro worker_ok_update [OF w [OF that] k]) (auto simp: running_def)
    with Left b n k p show ?thesis by (auto simp: pool_ok_def countIf_update counted_def taskUncount_def)
  next
    case Finished
    with p show ?thesis by simp
  qed
qed

lemma pexec_ok:
  assumes "pool_ok pl" "pexec pl e = Some pl'"
  shows "pool_ok pl' \<and> parMax (plPar pl') = max (parMax (plPar pl)) (parNow (plPar pl'))"
proof (cases e)
  case (DoTask i arg)
  then have "pool_ok pl' \<and> parMax (plPar pl') = parMax (plPar pl)" using pool_ok_DoTask assms by blast
  then show ?thesis by (simp add: pool_ok_def)
next
  case (Proceed k)
  then show ?thesis using pool_ok_Proceed assms by blast
qed

lemma prun_ok:
  "prun pl es = Some pls \<Longrightarrow> pool_ok pl \<Longrightarrow>
   pls \<noteq> [] \<and> (\<forall>p \<in> set pls. pool_ok p) \<and>
   parMax (plPar (last pls)) = max (parMax (plPar pl)) (Max ((\<lambda>p. parNow (plPar p)) ` set pls))"
proof (induction es arbitrary: pl pls)
  case Nil
  then show ?case by (auto simp: pool_ok_def)
next
  case (Cons e es)
  then obtain pl1 pls1 where e: "pexec pl e = Some pl1" and r: "prun pl1 es = Some pls1" and pls: "pls = pl # pls1"
    by (auto split: option.splits)
  note s = pexec_ok [OF Cons.prems(2) e]
  with Cons.IH [OF r] have ih: "pls1 \<noteq> []" "\<forall>p \<in> set pls1. pool_ok p"
    "parMax (plPar (last pls1)) = max (parMax (plPar pl1)) (Max ((\<lambda>p. parNow (plPar p)) ` set pls1))" by auto
  have "pl1 \<in> set pls1" using r by (cases es) (auto split: option.splits)
  then have "parNow (plPar pl1) \<le> Max ((\<lambda>p. parNow (plPar p)) ` set pls1)" by simp
  with s ih pls Cons.prems(2) show ?case by (auto simp: pool_ok_def)
qed

text \<open>
  In every interleaving of calls of \<^verbatim>\<open>DoTask\<close> on workers that share their parallelism, a worker never runs two tasks at
  once without \<^verbatim>\<open>log.Fatal\<close> having ended the program, its count of tasks is the number of its calls, and the
  recorded maximum is the largest number of tasks that were between their two counts at the same time.
\<close>

theorem parallelism_is_counted:
  assumes "prun (newPool ws fs) es = Some pls"
    and "\<forall>wk \<in> set ws. wkConcurrent wk = 0 \<and> nTasks wk = 0"
  shows "parMax (plPar (last pls)) = Max ((\<lambda>pl. countIf counted (plTasks pl)) ` set pls)"
    and "\<lbrakk>pl \<in> set pls; i < length (plWorkers pl)\<rbrakk> \<Longrightarrow>
      countIf (\<lambda>tk. tkWorker tk = i \<and> running tk) (plTasks pl) \<le> 1 \<and>
      nTasks (plWorkers pl ! i) = countIf (\<lambda>tk. tkWorker tk = i) (plTasks pl)"
proof -
  note r = prun_ok [OF assms(1) newPool_ok [OF assms(2)]]
  {
    assume "pl \<in> set pls" "i < length (plWorkers pl)"
    then have "worker_ok (plTasks pl) i (plWorkers pl ! i)" using r by (auto simp: pool_ok_def)
    then show "countIf (\<lambda>tk. tkWorker tk = i \<and> running tk) (plTasks pl) \<le> 1 \<and>
        nTasks (plWorkers pl ! i) = countIf (\<lambda>tk. tkWorker tk = i) (plTasks pl)"
      by (simp add: worker_ok_def)
  }
  have "(\<lambda>p. parNow (plPar p)) ` set pls = (\<lambda>pl. countIf counted (plTasks pl)) ` set pls"
    using r by (intro image_cong) (auto simp: pool_ok_def)
  moreover have "newPool ws fs \<in> set pls" using assms(1) by (cases es) (auto split: option.splits)
  then have "0 \<le> Max ((\<lambda>p. parNow (plPar p)) ` set pls)"
    by (intro Max_ge_iff [THEN iffD2]) (auto simp: newPool_def intro!: bexI [of _ "newPool ws fs"])
  moreover have "parMax (plPar (newPool ws fs)) = 0" by (simp add: newPool_def)
  ultimately show "parMax (plPar (last pls)) = Max ((\<lambda>pl. countIf counted (plTasks pl)) ` set pls)" using r by simp
qed

section \<open>The loop of a worker\<close>

text \<open>
  Where the loop of \<^verbatim>\<open>RunWorker\<close> is, and how many connections it has served.  Between the steps of the loop a
  Shutdown call, which came on one of the connections, may run.
\<close>

datatype loop = Checking | Accepting | Stopped

record server =
  svWorker :: Worker
  svLoop :: loop
  svServed :: nat

datatype serving = Check | Accept bool | ShutdownCall

fun serve :: "server \<Rightarrow> serving \<Rightarrow> server option" where
  "serve sv Check =
     (if svLoop sv = Checking
      then Some (sv\<lparr>svLoop := (if nRPC (svWorker sv) = 0 then Stopped else Accepting)\<rparr>)
      else None)"
| "serve sv (Accept ok) =
     (if svLoop sv = Accepting
      then Some (if ok then sv\<lparr>svWorker := (svWorker sv)\<lparr>nRPC := nRPC (svWorker sv) - 1\<rparr>, svLoop := Checking,
                          svServed := svServed sv + 1\<rparr>
                 else sv\<lparr>svLoop := Stopped\<rparr>)
      else None)"
| "serve sv ShutdownCall = Some (sv\<lparr>svWorker := fst (workerShutdown (svWorker sv))\<rparr>)"

fun serves_all :: "server \<Rightarrow> serving list \<Rightarrow> server option" where
  "serves_all sv [] = Some sv"
| "serves_all sv (e # es) = (case serve sv e of None \<Rightarrow> None | Some sv' \<Rightarrow> serves_all sv' es)"

definition RunWorker :: "Worker \<Rightarrow> server" where
  "RunWorker wk = \<lparr>svWorker = wk, svLoop = Checking, svServed = 0\<rparr>"

text \<open>Without a Shutdown call and without errors the worker serves as many connections as it was told, and stops.\<close>

lemma serves_bounded:
  "\<lbrakk>serves_all sv es = Some sv'; ShutdownCall \<notin> set es; 0 \<le> nRPC (svWorker sv);
    svLoop sv = Accepting \<Longrightarrow> 0 < nRPC (svWorker sv)\<rbrakk> \<Longrightarrow>
   0 \<le> nRPC (svWorker sv') \<and>
   int (svServed sv') + nRPC (svWorker sv') = int (svServed sv) + nRPC (svWorker sv) \<and>
   (svLoop sv \<noteq> Stopped \<and> Accept False \<notin> set es \<and> svLoop sv' = Stopped \<longrightarrow> nRPC (svWorker sv') = 0)"
proof (induction es arbitrary: sv)
  case (Cons e es)
  then obtain sv1 where e: "serve sv e = Some sv1" and r: "serves_all sv1 es = Some sv'" by (auto split: option.splits)
  have stay: "svLoop sv1 = Stopped \<Longrightarrow> ShutdownCall \<notin> set es \<Longrightarrow> sv' = sv1"
    using r by (cases es; cases "hd es") (auto split: option.splits if_splits)
  show ?case
    using Cons.prems(2,3,4) e stay Cons.IH [OF r]
    by (cases e) (auto split: if_splits)
qed simp

theorem worker_quits_after_nRPC:
  assumes "serves_all (RunWorker wk) es = Some sv" and "ShutdownCall \<notin> set es" and "0 \<le> nRPC wk"
  shows "int (svServed sv) \<le> nRPC wk \<and>
    (Accept False \<notin> set es \<and> svLoop sv = Stopped \<longrightarrow> int (svServed sv) = nRPC wk)"
  using serves_bounded [OF assms(1,2)] assms(3) by (auto simp: RunWorker_def)

text \<open>
  After a Shutdown call a worker that is waiting still accepts one more connection before it stops: with no
  further connection and no error it never leaves its loop.
\<close>

lemma after_shutdown_waits:
  "\<lbrakk>serves_all sv es = Some sv'; set es \<subseteq> {Check, ShutdownCall}; nRPC (svWorker sv) = 1; svLoop sv \<noteq> Stopped\<rbrakk> \<Longrightarrow>
   svLoop sv' \<noteq> Stopped"
proof (induction es arbitrary: sv)
  case (Cons e es)
  then obtain sv1 where e: "serve sv e = Some sv1" and r: "serves_all sv1 es = Some sv'" by (auto split: option.splits)
  have "nRPC (svWorker sv1) = 1" "svLoop sv1 \<noteq> Stopped"
    using e Cons.prems by (auto simp: workerShutdown_def split: if_splits)
  with Cons.IH [OF r] Cons.prems(2) show ?case by auto
qed simp

theorem shutdown_does_not_stop_worker:
  assumes "serves_all sv (ShutdownCall # es) = Some sv'" and "set es \<subseteq> {Check, ShutdownCall}" and "svLoop sv \<noteq> Stopped"
  shows "svLoop sv' \<noteq> Stopped"
  using assms after_shutdown_waits [of "sv\<lparr>svWorker := fst (workerShutdown (svWorker sv))\<rparr>" es sv']
  by (simp add: workerShutdown_def)

end
