(* ===== verification/Spec2Isabelle.thy ===== *)
theory Spec2Isabelle
  imports Raft_Types Raft_Examples KV_Handlers KV_Client Lin_Locality Lab_RPC_Examples
    Tester_Boot Tester_Watch Tester_Leader KV_Partition Shard_Clerk MR_Worker
begin

text \<open>
  A verification development for \<^verbatim>\<open>raftKVDB\<close>, a replicated key/value store in Go: a Raft library
  (\<^verbatim>\<open>src/raft\<close>), a key/value service on top of it (\<^verbatim>\<open>src/kvraft\<close>), the simulated network and the
  checked encoder they talk through (\<^verbatim>\<open>src/labrpc\<close>, \<^verbatim>\<open>src/labgob\<close>), the checker that the tests
  judge the histories of the service with (\<^verbatim>\<open>src/linearizability\<close>), the testers that build clusters on
  the network and watch them (\<^verbatim>\<open>config.go\<close>), and the skeletons of a sharded service
  (\<^verbatim>\<open>src/shardmaster\<close>, \<^verbatim>\<open>src/shardkv\<close>) and of MapReduce (\<^verbatim>\<open>src/mapreduce\<close>).

  \<^bold>\<open>How the parts interact.\<close>  A clerk of \<^verbatim>\<open>kvraft/client.go\<close> sends \<^verbatim>\<open>Get\<close> and \<^verbatim>\<open>PutAppend\<close> to one
  server after the other.  A server that leads hands the operation to \<^verbatim>\<open>Raft.Start\<close> and waits on
  a channel for the index of the entry; Raft replicates the entry with \<^verbatim>\<open>AppendEntries\<close> or, when
  the follower is behind the log, \<^verbatim>\<open>InstallSnapShot\<close>, and its apply daemon hands committed entries
  and snapshots to the server, which applies each operation once and wakes the waiting handler.
  All calls between machines are values that \<^verbatim>\<open>labgob\<close> encodes and \<^verbatim>\<open>labrpc\<close> carries, delays,
  reorders or loses.

  \<^bold>\<open>Conventions.\<close>  Go panics are \<open>None\<close> (or \<open>Panics\<close> in the type \<open>outcome\<close>, whose \<open>Blocks\<close> is a
  goroutine that waits for ever).  Slice reads and writes are \<open>slice_get\<close> and \<open>slice_set\<close> of
  \<open>Go_Prelude\<close>, which fail out of range.  A method that holds its mutex is one function from
  state to state; a method that releases it in between is one function per critical section.
  \<^verbatim>\<open>int\<close> is \<open>int\<close>: terms, indices and counters grow by one at a time and stay far below
  $2^{63}$; words of the bit sets and hashes, which do wrap around, are \<open>64 word\<close>.  Random choices and
  the order in which goroutines run are arguments of the functions or steps.

  \<^bold>\<open>Raft.\<close>
  \<^item> \<open>Raft_State\<close>: \<^verbatim>\<open>persister.go\<close>, the record of \<^verbatim>\<open>raft.go\<close>, its encoding (over the interface
    \<open>gob_codec\<close> of \<open>Gob_Codec\<close>) and \<^verbatim>\<open>Make\<close>.
  \<^item> \<open>Raft_RPC\<close>: the handlers \<^verbatim>\<open>RequestVote\<close>, \<^verbatim>\<open>AppendEntries\<close>, \<^verbatim>\<open>InstallSnapShot\<close>.
  \<^item> \<open>Raft_Leader\<close>: elections and replication as the caller sees them: \<^verbatim>\<open>broadCastVote\<close>,
    \<^verbatim>\<open>checkConsistency\<close>, the processing of the replies, \<^verbatim>\<open>Start\<close>, \<^verbatim>\<open>Compact\<close>, the apply daemon.
  \<^item> \<open>Raft_Peer\<close>: the well-formedness of a peer (the log starts at the snapshot index and is
    numbered without gaps, what is persisted is what is in memory) and that every operation keeps
    it and does not panic.
  \<^item> \<open>Raft_Replication\<close>, \<open>Raft_Snapshot\<close>: what the operations do to the log, on every branch.
  \<^item> \<open>Raft_Cluster\<close>: any number of peers and the calls between them as a step relation; a call may
    be lost before or after its handler runs, answered late or never, and a peer may be made again
    from its persister at any time between two critical sections.  \<open>Raft_Exec\<close> is the executable
    form, with which the examples are computed.
  \<^item> \<open>Raft_Election\<close>, \<open>Raft_Steps\<close>, \<open>Raft_Safety\<close>: the invariants of a cluster by induction over its
    executions: votes are final, at most one leader per term, requests of a term come from its leader.
  \<^item> \<open>Raft_Logs\<close>, \<open>Raft_Core\<close>, \<open>Raft_Core_Steps\<close>: the argument for the safety of Raft away from the
    code.  A ghost records, per term, the log its leader was elected with, the log it has now and
    what peers acknowledged; a chosen entry is in the log of every later leader
    (\<open>leader_complete\<close>).
  \<^item> \<open>Raft_Full\<close>, \<open>Raft_Matching\<close>, \<open>Raft_Log_Matching\<close>: the peers of the code simulate that argument.
    A peer represents a whole log of which its snapshot hides a prefix, and every critical section
    moves it as a step of \<open>Raft_Core_Steps\<close>; this gives log matching in every reachable state.
  \<^item> \<open>Raft_Commit\<close>, \<open>Raft_Commit_Steps\<close>, \<open>Raft_Agreement\<close>: what is committed, applied, compacted or in
    flight as committed is chosen, hence state machine safety, for executions in which
    \<^verbatim>\<open>nextIndex\<close> stays within one of the leader's log (\<open>kept\<close>).
  \<^item> \<open>Raft_Plain\<close>, \<open>Raft_Runs\<close>: the condition holds without snapshots, where also no critical
    section panics.  With snapshots it does not: \<open>snapshots_break_safety\<close> is an execution with one
    compaction in which two services apply different commands at one index, and
    \<open>snapshots_make_leader_panic\<close> one in which the leader reads its log out of range.
  \<^item> \<open>Raft_Validity\<close>: what a service is handed was submitted before, in every execution.
  \<^item> \<open>Raft_Types\<close>: the shape of the state and of the calls in every reachable state.
  \<^item> \<open>Raft_Examples\<close>: concrete peers and clusters.

  \<^bold>\<open>The testers.\<close>
  \<^item> \<open>Tester_Net\<close>: \<^verbatim>\<open>raft/config.go\<close>: the servers, their ends on the network of \<open>Lab_RPC\<close>, crashing and
    starting a server.  \<open>Tester_Wiring\<close>, \<open>Tester_Restart\<close> and \<open>Tester_Boot\<close> show that through
    all of it an end is enabled exactly when both its servers are connected.
  \<^item> \<open>Tester_Checks\<close>: the readers of the apply channels and the checks of a test.  A check looks at
    the servers while they run on, so its argument gives the tester as it is at each look.
  \<^item> \<open>Tester_Watch\<close>: the readers beside a running cluster: the safety of Raft means that the tester
    never reports an error.  \<open>Tester_Leader\<close>: election safety means that \<^verbatim>\<open>checkOneLeader\<close> never sees two
    leaders of a term although its looks are spread over time.
  \<^item> \<open>KV_Tester\<close>, \<open>KV_Partition\<close>: \<^verbatim>\<open>kvraft/config.go\<close> and what its partitions do to the network; the model
    takes the type of the server as a parameter.

  \<^bold>\<open>Key/value service.\<close>
  \<^item> \<open>KV_Server\<close>: \<^verbatim>\<open>server.go\<close>: the handlers, cut where they release the mutex or wait, the
    application of messages, snapshots.
  \<^item> \<open>KV_Machine\<close>: the server as a state machine over the delivered messages, against the
    specification that every command takes effect once; snapshots stand for the log they replace.
  \<^item> \<open>KV_Handlers\<close>: the calls of \<^verbatim>\<open>Get\<close> and \<^verbatim>\<open>PutAppend\<close> from arrival to reply and the apply loop, interleaved:
    what success means, whether the operation was entered or the duplicate table answered.
  \<^item> \<open>KV_Client\<close>: the loops of the clerk; they are partial functions that need not end, and the
    liveness property says when they do.

  \<^bold>\<open>Sharded service and MapReduce.\<close>
  \<^item> \<open>Shard_Clerk\<close>: the clerks of \<^verbatim>\<open>shardmaster\<close> and \<^verbatim>\<open>shardkv\<close>, with the handlers as empty as they are: no
    index out of range, answers from the right group, when \<^verbatim>\<open>Get\<close> returns, and that it does not with the
    handlers of this repository.
  \<^item> \<open>MR_Files\<close>: the names of the files of a job, the merge of its results and the clean-up; \<open>MR_Jobs\<close>: the
    master and the forwarding of registrations; \<open>MR_Worker\<close>: the tasks and the loop of a worker.

  \<^bold>\<open>Network and encoding.\<close>
  \<^item> \<open>Lab_Gob\<close>, \<open>Lab_Gob_Carry\<close>: \<^verbatim>\<open>labgob.go\<close> over types and values of Go as far as
    \<^verbatim>\<open>encoding/gob\<close> carries them; the type check takes fuel, and \<open>check_type_reports_once\<close> says
    that the number of types suffices.
  \<^item> \<open>Lab_RPC\<close>: \<^verbatim>\<open>labrpc.go\<close>: the network state, its operations and the threads of
    \<^verbatim>\<open>processReq\<close>.  \<open>Lab_RPC_Facts\<close> has the invariants of every execution and the transparency of a
    call, \<open>Lab_RPC_Examples\<close> the examples.

  \<^bold>\<open>Linearizability checker.\<close>
  \<^item> \<open>Lin_Bitset\<close>: \<^verbatim>\<open>bitset.go\<close> on 64-bit words; \<open>Lin_Check\<close>: \<^verbatim>\<open>linearizability.go\<close>,
    \<^verbatim>\<open>model.go\<close> and \<^verbatim>\<open>models.go\<close>, with the linked list of entries as an explicit heap of nodes.
  \<^item> \<open>Lin_List\<close>: \<^verbatim>\<open>lift\<close> and \<^verbatim>\<open>unlift\<close> on the list; \<open>Lin_Search\<close>, \<open>Lin_Run\<close>: the invariant of the
    search, that it ends, and that a configuration in the cache need not be tried again.
  \<^item> \<open>Lin_Link\<close>, \<open>Lin_Single\<close>, \<open>Lin_Verdict\<close>: the list made of entries, and the verdict of
    \<^verbatim>\<open>checkSingle\<close> as the existence of a legal order.
  \<^item> \<open>Lin_Operations\<close>, \<open>Lin_Locality\<close>: the verdict of \<^verbatim>\<open>CheckOperations\<close> on operations, with and
    without the split by key.  The definition of linearizability, \<open>linearizableOps\<close>, mentions
    neither entries nor the search.

  \<^bold>\<open>Not modelled.\<close>  Timers and random timeouts: a timeout may fire at any moment and a daemon may
  run its section at any moment, which covers every timing.  The wake-up channels of the daemons.
  A crash in the middle of a critical section, in particular between the start of the vote
  requests and \<^verbatim>\<open>persistState\<close> in \<^verbatim>\<open>broadCastVote\<close>.  The byte sizes that decide when a snapshot is
  taken: a server may take one at any message.  The clock of the tests: the rounds of a check are
  arguments.  \<^verbatim>\<open>shardmaster/config.go\<close> repeats \<^verbatim>\<open>kvraft/config.go\<close> for another type of server, and
  \<^verbatim>\<open>shardkv/config.go\<close> sets up groups of servers whose handlers are empty.  The sockets of \<^verbatim>\<open>src/mapreduce\<close>,
  whose map, reduce and schedule functions are empty: what a call gives is a parameter.
  \<^verbatim>\<open>src/main\<close> calls packages that are not in the repository.
\<close>

end
